(* ===== verification/Prelude.thy ===== *)
theory Prelude
  imports
    Main
    "HOL-Library.Word"
    "HOL-Library.List_Lexorder"
    "HOL-Library.Option_ord"
    "HOL-Library.Product_Lexorder"
    "HOL-Library.Multiset"
begin

text \<open>
  Shared vocabulary of the development: the machine types of the Rust sources, Rust's three-way
  \<open>Ordering\<close>, the standard-library routines that several crates use (\<open>sort_by\<close>, \<open>dedup_by\<close>,
  \<open>BTreeMap\<close>), and the generic lemmas about them.

  Integers.  A Rust \<open>i64\<close>, \<open>i32\<close>, \<open>u32\<close>, \<open>u64\<close> or \<open>usize\<close> that the code only stores and
  compares is an \<open>int\<close> or a \<open>nat\<close>, because comparison does not depend on the width; the sentinels
  (\<open>i64::MIN\<close>, \<open>i32::MAX\<close>, \<open>u32::MAX\<close>) are constants.  Where the code computes with such a value the
  width is written out: \<open>wrap_i64\<close> is two's-complement wrap-around, and bit manipulation is done on
  \<open>'n word\<close>.  A byte is an \<open>8 word\<close>, and a byte vector is a list of them, ordered lexicographically as
  Rust orders slices.

  Interfaces.  \<open>total_cmp\<close> is the contract of a three-way comparison that is a total order;
  \<open>join_semilattice\<close> is the contract of a merge that replicas may apply in any order and any number
  of times, whose consequence \<open>order_independent\<close> is convergence.
\<close>

section \<open>Machine types\<close>

type_synonym u8 = "8 word"
type_synonym u16 = "16 word"
type_synonym u32 = nat
type_synonym u64 = nat
type_synonym usize = nat
type_synonym i32 = int
type_synonym i64 = int
type_synonym bytes = "8 word list"

definition i64_MIN :: i64 where "i64_MIN = - (2 ^ 63)"
definition i64_MAX :: i64 where "i64_MAX = 2 ^ 63 - 1"
definition i32_MIN :: i32 where "i32_MIN = - (2 ^ 31)"
definition i32_MAX :: i32 where "i32_MAX = 2 ^ 31 - 1"
definition u32_MAX :: u32 where "u32_MAX = 2 ^ 32 - 1"
definition u64_MAX :: u64 where "u64_MAX = 2 ^ 64 - 1"

definition is_i64 :: "int \<Rightarrow> bool" where
  "is_i64 x \<longleftrightarrow> i64_MIN \<le> x \<and> x \<le> i64_MAX"

text \<open>Two's-complement wrap-around of a mathematical integer to 64 bits.\<close>

definition wrap_i64 :: "int \<Rightarrow> i64" where
  "wrap_i64 x = signed_take_bit 63 x"

named_theorems machine_consts

lemmas [machine_consts] = i64_MIN_def i64_MAX_def i32_MIN_def i32_MAX_def u32_MAX_def u64_MAX_def

lemma wrap_i64_range: "is_i64 (wrap_i64 x)"
  using signed_take_bit_int_greater_eq_minus_exp [of 63 x]
    signed_take_bit_int_less_exp [of 63 x]
  by (simp add: is_i64_def wrap_i64_def machine_consts)

lemma wrap_i64_id [simp]: "is_i64 x \<Longrightarrow> wrap_i64 x = x"
  by (simp add: is_i64_def wrap_i64_def machine_consts signed_take_bit_int_eq_self)

lemma wrap_i64_wrap [simp]: "wrap_i64 (wrap_i64 x) = wrap_i64 x"
  by (simp add: wrap_i64_def)

lemma wrap_i64_add: "wrap_i64 (wrap_i64 x + wrap_i64 y) = wrap_i64 (x + y)"
  by (simp add: wrap_i64_def signed_take_bit_add)

lemma wrap_i64_add_left [simp]: "wrap_i64 (wrap_i64 x + y) = wrap_i64 (x + y)"
  using wrap_i64_add [of "wrap_i64 x" y] wrap_i64_add [of x y] by simp

lemma wrap_i64_add_right [simp]: "wrap_i64 (x + wrap_i64 y) = wrap_i64 (x + y)"
  using wrap_i64_add_left [of y x] by (simp add: add.commute)

lemma wrap_i64_0 [simp]: "wrap_i64 0 = 0"
  by (simp add: wrap_i64_def)

lemma wrap_i64_sum: "wrap_i64 (\<Sum>x\<in>A. wrap_i64 (f x)) = wrap_i64 (\<Sum>x\<in>A. f x)"
proof (induction A rule: infinite_finite_induct)
  case (insert x A)
  have "wrap_i64 (f x + (\<Sum>x\<in>A. wrap_i64 (f x))) = wrap_i64 (f x + wrap_i64 (\<Sum>x\<in>A. wrap_i64 (f x)))"
    by simp
  also have "\<dots> = wrap_i64 (f x + (\<Sum>x\<in>A. f x))"
    by (simp only: insert.IH wrap_i64_add_right)
  finally show ?case using insert by simp
qed simp_all

section \<open>Three-way comparison\<close>

text \<open>Rust's \<open>std::cmp::Ordering\<close> with \<open>then_with\<close>, and \<open>Ord::cmp\<close> of a linearly ordered type.\<close>

datatype ordering = Less | Equal | Greater

definition cmp :: "'a::linorder \<Rightarrow> 'a \<Rightarrow> ordering" where
  "cmp a b = (if a < b then Less else if a = b then Equal else Greater)"

fun then_with :: "ordering \<Rightarrow> ordering \<Rightarrow> ordering" where
  "then_with Equal r = r"
| "then_with Less r = Less"
| "then_with Greater r = Greater"

definition is_gt :: "ordering \<Rightarrow> bool" where
  "is_gt r \<longleftrightarrow> r = Greater"

text \<open>The element a comparison prefers: \<open>if compare(a, b).is_gt() { a } else { b }\<close>.\<close>

definition winner :: "('a \<Rightarrow> 'a \<Rightarrow> ordering) \<Rightarrow> 'a \<Rightarrow> 'a \<Rightarrow> 'a" where
  "winner compare a b = (if is_gt (compare a b) then a else b)"

lemma cmp_simps [simp]:
  "cmp a b = Less \<longleftrightarrow> a < b"
  "cmp a b = Equal \<longleftrightarrow> a = b"
  "cmp a b = Greater \<longleftrightarrow> b < a"
  by (auto simp: cmp_def)

text \<open>Comparing tuples lexicographically is chaining the component comparisons.\<close>

lemma cmp_prod: "cmp (a, b) (c, d) = then_with (cmp a c) (cmp b d)"
  by (auto simp: cmp_def)

lemma cmp_same [simp]: "cmp a a = Equal"
  by simp

locale total_cmp =
  fixes compare :: "'a \<Rightarrow> 'a \<Rightarrow> ordering"
  assumes compare_eq: "compare a b = Equal \<longleftrightarrow> a = b"
    and compare_sym: "compare a b = Less \<longleftrightarrow> compare b a = Greater"
    and compare_trans: "compare a b = Less \<Longrightarrow> compare b c = Less \<Longrightarrow> compare a c = Less"
begin

lemma compare_cases: "compare a b = Less \<or> a = b \<or> compare b a = Less"
  by (metis compare_eq compare_sym ordering.exhaust)

lemma winner_cases: "winner compare a b = (if compare b a = Less then a else b)"
  by (simp add: winner_def is_gt_def compare_sym)

lemma winner_idem: "winner compare a a = a"
  by (simp add: winner_def)

lemma winner_commute: "winner compare a b = winner compare b a"
  using compare_cases [of a b] compare_eq [of a b] compare_sym [of a b] compare_sym [of b a]
  by (auto simp: winner_def is_gt_def)

lemma winner_assoc:
  "winner compare (winner compare a b) c = winner compare a (winner compare b c)"
  using compare_trans [of a b c] compare_trans [of c b a] compare_trans [of b a c]
    compare_trans [of c a b] compare_trans [of a c b] compare_trans [of b c a]
    compare_cases [of a b] compare_cases [of b c] compare_cases [of a c]
  by (auto simp: winner_cases split: if_splits)

lemma winner_in: "winner compare a b \<in> {a, b}"
  by (simp add: winner_def)

lemma winner_upper: "\<not> is_gt (compare a (winner compare a b))"
  "\<not> is_gt (compare b (winner compare a b))"
  using compare_eq [of a a] compare_eq [of b b] compare_sym [of b a]
  by (auto simp: winner_def is_gt_def)

end

text \<open>A comparison that compares an injective key of a linear order is total.\<close>

lemma total_cmp_key:
  assumes "\<And>a b. compare a b = cmp (key a) (key b)"
    and "\<And>a b. key a = key b \<Longrightarrow> a = b"
  shows "total_cmp compare"
  by unfold_locales (auto simp: assms)

section \<open>Conflict resolution and mergeable replica state\<close>

text \<open>
  A conflict-resolution function is a join when replicas may apply it in any order and any number
  of times.  \<open>valid\<close> restricts the values on which that holds (the counter shards of one node, for
  instance, must agree on the count at a clock).
\<close>

locale join_semilattice =
  fixes valid :: "'a set \<Rightarrow> bool"
    and join :: "'a \<Rightarrow> 'a \<Rightarrow> 'a"
  assumes valid_mono: "valid A \<Longrightarrow> B \<subseteq> A \<Longrightarrow> valid B"
    and valid_join: "valid A \<Longrightarrow> a \<in> A \<Longrightarrow> b \<in> A \<Longrightarrow> valid (insert (join a b) A)"
    and join_idem: "valid {a} \<Longrightarrow> join a a = a"
    and join_commute: "valid {a, b} \<Longrightarrow> join a b = join b a"
    and join_assoc: "valid {a, b, c} \<Longrightarrow> join (join a b) c = join a (join b c)"
begin

lemma valid_foldl:
  "valid A \<Longrightarrow> x \<in> A \<Longrightarrow> set xs \<subseteq> A \<Longrightarrow> valid (insert (foldl join x xs) A)"
proof (induction xs arbitrary: x A)
  case Nil
  then show ?case by (simp add: insert_absorb)
next
  case (Cons y ys)
  then have "valid (insert (join x y) A)" by (auto intro: valid_join)
  then have "valid (insert (foldl join (join x y) ys) (insert (join x y) A))"
    using Cons.prems by (intro Cons.IH) auto
  then show ?case by (auto elim: valid_mono)
qed

lemma valid_foldl2:
  assumes "valid A" "x \<in> A" "set xs \<subseteq> A" "y \<in> A" "set ys \<subseteq> A" "z \<in> A"
  shows "valid {foldl join x xs, foldl join y ys, z}"
proof -
  have "valid (insert (foldl join x xs) A)" using assms by (simp add: valid_foldl)
  then have "valid (insert (foldl join y ys) (insert (foldl join x xs) A))"
    using assms by (intro valid_foldl) auto
  then show ?thesis using assms by (auto elim: valid_mono)
qed

lemma foldl_absorb:
  "valid A \<Longrightarrow> x \<in> A \<Longrightarrow> set xs \<subseteq> A \<Longrightarrow> y \<in> insert x (set xs) \<Longrightarrow>
   join (foldl join x xs) y = foldl join x xs"
proof (induction xs rule: rev_induct)
  case Nil
  then show ?case by (auto intro: join_idem elim: valid_mono)
next
  case (snoc z zs)
  let ?F = "foldl join x zs"
  have yA: "y \<in> A" and zA: "z \<in> A" using snoc.prems by auto
  have v: "valid (insert ?F A)" using snoc.prems by (auto intro: valid_foldl)
  have vz: "valid {?F, z, y}" "valid {z, y}" "valid {z}" "valid {?F, y, z}" "valid {?F, z, z}"
    using v yA zA by (auto elim!: valid_mono)
  have assoc: "join (join ?F z) y = join ?F (join z y)" using vz by (intro join_assoc)
  show ?case
  proof (cases "y = z")
    case True
    then show ?thesis using vz join_assoc [of ?F z z] join_idem [of z] by simp
  next
    case False
    then have "join ?F y = ?F" using snoc by auto
    moreover have "join (join ?F y) z = join ?F (join y z)" using vz by (intro join_assoc)
    moreover have "join z y = join y z" using vz by (intro join_commute)
    ultimately show ?thesis using assoc by simp
  qed
qed

lemma foldl_absorb_list:
  "valid A \<Longrightarrow> x \<in> A \<Longrightarrow> set xs \<subseteq> A \<Longrightarrow> insert y (set ys) \<subseteq> insert x (set xs) \<Longrightarrow>
   join (foldl join x xs) (foldl join y ys) = foldl join x xs"
proof (induction ys rule: rev_induct)
  case Nil
  then show ?case by (simp add: foldl_absorb)
next
  case (snoc z zs)
  have "valid {foldl join x xs, foldl join y zs, z}"
    using snoc.prems by (intro valid_foldl2 [of A]) auto
  then have "join (foldl join x xs) (join (foldl join y zs) z)
      = join (join (foldl join x xs) (foldl join y zs)) z"
    by (simp add: join_assoc)
  also have "\<dots> = foldl join x xs"
    using snoc foldl_absorb [of A x xs z] by auto
  finally show ?case by simp
qed

lemma foldl_assoc:
  "valid A \<Longrightarrow> a \<in> A \<Longrightarrow> b \<in> A \<Longrightarrow> set bs \<subseteq> A \<Longrightarrow>
   foldl join (join a b) bs = join a (foldl join b bs)"
proof (induction bs rule: rev_induct)
  case (snoc c bs)
  have "valid {foldl join b bs, a, c}"
    using snoc.prems valid_foldl2 [of A b bs a "[]" c] by simp
  then have "valid {a, foldl join b bs, c}" by (simp add: insert_commute)
  then show ?case using snoc by (simp add: join_assoc)
qed simp

text \<open>Convergence: folding the same set of replica states, in any order and multiplicity, gives the
  same state.\<close>

lemma order_independent:
  assumes "valid (insert x (set xs))" "insert x (set xs) = insert y (set ys)"
  shows "foldl join x xs = foldl join y ys"
proof -
  let ?A = "insert x (set xs)"
  have "valid {foldl join x xs, foldl join y ys, x}"
    using assms by (intro valid_foldl2 [of ?A]) auto
  then have "valid {foldl join x xs, foldl join y ys}"
    by (auto elim: valid_mono)
  then have "join (foldl join x xs) (foldl join y ys) = join (foldl join y ys) (foldl join x xs)"
    by (rule join_commute)
  moreover have "join (foldl join x xs) (foldl join y ys) = foldl join x xs"
    using assms by (intro foldl_absorb_list [of ?A]) auto
  moreover have "join (foldl join y ys) (foldl join x xs) = foldl join y ys"
    using assms by (intro foldl_absorb_list [of ?A]) auto
  ultimately show ?thesis by simp
qed

end

text \<open>A total comparison resolves conflicts: its winner is a join on every set of values.\<close>

sublocale total_cmp \<subseteq> win: join_semilattice "\<lambda>_. True" "winner compare"
  by unfold_locales (rule TrueI winner_idem winner_commute winner_assoc)+

section \<open>Ordered maps\<close>

text \<open>
  A \<open>BTreeMap\<close> is an association list with strictly ascending keys, so that its list is its iteration
  order.  \<open>map_of\<close> is \<open>get\<close>.
\<close>

type_synonym ('k, 'v) btree = "('k \<times> 'v) list"

definition bt_wf :: "('k::linorder, 'v) btree \<Rightarrow> bool" where
  "bt_wf m \<longleftrightarrow> sorted_wrt (<) (map fst m)"

fun bt_insert :: "'k::linorder \<Rightarrow> 'v \<Rightarrow> ('k, 'v) btree \<Rightarrow> ('k, 'v) btree" where
  "bt_insert k v [] = [(k, v)]"
| "bt_insert k v ((k', v') # m) =
     (if k < k' then (k, v) # (k', v') # m
      else if k = k' then (k, v) # m
      else (k', v') # bt_insert k v m)"

definition bt_remove :: "'k \<Rightarrow> ('k, 'v) btree \<Rightarrow> ('k, 'v) btree" where
  "bt_remove k m = filter (\<lambda>(k', _). k' \<noteq> k) m"

lemma bt_wf_Nil [simp]: "bt_wf []"
  by (simp add: bt_wf_def)

lemma bt_wf_Cons [simp]: "bt_wf ((k, v) # m) \<longleftrightarrow> (\<forall>k' \<in> fst ` set m. k < k') \<and> bt_wf m"
  by (simp add: bt_wf_def)

lemma bt_wf_distinct: "bt_wf m \<Longrightarrow> distinct (map fst m)"
  by (simp add: bt_wf_def strict_sorted_iff)

lemma bt_wf_filter: "bt_wf m \<Longrightarrow> bt_wf (filter P m)"
  by (induction m) (auto simp: bt_wf_def)

lemma bt_insert_keys [simp]: "fst ` set (bt_insert k v m) = insert k (fst ` set m)"
  by (induction k v m rule: bt_insert.induct) auto

lemma bt_insert_wf: "bt_wf m \<Longrightarrow> bt_wf (bt_insert k v m)"
  by (induction k v m rule: bt_insert.induct) (auto split: if_splits)

lemma bt_insert_get [simp]: "map_of (bt_insert k v m) = (map_of m)(k \<mapsto> v)"
  by (induction k v m rule: bt_insert.induct) auto

lemma bt_remove_wf: "bt_wf m \<Longrightarrow> bt_wf (bt_remove k m)"
  by (simp add: bt_remove_def bt_wf_filter)

lemma bt_remove_get [simp]: "map_of (bt_remove k m) = (map_of m)(k := None)"
  by (induction m) (auto simp: bt_remove_def)

text \<open>Two ordered maps with the same bindings are the same list.\<close>

lemma bt_ext:
  assumes "bt_wf m" "bt_wf n" "map_of m = map_of n"
  shows "m = n"
proof -
  have d: "distinct (map fst m)" "distinct (map fst n)"
    using assms by (simp_all add: bt_wf_distinct)
  then have eq: "set m = set n" using assms map_of_inject_set by blast
  then have "inj_on fst (set m \<union> set n)" using d by (simp add: distinct_map)
  then show ?thesis
    using assms d eq by (auto simp: bt_wf_def strict_sorted_iff intro: map_sorted_distinct_set_unique)
qed

text \<open>
  Inserting with conflict resolution, and merging one map into another entry by entry in iteration
  order.
\<close>

definition bt_upsert :: "('v \<Rightarrow> 'v \<Rightarrow> 'v) \<Rightarrow> 'k::linorder \<Rightarrow> 'v \<Rightarrow> ('k, 'v) btree \<Rightarrow> ('k, 'v) btree" where
  "bt_upsert join k v m =
     bt_insert k (case map_of m k of None \<Rightarrow> v | Some e \<Rightarrow> join e v) m"

definition bt_merge :: "('v \<Rightarrow> 'v \<Rightarrow> 'v) \<Rightarrow> ('k::linorder, 'v) btree \<Rightarrow> ('k, 'v) btree \<Rightarrow> ('k, 'v) btree" where
  "bt_merge join m n = foldl (\<lambda>acc (k, v). bt_upsert join k v acc) m n"

lemma bt_upsert_wf: "bt_wf m \<Longrightarrow> bt_wf (bt_upsert join k v m)"
  by (simp add: bt_upsert_def bt_insert_wf)

lemma bt_upsert_get:
  "map_of (bt_upsert join k v m) = (map_of m)(k := combine_options join (map_of m k) (Some v))"
  by (auto simp: bt_upsert_def split: option.split)

lemma bt_merge_wf: "bt_wf m \<Longrightarrow> bt_wf (bt_merge join m n)"
  unfolding bt_merge_def by (induction n arbitrary: m) (auto simp: bt_upsert_wf)

lemma bt_merge_get:
  "distinct (map fst n) \<Longrightarrow>
   map_of (bt_merge join m n) k = combine_options join (map_of m k) (map_of n k)"
  unfolding bt_merge_def
proof (induction n arbitrary: m)
  case (Cons kv n)
  obtain k' v where kv: "kv = (k', v)" by (cases kv)
  have "map_of n k' = None" using Cons.prems kv by (simp add: map_of_eq_None_iff)
  with Cons kv show ?case by (auto simp: bt_upsert_get)
qed simp

definition bt_vals :: "('k, 'v) btree set \<Rightarrow> 'k \<Rightarrow> 'v set" where
  "bt_vals S k = {v. \<exists>m \<in> S. map_of m k = Some v}"

lemma bt_vals_mono: "S \<subseteq> T \<Longrightarrow> bt_vals S k \<subseteq> bt_vals T k"
  by (auto simp: bt_vals_def)

text \<open>A replicated map resolves each key's conflict with a join of its values.\<close>

locale replicated_map = join_semilattice valid join
  for valid :: "'a set \<Rightarrow> bool" and join :: "'a \<Rightarrow> 'a \<Rightarrow> 'a"
begin

definition map_valid :: "('b::linorder, 'a) btree set \<Rightarrow> bool" where
  "map_valid S \<longleftrightarrow> (\<forall>m \<in> S. bt_wf m) \<and> (\<forall>k. valid (bt_vals S k))"

lemma map_validD:
  "map_valid S \<Longrightarrow> m \<in> S \<Longrightarrow> bt_wf m"
  "map_valid S \<Longrightarrow> valid (bt_vals S k)"
  by (auto simp: map_valid_def)

lemma map_valid_vals:
  assumes "map_valid S" "\<forall>v \<in> V. \<exists>m \<in> S. map_of m k = Some v"
  shows "valid V"
proof -
  have "V \<subseteq> bt_vals S k" using assms(2) by (auto simp: bt_vals_def)
  then show ?thesis using assms(1) by (blast intro: valid_mono map_validD)
qed

lemma merge_get:
  "map_valid S \<Longrightarrow> n \<in> S \<Longrightarrow>
   map_of (bt_merge join m n) k = combine_options join (map_of m k) (map_of n k)"
  by (simp add: bt_merge_get bt_wf_distinct map_validD)

lemma map_valid_merge:
  assumes "map_valid S" "m \<in> S" "n \<in> S"
  shows "map_valid (insert (bt_merge join m n) S)"
proof -
  have "valid (bt_vals (insert (bt_merge join m n) S) k)" for k
  proof -
    have V: "valid (bt_vals S k)" using assms by (simp add: map_validD)
    consider (none) "combine_options join (map_of m k) (map_of n k) = None"
      | (same) v where "combine_options join (map_of m k) (map_of n k) = Some v" "v \<in> bt_vals S k"
      | (both) a b where "combine_options join (map_of m k) (map_of n k) = Some (join a b)"
          "a \<in> bt_vals S k" "b \<in> bt_vals S k"
      using assms(2,3) by (cases "map_of m k"; cases "map_of n k") (auto simp: bt_vals_def)
    then show ?thesis
    proof cases
      case none
      then have "bt_vals (insert (bt_merge join m n) S) k \<subseteq> bt_vals S k"
        using assms by (auto simp: bt_vals_def merge_get)
      then show ?thesis using V by (blast intro: valid_mono)
    next
      case same
      then have "bt_vals (insert (bt_merge join m n) S) k \<subseteq> bt_vals S k"
        using assms by (auto simp: bt_vals_def merge_get)
      then show ?thesis using V by (blast intro: valid_mono)
    next
      case both
      then have "bt_vals (insert (bt_merge join m n) S) k \<subseteq> insert (join a b) (bt_vals S k)"
        using assms by (auto simp: bt_vals_def merge_get)
      moreover have "valid (insert (join a b) (bt_vals S k))" using V both by (simp add: valid_join)
      ultimately show ?thesis by (blast intro: valid_mono)
    qed
  qed
  then show ?thesis using assms by (auto simp: map_valid_def bt_merge_wf)
qed

lemma merge_idem: "map_valid {m} \<Longrightarrow> bt_merge join m m = m"
proof (rule bt_ext)
  assume v: "map_valid {m}"
  have "combine_options join (map_of m k) (map_of m k) = map_of m k" for k
  proof (cases "map_of m k")
    case (Some a)
    then have "valid {a}" using v by (intro map_valid_vals [of "{m}" "{a}" k]) simp_all
    then show ?thesis by (simp add: Some join_idem)
  qed simp
  then show "map_of (bt_merge join m m) = map_of m"
    using merge_get [OF v] by (simp add: fun_eq_iff)
qed (auto simp: map_valid_def bt_merge_wf)

lemma merge_commute: "map_valid {m, n} \<Longrightarrow> bt_merge join m n = bt_merge join n m"
proof (rule bt_ext)
  assume v: "map_valid {m, n}"
  have "combine_options join (map_of m k) (map_of n k) = combine_options join (map_of n k) (map_of m k)" for k
    using map_valid_vals [OF v, of "{the (map_of m k), the (map_of n k)}" k]
    by (cases "map_of m k"; cases "map_of n k") (auto dest: join_commute)
  with v show "map_of (bt_merge join m n) = map_of (bt_merge join n m)" by (auto simp: merge_get)
qed (auto simp: map_valid_def bt_merge_wf)

lemma merge_assoc:
  "map_valid {l, m, n} \<Longrightarrow> bt_merge join (bt_merge join l m) n = bt_merge join l (bt_merge join m n)"
proof (rule bt_ext)
  assume v: "map_valid {l, m, n}"
  have w: "map_valid (insert (bt_merge join m n) {l, m, n})"
    using v by (intro map_valid_merge) auto
  have "combine_options join (combine_options join (map_of l k) (map_of m k)) (map_of n k)
      = combine_options join (map_of l k) (combine_options join (map_of m k) (map_of n k))" for k
    using map_valid_vals [OF v, of "{the (map_of l k), the (map_of m k), the (map_of n k)}" k]
    by (cases "map_of l k"; cases "map_of m k"; cases "map_of n k") (auto simp: join_assoc)
  with v w show "map_of (bt_merge join (bt_merge join l m) n) = map_of (bt_merge join l (bt_merge join m n))"
    by (auto simp: merge_get)
qed (auto simp: map_valid_def bt_merge_wf)

end

text \<open>Maps of joinable values are joinable.\<close>

sublocale replicated_map \<subseteq> maps: join_semilattice map_valid "bt_merge join"
proof unfold_locales
  fix A B :: "('b, 'a) btree set"
  assume A: "map_valid A" "B \<subseteq> A"
  have "valid (bt_vals B k)" for k
    by (rule valid_mono [OF map_validD(2) [OF A(1)] bt_vals_mono [OF A(2)]])
  then show "map_valid B" using A by (auto simp: map_valid_def)
qed (rule map_valid_merge merge_idem merge_commute merge_assoc; assumption)+

section \<open>Stable sorting and folding of equal neighbours\<close>

text \<open>
  \<open>Vec::dedup_by(|later, earlier| ..)\<close> visits neighbours from the left; when the closure answers
  \<open>true\<close> the later element is dropped, after the closure may have changed the earlier one.  The
  closure is modelled as a function that returns the changed earlier element when the two are folded.
  \<open>sort_by\<close> is stable, as \<open>sort_key\<close> is.
\<close>

fun dedup_by :: "('a \<Rightarrow> 'a \<Rightarrow> 'a option) \<Rightarrow> 'a list \<Rightarrow> 'a list" where
  "dedup_by f [] = []"
| "dedup_by f [x] = [x]"
| "dedup_by f (x # y # ys) =
     (case f y x of
        Some x' \<Rightarrow> dedup_by f (x' # ys)
      | None \<Rightarrow> x # dedup_by f (y # ys))"

text \<open>Folding neighbours that agree on a key, with \<open>mrg earlier later\<close> the folded element.\<close>

definition fold_same :: "('a \<Rightarrow> 'k) \<Rightarrow> ('a \<Rightarrow> 'a \<Rightarrow> 'a) \<Rightarrow> 'a \<Rightarrow> 'a \<Rightarrow> 'a option" where
  "fold_same key mrg later earlier = (if key later \<noteq> key earlier then None else Some (mrg earlier later))"

fun fold1 :: "('a \<Rightarrow> 'a \<Rightarrow> 'a) \<Rightarrow> 'a list \<Rightarrow> 'a list" where
  "fold1 mrg [] = []"
| "fold1 mrg (x # xs) = [foldl mrg x xs]"

lemma foldl_key: "(\<And>a b. key (mrg a b) = key a) \<Longrightarrow> key (foldl mrg x xs) = key x"
  by (induction xs arbitrary: x) auto

lemma dedup_by_keys:
  assumes "\<And>a b. key (mrg a b) = key a"
  shows "key ` set (dedup_by (fold_same key mrg) xs) = key ` set xs"
  using assms
  by (induction "fold_same key mrg" xs rule: dedup_by.induct)
    (auto simp: fold_same_def split: option.splits if_splits)

lemma dedup_by_strict:
  fixes key :: "'a \<Rightarrow> 'k::linorder"
  assumes "\<And>a b. key (mrg a b) = key a"
  shows "sorted (map key xs) \<Longrightarrow> sorted_wrt (<) (map key (dedup_by (fold_same key mrg) xs))"
proof (induction "fold_same key mrg" xs rule: dedup_by.induct)
  case (3 x y ys)
  show ?case
  proof (cases "key y = key x")
    case True
    with 3 assms show ?thesis by (simp add: fold_same_def)
  next
    case False
    then have "sorted_wrt (<) (map key (dedup_by (fold_same key mrg) (y # ys)))"
      using 3 by (simp add: fold_same_def)
    moreover have "\<forall>k \<in> key ` set (dedup_by (fold_same key mrg) (y # ys)). key x < k"
      using 3(3) False by (auto simp: dedup_by_keys [of key mrg, OF assms])
    ultimately show ?thesis using False by (auto simp: fold_same_def)
  qed
qed simp_all

text \<open>Per key, what remains is the left fold of the elements with that key.\<close>

lemma dedup_by_group:
  fixes key :: "'a \<Rightarrow> 'k::linorder"
  assumes "\<And>a b. key (mrg a b) = key a"
  shows "sorted (map key xs) \<Longrightarrow>
    filter (\<lambda>x. key x = k) (dedup_by (fold_same key mrg) xs) = fold1 mrg (filter (\<lambda>x. key x = k) xs)"
proof (induction "fold_same key mrg" xs rule: dedup_by.induct)
  case (3 x y ys)
  show ?case
  proof (cases "key y = key x")
    case True
    have "sorted (map key (mrg x y # ys))" using 3(3) True assms by simp
    then have "filter (\<lambda>x. key x = k) (dedup_by (fold_same key mrg) (mrg x y # ys))
        = fold1 mrg (filter (\<lambda>x. key x = k) (mrg x y # ys))"
      using True 3(2) [of "mrg x y"] by (simp add: fold_same_def)
    then show ?thesis using True assms by (auto simp: fold_same_def)
  next
    case False
    have IH: "filter (\<lambda>x. key x = k) (dedup_by (fold_same key mrg) (y # ys))
        = fold1 mrg (filter (\<lambda>x. key x = k) (y # ys))"
      using 3 False by (simp add: fold_same_def)
    have gt: "\<forall>z \<in> set (y # ys). key x < key z" using 3(3) False by auto
    then have "key x = k \<Longrightarrow> filter (\<lambda>x. key x = k) (y # ys) = []" by (auto simp: filter_empty_conv)
    then show ?thesis using IH False by (auto simp: fold_same_def)
  qed
qed simp_all

lemma sort_dedup_group:
  fixes key :: "'a \<Rightarrow> 'k::linorder"
  assumes "\<And>a b. key (mrg a b) = key a"
  shows "filter (\<lambda>x. key x = k) (dedup_by (fold_same key mrg) (sort_key key xs))
    = fold1 mrg (filter (\<lambda>x. key x = k) xs)"
  using dedup_by_group [of key mrg, OF assms, where xs = "sort_key key xs"] by (simp add: sort_key_stable)

lemma sort_dedup_strict:
  fixes key :: "'a \<Rightarrow> 'k::linorder"
  assumes "\<And>a b. key (mrg a b) = key a"
  shows "sorted_wrt (<) (map key (dedup_by (fold_same key mrg) (sort_key key xs)))"
  by (intro dedup_by_strict assms) simp

lemma sort_dedup_keys:
  fixes key :: "'a \<Rightarrow> 'k::linorder"
  assumes "\<And>a b. key (mrg a b) = key a"
  shows "key ` set (dedup_by (fold_same key mrg) (sort_key key xs)) = key ` set xs"
  by (simp add: dedup_by_keys [of key mrg, OF assms])

text \<open>On strictly ascending keys there is nothing to fold.\<close>

lemma dedup_by_strict_id:
  fixes key :: "'a \<Rightarrow> 'k::linorder"
  shows "sorted_wrt (<) (map key xs) \<Longrightarrow> dedup_by (fold_same key mrg) xs = xs"
  by (induction "fold_same key mrg" xs rule: dedup_by.induct) (auto simp: fold_same_def)

text \<open>Two lists with strictly ascending keys and the same groups are equal.\<close>

lemma strict_keys_ext:
  fixes key :: "'a \<Rightarrow> 'k::linorder"
  assumes "sorted_wrt (<) (map key xs)" "sorted_wrt (<) (map key ys)"
    and "\<And>k. filter (\<lambda>x. key x = k) xs = filter (\<lambda>x. key x = k) ys"
  shows "xs = ys"
proof -
  have "set xs = set ys"
  proof (intro set_eqI)
    fix x
    have "x \<in> set zs \<longleftrightarrow> x \<in> set (filter (\<lambda>y. key y = key x) zs)" for zs by simp
    then show "x \<in> set xs \<longleftrightarrow> x \<in> set ys" using assms(3) [of "key x"] by metis
  qed
  moreover have "inj_on key (set xs \<union> set ys)"
    using assms(1) calculation by (simp add: strict_sorted_iff distinct_map)
  ultimately show ?thesis
    using assms(1,2) by (auto simp: strict_sorted_iff intro: map_sorted_distinct_set_unique)
qed

text \<open>
  Sorting a collection of replica states by key and folding equal neighbours: the contract under which
  the result depends only on the set of states, so that sources may be merged in any order, grouping
  and multiplicity.
\<close>

definition sort_fold :: "('a \<Rightarrow> 'k::linorder) \<Rightarrow> ('a \<Rightarrow> 'a \<Rightarrow> 'a) \<Rightarrow> 'a list \<Rightarrow> 'a list" where
  "sort_fold key mrg xs = dedup_by (fold_same key mrg) (sort_key key xs)"

locale keyed_join = join_semilattice valid join
  for valid :: "'a set \<Rightarrow> bool" and join :: "'a \<Rightarrow> 'a \<Rightarrow> 'a" +
  fixes key :: "'a \<Rightarrow> 'k::linorder"
  assumes key_join: "key (join a b) = key a"
begin

definition groups_valid :: "'a set \<Rightarrow> bool" where
  "groups_valid A \<longleftrightarrow> (\<forall>k. valid {x \<in> A. key x = k})"

lemma groups_valid_mono:
  assumes "groups_valid A" "B \<subseteq> A"
  shows "groups_valid B"
proof -
  have "valid {x \<in> B. key x = k}" for k
    using assms by (auto simp: groups_valid_def intro: valid_mono [of "{x \<in> A. key x = k}" "{x \<in> B. key x = k}"])
  then show ?thesis by (simp add: groups_valid_def)
qed

lemma sort_fold_group:
  "filter (\<lambda>x. key x = k) (sort_fold key join xs) = fold1 join (filter (\<lambda>x. key x = k) xs)"
  by (simp add: sort_fold_def sort_dedup_group [of key join, OF key_join])

lemma sort_fold_strict: "sorted_wrt (<) (map key (sort_fold key join xs))"
  by (simp add: sort_fold_def sort_dedup_strict [of key join, OF key_join])

lemma sort_fold_keys: "key ` set (sort_fold key join xs) = key ` set xs"
  by (simp add: sort_fold_def sort_dedup_keys [of key join, OF key_join])

lemma sort_fold_ext:
  assumes "\<And>k. fold1 join (filter (\<lambda>x. key x = k) xs) = fold1 join (filter (\<lambda>x. key x = k) ys)"
  shows "sort_fold key join xs = sort_fold key join ys"
  by (rule strict_keys_ext [of key]) (simp_all add: sort_fold_strict sort_fold_group assms)

lemma sort_fold_id: "sorted_wrt (<) (map key xs) \<Longrightarrow> sort_fold key join xs = xs"
  by (simp add: sort_fold_def dedup_by_strict_id strict_sorted_imp_sorted sort_key_id_if_sorted)

lemma sort_fold_mem:
  assumes "groups_valid A" "set xs \<subseteq> A" "y \<in> set (sort_fold key join xs)"
  shows "valid (insert y {x \<in> A. key x = key y})"
proof -
  let ?g = "filter (\<lambda>x. key x = key y) xs"
  have "y \<in> set (filter (\<lambda>x. key x = key y) (sort_fold key join xs))" using assms(3) by simp
  then have "y \<in> set (fold1 join ?g)" by (simp only: sort_fold_group)
  then obtain z zs where g: "?g = z # zs" and y: "y = foldl join z zs" by (cases ?g) auto
  have "insert z (set zs) = set ?g" using g by simp
  also have "\<dots> \<subseteq> {x \<in> A. key x = key y}" using assms(2) by auto
  finally have sub: "z \<in> {x \<in> A. key x = key y}" "set zs \<subseteq> {x \<in> A. key x = key y}" by auto
  have "valid {x \<in> A. key x = key y}" using assms(1) by (simp add: groups_valid_def)
  from valid_foldl [OF this sub] show ?thesis by (simp only: y)
qed

lemma groups_valid_sort_fold:
  assumes "groups_valid A" "set xs \<subseteq> A"
  shows "groups_valid (set (sort_fold key join xs) \<union> A)"
proof -
  have "valid {x \<in> set (sort_fold key join xs) \<union> A. key x = k}" for k
  proof (cases "k \<in> key ` set (sort_fold key join xs)")
    case True
    then obtain y where y: "y \<in> set (sort_fold key join xs)" "k = key y" by auto
    have "inj_on key (set (sort_fold key join xs))"
      using sort_fold_strict [of xs] by (simp add: strict_sorted_iff distinct_map)
    then have "\<forall>x \<in> set (sort_fold key join xs). key x = k \<longrightarrow> x = y"
      using y by (auto dest: inj_onD)
    then have "{x \<in> set (sort_fold key join xs) \<union> A. key x = k} = insert y {x \<in> A. key x = key y}"
      using y by auto
    then show ?thesis using sort_fold_mem [OF assms y(1)] by simp
  next
    case False
    then have "{x \<in> set (sort_fold key join xs) \<union> A. key x = k} = {x \<in> A. key x = k}" by auto
    then show ?thesis using assms(1) by (simp add: groups_valid_def)
  qed
  then show ?thesis by (simp add: groups_valid_def)
qed

lemma sort_fold_set:
  assumes "groups_valid (set xs)" "set xs = set ys"
  shows "sort_fold key join xs = sort_fold key join ys"
proof (rule sort_fold_ext)
  fix k
  let ?f = "filter (\<lambda>x. key x = k)"
  have eq: "set (?f xs) = set (?f ys)" and v: "valid (set (?f xs))"
    using assms by (simp_all add: groups_valid_def)
  show "fold1 join (?f xs) = fold1 join (?f ys)"
  proof (cases "?f xs")
    case Nil
    then show ?thesis using eq by (cases "?f ys") auto
  next
    case (Cons x xs')
    then obtain y ys' where ys: "?f ys = y # ys'" using eq by (cases "?f ys") auto
    have "foldl join x xs' = foldl join y ys'"
      using v eq by (intro order_independent) (simp_all only: Cons ys list.set)
    then show ?thesis by (simp add: Cons ys)
  qed
qed

lemma sort_fold_append_left: "sort_fold key join (sort_fold key join xs @ ys) = sort_fold key join (xs @ ys)"
proof (rule sort_fold_ext)
  have "fold1 join (fold1 join as @ bs) = fold1 join (as @ bs)" for as bs by (cases as) auto
  then show "fold1 join (filter (\<lambda>x. key x = k) (sort_fold key join xs @ ys))
      = fold1 join (filter (\<lambda>x. key x = k) (xs @ ys))" for k
    by (simp add: sort_fold_group)
qed

lemma sort_fold_append_right:
  assumes "groups_valid (set (xs @ ys))"
  shows "sort_fold key join (xs @ sort_fold key join ys) = sort_fold key join (xs @ ys)"
proof -
  have "groups_valid (set (xs @ sort_fold key join ys))"
    by (rule groups_valid_mono [OF groups_valid_sort_fold [OF assms, of ys]]) auto
  then have "sort_fold key join (xs @ sort_fold key join ys) = sort_fold key join (sort_fold key join ys @ xs)"
    by (rule sort_fold_set) auto
  also have "\<dots> = sort_fold key join (ys @ xs)" by (rule sort_fold_append_left)
  also have "\<dots> = sort_fold key join (xs @ ys)"
    using assms by (intro sort_fold_set) (auto simp: Un_commute)
  finally show ?thesis .
qed

end

end
