(* ===== verification/Cell.thy ===== *)
theory Cell
  imports Prelude
begin

text \<open>
  Cells and their conflict resolution (crate \<open>ferrosa-common\<close>: \<open>cell.rs\<close>, \<open>cell_ts.rs\<close>,
  \<open>complex_cell.rs\<close>).

  \<^item> \<open>cell_value\<close> with its constructors and state predicates is \<open>CellValue\<close>.
  \<^item> \<open>normalize_cell_ts\<close> and \<open>normalize_timestamp_bounds\<close> repair legacy nanosecond timestamps.
  \<^item> \<open>reconcile_cmp\<close> is the total order by which every merge in the system picks a cell.
  \<^item> \<open>complex_column\<close> is a collection column, a map from element path to cell with a collection-level
    deletion; \<open>counter_cell\<close> is a counter, a map from node to shard.

  The lemmas show that reconciliation is a join of a total order, that collections converge whatever
  the order and multiplicity in which replicas apply operations or merge states, and under which
  condition counters do.
\<close>

section \<open>Cell values\<close>

record cell_value =
  cv_value :: "bytes option"
  cv_timestamp :: i64
  cv_ttl :: i32
  cv_local_deletion_time :: i32
  cv_path :: "bytes option"

definition NO_TIMESTAMP :: i64 where "NO_TIMESTAMP = i64_MIN"
definition NO_TTL :: i32 where "NO_TTL = 0"
definition NO_DELETION_TIME :: i32 where "NO_DELETION_TIME = i32_MAX"

definition live_bytes :: "bytes \<Rightarrow> i64 \<Rightarrow> cell_value" where
  "live_bytes v ts = \<lparr>cv_value = Some v, cv_timestamp = ts, cv_ttl = NO_TTL,
     cv_local_deletion_time = NO_DELETION_TIME, cv_path = None\<rparr>"

definition expiring_bytes :: "bytes \<Rightarrow> i64 \<Rightarrow> i32 \<Rightarrow> i32 \<Rightarrow> cell_value" where
  "expiring_bytes v ts ttl ldt = \<lparr>cv_value = Some v, cv_timestamp = ts, cv_ttl = ttl,
     cv_local_deletion_time = ldt, cv_path = None\<rparr>"

definition with_path :: "cell_value \<Rightarrow> bytes \<Rightarrow> cell_value" where
  "with_path c p = c\<lparr>cv_path := Some p\<rparr>"

definition tombstone :: "i64 \<Rightarrow> i32 \<Rightarrow> cell_value" where
  "tombstone ts ldt = \<lparr>cv_value = None, cv_timestamp = ts, cv_ttl = NO_TTL,
     cv_local_deletion_time = ldt, cv_path = None\<rparr>"

definition is_live :: "cell_value \<Rightarrow> bool" where
  "is_live c \<longleftrightarrow> cv_value c \<noteq> None \<and> cv_local_deletion_time c = NO_DELETION_TIME"

definition is_tombstone :: "cell_value \<Rightarrow> bool" where
  "is_tombstone c \<longleftrightarrow> cv_value c = None"

definition is_expiring :: "cell_value \<Rightarrow> bool" where
  "is_expiring c \<longleftrightarrow> cv_value c \<noteq> None \<and> cv_ttl c \<noteq> NO_TTL"

lemmas cell_defs = live_bytes_def expiring_bytes_def with_path_def tombstone_def
  is_live_def is_tombstone_def is_expiring_def

section \<open>Legacy nanosecond timestamps\<close>

definition LEGACY_NS_THRESHOLD :: i64 where
  "LEGACY_NS_THRESHOLD = 1000000000000000000"

definition LEGACY_NS_NORMALISED_FLOOR :: i64 where
  "LEGACY_NS_NORMALISED_FLOOR = LEGACY_NS_THRESHOLD div 1000"

definition is_legacy_ns :: "i64 \<Rightarrow> bool" where
  "is_legacy_ns raw \<longleftrightarrow> LEGACY_NS_THRESHOLD \<le> raw \<and> raw < i64_MAX"

definition normalize_cell_ts :: "i64 \<Rightarrow> i64" where
  "normalize_cell_ts raw = (if is_legacy_ns raw then raw div 1000 else raw)"

definition normalize_timestamp_bounds :: "i64 \<Rightarrow> i64 \<Rightarrow> i64 \<times> i64" where
  "normalize_timestamp_bounds raw_min raw_max =
     (if is_legacy_ns raw_min then (normalize_cell_ts raw_min, normalize_cell_ts raw_max)
      else if raw_max = i64_MAX \<or> is_legacy_ns raw_max
        then (min raw_min LEGACY_NS_NORMALISED_FLOOR, i64_MAX)
      else (raw_min, raw_max))"

lemmas legacy_defs = LEGACY_NS_THRESHOLD_def LEGACY_NS_NORMALISED_FLOOR_def is_legacy_ns_def
  normalize_cell_ts_def normalize_timestamp_bounds_def

lemma normalize_idem: "normalize_cell_ts (normalize_cell_ts t) = normalize_cell_ts t"
  by (auto simp: legacy_defs machine_consts)

lemma normalize_bounds_sound:
  assumes "is_i64 t" "is_i64 raw_max" "raw_min \<le> t" "raw_max = i64_MAX \<or> t \<le> raw_max"
    and "normalize_timestamp_bounds raw_min raw_max = (lo, hi)"
  shows "lo \<le> normalize_cell_ts t \<and> normalize_cell_ts t \<le> hi"
proof -
  have "t \<le> 9223372036854775807" "raw_max \<le> 9223372036854775807"
    using assms(1,2) by (simp_all add: is_i64_def machine_consts)
  then show ?thesis
    using assms(3-) by (auto simp: legacy_defs machine_consts zdiv_mono1 split: if_splits)
qed

section \<open>Reconciliation\<close>

definition reconcile_cmp_with_values ::
  "cell_value \<Rightarrow> bytes option \<Rightarrow> cell_value \<Rightarrow> bytes option \<Rightarrow> ordering" where
  "reconcile_cmp_with_values a a_value b b_value =
     then_with (cmp (cv_timestamp a) (cv_timestamp b))
    (then_with (cmp (is_tombstone a) (is_tombstone b))
    (then_with (cmp a_value b_value)
    (then_with (cmp (cv_ttl a) (cv_ttl b))
    (then_with (cmp (cv_local_deletion_time a) (cv_local_deletion_time b))
               (cmp (cv_path a) (cv_path b))))))"

definition reconcile_cmp :: "cell_value \<Rightarrow> cell_value \<Rightarrow> ordering" where
  "reconcile_cmp a b = reconcile_cmp_with_values a (cv_value a) b (cv_value b)"

definition reconcile_ref :: "cell_value \<Rightarrow> cell_value \<Rightarrow> cell_value" where
  "reconcile_ref a b = (if is_gt (reconcile_cmp a b) then a else b)"

definition reconcile :: "cell_value \<Rightarrow> cell_value \<Rightarrow> cell_value" where
  "reconcile a b = reconcile_ref a b"

text \<open>The comparison compares the tuple of all fields, timestamp first and deletion second.\<close>

definition reconcile_key :: "cell_value \<Rightarrow> i64 \<times> bool \<times> bytes option \<times> i32 \<times> i32 \<times> bytes option" where
  "reconcile_key c = (cv_timestamp c, is_tombstone c, cv_value c, cv_ttl c,
     cv_local_deletion_time c, cv_path c)"

lemma reconcile_cmp_key: "reconcile_cmp a b = cmp (reconcile_key a) (reconcile_key b)"
  by (simp add: reconcile_cmp_def reconcile_cmp_with_values_def reconcile_key_def cmp_prod)

interpretation rec: total_cmp reconcile_cmp
  by (rule total_cmp_key [OF reconcile_cmp_key]) (simp add: reconcile_key_def)

lemma reconcile_winner: "reconcile = winner reconcile_cmp"
  by (intro ext) (simp add: reconcile_def reconcile_ref_def winner_def)

interpretation cells: replicated_map "\<lambda>_. True" reconcile
  by (unfold reconcile_winner replicated_map_def) (rule rec.win.join_semilattice_axioms)

lemma reconcile_key_max:
  "reconcile a b = (if reconcile_key b < reconcile_key a then a else b)"
  by (simp add: reconcile_def reconcile_ref_def is_gt_def reconcile_cmp_key)

lemma reconcile_timestamp:
  "cv_timestamp (reconcile a b) = max (cv_timestamp a) (cv_timestamp b)"
  by (auto simp: reconcile_key_max reconcile_key_def)

lemma reconcile_tombstone:
  "is_tombstone (reconcile a b) \<longleftrightarrow>
     (is_tombstone a \<and> cv_timestamp b \<le> cv_timestamp a) \<or>
     (is_tombstone b \<and> cv_timestamp a \<le> cv_timestamp b)"
  by (auto simp: reconcile_key_max reconcile_key_def)

lemma reconcile_path: "cv_path a = cv_path b \<Longrightarrow> cv_path (reconcile a b) = cv_path a"
  by (simp add: reconcile_def reconcile_ref_def)

section \<open>Collection columns\<close>

record complex_column =
  cc_cells :: "(bytes, cell_value) btree"
  cc_complex_deletion :: i64

definition complex_new :: complex_column where
  "complex_new = \<lparr>cc_cells = [], cc_complex_deletion = NO_TIMESTAMP\<rparr>"

definition complex_upsert :: "complex_column \<Rightarrow> bytes \<Rightarrow> cell_value \<Rightarrow> complex_column" where
  "complex_upsert col path cell =
     (case map_of (cc_cells col) path of
        Some existing \<Rightarrow>
          (let w = reconcile existing cell in col\<lparr>cc_cells := bt_insert path w (cc_cells col)\<rparr>)
      | None \<Rightarrow> col\<lparr>cc_cells := bt_insert path cell (cc_cells col)\<rparr>)"

definition complex_add :: "complex_column \<Rightarrow> bytes \<Rightarrow> bytes \<Rightarrow> i64 \<Rightarrow> complex_column" where
  "complex_add col path value ts = complex_upsert col path (live_bytes value ts)"

definition complex_remove :: "complex_column \<Rightarrow> bytes \<Rightarrow> i64 \<Rightarrow> complex_column" where
  "complex_remove col path ts = complex_upsert col path (tombstone ts NO_DELETION_TIME)"

definition delete_collection :: "complex_column \<Rightarrow> i64 \<Rightarrow> complex_column" where
  "delete_collection col ts = col\<lparr>cc_complex_deletion := max (cc_complex_deletion col) ts\<rparr>"

definition is_present :: "complex_column \<Rightarrow> cell_value \<Rightarrow> bool" where
  "is_present col cell \<longleftrightarrow> cv_value cell \<noteq> None \<and> cv_timestamp cell > cc_complex_deletion col"

definition complex_contains :: "complex_column \<Rightarrow> bytes \<Rightarrow> bool" where
  "complex_contains col path =
     (case map_of (cc_cells col) path of Some c \<Rightarrow> is_present col c | None \<Rightarrow> False)"

definition materialize :: "complex_column \<Rightarrow> (bytes \<times> bytes) list" where
  "materialize col =
     map (\<lambda>(path, cell). (path, the (cv_value cell)))
       (filter (\<lambda>(_, cell). is_present col cell) (cc_cells col))"

definition complex_len :: "complex_column \<Rightarrow> usize" where
  "complex_len col = length (filter (is_present col) (map snd (cc_cells col)))"

definition complex_is_empty :: "complex_column \<Rightarrow> bool" where
  "complex_is_empty col \<longleftrightarrow> complex_len col = 0"

definition complex_merge_from :: "complex_column \<Rightarrow> complex_column \<Rightarrow> complex_column" where
  "complex_merge_from self other =
     foldl (\<lambda>col (path, cell). complex_upsert col path cell)
       (self\<lparr>cc_complex_deletion := max (cc_complex_deletion self) (cc_complex_deletion other)\<rparr>)
       (cc_cells other)"

definition complex_merge :: "complex_column \<Rightarrow> complex_column \<Rightarrow> complex_column" where
  "complex_merge self other = complex_merge_from self other"

text \<open>Every column keeps its elements in path order and its deletion an \<open>i64\<close>; each operation
  preserves that.\<close>

definition complex_wf :: "complex_column \<Rightarrow> bool" where
  "complex_wf col \<longleftrightarrow> bt_wf (cc_cells col) \<and> is_i64 (cc_complex_deletion col)"

lemma complex_upsert_eq:
  "complex_upsert col path cell = col\<lparr>cc_cells := bt_upsert reconcile path cell (cc_cells col)\<rparr>"
  by (simp add: complex_upsert_def bt_upsert_def split: option.split)

lemma complex_merge_from_cells:
  "foldl (\<lambda>col (path, cell). complex_upsert col path cell) col cs
   = col\<lparr>cc_cells := bt_merge reconcile (cc_cells col) cs\<rparr>"
  by (induction cs arbitrary: col) (auto simp: complex_upsert_eq bt_merge_def)

lemma complex_merge_eq:
  "complex_merge a b =
     \<lparr>cc_cells = bt_merge reconcile (cc_cells a) (cc_cells b),
      cc_complex_deletion = max (cc_complex_deletion a) (cc_complex_deletion b)\<rparr>"
  by (simp add: complex_merge_def complex_merge_from_def complex_merge_from_cells)

lemma complex_wf_ops:
  "complex_wf complex_new"
  "complex_wf col \<Longrightarrow> complex_wf (complex_upsert col path cell)"
  "complex_wf col \<Longrightarrow> is_i64 ts \<Longrightarrow> complex_wf (delete_collection col ts)"
  "complex_wf a \<Longrightarrow> complex_wf b \<Longrightarrow> complex_wf (complex_merge a b)"
  by (auto simp: complex_wf_def complex_new_def complex_upsert_eq bt_upsert_wf NO_TIMESTAMP_def
      delete_collection_def complex_merge_eq bt_merge_wf is_i64_def machine_consts)

interpretation columns: join_semilattice "\<lambda>S. \<forall>col \<in> S. complex_wf col" complex_merge
proof unfold_locales
  fix a b c :: complex_column
  have v: "cells.map_valid S \<longleftrightarrow> (\<forall>m \<in> S. bt_wf m)" for S :: "(bytes, cell_value) btree set"
    by (simp add: cells.map_valid_def)
  show "\<forall>col \<in> {a}. complex_wf col \<Longrightarrow> complex_merge a a = a"
    by (simp add: complex_merge_eq complex_wf_def cells.merge_idem v)
  show "\<forall>col \<in> {a, b}. complex_wf col \<Longrightarrow> complex_merge a b = complex_merge b a"
    using cells.merge_commute [of "cc_cells a" "cc_cells b"]
    by (simp add: complex_merge_eq complex_wf_def v max.commute)
  show "\<forall>col \<in> {a, b, c}. complex_wf col \<Longrightarrow>
      complex_merge (complex_merge a b) c = complex_merge a (complex_merge b c)"
    using cells.merge_assoc [of "cc_cells a" "cc_cells b" "cc_cells c"]
    by (simp add: complex_merge_eq complex_wf_def v max.assoc)
qed (auto simp: complex_wf_ops)

text \<open>
  The three mutations a replica receives, run in some delivery order.  Each is the merge with a
  one-entry column, so that convergence of merge is convergence of the operations.
\<close>

datatype column_op =
    AddElement bytes bytes i64
  | RemoveElement bytes i64
  | DeleteCollection i64

fun apply_column_op :: "complex_column \<Rightarrow> column_op \<Rightarrow> complex_column" where
  "apply_column_op col (AddElement path value ts) = complex_add col path value ts"
| "apply_column_op col (RemoveElement path ts) = complex_remove col path ts"
| "apply_column_op col (DeleteCollection ts) = delete_collection col ts"

definition run_column_ops :: "column_op list \<Rightarrow> complex_column" where
  "run_column_ops ops = foldl apply_column_op complex_new ops"

fun op_ts :: "column_op \<Rightarrow> i64" where
  "op_ts (AddElement _ _ ts) = ts"
| "op_ts (RemoveElement _ ts) = ts"
| "op_ts (DeleteCollection ts) = ts"

definition op_ok :: "column_op \<Rightarrow> bool" where
  "op_ok op \<longleftrightarrow> is_i64 (op_ts op) \<and> op_ts op \<noteq> NO_TIMESTAMP"

fun op_delta :: "column_op \<Rightarrow> complex_column" where
  "op_delta (AddElement path value ts) = complex_new\<lparr>cc_cells := [(path, live_bytes value ts)]\<rparr>"
| "op_delta (RemoveElement path ts) = complex_new\<lparr>cc_cells := [(path, tombstone ts NO_DELETION_TIME)]\<rparr>"
| "op_delta (DeleteCollection ts) = complex_new\<lparr>cc_complex_deletion := ts\<rparr>"

lemma NO_TIMESTAMP_least: "is_i64 x \<Longrightarrow> max x NO_TIMESTAMP = x"
  by (simp add: is_i64_def NO_TIMESTAMP_def)

lemma apply_column_op_delta:
  "complex_wf col \<Longrightarrow> apply_column_op col op = complex_merge col (op_delta op)"
  by (cases op) (simp_all add: complex_add_def complex_remove_def delete_collection_def
      complex_upsert_eq complex_merge_eq complex_new_def bt_merge_def complex_wf_def
      NO_TIMESTAMP_least)

lemma op_delta_wf: "op_ok op \<Longrightarrow> complex_wf (op_delta op)"
  using complex_wf_ops(1) by (cases op) (auto simp: op_ok_def complex_wf_def complex_new_def)

lemma run_column_ops_deltas:
  "\<forall>op \<in> set ops. op_ok op \<Longrightarrow> complex_wf col \<Longrightarrow>
   foldl apply_column_op col ops = foldl complex_merge col (map op_delta ops)"
  by (induction ops arbitrary: col) (simp_all add: apply_column_op_delta op_delta_wf complex_wf_ops)

lemma run_snoc [simp]: "run_column_ops (ops @ [op]) = apply_column_op (run_column_ops ops) op"
  by (simp add: run_column_ops_def)

lemma live_tombstone_inject [simp]:
  "live_bytes v ts = live_bytes v' ts' \<longleftrightarrow> v = v' \<and> ts = ts'"
  "live_bytes v ts \<noteq> tombstone ts' ldt"
  "tombstone ts' ldt \<noteq> live_bytes v ts"
  by (auto simp: live_bytes_def tombstone_def)

text \<open>The cells an operation history wrote at a path, and its collection deletions.\<close>

definition written_cells :: "column_op set \<Rightarrow> bytes \<Rightarrow> cell_value set" where
  "written_cells ops path =
     {c. \<exists>v ts. AddElement path v ts \<in> ops \<and> c = live_bytes v ts} \<union>
     {c. \<exists>ts. RemoveElement path ts \<in> ops \<and> c = tombstone ts NO_DELETION_TIME}"

definition best_cell :: "cell_value set \<Rightarrow> cell_value \<Rightarrow> bool" where
  "best_cell C c \<longleftrightarrow> c \<in> C \<and> (\<forall>c' \<in> C. reconcile_key c' \<le> reconcile_key c)"

lemma best_cell_insert:
  assumes "case m of None \<Rightarrow> C = {} | Some c \<Rightarrow> best_cell C c"
  shows "best_cell (insert d C) (case m of None \<Rightarrow> d | Some e \<Rightarrow> reconcile e d)"
  using assms by (auto simp: best_cell_def reconcile_key_max split: option.splits)

lemma written_cells_insert:
  "written_cells (insert (AddElement q v ts) A) p =
     (if q = p then insert (live_bytes v ts) (written_cells A p) else written_cells A p)"
  "written_cells (insert (RemoveElement q ts) A) p =
     (if q = p then insert (tombstone ts NO_DELETION_TIME) (written_cells A p) else written_cells A p)"
  "written_cells (insert (DeleteCollection ts) A) p = written_cells A p"
  by (auto simp: written_cells_def)

lemma complex_upsert_cells:
  "map_of (cc_cells (complex_upsert col q cell)) =
     (map_of (cc_cells col))(q \<mapsto> (case map_of (cc_cells col) q of None \<Rightarrow> cell | Some e \<Rightarrow> reconcile e cell))"
  by (simp add: complex_upsert_eq bt_upsert_def)

lemma run_cells:
  "case map_of (cc_cells (run_column_ops ops)) p of
     None \<Rightarrow> written_cells (set ops) p = {}
   | Some c \<Rightarrow> best_cell (written_cells (set ops) p) c"
proof (induction ops rule: rev_induct)
  case Nil
  show ?case by (simp add: run_column_ops_def complex_new_def written_cells_def)
next
  case (snoc op ops)
  show ?case
  proof (cases op)
    case (AddElement q v ts)
    then show ?thesis using snoc best_cell_insert [OF snoc]
      by (cases "q = p")
        (auto simp: written_cells_insert complex_add_def complex_upsert_cells split: option.splits)
  next
    case (RemoveElement q ts)
    then show ?thesis using snoc best_cell_insert [OF snoc]
      by (cases "q = p")
        (auto simp: written_cells_insert complex_remove_def complex_upsert_cells split: option.splits)
  next
    case (DeleteCollection ts)
    then show ?thesis using snoc
      by (auto simp: written_cells_insert delete_collection_def split: option.splits)
  qed
qed

lemma upsert_deletion [simp]:
  "cc_complex_deletion (complex_upsert col q cell) = cc_complex_deletion col"
  by (simp add: complex_upsert_eq)

lemma run_deletion:
  "cc_complex_deletion (run_column_ops ops) < ts \<longleftrightarrow>
     NO_TIMESTAMP < ts \<and> (\<forall>d. DeleteCollection d \<in> set ops \<longrightarrow> d < ts)"
proof (induction ops rule: rev_induct)
  case Nil
  show ?case by (simp add: run_column_ops_def complex_new_def)
next
  case (snoc op ops)
  show ?case using snoc
    by (cases op) (auto simp: complex_add_def complex_remove_def delete_collection_def)
qed

lemma materialize_mem:
  "bt_wf (cc_cells col) \<Longrightarrow> (path, v) \<in> set (materialize col) \<longleftrightarrow>
     (\<exists>c. map_of (cc_cells col) path = Some c \<and> cv_value c = Some v \<and>
          cc_complex_deletion col < cv_timestamp c)"
  by (force simp: materialize_def is_present_def map_of_eq_Some_iff bt_wf_distinct)

lemma run_wf: "bt_wf (cc_cells (run_column_ops ops))"
proof (induction ops rule: rev_induct)
  case (snoc op ops)
  then show ?case
    by (cases op) (simp_all add: run_column_ops_def complex_add_def complex_remove_def
        delete_collection_def complex_upsert_eq bt_upsert_wf)
qed (simp add: run_column_ops_def complex_new_def)

lemma materialize_sorted: "bt_wf (cc_cells col) \<Longrightarrow> sorted_wrt (<) (map fst (materialize col))"
proof -
  assume "bt_wf (cc_cells col)"
  then have "bt_wf (filter (\<lambda>(_, cell). is_present col cell) (cc_cells col))" by (rule bt_wf_filter)
  moreover have "map fst (materialize col) = map fst (filter (\<lambda>(_, cell). is_present col cell) (cc_cells col))"
    by (auto simp: materialize_def)
  ultimately show ?thesis by (simp add: bt_wf_def)
qed

text \<open>
  What a history of operations promises, independently of any delivery order: an element is
  materialized iff an add of it is later than every removal of its path and every deletion of the
  collection, and no later (or same-time, larger-valued) add replaced it.
\<close>

definition column_spec :: "column_op set \<Rightarrow> bytes \<Rightarrow> bytes \<Rightarrow> bool" where
  "column_spec ops path v \<longleftrightarrow>
     (\<exists>ts. AddElement path v ts \<in> ops \<and> NO_TIMESTAMP < ts \<and>
        (\<forall>d. DeleteCollection d \<in> ops \<longrightarrow> d < ts) \<and>
        (\<forall>d. RemoveElement path d \<in> ops \<longrightarrow> d < ts) \<and>
        (\<forall>v' ts'. AddElement path v' ts' \<in> ops \<longrightarrow> ts' < ts \<or> ts' = ts \<and> v' \<le> v))"

lemma key_live_live:
  "reconcile_key (live_bytes v' ts') \<le> reconcile_key (live_bytes v ts) \<longleftrightarrow> ts' < ts \<or> ts' = ts \<and> v' \<le> v"
  by (auto simp: reconcile_key_def cell_defs)

lemma key_tomb_live:
  "reconcile_key (tombstone d ldt) \<le> reconcile_key (live_bytes v ts) \<longleftrightarrow> d < ts"
  by (auto simp: reconcile_key_def cell_defs)

lemma ball_written_cells:
  "(\<forall>c \<in> written_cells ops p. P c) \<longleftrightarrow>
     (\<forall>v ts. AddElement p v ts \<in> ops \<longrightarrow> P (live_bytes v ts)) \<and>
     (\<forall>ts. RemoveElement p ts \<in> ops \<longrightarrow> P (tombstone ts NO_DELETION_TIME))"
  by (auto simp: written_cells_def)

lemma best_cell_live:
  "best_cell (written_cells ops p) (live_bytes v ts) \<longleftrightarrow>
     AddElement p v ts \<in> ops \<and> (\<forall>d. RemoveElement p d \<in> ops \<longrightarrow> d < ts) \<and>
     (\<forall>v' ts'. AddElement p v' ts' \<in> ops \<longrightarrow> ts' < ts \<or> ts' = ts \<and> v' \<le> v)"
  unfolding best_cell_def ball_written_cells key_live_live key_tomb_live
  by (auto simp: written_cells_def)

lemma reconcile_key_inject: "reconcile_key c = reconcile_key d \<Longrightarrow> c = d"
  by (simp add: reconcile_key_def)

lemma best_cell_unique: "best_cell C c \<Longrightarrow> best_cell C d \<Longrightarrow> c = d"
  unfolding best_cell_def by (meson order.antisym reconcile_key_inject)

lemma run_materialize_spec:
  "(p, v) \<in> set (materialize (run_column_ops ops)) \<longleftrightarrow> column_spec (set ops) p v"
proof
  assume "(p, v) \<in> set (materialize (run_column_ops ops))"
  then obtain c where c: "map_of (cc_cells (run_column_ops ops)) p = Some c" "cv_value c = Some v"
    "cc_complex_deletion (run_column_ops ops) < cv_timestamp c"
    by (auto simp: materialize_mem run_wf)
  then have best: "best_cell (written_cells (set ops) p) c" using run_cells [of ops p] by simp
  then obtain ts where ts: "c = live_bytes v ts"
    using c(2) by (auto simp: best_cell_def written_cells_def) (auto simp: cell_defs)
  then have "cv_timestamp c = ts" by (simp add: live_bytes_def)
  with best c(3) ts show "column_spec (set ops) p v"
    unfolding column_spec_def by (auto simp: best_cell_live run_deletion)
next
  assume "column_spec (set ops) p v"
  then obtain ts where best: "best_cell (written_cells (set ops) p) (live_bytes v ts)"
    and del: "cc_complex_deletion (run_column_ops ops) < ts"
    unfolding column_spec_def best_cell_live run_deletion by blast
  then obtain c where "map_of (cc_cells (run_column_ops ops)) p = Some c"
    "best_cell (written_cells (set ops) p) c"
    using run_cells [of ops p] by (cases "map_of (cc_cells (run_column_ops ops)) p") (auto simp: best_cell_def)
  then have "map_of (cc_cells (run_column_ops ops)) p = Some (live_bytes v ts)"
    using best best_cell_unique by blast
  with del show "(p, v) \<in> set (materialize (run_column_ops ops))"
    by (auto simp: materialize_mem run_wf live_bytes_def)
qed

section \<open>Counters\<close>

record counter_shard =
  cs_clock :: i64
  cs_count :: i64

record counter_cell =
  ct_shards :: "(bytes, counter_shard) btree"

definition counter_new :: counter_cell where
  "counter_new = \<lparr>ct_shards = []\<rparr>"

definition counter_increment :: "counter_cell \<Rightarrow> bytes \<Rightarrow> i64 \<Rightarrow> i64 \<Rightarrow> counter_cell" where
  "counter_increment self node delta clock =
     (let entry = (case map_of (ct_shards self) node of
                     Some e \<Rightarrow> e
                   | None \<Rightarrow> \<lparr>cs_clock = i64_MIN, cs_count = 0\<rparr>);
          entry' = (if clock > cs_clock entry
                    then entry\<lparr>cs_clock := clock, cs_count := wrap_i64 (cs_count entry + delta)\<rparr>
                    else entry)
      in self\<lparr>ct_shards := bt_insert node entry' (ct_shards self)\<rparr>)"

definition put_shard :: "counter_cell \<Rightarrow> bytes \<Rightarrow> counter_shard \<Rightarrow> counter_cell" where
  "put_shard self node shard =
     (case map_of (ct_shards self) node of
        Some existing \<Rightarrow>
          (if cs_clock existing \<ge> cs_clock shard then self
           else self\<lparr>ct_shards := bt_insert node shard (ct_shards self)\<rparr>)
      | None \<Rightarrow> self\<lparr>ct_shards := bt_insert node shard (ct_shards self)\<rparr>)"

definition counter_value :: "counter_cell \<Rightarrow> i64" where
  "counter_value self = foldl (\<lambda>acc s. wrap_i64 (acc + cs_count s)) 0 (map snd (ct_shards self))"

definition counter_merge_from :: "counter_cell \<Rightarrow> counter_cell \<Rightarrow> counter_cell" where
  "counter_merge_from self other =
     foldl (\<lambda>c (node, shard). put_shard c node shard) self (ct_shards other)"

definition counter_merge :: "counter_cell \<Rightarrow> counter_cell \<Rightarrow> counter_cell" where
  "counter_merge self other = counter_merge_from self other"

text \<open>\<open>put_shard\<close> keeps the shard with the higher clock, and the stored one on a tie.\<close>

definition newer_shard :: "counter_shard \<Rightarrow> counter_shard \<Rightarrow> counter_shard" where
  "newer_shard e v = (if cs_clock e \<ge> cs_clock v then e else v)"

lemma bt_insert_same: "bt_wf m \<Longrightarrow> map_of m k = Some v \<Longrightarrow> bt_insert k v m = m"
  by (rule bt_ext) (auto simp: bt_insert_wf)

lemma put_shard_eq:
  "bt_wf (ct_shards c) \<Longrightarrow>
   put_shard c node shard = c\<lparr>ct_shards := bt_upsert newer_shard node shard (ct_shards c)\<rparr>"
  by (auto simp: put_shard_def bt_upsert_def newer_shard_def bt_insert_same split: option.split)

lemma counter_merge_eq:
  "bt_wf (ct_shards a) \<Longrightarrow>
   counter_merge a b = \<lparr>ct_shards = bt_merge newer_shard (ct_shards a) (ct_shards b)\<rparr>"
proof -
  have "bt_wf (ct_shards c) \<Longrightarrow>
      foldl (\<lambda>c (node, shard). put_shard c node shard) c ss
      = c\<lparr>ct_shards := bt_merge newer_shard (ct_shards c) ss\<rparr>" for c ss
    by (induction ss arbitrary: c) (auto simp: put_shard_eq bt_merge_def bt_upsert_wf)
  then show "bt_wf (ct_shards a) \<Longrightarrow> ?thesis"
    by (simp add: counter_merge_def counter_merge_from_def)
qed

text \<open>A node writes one count per clock value.\<close>

definition one_count_per_clock :: "counter_shard set \<Rightarrow> bool" where
  "one_count_per_clock S \<longleftrightarrow> (\<forall>x \<in> S. \<forall>y \<in> S. cs_clock x = cs_clock y \<longrightarrow> x = y)"

interpretation shards: replicated_map one_count_per_clock newer_shard
proof unfold_locales
  fix A :: "counter_shard set" and a b
  assume "one_count_per_clock A" "a \<in> A" "b \<in> A"
  moreover have "newer_shard a b \<in> {a, b}" by (simp add: newer_shard_def)
  ultimately show "one_count_per_clock (insert (newer_shard a b) A)"
    by (auto simp: insert_absorb)
qed (auto simp: one_count_per_clock_def newer_shard_def)

definition counters_valid :: "counter_cell set \<Rightarrow> bool" where
  "counters_valid S \<longleftrightarrow> shards.map_valid (ct_shards ` S)"

lemma counters_valid_wf: "counters_valid S \<Longrightarrow> c \<in> S \<Longrightarrow> bt_wf (ct_shards c)"
  by (auto simp: counters_valid_def shards.map_valid_def)

interpretation counters: join_semilattice counters_valid counter_merge
proof unfold_locales
  fix a b c :: counter_cell and A B
  show "counters_valid A \<Longrightarrow> B \<subseteq> A \<Longrightarrow> counters_valid B"
    unfolding counters_valid_def by (blast intro: shards.maps.valid_mono)
  show "counters_valid A \<Longrightarrow> a \<in> A \<Longrightarrow> b \<in> A \<Longrightarrow> counters_valid (insert (counter_merge a b) A)"
    using shards.maps.valid_join [of "ct_shards ` A" "ct_shards a" "ct_shards b"]
    by (simp add: counters_valid_wf counter_merge_eq) (simp add: counters_valid_def)
  show "counters_valid {a} \<Longrightarrow> counter_merge a a = a"
    by (simp add: counters_valid_wf counter_merge_eq) (simp add: counters_valid_def shards.merge_idem)
  show "counters_valid {a, b} \<Longrightarrow> counter_merge a b = counter_merge b a"
    using shards.merge_commute [of "ct_shards a" "ct_shards b"]
    by (simp add: counters_valid_wf [of "{a, b}"] counter_merge_eq) (simp add: counters_valid_def)
  show "counters_valid {a, b, c} \<Longrightarrow>
      counter_merge (counter_merge a b) c = counter_merge a (counter_merge b c)"
    by (simp add: counters_valid_wf [of "{a, b, c}"] counter_merge_eq bt_merge_wf)
      (simp add: counters_valid_def shards.merge_assoc)
qed

text \<open>The value is the wrapped sum of the shard counts, whatever the order of the shards.\<close>

lemma counter_value_sum:
  "counter_value c = wrap_i64 (sum_list (map (cs_count \<circ> snd) (ct_shards c)))"
proof -
  have "foldl (\<lambda>acc s. wrap_i64 (acc + cs_count s)) (wrap_i64 x) ss
      = wrap_i64 (x + sum_list (map cs_count ss))" for x ss
    by (induction ss arbitrary: x) (simp_all add: add.assoc)
  from this [of 0 "map snd (ct_shards c)"] show ?thesis
    by (simp add: counter_value_def comp_def)
qed

text \<open>A node's own history: deltas it applied to its shard, each at a clock.\<close>

definition local_counter :: "bytes \<Rightarrow> (i64 \<times> i64) list \<Rightarrow> counter_cell" where
  "local_counter node hist =
     foldl (\<lambda>c (delta, clock). counter_increment c node delta clock) counter_new hist"

definition clocks_ascend :: "(i64 \<times> i64) list \<Rightarrow> bool" where
  "clocks_ascend hist \<longleftrightarrow> sorted_wrt (<) (i64_MIN # map snd hist)"

lemma local_counter_shards:
  "clocks_ascend hist \<Longrightarrow>
   ct_shards (local_counter node hist) =
     (if hist = [] then []
      else [(node, \<lparr>cs_clock = snd (last hist), cs_count = wrap_i64 (sum_list (map fst hist))\<rparr>)])"
proof (induction hist rule: rev_induct)
  case Nil
  show ?case by (simp add: local_counter_def counter_new_def)
next
  case (snoc dc hist)
  obtain d c where dc: "dc = (d, c)" by (cases dc)
  have asc: "clocks_ascend hist" and gt: "i64_MIN < c" "hist \<noteq> [] \<Longrightarrow> snd (last hist) < c"
    using snoc.prems dc by (auto simp: clocks_ascend_def sorted_wrt_append)
  have "local_counter node (hist @ [dc]) = counter_increment (local_counter node hist) node d c"
    by (simp add: local_counter_def dc)
  then show ?case using snoc.IH [OF asc] gt dc
    by (cases "hist = []") (auto simp: counter_increment_def)
qed

lemma merged_counters:
  assumes "distinct ns" "\<forall>n \<in> set ns. clocks_ascend (hist n)"
  defines "m \<equiv> foldl counter_merge counter_new (map (\<lambda>n. local_counter n (hist n)) ns)"
  shows "bt_wf (ct_shards m) \<and> (\<forall>k. map_of (ct_shards m) k =
    (if k \<in> set ns \<and> hist k \<noteq> []
     then Some \<lparr>cs_clock = snd (last (hist k)), cs_count = wrap_i64 (sum_list (map fst (hist k)))\<rparr>
     else None))"
  unfolding m_def using assms(1,2)
proof (induction ns rule: rev_induct)
  case Nil
  show ?case by (simp add: counter_new_def)
next
  case (snoc n ns)
  let ?m = "foldl counter_merge counter_new (map (\<lambda>n. local_counter n (hist n)) ns)"
  have IH: "bt_wf (ct_shards ?m)" "\<And>k. map_of (ct_shards ?m) k =
    (if k \<in> set ns \<and> hist k \<noteq> []
     then Some \<lparr>cs_clock = snd (last (hist k)), cs_count = wrap_i64 (sum_list (map fst (hist k)))\<rparr>
     else None)"
    using snoc by auto
  have loc: "ct_shards (local_counter n (hist n)) = (if hist n = [] then []
      else [(n, \<lparr>cs_clock = snd (last (hist n)), cs_count = wrap_i64 (sum_list (map fst (hist n)))\<rparr>)])"
    using snoc.prems by (simp add: local_counter_shards)
  have "map_of (bt_merge newer_shard (ct_shards ?m) (ct_shards (local_counter n (hist n)))) k =
      combine_options newer_shard (map_of (ct_shards ?m) k) (map_of (ct_shards (local_counter n (hist n))) k)" for k
    by (rule bt_merge_get) (simp add: loc)
  moreover have "n \<notin> set ns" using snoc.prems(1) by simp
  ultimately have "map_of (bt_merge newer_shard (ct_shards ?m) (ct_shards (local_counter n (hist n)))) k =
     (if k \<in> set (ns @ [n]) \<and> hist k \<noteq> []
      then Some \<lparr>cs_clock = snd (last (hist k)), cs_count = wrap_i64 (sum_list (map fst (hist k)))\<rparr>
      else None)" for k
    by (cases "k = n") (simp_all add: IH(2) loc)
  then show ?case using IH(1) by (simp add: counter_merge_eq bt_merge_wf)
qed

lemma merged_counter_value:
  assumes "distinct ns" "\<forall>n \<in> set ns. clocks_ascend (hist n)"
  shows "counter_value (foldl counter_merge counter_new (map (\<lambda>n. local_counter n (hist n)) ns))
    = wrap_i64 (\<Sum>n\<in>set ns. sum_list (map fst (hist n)))"
proof -
  let ?m = "foldl counter_merge counter_new (map (\<lambda>n. local_counter n (hist n)) ns)"
  let ?A = "{n \<in> set ns. hist n \<noteq> []}"
  let ?s = "\<lambda>n. \<lparr>cs_clock = snd (last (hist n)), cs_count = wrap_i64 (sum_list (map fst (hist n)))\<rparr>"
  have wf: "bt_wf (ct_shards ?m)"
    and get: "\<And>k. map_of (ct_shards ?m) k = (if k \<in> set ns \<and> hist k \<noteq> [] then Some (?s k) else None)"
    using merged_counters [OF assms] by auto
  have "set (ct_shards ?m) = (\<lambda>n. (n, ?s n)) ` ?A"
    unfolding set_map_of_compr [OF bt_wf_distinct [OF wf]] by (auto simp: get split: if_splits)
  moreover have "distinct (ct_shards ?m)" 
    using bt_wf_distinct [OF wf] by (simp add: distinct_map)
  ultimately have "sum_list (map (cs_count \<circ> snd) (ct_shards ?m))
      = sum (cs_count \<circ> snd) ((\<lambda>n. (n, ?s n)) ` ?A)"
    by (simp add: sum_list_distinct_conv_sum_set)
  also have "\<dots> = (\<Sum>n\<in>?A. wrap_i64 (sum_list (map fst (hist n))))"
    by (subst sum.reindex) (auto intro!: inj_onI)
  also have "\<dots> = (\<Sum>n\<in>set ns. wrap_i64 (sum_list (map fst (hist n))))"
    by (rule sum.mono_neutral_left) auto
  finally show ?thesis by (simp add: counter_value_sum wrap_i64_sum)
qed

section \<open>Properties\<close>

text \<open>
  Reconciliation is last-write-wins and a join: it is commutative, associative and idempotent, the
  winner carries the larger timestamp, and a deletion wins an equal-timestamp tie.
\<close>

theorem reconcile_lww_join:
  "reconcile a b = reconcile b a \<and>
   reconcile (reconcile a b) c = reconcile a (reconcile b c) \<and>
   reconcile a a = a \<and>
   cv_timestamp (reconcile a b) = max (cv_timestamp a) (cv_timestamp b) \<and>
   (is_tombstone (reconcile a b) \<longleftrightarrow>
     (is_tombstone a \<and> cv_timestamp b \<le> cv_timestamp a) \<or>
     (is_tombstone b \<and> cv_timestamp a \<le> cv_timestamp b))"
  using rec.winner_commute [of a b] rec.winner_assoc [of a b c] rec.winner_idem [of a]
  unfolding reconcile_winner [symmetric] reconcile_timestamp reconcile_tombstone by blast

text \<open>
  C18: A collection column implements its order-free specification: after any sequence of adds,
  removes and collection deletions, it materializes, in path order, exactly the elements whose add is
  newer than every removal and collection deletion and not superseded by another add.
\<close>

theorem column_refines_spec:
  "sorted_wrt (<) (map fst (materialize (run_column_ops ops))) \<and>
   (\<forall>p v. (p, v) \<in> set (materialize (run_column_ops ops)) \<longleftrightarrow> column_spec (set ops) p v)"
  by (simp add: materialize_sorted run_wf run_materialize_spec)

text \<open>
  Replicas that receive the same operations, in any order and with any duplication, hold
  identical columns.
\<close>

theorem column_ops_converge:
  assumes "\<forall>op \<in> set ops. op_ok op" "set ops = set ops'"
  shows "run_column_ops ops = run_column_ops ops'"
proof -
  have wf: "complex_wf complex_new" by (rule complex_wf_ops)
  have "foldl complex_merge complex_new (map op_delta ops) = foldl complex_merge complex_new (map op_delta ops')"
    using assms wf by (intro columns.order_independent) (auto simp: op_delta_wf)
  then show ?thesis
    using assms wf by (simp add: run_column_ops_def run_column_ops_deltas)
qed

theorem column_ops_converge_witness:
  "run_column_ops [AddElement [1] [7] 5, RemoveElement [1] 3]
   = run_column_ops [RemoveElement [1] 3, AddElement [1] [7] 5, RemoveElement [1] 3]"
  by (rule column_ops_converge)
    (auto simp: op_ok_def is_i64_def NO_TIMESTAMP_def machine_consts)

text \<open>
  State-based merge converges: folding the same set of replica columns in any order and
  multiplicity gives the same column, and merging keeps the column well-formed.
\<close>

theorem column_merge_converges:
  assumes "\<forall>col \<in> insert x (set xs). complex_wf col" "insert x (set xs) = insert y (set ys)"
  shows "foldl complex_merge x xs = foldl complex_merge y ys \<and> complex_wf (foldl complex_merge x xs)"
  using columns.order_independent [OF assms] columns.valid_foldl [OF assms(1), of x xs]
  by (simp add: subset_insertI)

theorem column_merge_converges_witness:
  "foldl complex_merge complex_new [op_delta (AddElement [1] [7] 5), op_delta (DeleteCollection 6)]
   = foldl complex_merge (op_delta (DeleteCollection 6)) [complex_new, op_delta (AddElement [1] [7] 5)]
   \<and> materialize (foldl complex_merge complex_new
        [op_delta (AddElement [1] [7] 5), op_delta (DeleteCollection 6)]) = []"
proof -
  have ok: "op_ok (AddElement [1] [7] 5)" "op_ok (DeleteCollection 6)"
    by (simp_all add: op_ok_def is_i64_def NO_TIMESTAMP_def machine_consts)
  show ?thesis
    using column_merge_converges [of complex_new
        "[op_delta (AddElement [1] [7] 5), op_delta (DeleteCollection 6)]"
        "op_delta (DeleteCollection 6)" "[complex_new, op_delta (AddElement [1] [7] 5)]"]
      op_delta_wf [OF ok(1)] op_delta_wf [OF ok(2)] complex_wf_ops(1)
    by (auto simp: materialize_def is_present_def complex_merge_eq bt_merge_def bt_upsert_def
        complex_new_def live_bytes_def NO_TIMESTAMP_def machine_consts)
qed

text \<open>
  Counters count: when every node increments only its own shard with ascending clocks, the value
  of the merged counter is the (64-bit wrapped) sum of all deltas of all nodes.
\<close>

theorem counter_converged_value:
  assumes "distinct ns" "\<forall>n \<in> set ns. clocks_ascend (hist n)"
  shows "counter_value (foldl counter_merge counter_new (map (\<lambda>n. local_counter n (hist n)) ns))
    = wrap_i64 (\<Sum>n\<in>set ns. sum_list (map fst (hist n)))"
  by (rule merged_counter_value [OF assms])

theorem counter_converged_value_witness:
  "counter_value (foldl counter_merge counter_new
     (map (\<lambda>n. local_counter n (if n = [1] then [(5, 1), (-2, 2)] else [(10, 7)])) [[1], [2]])) = 13"
  by (subst counter_converged_value) (auto simp: clocks_ascend_def is_i64_def machine_consts)

text \<open>
  Without that discipline counter merge is not commutative: two shards of one node with the same
  clock and different counts resolve to whichever side the merge started from, and the counter values
  differ.
\<close>

theorem counter_merge_order_matters:
  "\<exists>a b. counter_merge a b \<noteq> counter_merge b a \<and>
         counter_value (counter_merge a b) \<noteq> counter_value (counter_merge b a)"
proof -
  let ?a = "\<lparr>ct_shards = [([1], \<lparr>cs_clock = 1, cs_count = 1\<rparr>)]\<rparr>"
  let ?b = "\<lparr>ct_shards = [([1], \<lparr>cs_clock = 1, cs_count = 2\<rparr>)]\<rparr>"
  have "counter_value (counter_merge ?a ?b) = wrap_i64 1" "counter_value (counter_merge ?b ?a) = wrap_i64 2"
    by (simp_all add: counter_merge_def counter_merge_from_def put_shard_def counter_value_def)
  then have "counter_value (counter_merge ?a ?b) \<noteq> counter_value (counter_merge ?b ?a)"
    by (simp add: is_i64_def machine_consts)
  then show ?thesis by metis
qed

text \<open>
  The timestamp bounds computed for an SSTable that may hold legacy nanosecond cells bracket
  every cell timestamp after normalisation, and normalisation is idempotent.
\<close>

theorem legacy_bounds_sound:
  assumes "is_i64 t" "is_i64 raw_max" "raw_min \<le> t" "raw_max = i64_MAX \<or> t \<le> raw_max"
  shows "fst (normalize_timestamp_bounds raw_min raw_max) \<le> normalize_cell_ts t \<and>
    normalize_cell_ts t \<le> snd (normalize_timestamp_bounds raw_min raw_max) \<and>
    normalize_cell_ts (normalize_cell_ts t) = normalize_cell_ts t"
  using normalize_bounds_sound [OF assms, of "fst (normalize_timestamp_bounds raw_min raw_max)"
      "snd (normalize_timestamp_bounds raw_min raw_max)"]
  by (simp_all add: normalize_idem)

theorem legacy_bounds_sound_witness:
  "fst (normalize_timestamp_bounds 7 1500000000000000000) \<le> normalize_cell_ts 1200000000000000000 \<and>
   normalize_cell_ts 1200000000000000000 = 1200000000000000"
  using legacy_bounds_sound [of 1200000000000000000 1500000000000000000 7]
  by (simp add: is_i64_def machine_consts legacy_defs)

end
