(* ===== verification/Key.thy ===== *)
theory Key
  imports Prelude
begin

unbundle bit_operations_syntax

text \<open>
  Partition keys, tokens and the hash that places them (crate \<open>ferrosa-common\<close>: \<open>murmur3.rs\<close>,
  \<open>token.rs\<close>, \<open>key.rs\<close>).

  \<open>hash3_x64_128\<close> works on 64-bit words, so every wrapping product, rotation, sign extension and
  unsigned shift of the source is the word operation of the same name.  A token is the signed reading
  of the first hash word.
\<close>

section \<open>Murmur3\<close>

type_synonym w64 = "64 word"

text \<open>\<open>i64::from_le_bytes\<close>: the first byte is the least significant.\<close>

fun word_of_le_bytes :: "bytes \<Rightarrow> w64" where
  "word_of_le_bytes [] = 0"
| "word_of_le_bytes (b # bs) = ucast b OR push_bit 8 (word_of_le_bytes bs)"

definition get_block_i64 :: "bytes \<Rightarrow> usize \<Rightarrow> w64" where
  "get_block_i64 data index = word_of_le_bytes (take 8 (drop (index * 8) data))"

definition fmix64 :: "w64 \<Rightarrow> w64" where
  "fmix64 k0 =
     (let k1 = k0 XOR drop_bit 33 k0;
          k2 = k1 * 0xff51afd7ed558ccd;
          k3 = k2 XOR drop_bit 33 k2;
          k4 = k3 * 0xc4ceb9fe1a85ec53;
          k5 = k4 XOR drop_bit 33 k4
      in k5)"

definition murmur_C1 :: w64 where "murmur_C1 = 0x87c37b91114253d5"
definition murmur_C2 :: w64 where "murmur_C2 = 0x4cf5ad432745937f"

text \<open>One iteration of the body loop over 16-byte blocks.\<close>

definition murmur_block :: "bytes \<Rightarrow> w64 \<times> w64 \<Rightarrow> nat \<Rightarrow> w64 \<times> w64" where
  "murmur_block data st i =
     (let (h1, h2) = st;
          k1 = get_block_i64 data (i * 2);
          k2 = get_block_i64 data (i * 2 + 1);
          k1 = word_rotl 31 (k1 * murmur_C1) * murmur_C2;
          h1 = h1 XOR k1;
          h1 = word_rotl 27 h1 + h2;
          h1 = h1 * 5 + 0x52dce729;
          k2 = word_rotl 33 (k2 * murmur_C2) * murmur_C1;
          h2 = h2 XOR k2;
          h2 = word_rotl 31 h2 + h1;
          h2 = h2 * 5 + 0x38495ab5
      in (h1, h2))"

text \<open>
  The tail bytes are sign-extended before the shift (\<open>as i8 as i64\<close>), unlike the body's.  The tail
  contributes its bytes 8..14 to \<open>k2\<close> and 0..7 to \<open>k1\<close>, each only when present.
\<close>

definition tail_xor :: "bytes \<Rightarrow> nat \<Rightarrow> nat \<Rightarrow> w64 \<Rightarrow> w64" where
  "tail_xor tail i sh k =
     (if i < length tail then k XOR push_bit sh (scast (tail ! i)) else k)"

definition murmur_tail :: "bytes \<Rightarrow> w64 \<times> w64 \<Rightarrow> w64 \<times> w64" where
  "murmur_tail tail st =
     (let (h1, h2) = st;
          k2 = tail_xor tail 8 0 (tail_xor tail 9 8 (tail_xor tail 10 16 (tail_xor tail 11 24
                 (tail_xor tail 12 32 (tail_xor tail 13 40 (tail_xor tail 14 48 0))))));
          h2 = (if length tail \<ge> 9
                then h2 XOR (word_rotl 33 (k2 * murmur_C2) * murmur_C1) else h2);
          k1 = tail_xor tail 0 0 (tail_xor tail 1 8 (tail_xor tail 2 16 (tail_xor tail 3 24
                 (tail_xor tail 4 32 (tail_xor tail 5 40 (tail_xor tail 6 48 (tail_xor tail 7 56 0)))))));
          h1 = (if tail \<noteq> []
                then h1 XOR (word_rotl 31 (k1 * murmur_C1) * murmur_C2) else h1)
      in (h1, h2))"

definition hash3_x64_128 :: "bytes \<Rightarrow> w64 \<Rightarrow> w64 \<times> w64" where
  "hash3_x64_128 data seed =
     (let len = length data;
          nblocks = len div 16;
          (h1, h2) = foldl (murmur_block data) (seed, seed) [0..<nblocks];
          (h1, h2) = murmur_tail (drop (nblocks * 16) data) (h1, h2);
          h1 = h1 XOR of_nat len;
          h2 = h2 XOR of_nat len;
          h1 = h1 + h2;
          h2 = h2 + h1;
          h1 = fmix64 h1;
          h2 = fmix64 h2;
          h1 = h1 + h2;
          h2 = h2 + h1
      in (h1, h2))"

section \<open>Tokens and decorated keys\<close>

type_synonym token = i64

definition token_MIN :: token where "token_MIN = i64_MIN"
definition token_MAX :: token where "token_MAX = i64_MAX"

definition token_from_key :: "bytes \<Rightarrow> token" where
  "token_from_key key = sint (fst (hash3_x64_128 key 0))"

record decorated_key =
  dk_token :: token
  dk_key :: bytes

definition decorated_key_new :: "bytes \<Rightarrow> decorated_key" where
  "decorated_key_new key = \<lparr>dk_token = token_from_key key, dk_key = key\<rparr>"

definition filter_hash :: "decorated_key \<Rightarrow> i64 \<times> i64" where
  "filter_hash dk = map_prod sint sint (hash3_x64_128 (dk_key dk) 0)"

definition decorated_key_cmp :: "decorated_key \<Rightarrow> decorated_key \<Rightarrow> ordering" where
  "decorated_key_cmp a b = then_with (cmp (dk_token a) (dk_token b)) (cmp (dk_key a) (dk_key b))"

interpretation dk: total_cmp decorated_key_cmp
  by (rule total_cmp_key [where key = "\<lambda>k. (dk_token k, dk_key k)"])
    (simp_all add: decorated_key_cmp_def cmp_prod)

section \<open>Properties\<close>

lemma xorshift33_involution: "(k XOR drop_bit 33 k) XOR drop_bit 33 (k XOR drop_bit 33 k) = (k :: w64)"
proof -
  have "drop_bit 33 (drop_bit 33 k) = 0"
    by (rule bit_word_eqI) (simp add: bit_drop_bit_eq bit_imp_le_length)
  then show ?thesis by (simp add: xor.assoc)
qed

lemma xorshift33_inj: "inj (\<lambda>k :: w64. k XOR drop_bit 33 k)"
  by (rule inj_on_inverseI [where g = "\<lambda>k. k XOR drop_bit 33 k"]) (rule xorshift33_involution)

lemma mult_inj: "c * d = 1 \<Longrightarrow> inj (\<lambda>k :: w64. k * c)"
  by (rule inj_on_inverseI [where g = "\<lambda>k. k * d"]) (simp add: mult.assoc)

lemma fmix64_inj: "inj fmix64"
proof -
  have eq: "fmix64 = (\<lambda>k. k XOR drop_bit 33 k) \<circ> (\<lambda>k. k * 0xc4ceb9fe1a85ec53) \<circ>
      (\<lambda>k. k XOR drop_bit 33 k) \<circ> (\<lambda>k. k * 0xff51afd7ed558ccd) \<circ> (\<lambda>k. k XOR drop_bit 33 k)"
    by (simp add: fun_eq_iff fmix64_def Let_def)
  have "inj (\<lambda>k :: w64. k * 0xff51afd7ed558ccd)"
    by (rule mult_inj [where d = "0x4f74430c22a54005"]) simp
  moreover have "inj (\<lambda>k :: w64. k * 0xc4ceb9fe1a85ec53)"
    by (rule mult_inj [where d = "0x9cb4b2f8129337db"]) simp
  ultimately show ?thesis unfolding eq by (intro inj_compose xorshift33_inj)
qed

text \<open>
  The hash agrees with Cassandra on the characterization vectors that exercise each path: a tail of
  nine bytes, a full block, a full block of high bytes followed by a sign-extended tail byte, and a
  non-zero seed.
\<close>

theorem murmur3_cassandra_vectors:
  "map_prod sint sint (hash3_x64_128 [0x63, 0x61, 0x73, 0x73, 0x61, 0x6E, 0x64, 0x72, 0x61] 0)
     = (356242581507269238, -3708818142985255407) \<and>
   map_prod sint sint (hash3_x64_128 [0, 1, 2, 3, 4, 5, 6, 7, 8, 9, 10, 11, 12, 13, 14, 15] 0)
     = (4920504430128807728, -6084252774064723899) \<and>
   map_prod sint sint (hash3_x64_128 [0xFF, 0xFF, 0xFF, 0xFF, 0xFF, 0xFF, 0xFF, 0xFF,
       0xFF, 0xFF, 0xFF, 0xFF, 0xFF, 0xFF, 0xFF, 0xFF, 0xFF] 0)
     = (-4128212798341382003, 3989950299795791994) \<and>
   map_prod sint sint (hash3_x64_128 [0x68, 0x65, 0x6C, 0x6C, 0x6F] 42)
     = (-4271466569069007096, 2536855305735617658)"
  by (intro conjI) code_simp+

text \<open>
  The finalization mix is injective, so it never maps two intermediate hash states to one token
  word.
\<close>

theorem fmix64_injective: "fmix64 a = fmix64 b \<longleftrightarrow> a = b"
  using fmix64_inj by (simp add: inj_eq)

end
