(* ===== verification/Row.thy ===== *)
theory Row
  imports Cell Key
begin

text \<open>
  The data a partition is made of (crate \<open>ferrosa-sstable\<close>: \<open>types.rs\<close>): deletion markers, primary-key
  liveness, rows and partitions, with the read-time visibility test of a row.

  A row's cells are keyed by column and collection path (\<open>cell_key\<close>); \<open>row_wf\<close> and \<open>partition_wf\<close> state
  the order every reader relies on: cells strictly ascending by that key, rows strictly ascending by
  clustering.
\<close>

record deletion_time =
  marked_for_delete_at :: i64
  dt_local_deletion_time :: u32

definition LIVE :: deletion_time where
  "LIVE = \<lparr>marked_for_delete_at = i64_MIN, dt_local_deletion_time = u32_MAX\<rparr>"

definition deletion_time_new :: "i64 \<Rightarrow> u32 \<Rightarrow> deletion_time" where
  "deletion_time_new at ldt = \<lparr>marked_for_delete_at = at, dt_local_deletion_time = ldt\<rparr>"

definition deletion_is_live :: "deletion_time \<Rightarrow> bool" where
  "deletion_is_live d \<longleftrightarrow> marked_for_delete_at d = i64_MIN \<and> dt_local_deletion_time d = u32_MAX"

record liveness_info =
  li_timestamp :: i64
  li_ttl :: i32
  li_local_deletion_time :: i32

definition liveness_NONE :: liveness_info where
  "liveness_NONE = \<lparr>li_timestamp = i64_MIN, li_ttl = 0, li_local_deletion_time = i32_MAX\<rparr>"

definition with_timestamp :: "i64 \<Rightarrow> liveness_info" where
  "with_timestamp ts = \<lparr>li_timestamp = ts, li_ttl = 0, li_local_deletion_time = i32_MAX\<rparr>"

definition with_ttl :: "i64 \<Rightarrow> i32 \<Rightarrow> i32 \<Rightarrow> liveness_info" where
  "with_ttl ts ttl ldt = \<lparr>li_timestamp = ts, li_ttl = ttl, li_local_deletion_time = ldt\<rparr>"

definition has_timestamp :: "liveness_info \<Rightarrow> bool" where
  "has_timestamp l \<longleftrightarrow> li_timestamp l \<noteq> i64_MIN"

definition has_ttl :: "liveness_info \<Rightarrow> bool" where
  "has_ttl l \<longleftrightarrow> li_ttl l \<noteq> 0"

type_synonym column_cell = "u16 \<times> cell_value"

record row =
  row_clustering :: bytes
  row_cells :: "column_cell list"
  row_deletion :: deletion_time
  primary_key_liveness :: liveness_info

record partition =
  pt_key :: decorated_key
  pt_deletion :: deletion_time
  pt_static_row :: "row option"
  pt_rows :: "row list"

text \<open>Visibility of a row at read time: an expired primary-key marker hides the row unless a cell is
  still live, and a row deletion hides it unless newer liveness or a newer cell supersedes it.\<close>

definition ldt_expired :: "i32 \<Rightarrow> i32 \<Rightarrow> bool" where
  "ldt_expired now_secs ldt \<longleftrightarrow> ldt \<noteq> i32_MAX \<and> now_secs \<ge> ldt"

definition is_visible_at :: "row \<Rightarrow> i32 \<Rightarrow> bool" where
  "is_visible_at r now_secs =
     (if has_ttl (primary_key_liveness r)
         \<and> ldt_expired now_secs (li_local_deletion_time (primary_key_liveness r))
         \<and> \<not> list_ex (\<lambda>(_, c). \<not> (is_tombstone c \<or> is_expiring c \<and> ldt_expired now_secs (cv_local_deletion_time c)))
               (row_cells r)
      then False
      else deletion_is_live (row_deletion r)
         \<or> li_timestamp (primary_key_liveness r) > marked_for_delete_at (row_deletion r)
         \<or> list_ex (\<lambda>(_, c). cv_timestamp c > marked_for_delete_at (row_deletion r)) (row_cells r))"

lemmas row_data_defs = LIVE_def deletion_time_new_def deletion_is_live_def liveness_NONE_def
  with_timestamp_def with_ttl_def has_timestamp_def has_ttl_def

section \<open>Order of cells and rows\<close>

definition cell_key :: "column_cell \<Rightarrow> u16 \<times> bytes option" where
  "cell_key cc = (fst cc, cv_path (snd cc))"

definition row_wf :: "row \<Rightarrow> bool" where
  "row_wf r \<longleftrightarrow> sorted_wrt (<) (map cell_key (row_cells r))"

definition rows_ascend :: "row list \<Rightarrow> bool" where
  "rows_ascend rs \<longleftrightarrow> sorted_wrt (<) (map row_clustering rs)"

definition partition_wf :: "partition \<Rightarrow> bool" where
  "partition_wf p \<longleftrightarrow> rows_ascend (pt_rows p) \<and> list_all row_wf (pt_rows p)
     \<and> pred_option row_wf (pt_static_row p)"

lemma deletion_is_live_iff: "deletion_is_live d \<longleftrightarrow> d = LIVE"
  by (cases d) (simp add: deletion_is_live_def LIVE_def)

lemma rows_ascend_filter: "rows_ascend rs \<Longrightarrow> rows_ascend (filter P rs)"
  by (simp add: rows_ascend_def sorted_wrt_map sorted_wrt_filter)

lemma row_wf_filter: "row_wf r \<Longrightarrow> row_wf (r\<lparr>row_cells := filter P (row_cells r)\<rparr>)"
  by (simp add: row_wf_def sorted_wrt_map sorted_wrt_filter)

text \<open>In a well-formed partition a clustering names at most one row.\<close>

lemma rows_ascend_group:
  assumes "rows_ascend rs"
  shows "filter (\<lambda>r. row_clustering r = k) rs = [] \<or> (\<exists>r. filter (\<lambda>r. row_clustering r = k) rs = [r])"
proof -
  have "distinct (map row_clustering (filter (\<lambda>r. row_clustering r = k) rs))"
    using rows_ascend_filter [OF assms] by (simp add: rows_ascend_def strict_sorted_iff)
  moreover have "set (map row_clustering (filter (\<lambda>r. row_clustering r = k) rs)) \<subseteq> {k}" by auto
  ultimately show ?thesis
    by (cases "filter (\<lambda>r. row_clustering r = k) rs" rule: remdups_adj.cases) auto
qed

end
