(* ===== verification/Merge.thy ===== *)
theory Merge
  imports Row
begin

text \<open>
  Merging the versions of a partition held by several SSTables, memtables or replicas (crate
  \<open>ferrosa-storage\<close>: \<open>merge.rs\<close>).

  \<^item> \<open>merge_rows\<close> folds two versions of a row cell by cell; \<open>sort_and_fold_rows\<close> collects the rows of
    all sources; \<open>merge_partition_metadata\<close> composes them with the partition deletion and the static row
    (\<open>None\<close> is the panic on an empty source list).
  \<^item> \<open>apply_deletions\<close> suppresses what deletion markers cover; \<open>apply_table_deletion\<close> and
    \<open>reclaim_covers_table\<close> do so for a TRUNCATE watermark.

  Rows of one clustering are joinable replica states (interpretations \<open>colcells\<close> and \<open>rowvs\<close> of
  \<open>keyed_join\<close>), which gives the lemmas their shape: the merge depends only on the set of sources, a
  merged cell is the greatest of all source cells, and merging in groups is merging at once.
\<close>

section \<open>Merging rows\<close>

definition cell_supersedes :: "cell_value \<Rightarrow> cell_value \<Rightarrow> bool" where
  "cell_supersedes cand cur = is_gt (reconcile_cmp cand cur)"

text \<open>The closure given to \<open>dedup_by\<close>: same column and path are folded, the superseding value is
  swapped into the earlier slot.\<close>

definition dedup_cell :: "column_cell \<Rightarrow> column_cell \<Rightarrow> column_cell option" where
  "dedup_cell later earlier =
     (if fst later \<noteq> fst earlier \<or> cv_path (snd later) \<noteq> cv_path (snd earlier) then None
      else Some (if cell_supersedes (snd later) (snd earlier) then (fst earlier, snd later) else earlier))"

definition merge_rows_into :: "row \<Rightarrow> row \<Rightarrow> row" where
  "merge_rows_into a b =
     (let a = (if marked_for_delete_at (row_deletion b) > marked_for_delete_at (row_deletion a)
               then a\<lparr>row_deletion := row_deletion b\<rparr> else a);
          a = (if li_timestamp (primary_key_liveness b) > li_timestamp (primary_key_liveness a)
               then a\<lparr>primary_key_liveness := primary_key_liveness b\<rparr> else a);
          a = a\<lparr>row_cells := row_cells a @ row_cells b\<rparr>;
          a = a\<lparr>row_cells := sort_key (\<lambda>(c, v). (c, cv_path v)) (row_cells a)\<rparr>
      in a\<lparr>row_cells := dedup_by dedup_cell (row_cells a)\<rparr>)"

definition merge_rows :: "row \<Rightarrow> row \<Rightarrow> row" where
  "merge_rows a b = merge_rows_into a b"

definition dedup_row :: "row \<Rightarrow> row \<Rightarrow> row option" where
  "dedup_row later earlier =
     (if row_clustering later \<noteq> row_clustering earlier then None
      else Some (merge_rows_into earlier later))"

definition sort_and_fold_rows :: "row list \<Rightarrow> row list" where
  "sort_and_fold_rows rows = dedup_by dedup_row (sort_key row_clustering rows)"

definition ensure_partition_rows_sorted :: "partition \<Rightarrow> partition" where
  "ensure_partition_rows_sorted p =
     (if sorted_wrt (\<lambda>a b. row_clustering a \<le> row_clustering b) (pt_rows p) then p
      else p\<lparr>pt_rows := sort_and_fold_rows (pt_rows p)\<rparr>)"

section \<open>Deletion suppression\<close>

definition suppress_static :: "i64 \<Rightarrow> row option \<Rightarrow> row option" where
  "suppress_static delete_at sr =
     (case sr of
        None \<Rightarrow> None
      | Some r \<Rightarrow>
          (let r = r\<lparr>row_cells := filter (\<lambda>(_, c). cv_timestamp c \<ge> delete_at) (row_cells r)\<rparr>
           in if row_cells r = [] then None else Some r))"

definition suppress_row :: "row \<Rightarrow> row" where
  "suppress_row r =
     (if \<not> deletion_is_live (row_deletion r)
      then r\<lparr>row_cells := filter (\<lambda>(_, c). cv_timestamp c \<ge> marked_for_delete_at (row_deletion r)) (row_cells r)\<rparr>
      else r)"

definition apply_deletions :: "partition \<Rightarrow> partition" where
  "apply_deletions p =
     (let at = marked_for_delete_at (pt_deletion p);
          p = (if \<not> deletion_is_live (pt_deletion p)
               then p\<lparr>pt_rows := filter (\<lambda>r. li_timestamp (primary_key_liveness r) \<ge> at) (pt_rows p),
                      pt_static_row := suppress_static at (pt_static_row p)\<rparr>
               else p)
      in p\<lparr>pt_rows := map suppress_row (pt_rows p)\<rparr>)"

definition apply_table_deletion :: "partition \<Rightarrow> deletion_time \<Rightarrow> partition" where
  "apply_table_deletion p table_delete =
     apply_deletions
       (if \<not> deletion_is_live table_delete
           \<and> marked_for_delete_at table_delete > marked_for_delete_at (pt_deletion p)
        then p\<lparr>pt_deletion := table_delete\<rparr> else p)"

definition reclaim_covers_table :: "partition \<Rightarrow> deletion_time \<Rightarrow> partition" where
  "reclaim_covers_table p table_delete =
     (if deletion_is_live table_delete then p
      else p\<lparr>pt_rows := filter (\<lambda>r. li_timestamp (primary_key_liveness r) \<ge> marked_for_delete_at table_delete) (pt_rows p),
             pt_static_row := suppress_static (marked_for_delete_at table_delete) (pt_static_row p)\<rparr>)"

section \<open>Merging partitions\<close>

definition merge_source :: "partition \<Rightarrow> partition \<Rightarrow> partition" where
  "merge_source acc source =
     acc\<lparr>pt_deletion :=
           (if marked_for_delete_at (pt_deletion source) > marked_for_delete_at (pt_deletion acc)
            then pt_deletion source else pt_deletion acc),
         pt_static_row :=
           (case (pt_static_row acc, pt_static_row source) of
              (None, None) \<Rightarrow> None
            | (Some r, None) \<Rightarrow> Some r
            | (None, Some r) \<Rightarrow> Some r
            | (Some a, Some b) \<Rightarrow> Some (merge_rows a b)),
         pt_rows := pt_rows acc @ pt_rows source\<rparr>"

fun merge_partition_metadata :: "partition list \<Rightarrow> bool \<Rightarrow> partition option" where
  "merge_partition_metadata [] suppress_deletions = None"
| "merge_partition_metadata [p] suppress_deletions =
     Some (if suppress_deletions then apply_deletions p else p)"
| "merge_partition_metadata (p # q # ps) suppress_deletions =
     (let acc = foldl merge_source p (q # ps);
          result = acc\<lparr>pt_rows := sort_and_fold_rows (pt_rows acc)\<rparr>
      in Some (if suppress_deletions then apply_deletions result else result))"

definition merge_partitions :: "partition list \<Rightarrow> partition option" where
  "merge_partitions sources = merge_partition_metadata sources True"

definition merge_projection_metadata :: "partition list \<Rightarrow> partition option" where
  "merge_projection_metadata sources = merge_partition_metadata sources False"

section \<open>The join structure of rows\<close>

text \<open>Deletion markers and liveness are taken from the strictly newer side, which is a join when equal
  timestamps carry equal markers.\<close>

definition newest :: "('a \<Rightarrow> 'k::linorder) \<Rightarrow> 'a \<Rightarrow> 'a \<Rightarrow> 'a" where
  "newest ts a b = (if ts b > ts a then b else a)"

lemma join_newest: "join_semilattice (inj_on ts) (newest ts)"
proof unfold_locales
  fix A a b
  assume "inj_on ts A" "a \<in> A" "b \<in> A"
  moreover have "newest ts a b \<in> {a, b}" by (simp add: newest_def)
  then have "insert (newest ts a b) A = A" using \<open>a \<in> A\<close> \<open>b \<in> A\<close> by auto
  ultimately show "inj_on ts (insert (newest ts a b) A)" by simp
qed (auto simp: newest_def inj_on_def)

interpretation dels: join_semilattice "inj_on marked_for_delete_at" "newest marked_for_delete_at"
  by (rule join_newest)

interpretation lives: join_semilattice "inj_on li_timestamp" "newest li_timestamp"
  by (rule join_newest)

definition join_cell :: "column_cell \<Rightarrow> column_cell \<Rightarrow> column_cell" where
  "join_cell x y = (if cell_key y = cell_key x \<and> cell_supersedes (snd y) (snd x) then y else x)"

lemma dedup_cell_eq: "dedup_cell = fold_same cell_key join_cell"
  by (intro ext) (auto simp: dedup_cell_def fold_same_def join_cell_def cell_key_def prod_eq_iff)

lemma join_cell_same_key:
  assumes "cell_key x = cell_key y"
  shows "join_cell x y = (fst x, reconcile (snd x) (snd y))"
proof -
  have "join_cell x y = (fst x, reconcile (snd y) (snd x))"
    using assms by (auto simp: join_cell_def cell_supersedes_def reconcile_def reconcile_ref_def
        cell_key_def prod_eq_iff)
  then show ?thesis by (simp add: reconcile_winner rec.winner_commute)
qed

definition one_cell_key :: "column_cell set \<Rightarrow> bool" where
  "one_cell_key S \<longleftrightarrow> (\<exists>k. \<forall>x \<in> S. cell_key x = k)"

lemma join_cell_key: "cell_key (join_cell a b) = cell_key a"
  by (simp add: join_cell_def)

lemma join_cell_assoc:
  assumes "cell_key a = k" "cell_key b = k" "cell_key c = k"
  shows "join_cell (join_cell a b) c = join_cell a (join_cell b c)"
proof -
  have "join_cell (join_cell a b) c = (fst (join_cell a b), reconcile (snd (join_cell a b)) (snd c))"
    "join_cell a (join_cell b c) = (fst a, reconcile (snd a) (snd (join_cell b c)))"
    using assms by (intro join_cell_same_key; simp add: join_cell_key)+
  then show ?thesis
    using assms cells.join_assoc [of "snd a" "snd b" "snd c"]
    by (simp only: join_cell_same_key [of a b] join_cell_same_key [of b c] fst_conv snd_conv)
qed

interpretation colcells: keyed_join one_cell_key join_cell cell_key
proof unfold_locales
  fix a b c :: column_cell and A B
  show "cell_key (join_cell a b) = cell_key a" by (rule join_cell_key)
  show "one_cell_key A \<Longrightarrow> B \<subseteq> A \<Longrightarrow> one_cell_key B" by (auto simp: one_cell_key_def)
  show "one_cell_key A \<Longrightarrow> a \<in> A \<Longrightarrow> b \<in> A \<Longrightarrow> one_cell_key (insert (join_cell a b) A)"
    by (auto simp: one_cell_key_def join_cell_key)
  show "join_cell a a = a" by (simp add: join_cell_def)
  show "one_cell_key {a, b} \<Longrightarrow> join_cell a b = join_cell b a"
    using cells.join_commute [of "snd a" "snd b"]
    by (auto simp: one_cell_key_def join_cell_same_key) (auto simp: cell_key_def)
  show "one_cell_key {a, b, c} \<Longrightarrow> join_cell (join_cell a b) c = join_cell a (join_cell b c)"
    by (auto simp: one_cell_key_def intro: join_cell_assoc)
qed

lemma colcells_groups [simp]: "colcells.groups_valid A"
  by (auto simp: colcells.groups_valid_def one_cell_key_def)

abbreviation fold_cells :: "column_cell list \<Rightarrow> column_cell list" where
  "fold_cells \<equiv> sort_fold cell_key join_cell"

lemma merge_rows_eq:
  "merge_rows a b =
     \<lparr>row_clustering = row_clustering a,
      row_cells = fold_cells (row_cells a @ row_cells b),
      row_deletion = newest marked_for_delete_at (row_deletion a) (row_deletion b),
      primary_key_liveness = newest li_timestamp (primary_key_liveness a) (primary_key_liveness b)\<rparr>"
proof -
  have k: "(\<lambda>(c, v). (c, cv_path v)) = cell_key" by (auto simp: cell_key_def)
  show ?thesis
    by (simp add: merge_rows_def merge_rows_into_def newest_def sort_fold_def dedup_cell_eq Let_def k)
qed

text \<open>Versions of a row that may be merged in any order: one clustering, cells in order, deletion
  timestamps in range, and markers that agree when their timestamps do.\<close>

definition rows_valid :: "row set \<Rightarrow> bool" where
  "rows_valid S \<longleftrightarrow> (\<exists>k. \<forall>r \<in> S. row_clustering r = k) \<and> (\<forall>r \<in> S. row_wf r \<and> is_i64 (marked_for_delete_at (row_deletion r)))
     \<and> inj_on marked_for_delete_at (row_deletion ` S) \<and> inj_on li_timestamp (primary_key_liveness ` S)"

lemma rows_validD:
  assumes "rows_valid S"
  shows "\<exists>k. \<forall>r \<in> S. row_clustering r = k"
    "\<forall>r \<in> S. row_wf r \<and> is_i64 (marked_for_delete_at (row_deletion r))"
    "inj_on marked_for_delete_at (row_deletion ` S)" "inj_on li_timestamp (primary_key_liveness ` S)"
  using assms by (simp_all add: rows_valid_def)

lemma rows_valid_merge:
  assumes "rows_valid A" "a \<in> A" "b \<in> A"
  shows "rows_valid (insert (merge_rows a b) A)"
proof -
  note v = rows_validD [OF assms(1)]
  have "inj_on marked_for_delete_at (row_deletion ` insert (merge_rows a b) A)"
    using dels.valid_join [OF v(3) imageI imageI, OF assms(2,3)]
    by (simp add: merge_rows_eq del: inj_on_insert)
  moreover have "inj_on li_timestamp (primary_key_liveness ` insert (merge_rows a b) A)"
    using lives.valid_join [OF v(4) imageI imageI, OF assms(2,3)]
    by (simp add: merge_rows_eq del: inj_on_insert)
  moreover have "row_wf (merge_rows a b)"
    using colcells.sort_fold_strict by (simp add: merge_rows_eq row_wf_def)
  moreover have "is_i64 (marked_for_delete_at (row_deletion (merge_rows a b)))"
    using v(2) assms(2,3) by (simp add: merge_rows_eq newest_def)
  moreover have "\<exists>k. \<forall>r \<in> insert (merge_rows a b) A. row_clustering r = k"
    using v(1) assms(2) by (auto simp: merge_rows_eq)
  ultimately show ?thesis using v(2) by (simp add: rows_valid_def)
qed

interpretation rowvs: keyed_join rows_valid merge_rows row_clustering
proof unfold_locales
  fix a b c :: row and A B
  show "row_clustering (merge_rows a b) = row_clustering a" by (simp add: merge_rows_eq)
  show "rows_valid B" if "rows_valid A" "B \<subseteq> A"
    using rows_validD [OF that(1)] that(2)
      inj_on_subset [OF rows_validD(3) [OF that(1)] image_mono [OF that(2)]]
      inj_on_subset [OF rows_validD(4) [OF that(1)] image_mono [OF that(2)]]
    by (auto simp: rows_valid_def subset_iff)
  show "rows_valid A \<Longrightarrow> a \<in> A \<Longrightarrow> b \<in> A \<Longrightarrow> rows_valid (insert (merge_rows a b) A)"
    by (rule rows_valid_merge)
  show "merge_rows a a = a" if "rows_valid {a}"
    using colcells.sort_fold_set [of "row_cells a @ row_cells a" "row_cells a"] rows_validD(2) [OF that]
    by (simp add: merge_rows_eq row_wf_def colcells.sort_fold_id newest_def)
  show "merge_rows a b = merge_rows b a" if "rows_valid {a, b}"
    using colcells.sort_fold_set [of "row_cells a @ row_cells b" "row_cells b @ row_cells a"]
      rows_validD [OF that] dels.join_commute [of "row_deletion a" "row_deletion b"]
      lives.join_commute [of "primary_key_liveness a" "primary_key_liveness b"]
    by (auto simp: merge_rows_eq Un_commute)
  show "merge_rows (merge_rows a b) c = merge_rows a (merge_rows b c)" if "rows_valid {a, b, c}"
    using rows_validD [OF that] dels.join_assoc [of "row_deletion a" "row_deletion b" "row_deletion c"]
      lives.join_assoc [of "primary_key_liveness a" "primary_key_liveness b" "primary_key_liveness c"]
    by (simp add: merge_rows_eq colcells.sort_fold_append_left colcells.sort_fold_append_right)
qed

lemma sort_and_fold_rows_eq: "sort_and_fold_rows = sort_fold row_clustering merge_rows"
proof -
  have "dedup_row = fold_same row_clustering merge_rows"
    by (intro ext) (auto simp: dedup_row_def fold_same_def merge_rows_def)
  then show ?thesis by (intro ext) (simp add: sort_and_fold_rows_def sort_fold_def)
qed

section \<open>The join structure of partitions\<close>

text \<open>Absent values are the neutral element of a lifted join.\<close>

lemma join_option:
  assumes "join_semilattice valid join"
  shows "join_semilattice (\<lambda>S. valid (Option.these S)) (combine_options join)"
proof -
  note j = join_semilattice.valid_mono [OF assms] join_semilattice.valid_join [OF assms]
    join_semilattice.join_idem [OF assms] join_semilattice.join_commute [OF assms]
    join_semilattice.join_assoc [OF assms]
  show ?thesis
  proof unfold_locales
    fix A B :: "'a option set"
    show "valid (Option.these A) \<Longrightarrow> B \<subseteq> A \<Longrightarrow> valid (Option.these B)"
      by (rule j(1) [of "Option.these A"]) (auto simp: in_these_eq)
  next
    fix a b :: "'a option" and A
    assume "valid (Option.these A)" "a \<in> A" "b \<in> A"
    then show "valid (Option.these (insert (combine_options join a b) A))"
      by (cases a; cases b) (simp_all add: insert_absorb in_these_eq j(2))
  next
    fix a b c :: "'a option"
    show "valid (Option.these {a}) \<Longrightarrow> combine_options join a a = a"
      by (cases a) (simp_all add: j(3))
    show "valid (Option.these {a, b}) \<Longrightarrow> combine_options join a b = combine_options join b a"
      by (cases a; cases b) (simp_all, rule j(4))
    show "valid (Option.these {a, b, c}) \<Longrightarrow>
        combine_options join (combine_options join a b) c = combine_options join a (combine_options join b c)"
      by (cases a; cases b; cases c) (simp_all add: j(5))
  qed
qed

interpretation statics: join_semilattice "\<lambda>S. rows_valid (Option.these S)" "combine_options merge_rows"
  by (rule join_option) (rule rowvs.join_semilattice_axioms)

text \<open>The two-source merge without suppression, and the sources it is a join on.\<close>

definition join_partitions :: "partition \<Rightarrow> partition \<Rightarrow> partition" where
  "join_partitions p q =
     \<lparr>pt_key = pt_key p,
      pt_deletion = newest marked_for_delete_at (pt_deletion p) (pt_deletion q),
      pt_static_row = combine_options merge_rows (pt_static_row p) (pt_static_row q),
      pt_rows = sort_fold row_clustering merge_rows (pt_rows p @ pt_rows q)\<rparr>"

definition all_rows :: "partition set \<Rightarrow> row set" where
  "all_rows P = (\<Union>p \<in> P. set (pt_rows p))"

definition static_row_ok :: "row \<Rightarrow> bool" where
  "static_row_ok r \<longleftrightarrow> row_clustering r = [] \<and> row_deletion r = LIVE \<and> primary_key_liveness r = liveness_NONE"

definition source_ok :: "partition \<Rightarrow> bool" where
  "source_ok p \<longleftrightarrow> rows_ascend (pt_rows p) \<and> is_i64 (marked_for_delete_at (pt_deletion p))
     \<and> pred_option static_row_ok (pt_static_row p)"

definition partitions_valid :: "partition set \<Rightarrow> bool" where
  "partitions_valid P \<longleftrightarrow> (\<exists>k. \<forall>p \<in> P. pt_key p = k) \<and> (\<forall>p \<in> P. source_ok p)
     \<and> inj_on marked_for_delete_at (pt_deletion ` P)
     \<and> rows_valid (Option.these (pt_static_row ` P)) \<and> rowvs.groups_valid (all_rows P)"

lemma partitions_validD:
  assumes "partitions_valid P"
  shows "\<exists>k. \<forall>p \<in> P. pt_key p = k" "\<forall>p \<in> P. source_ok p"
    "inj_on marked_for_delete_at (pt_deletion ` P)" "rows_valid (Option.these (pt_static_row ` P))"
    "rowvs.groups_valid (all_rows P)"
  using assms by (simp_all add: partitions_valid_def)

lemma merge_source_eq:
  "merge_source p q = p\<lparr>pt_deletion := newest marked_for_delete_at (pt_deletion p) (pt_deletion q),
     pt_static_row := combine_options merge_rows (pt_static_row p) (pt_static_row q),
     pt_rows := pt_rows p @ pt_rows q\<rparr>"
  by (auto simp: merge_source_def newest_def split: option.split)

lemma join_partitions_fold:
  "join_partitions (p\<lparr>pt_rows := sort_fold row_clustering merge_rows (pt_rows p)\<rparr>) q
     = (merge_source p q)\<lparr>pt_rows := sort_fold row_clustering merge_rows (pt_rows (merge_source p q))\<rparr>"
  by (simp add: join_partitions_def merge_source_eq rowvs.sort_fold_append_left)

lemma foldl_merge_source:
  "(foldl merge_source p qs)\<lparr>pt_rows := sort_fold row_clustering merge_rows (pt_rows (foldl merge_source p qs))\<rparr>
     = foldl join_partitions (p\<lparr>pt_rows := sort_fold row_clustering merge_rows (pt_rows p)\<rparr>) qs"
proof (induction qs arbitrary: p)
  case (Cons q qs)
  show ?case by (simp only: foldl_Cons Cons.IH join_partitions_fold)
qed simp

text \<open>On sources whose rows ascend, the merge is the fold of two-source merges.\<close>

lemma merge_metadata_eq:
  assumes "rows_ascend (pt_rows p)"
  shows "merge_partition_metadata (p # ps) s
    = Some ((if s then apply_deletions else id) (foldl join_partitions p ps))"
proof (cases ps)
  case (Cons q qs)
  have "p\<lparr>pt_rows := sort_fold row_clustering merge_rows (pt_rows p)\<rparr> = p"
    using assms by (simp add: rows_ascend_def rowvs.sort_fold_id)
  then show ?thesis
    using foldl_merge_source [of p ps] by (simp add: Cons sort_and_fold_rows_eq Let_def)
qed simp

lemma all_rows_insert: "all_rows (insert p P) = set (pt_rows p) \<union> all_rows P"
  by (simp add: all_rows_def)

lemma join_source_ok: "source_ok p \<Longrightarrow> source_ok q \<Longrightarrow> source_ok (join_partitions p q)"
  by (cases "pt_static_row p"; cases "pt_static_row q")
    (simp_all add: source_ok_def join_partitions_def rows_ascend_def rowvs.sort_fold_strict newest_def
      static_row_ok_def merge_rows_eq)

lemma partitions_valid_join:
  assumes "partitions_valid A" "p \<in> A" "q \<in> A"
  shows "partitions_valid (insert (join_partitions p q) A)"
proof -
  note v = partitions_validD [OF assms(1)]
  have "\<exists>k. \<forall>r \<in> insert (join_partitions p q) A. pt_key r = k"
    using v(1) assms(2) by (auto simp: join_partitions_def)
  moreover have "inj_on marked_for_delete_at (pt_deletion ` insert (join_partitions p q) A)"
    using dels.valid_join [OF v(3) imageI imageI, OF assms(2,3)]
    by (simp add: join_partitions_def del: inj_on_insert)
  moreover have "rows_valid (Option.these (pt_static_row ` insert (join_partitions p q) A))"
    using statics.valid_join [OF v(4) imageI imageI, OF assms(2,3)]
    by (simp add: join_partitions_def)
  moreover have "rowvs.groups_valid (all_rows (insert (join_partitions p q) A))"
    unfolding all_rows_insert join_partitions_def using assms(2,3)
    by (simp, intro rowvs.groups_valid_sort_fold [OF v(5)]) (auto simp: all_rows_def)
  moreover have "source_ok (join_partitions p q)"
    using v(2) assms(2,3) by (intro join_source_ok) auto
  ultimately show ?thesis using v(2) by (simp add: partitions_valid_def)
qed

lemma partitions_valid_mono:
  assumes "partitions_valid A" "B \<subseteq> A"
  shows "partitions_valid B"
proof -
  note v = partitions_validD [OF assms(1)]
  have "rows_valid (Option.these (pt_static_row ` B))"
    by (rule statics.valid_mono [OF v(4) image_mono [OF assms(2)]])
  moreover have "rowvs.groups_valid (all_rows B)"
    using assms(2) by (intro rowvs.groups_valid_mono [OF v(5)]) (auto simp: all_rows_def)
  moreover have "inj_on marked_for_delete_at (pt_deletion ` B)"
    by (rule inj_on_subset [OF v(3) image_mono [OF assms(2)]])
  ultimately show ?thesis using v(1,2) assms(2) by (auto simp: partitions_valid_def subset_iff)
qed

interpretation parts: join_semilattice partitions_valid join_partitions
proof unfold_locales
  fix a b c :: partition
  show "join_partitions a a = a" if "partitions_valid {a}"
    using partitions_validD [OF that] dels.join_idem [of "pt_deletion a"]
      statics.join_idem [of "pt_static_row a"]
      rowvs.sort_fold_set [of "pt_rows a @ pt_rows a" "pt_rows a"]
    by (simp add: join_partitions_def source_ok_def rowvs.sort_fold_id rows_ascend_def all_rows_def)
  show "join_partitions a b = join_partitions b a" if "partitions_valid {a, b}"
    using partitions_validD [OF that] dels.join_commute [of "pt_deletion a" "pt_deletion b"]
      statics.join_commute [of "pt_static_row a" "pt_static_row b"]
      rowvs.sort_fold_set [of "pt_rows a @ pt_rows b" "pt_rows b @ pt_rows a"]
    by (auto simp: join_partitions_def all_rows_def Un_commute)
  show "join_partitions (join_partitions a b) c = join_partitions a (join_partitions b c)"
    if "partitions_valid {a, b, c}"
    using partitions_validD [OF that] dels.join_assoc [of "pt_deletion a" "pt_deletion b" "pt_deletion c"]
      statics.join_assoc [of "pt_static_row a" "pt_static_row b" "pt_static_row c"]
      rowvs.sort_fold_append_right [of "pt_rows a" "pt_rows b @ pt_rows c"]
    by (auto simp: join_partitions_def all_rows_def rowvs.sort_fold_append_left Un_assoc)
qed (rule partitions_valid_join partitions_valid_mono; assumption)+

section \<open>Merged cells are the greatest source cells\<close>

lemma foldl_join_cell_best:
  "\<forall>y \<in> set ys. cell_key y = cell_key x \<Longrightarrow>
   fst (foldl join_cell x ys) = fst x \<and> best_cell (snd ` insert x (set ys)) (snd (foldl join_cell x ys))"
proof (induction ys rule: rev_induct)
  case Nil
  then show ?case by (simp add: best_cell_def)
next
  case (snoc y ys)
  let ?F = "foldl join_cell x ys"
  have "cell_key ?F = cell_key y"
    using snoc.prems foldl_key [of cell_key join_cell x ys] by (simp add: join_cell_key)
  then have "join_cell ?F y = (fst ?F, reconcile (snd ?F) (snd y))" by (rule join_cell_same_key)
  moreover have "best_cell (insert (snd y) (snd ` insert x (set ys))) (reconcile (snd ?F) (snd y))"
    using snoc best_cell_insert [where m = "Some (snd ?F)" and d = "snd y"] by simp
  ultimately show ?case using snoc by (simp add: insert_commute)
qed

lemma fold_cells_mem:
  "(c, v) \<in> set (fold_cells xs) \<longleftrightarrow> best_cell {w. (c, w) \<in> set xs \<and> cv_path w = cv_path v} v"
proof -
  let ?f = "filter (\<lambda>x. cell_key x = (c, cv_path v))"
  have "(c, v) \<in> set (fold_cells xs) \<longleftrightarrow> (c, v) \<in> set (?f (fold_cells xs))" by (simp add: cell_key_def)
  also have "\<dots> \<longleftrightarrow> (c, v) \<in> set (fold1 join_cell (?f xs))" by (simp only: colcells.sort_fold_group)
  also have "\<dots> \<longleftrightarrow> best_cell {w. (c, w) \<in> set xs \<and> cv_path w = cv_path v} v"
  proof (cases "?f xs")
    case Nil
    then show ?thesis by (auto simp: filter_empty_conv cell_key_def best_cell_def)
  next
    case (Cons y ys)
    have s: "set (y # ys) = {x \<in> set xs. cell_key x = (c, cv_path v)}" by (simp flip: Cons)
    then have "\<forall>z \<in> set (y # ys). cell_key z = (c, cv_path v)" unfolding s by simp
    then have k: "\<forall>z \<in> set ys. cell_key z = cell_key y" "fst y = c"
      by (simp_all add: cell_key_def)
    have "snd ` insert y (set ys) = {w. (c, w) \<in> set xs \<and> cv_path w = cv_path v}"
      using s by (force simp: cell_key_def image_iff)
    with foldl_join_cell_best [OF k(1)] k(2)
    have "fst (foldl join_cell y ys) = c"
      "best_cell {w. (c, w) \<in> set xs \<and> cv_path w = cv_path v} (snd (foldl join_cell y ys))" by simp_all
    then show ?thesis unfolding Cons by (auto simp: prod_eq_iff dest: best_cell_unique)
  qed
  finally show ?thesis .
qed

lemma foldl_merge_rows_cells:
  "row_wf r \<Longrightarrow> row_cells (foldl merge_rows r rs) = fold_cells (concat (map row_cells (r # rs)))"
proof (induction rs rule: rev_induct)
  case Nil
  then show ?case by (simp add: row_wf_def colcells.sort_fold_id)
next
  case (snoc s rs)
  then show ?case
    using colcells.sort_fold_append_left [of "concat (map row_cells (r # rs))" "row_cells s"]
    by (simp add: merge_rows_eq)
qed

definition cell_in :: "row set \<Rightarrow> bytes \<Rightarrow> u16 \<Rightarrow> cell_value \<Rightarrow> bool" where
  "cell_in R ck col v \<longleftrightarrow> (\<exists>r \<in> R. row_clustering r = ck \<and> (col, v) \<in> set (row_cells r))"

lemma folded_rows_cells:
  assumes "\<forall>r \<in> set rs. row_wf r"
  shows "cell_in (set (sort_fold row_clustering merge_rows rs)) ck col v
    \<longleftrightarrow> best_cell {w. cell_in (set rs) ck col w \<and> cv_path w = cv_path v} v"
proof -
  let ?f = "filter (\<lambda>r. row_clustering r = ck)"
  have "cell_in (set (sort_fold row_clustering merge_rows rs)) ck col v
      \<longleftrightarrow> (\<exists>r \<in> set (?f (sort_fold row_clustering merge_rows rs)). (col, v) \<in> set (row_cells r))"
    by (auto simp: cell_in_def)
  also have "\<dots> \<longleftrightarrow> (\<exists>r \<in> set (fold1 merge_rows (?f rs)). (col, v) \<in> set (row_cells r))"
    by (simp only: rowvs.sort_fold_group)
  also have "\<dots> \<longleftrightarrow> best_cell {w. cell_in (set rs) ck col w \<and> cv_path w = cv_path v} v"
  proof (cases "?f rs")
    case Nil
    then show ?thesis by (auto simp: filter_empty_conv cell_in_def best_cell_def)
  next
    case (Cons r rs')
    have s: "set (r # rs') = {x \<in> set rs. row_clustering x = ck}" by (simp flip: Cons)
    then have wf: "row_wf r" using assms by auto
    have "(col, w) \<in> set (concat (map row_cells (r # rs'))) \<longleftrightarrow> cell_in (set rs) ck col w" for w
      unfolding set_concat set_map s by (auto simp: cell_in_def)
    then show ?thesis by (simp add: Cons foldl_merge_rows_cells [OF wf] fold_cells_mem)
  qed
  finally show ?thesis .
qed

section \<open>Suppression and merging\<close>

abbreviation at_or_after :: "i64 \<Rightarrow> column_cell \<Rightarrow> bool" where
  "at_or_after t \<equiv> \<lambda>(_, c). cv_timestamp c \<ge> t"

text \<open>Dropping cells older than a deletion commutes with folding, because a dropped cell loses to
  every cell that is kept.\<close>

lemma join_cell_filter:
  assumes "cell_key x = cell_key y"
  shows "at_or_after t (join_cell x y) \<longleftrightarrow> at_or_after t x \<or> at_or_after t y"
    "at_or_after t x \<Longrightarrow> \<not> at_or_after t y \<Longrightarrow> join_cell x y = x"
    "\<not> at_or_after t x \<Longrightarrow> at_or_after t y \<Longrightarrow> join_cell x y = y"
  using assms
  by (auto simp: join_cell_def cell_supersedes_def is_gt_def reconcile_cmp_key reconcile_key_def
      split: prod.splits)

lemma fold1_filter:
  "\<forall>x \<in> set xs. cell_key x = k \<Longrightarrow>
   filter (at_or_after t) (fold1 join_cell xs) = fold1 join_cell (filter (at_or_after t) xs)"
proof (induction xs rule: rev_induct)
  case (snoc y ys)
  show ?case
  proof (cases ys)
    case (Cons z zs)
    let ?F = "foldl join_cell z zs"
    have key: "cell_key ?F = cell_key y"
      using snoc.prems Cons foldl_key [of cell_key join_cell z zs] by (simp add: join_cell_key)
    have IH: "filter (at_or_after t) [?F] = fold1 join_cell (filter (at_or_after t) ys)"
      using snoc Cons by simp
    have F: "fold1 join_cell (ys @ [y]) = [join_cell ?F y]" by (simp add: Cons)
    show ?thesis
    proof (cases "filter (at_or_after t) ys")
      case Nil
      then show ?thesis
        unfolding F filter_append using IH join_cell_filter [OF key, of t] by (simp split: if_splits)
    next
      case (Cons w ws)
      then have "at_or_after t ?F" "foldl join_cell w ws = ?F" using IH by (auto split: if_splits)
      then show ?thesis
        unfolding F filter_append Cons using join_cell_filter [OF key, of t] by simp
    qed
  qed simp
qed simp

lemma fold_cells_filter:
  "filter (at_or_after t) (fold_cells xs) = fold_cells (filter (at_or_after t) xs)"
proof (rule strict_keys_ext [of cell_key])
  show "sorted_wrt (<) (map cell_key (filter (at_or_after t) (fold_cells xs)))"
    using colcells.sort_fold_strict [of xs] by (simp add: sorted_wrt_map sorted_wrt_filter)
  show "sorted_wrt (<) (map cell_key (fold_cells (filter (at_or_after t) xs)))"
    by (rule colcells.sort_fold_strict)
  fix k
  let ?g = "filter (\<lambda>x. cell_key x = k)"
  have swap: "?g (filter (at_or_after t) ys) = filter (at_or_after t) (?g ys)" for ys
    by (simp add: conj_commute)
  show "?g (filter (at_or_after t) (fold_cells xs)) = ?g (fold_cells (filter (at_or_after t) xs))"
    unfolding swap colcells.sort_fold_group by (rule fold1_filter [where k = k]) simp
qed

lemma suppress_row_simps [simp]:
  "row_clustering (suppress_row r) = row_clustering r"
  "row_deletion (suppress_row r) = row_deletion r"
  "primary_key_liveness (suppress_row r) = primary_key_liveness r"
  by (simp_all add: suppress_row_def)

lemma suppress_row_idem: "suppress_row (suppress_row r) = suppress_row r"
  by (simp add: suppress_row_def)

lemma suppress_row_wf: "row_wf r \<Longrightarrow> row_wf (suppress_row r)"
  by (simp add: suppress_row_def row_wf_filter)

lemma newest_not_live:
  assumes "\<not> deletion_is_live d" "is_i64 (marked_for_delete_at d)"
  shows "\<not> deletion_is_live (newest marked_for_delete_at d e)"
    "marked_for_delete_at d \<le> marked_for_delete_at (newest marked_for_delete_at d e)"
  using assms by (auto simp: newest_def deletion_is_live_def is_i64_def)

lemma filter_later: "t \<le> u \<Longrightarrow> filter (at_or_after u) (filter (at_or_after t) xs) = filter (at_or_after u) xs"
  by (simp add: filter_filter) (rule filter_cong, auto)

lemma filter_later_Nil: "t \<le> u \<Longrightarrow> filter (at_or_after t) xs = [] \<Longrightarrow> filter (at_or_after u) xs = []"
  by (auto simp: filter_empty_conv)

lemma suppress_merge:
  assumes "is_i64 (marked_for_delete_at (row_deletion m))"
  shows "suppress_row (merge_rows (suppress_row m) q) = suppress_row (merge_rows m q)"
proof (cases "deletion_is_live (row_deletion m)")
  case False
  note nl = newest_not_live [OF False assms, of "row_deletion q"]
  show ?thesis
    using False nl filter_later [OF nl(2), of "row_cells m"]
    by (simp add: suppress_row_def merge_rows_eq fold_cells_filter)
qed (simp add: suppress_row_def)

text \<open>What a partition deletion keeps.\<close>

definition keeps_row :: "deletion_time \<Rightarrow> row \<Rightarrow> bool" where
  "keeps_row d r \<longleftrightarrow> deletion_is_live d \<or> li_timestamp (primary_key_liveness r) \<ge> marked_for_delete_at d"

definition keep_static :: "deletion_time \<Rightarrow> row option \<Rightarrow> row option" where
  "keep_static d sr = (if deletion_is_live d then sr else suppress_static (marked_for_delete_at d) sr)"

lemma apply_deletions_eq:
  "apply_deletions p = p\<lparr>pt_static_row := keep_static (pt_deletion p) (pt_static_row p),
     pt_rows := map suppress_row (filter (keeps_row (pt_deletion p)) (pt_rows p))\<rparr>"
  by (cases "deletion_is_live (pt_deletion p)")
    (simp_all add: apply_deletions_def keep_static_def keeps_row_def [abs_def] Let_def)

lemma apply_deletions_rows:
  "pt_rows (apply_deletions p) = map suppress_row (filter (keeps_row (pt_deletion p)) (pt_rows p))"
  by (simp add: apply_deletions_eq)

lemma apply_deletions_ascend: "rows_ascend (pt_rows p) \<Longrightarrow> rows_ascend (pt_rows (apply_deletions p))"
  by (auto simp: apply_deletions_eq rows_ascend_def comp_def sorted_wrt_map sorted_wrt_filter)

lemma keeps_row_suppress [simp]: "keeps_row d (suppress_row r) = keeps_row d r"
  by (simp add: keeps_row_def)

lemma keeps_row_newest:
  "is_i64 (marked_for_delete_at d) \<Longrightarrow> keeps_row (newest marked_for_delete_at d e) r \<Longrightarrow> keeps_row d r"
  using newest_not_live [of d e] by (cases "deletion_is_live d") (auto simp: keeps_row_def)

lemma suppress_static_None [simp]: "suppress_static t None = None"
  by (simp add: suppress_static_def)

lemma suppress_static_later:
  "t \<le> u \<Longrightarrow> suppress_static u (suppress_static t sr) = suppress_static u sr"
  using filter_later [of t u]
  by (cases sr) (auto simp: suppress_static_def Let_def filter_later_Nil)

lemma suppress_static_merge:
  assumes "t \<le> u" "static_row_ok m" "static_row_ok q" "row_wf q"
  shows "suppress_static u (combine_options merge_rows (suppress_static t (Some m)) (Some q))
    = suppress_static u (Some (merge_rows m q))"
proof (cases "filter (at_or_after t) (row_cells m) = []")
  case True
  then have "filter (at_or_after u) (row_cells m) = []" by (rule filter_later_Nil [OF assms(1)])
  moreover have "fold_cells (filter (at_or_after u) (row_cells q)) = filter (at_or_after u) (row_cells q)"
    using assms(4) by (simp add: row_wf_def colcells.sort_fold_id sorted_wrt_map sorted_wrt_filter)
  moreover have "row_clustering m = row_clustering q" "row_deletion m = row_deletion q"
    "primary_key_liveness m = primary_key_liveness q" using assms(2,3) by (simp_all add: static_row_ok_def)
  ultimately show ?thesis
    by (simp add: suppress_static_def True fold_cells_filter merge_rows_eq newest_def)
next
  case False
  then show ?thesis
    using filter_later [OF assms(1), of "row_cells m"]
    by (simp add: suppress_static_def merge_rows_eq fold_cells_filter Let_def)
qed

lemma keep_static_merge:
  assumes "is_i64 (marked_for_delete_at d)" "pred_option static_row_ok sp" "pred_option static_row_ok sq"
    "pred_option row_wf sq"
  shows "keep_static (newest marked_for_delete_at d e) (combine_options merge_rows (keep_static d sp) sq)
    = keep_static (newest marked_for_delete_at d e) (combine_options merge_rows sp sq)"
proof (cases "deletion_is_live d")
  case False
  note nl = newest_not_live [OF False assms(1), of e]
  show ?thesis
    using assms False nl suppress_static_later [OF nl(2)] suppress_static_merge [OF nl(2)]
    by (cases sp; cases sq) (simp_all add: keep_static_def)
qed (simp add: keep_static_def)

text \<open>Suppressing a deletion before a merge changes nothing after it, provided no row that the
  deletion drops is written again on the other side.\<close>

definition rewrites_dropped :: "partition \<Rightarrow> row set \<Rightarrow> bool" where
  "rewrites_dropped p R \<longleftrightarrow>
     (\<exists>r \<in> set (pt_rows p). \<not> keeps_row (pt_deletion p) r \<and> row_clustering r \<in> row_clustering ` R)"

lemma apply_group:
  "filter (\<lambda>r. row_clustering r = k) (map suppress_row (filter P rs))
     = map suppress_row (filter P (filter (\<lambda>r. row_clustering r = k) rs))"
  by (simp add: filter_map comp_def conj_commute)

lemma apply_join_rows:
  assumes "partitions_valid {p, q}" "\<not> rewrites_dropped p (set (pt_rows q))"
  shows "pt_rows (apply_deletions (join_partitions (apply_deletions p) q))
    = pt_rows (apply_deletions (join_partitions p q))"
proof (rule strict_keys_ext [of row_clustering])
  note v = partitions_validD [OF assms(1)]
  have ok: "rows_ascend (pt_rows p)" "rows_ascend (pt_rows q)" "is_i64 (marked_for_delete_at (pt_deletion p))"
    using v(2) by (simp_all add: source_ok_def)
  have asc: "rows_ascend (pt_rows (join_partitions x y))" for x y
    by (simp add: join_partitions_def rows_ascend_def rowvs.sort_fold_strict)
  show "sorted_wrt (<) (map row_clustering (pt_rows (apply_deletions (join_partitions (apply_deletions p) q))))"
    "sorted_wrt (<) (map row_clustering (pt_rows (apply_deletions (join_partitions p q))))"
    using apply_deletions_ascend [OF asc] by (simp_all add: rows_ascend_def)
  fix k
  let ?g = "filter (\<lambda>r. row_clustering r = k)"
  let ?d = "newest marked_for_delete_at (pt_deletion p) (pt_deletion q)"
  let ?p' = "map suppress_row (filter (keeps_row (pt_deletion p)) (?g (pt_rows p)))"
  have in_p: "m \<in> set (pt_rows p) \<and> row_clustering m = k" if "?g (pt_rows p) = [m]" for m
    using arg_cong [OF that, of set] by auto
  have range: "is_i64 (marked_for_delete_at (row_deletion m))" if "m \<in> set (pt_rows p)" for m
    using v(5) that
    by (auto simp: rowvs.groups_valid_def all_rows_def rows_valid_def)
  have dropped: "?g (pt_rows q) = []" if "?g (pt_rows p) = [m]" "\<not> keeps_row (pt_deletion p) m" for m
  proof -
    have "k \<notin> row_clustering ` set (pt_rows q)"
      using assms(2) that(2) in_p [OF that(1)] by (auto simp: rewrites_dropped_def)
    then show ?thesis by (auto simp: filter_empty_conv)
  qed
  have "map suppress_row (filter (keeps_row ?d) (fold1 merge_rows (?p' @ ?g (pt_rows q))))
      = map suppress_row (filter (keeps_row ?d) (fold1 merge_rows (?g (pt_rows p) @ ?g (pt_rows q))))"
  proof (cases "?g (pt_rows p) = []")
    case False
    then obtain m where m: "?g (pt_rows p) = [m]" using rows_ascend_group [OF ok(1), of k] by auto
    note r = range [OF conjunct1 [OF in_p [OF m]]]
    show ?thesis
    proof (cases "keeps_row (pt_deletion p) m")
      case True
      have "keeps_row ?d (merge_rows (suppress_row m) q') = keeps_row ?d (merge_rows m q')" for q'
        by (simp add: keeps_row_def merge_rows_eq)
      then show ?thesis
        using rows_ascend_group [OF ok(2), of k] suppress_merge [OF r] True
        by (auto simp: m suppress_row_idem)
    next
      case F: False
      then show ?thesis
        using dropped [OF m F] keeps_row_newest [OF ok(3)] by (auto simp: m)
    qed
  qed simp
  then show "?g (pt_rows (apply_deletions (join_partitions (apply_deletions p) q)))
      = ?g (pt_rows (apply_deletions (join_partitions p q)))"
    by (simp add: apply_deletions_eq apply_group join_partitions_def rowvs.sort_fold_group)
qed

lemma apply_join:
  assumes "partitions_valid {p, q}" "\<not> rewrites_dropped p (set (pt_rows q))"
  shows "apply_deletions (join_partitions (apply_deletions p) q) = apply_deletions (join_partitions p q)"
proof -
  note v = partitions_validD [OF assms(1)]
  have "pred_option row_wf (pt_static_row q)"
    using rows_validD(2) [OF v(4)] by (cases "pt_static_row q") (auto simp: in_these_eq)
  then have "keep_static (newest marked_for_delete_at (pt_deletion p) (pt_deletion q))
       (combine_options merge_rows (keep_static (pt_deletion p) (pt_static_row p)) (pt_static_row q))
    = keep_static (newest marked_for_delete_at (pt_deletion p) (pt_deletion q))
       (combine_options merge_rows (pt_static_row p) (pt_static_row q))"
    using v(2) by (intro keep_static_merge) (simp_all add: source_ok_def)
  then show ?thesis
    using apply_join_rows [OF assms] by (simp add: apply_deletions_eq join_partitions_def)
qed

lemma apply_deletions_idem: "apply_deletions (apply_deletions p) = apply_deletions p"
proof -
  have "filter (keeps_row d) (map suppress_row (filter (keeps_row d) rs)) = map suppress_row (filter (keeps_row d) rs)"
    for d rs by (simp add: filter_map comp_def)
  then show ?thesis
    by (simp add: apply_deletions_eq comp_def suppress_row_idem keep_static_def suppress_static_later)
qed

text \<open>Suppression keeps the sources mergeable.\<close>

lemma rows_valid_variants:
  assumes "rows_valid S"
    and "\<forall>r \<in> T. row_wf r \<and> (\<exists>s \<in> S. row_clustering r = row_clustering s \<and> row_deletion r = row_deletion s
      \<and> primary_key_liveness r = primary_key_liveness s)"
  shows "rows_valid (T \<union> S)"
proof -
  have im: "row_deletion ` (T \<union> S) = row_deletion ` S" "primary_key_liveness ` (T \<union> S) = primary_key_liveness ` S"
    using assms(2) by force+
  have "\<exists>k. \<forall>r \<in> T \<union> S. row_clustering r = k" using rows_validD(1) [OF assms(1)] assms(2) by (metis Un_iff)
  moreover have "\<forall>r \<in> T \<union> S. row_wf r \<and> is_i64 (marked_for_delete_at (row_deletion r))"
    using rows_validD(2) [OF assms(1)] assms(2) by (metis Un_iff)
  ultimately show ?thesis using rows_validD(3,4) [OF assms(1)] by (simp add: rows_valid_def im)
qed

lemma groups_valid_apply:
  assumes "partitions_valid A" "p \<in> A"
  shows "rowvs.groups_valid (set (pt_rows (apply_deletions p)) \<union> all_rows A)"
proof -
  have "rows_valid {x \<in> set (pt_rows (apply_deletions p)) \<union> all_rows A. row_clustering x = k}" for k
  proof -
    let ?S = "{x \<in> all_rows A. row_clustering x = k}"
    let ?T = "{x \<in> set (pt_rows (apply_deletions p)). row_clustering x = k}"
    have S: "rows_valid ?S" using partitions_validD(5) [OF assms(1)] by (simp add: rowvs.groups_valid_def)
    have "row_wf r \<and> (\<exists>s \<in> ?S. row_clustering r = row_clustering s \<and> row_deletion r = row_deletion s
        \<and> primary_key_liveness r = primary_key_liveness s)" if "r \<in> ?T" for r
    proof -
      from that obtain s where s1: "r = suppress_row s" "s \<in> set (pt_rows p)"
        by (auto simp: apply_deletions_eq)
      then have s: "r = suppress_row s" "s \<in> ?S"
        using that assms(2) by (simp_all add: all_rows_def) (rule bexI)
      then have "row_wf s" using rows_validD(2) [OF S] by blast
      then have "row_wf r" by (simp add: s(1) suppress_row_wf)
      then show ?thesis using s(2) by (intro conjI bexI [of _ s]) (simp_all add: s(1))
    qed
    then have "rows_valid (?T \<union> ?S)" by (intro rows_valid_variants [OF S] ballI)
    moreover have "{x \<in> set (pt_rows (apply_deletions p)) \<union> all_rows A. row_clustering x = k} = ?T \<union> ?S" by auto
    ultimately show ?thesis by simp
  qed
  then show ?thesis by (simp add: rowvs.groups_valid_def)
qed

lemma statics_valid_apply:
  assumes "partitions_valid A" "p \<in> A"
  shows "rows_valid (Option.these (insert (pt_static_row (apply_deletions p)) (pt_static_row ` A)))"
    "source_ok (apply_deletions p)"
proof -
  note v = partitions_validD [OF assms(1)]
  show "source_ok (apply_deletions p)"
    using v(2) assms(2) apply_deletions_ascend [of p]
    by (auto simp: source_ok_def apply_deletions_eq keep_static_def suppress_static_def static_row_ok_def
        Let_def split: option.splits)
  show "rows_valid (Option.these (insert (pt_static_row (apply_deletions p)) (pt_static_row ` A)))"
  proof (cases "pt_static_row (apply_deletions p)")
    case (Some r)
    then obtain s where s: "pt_static_row p = Some s" "row_clustering r = row_clustering s"
        "row_deletion r = row_deletion s" "primary_key_liveness r = primary_key_liveness s"
        "row_wf s \<Longrightarrow> row_wf r"
      by (auto simp: apply_deletions_eq keep_static_def suppress_static_def Let_def row_wf_filter
          split: option.splits if_splits)
    have "s \<in> Option.these (pt_static_row ` A)" using imageI [OF assms(2), of pt_static_row] by (simp add: in_these_eq s(1))
    then have "rows_valid ({r} \<union> Option.these (pt_static_row ` A))"
      using s rows_validD(2) [OF v(4)] by (intro rows_valid_variants [OF v(4)]) auto
    then show ?thesis by (simp add: Some)
  qed (simp add: v(4))
qed

lemma partitions_valid_apply:
  assumes "partitions_valid A" "p \<in> A"
  shows "partitions_valid (insert (apply_deletions p) A)"
proof -
  note v = partitions_validD [OF assms(1)]
  have same: "pt_key (apply_deletions p) = pt_key p" "pt_deletion (apply_deletions p) = pt_deletion p"
    by (simp_all add: apply_deletions_eq)
  have "pt_deletion ` insert (apply_deletions p) A = pt_deletion ` A" using assms(2) same(2) by auto
  then show ?thesis
    using v groups_valid_apply [OF assms] statics_valid_apply [OF assms] assms(2) same(1)
    by (auto simp: partitions_valid_def all_rows_insert)
qed

lemma foldl_clusterings:
  "row_clustering ` set (pt_rows (foldl join_partitions q qs)) = row_clustering ` all_rows (set (q # qs))"
  by (induction qs rule: rev_induct)
    (auto simp: join_partitions_def rowvs.sort_fold_keys image_Un all_rows_def)

section \<open>Specification of the merged view\<close>

text \<open>A cell is in the merged view when it is the greatest of the source cells at its clustering, column
  and path, no row deletion at its clustering is newer than it, and every partition deletion is at most
  as new as some liveness of its row.\<close>

definition merged_cell :: "partition list \<Rightarrow> bytes \<Rightarrow> u16 \<Rightarrow> cell_value \<Rightarrow> bool" where
  "merged_cell ps ck col v \<longleftrightarrow>
     best_cell {w. cell_in (all_rows (set ps)) ck col w \<and> cv_path w = cv_path v} v
     \<and> (\<forall>r \<in> all_rows (set ps). row_clustering r = ck \<longrightarrow>
          deletion_is_live (row_deletion r) \<or> marked_for_delete_at (row_deletion r) \<le> cv_timestamp v)
     \<and> (\<forall>p \<in> set ps. deletion_is_live (pt_deletion p) \<or>
          (\<exists>r \<in> all_rows (set ps). row_clustering r = ck
             \<and> marked_for_delete_at (pt_deletion p) \<le> li_timestamp (primary_key_liveness r)))"

lemma foldl_newest:
  "foldl (newest ts) x xs \<in> insert x (set xs)"
  "\<forall>y \<in> insert x (set xs). ts y \<le> ts (foldl (newest ts) x xs)"
  by (induction xs rule: rev_induct) (auto simp: newest_def)

text \<open>A bound that a live marker does not impose holds of the newest marker exactly when it holds of all.\<close>

lemma foldl_newest_deletion:
  assumes "\<forall>d \<in> insert x (set xs). is_i64 (marked_for_delete_at d)"
    and "inj_on marked_for_delete_at (insert x (set xs))"
  shows "(deletion_is_live (foldl (newest marked_for_delete_at) x xs)
       \<or> marked_for_delete_at (foldl (newest marked_for_delete_at) x xs) \<le> t)
    \<longleftrightarrow> (\<forall>d \<in> insert x (set xs). deletion_is_live d \<or> marked_for_delete_at d \<le> t)"
proof -
  let ?n = "foldl (newest marked_for_delete_at) x xs"
  note n = foldl_newest [where ts = marked_for_delete_at and x = x and xs = xs]
  have live: "deletion_is_live d" if "deletion_is_live ?n" "d \<in> insert x (set xs)" for d
  proof -
    have "marked_for_delete_at d \<le> marked_for_delete_at ?n" "i64_MIN \<le> marked_for_delete_at d"
      using n(2) that(2) assms(1) unfolding is_i64_def by blast+
    then have "marked_for_delete_at d = marked_for_delete_at ?n"
      using that(1) by (simp add: deletion_is_live_def)
    then have "d = ?n" using that(2) n(1) by (rule inj_onD [OF assms(2)])
    then show ?thesis using that(1) by simp
  qed
  show ?thesis
  proof
    assume "deletion_is_live ?n \<or> marked_for_delete_at ?n \<le> t"
    then show "\<forall>d \<in> insert x (set xs). deletion_is_live d \<or> marked_for_delete_at d \<le> t"
      using live n(2) by (meson order_trans)
  qed (use n(1) in blast)
qed

lemma foldl_merge_rows_markers:
  "row_deletion (foldl merge_rows r rs) = foldl (newest marked_for_delete_at) (row_deletion r) (map row_deletion rs)"
  "primary_key_liveness (foldl merge_rows r rs)
     = foldl (newest li_timestamp) (primary_key_liveness r) (map primary_key_liveness rs)"
  by (induction rs rule: rev_induct) (simp_all add: merge_rows_eq)

lemma foldl_join_partitions:
  "pt_deletion (foldl join_partitions p ps)
     = foldl (newest marked_for_delete_at) (pt_deletion p) (map pt_deletion ps)"
  "rows_ascend (pt_rows p) \<Longrightarrow>
   pt_rows (foldl join_partitions p ps) = sort_fold row_clustering merge_rows (concat (map pt_rows (p # ps)))"
proof -
  show "pt_deletion (foldl join_partitions p ps)
     = foldl (newest marked_for_delete_at) (pt_deletion p) (map pt_deletion ps)"
    by (induction ps rule: rev_induct) (simp_all add: join_partitions_def)
  assume "rows_ascend (pt_rows p)"
  then show "pt_rows (foldl join_partitions p ps) = sort_fold row_clustering merge_rows (concat (map pt_rows (p # ps)))"
  proof (induction ps rule: rev_induct)
    case (snoc q ps)
    then show ?case
      using rowvs.sort_fold_append_left [of "concat (map pt_rows (p # ps))" "pt_rows q"]
      by (simp add: join_partitions_def)
  qed (simp add: rows_ascend_def rowvs.sort_fold_id)
qed

text \<open>The conditions of the specification, read off the one merged row of a clustering.\<close>

lemma suppress_row_mem:
  "(col, v) \<in> set (row_cells (suppress_row r)) \<longleftrightarrow> (col, v) \<in> set (row_cells r)
     \<and> (deletion_is_live (row_deletion r) \<or> marked_for_delete_at (row_deletion r) \<le> cv_timestamp v)"
  by (auto simp: suppress_row_def)

lemma apply_cell_in:
  assumes "filter (\<lambda>r. row_clustering r = ck) (pt_rows p) = [m]"
  shows "cell_in (set (pt_rows (apply_deletions p))) ck col v \<longleftrightarrow>
     keeps_row (pt_deletion p) m \<and> (col, v) \<in> set (row_cells m)
     \<and> (deletion_is_live (row_deletion m) \<or> marked_for_delete_at (row_deletion m) \<le> cv_timestamp v)"
proof -
  have "cell_in (set (pt_rows (apply_deletions p))) ck col v \<longleftrightarrow>
      (\<exists>r \<in> set (filter (\<lambda>r. row_clustering r = ck) (pt_rows (apply_deletions p))). (col, v) \<in> set (row_cells r))"
    by (auto simp: cell_in_def)
  also have "\<dots> \<longleftrightarrow> (\<exists>r \<in> set (map suppress_row (filter (keeps_row (pt_deletion p)) [m])). (col, v) \<in> set (row_cells r))"
    by (simp only: apply_deletions_rows apply_group assms)
  finally show ?thesis by (auto simp: suppress_row_mem)
qed

lemma merged_row_spec:
  assumes "partitions_valid (set (p # ps))"
  shows "cell_in (set (pt_rows (apply_deletions (foldl join_partitions p ps)))) ck col v
    \<longleftrightarrow> merged_cell (p # ps) ck col v"
proof -
  let ?R = "concat (map pt_rows (p # ps))"
  let ?M = "foldl join_partitions p ps"
  let ?f = "filter (\<lambda>r. row_clustering r = ck)"
  note val = partitions_validD [OF assms]
  have R: "set ?R = all_rows (set (p # ps))" by (simp add: all_rows_def)
  have asc: "rows_ascend (pt_rows p)" using val(2) by (simp add: source_ok_def)
  have group: "?f (pt_rows ?M) = fold1 merge_rows (?f ?R)"
    unfolding foldl_join_partitions(2) [OF asc] by (rule rowvs.sort_fold_group)
  show ?thesis
  proof (cases "?f ?R")
    case Nil
    have "?f (pt_rows (apply_deletions ?M)) = []"
      unfolding apply_deletions_rows apply_group group Nil by simp
    then have "\<not> cell_in (set (pt_rows (apply_deletions ?M))) ck col v"
      by (auto simp: cell_in_def filter_empty_conv)
    moreover have "\<not> cell_in (set ?R) ck col w" for w
      using Nil by (auto simp: cell_in_def filter_empty_conv)
    ultimately show ?thesis unfolding merged_cell_def R [symmetric] by (simp add: best_cell_def)
  next
    case (Cons r rs)
    let ?m = "foldl merge_rows r rs"
    have g: "set (r # rs) = {x \<in> all_rows (set (p # ps)). row_clustering x = ck}"
      unfolding R [symmetric] by (simp only: set_filter flip: Cons)
    have rv: "rows_valid (set (r # rs))" using val(5) unfolding g by (simp add: rowvs.groups_valid_def)
    note rd = rows_validD [OF rv]
    have cells: "(col, v) \<in> set (row_cells ?m)
        \<longleftrightarrow> best_cell {w. cell_in (all_rows (set (p # ps))) ck col w \<and> cv_path w = cv_path v} v"
    proof -
      have "(col, w) \<in> set (concat (map row_cells (r # rs))) \<longleftrightarrow> cell_in (all_rows (set (p # ps))) ck col w" for w
        unfolding set_concat set_map g by (auto simp: cell_in_def)
      moreover have "row_wf r" using rd(2) by simp
      ultimately show ?thesis by (simp add: foldl_merge_rows_cells fold_cells_mem)
    qed
    have dels: "(deletion_is_live (row_deletion ?m) \<or> marked_for_delete_at (row_deletion ?m) \<le> cv_timestamp v)
        \<longleftrightarrow> (\<forall>x \<in> set (r # rs). deletion_is_live (row_deletion x) \<or> marked_for_delete_at (row_deletion x) \<le> cv_timestamp v)"
      using foldl_newest_deletion [of "row_deletion r" "map row_deletion rs"] rd(2,3)
      by (simp add: foldl_merge_rows_markers del: inj_on_insert)
    have lives: "t \<le> li_timestamp (primary_key_liveness ?m)
        \<longleftrightarrow> (\<exists>x \<in> set (r # rs). t \<le> li_timestamp (primary_key_liveness x))" for t
      using foldl_newest [where ts = li_timestamp and x = "primary_key_liveness r" and xs = "map primary_key_liveness rs"]
      unfolding foldl_merge_rows_markers by (auto intro: order_trans)
    have keeps: "keeps_row (pt_deletion ?M) ?m
        \<longleftrightarrow> (\<forall>q \<in> set (p # ps). deletion_is_live (pt_deletion q) \<or>
              marked_for_delete_at (pt_deletion q) \<le> li_timestamp (primary_key_liveness ?m))"
      using foldl_newest_deletion [of "pt_deletion p" "map pt_deletion ps"] val(2,3)
      by (simp add: keeps_row_def foldl_join_partitions(1) source_ok_def del: inj_on_insert)
    show ?thesis
      unfolding apply_cell_in [OF group [unfolded Cons fold1.simps]] cells dels keeps lives merged_cell_def g
      by blast
  qed
qed

lemma merge_partitions_fold:
  assumes "partitions_valid (set (p # ps))"
  shows "merge_partitions (p # ps) = Some (apply_deletions (foldl join_partitions p ps))"
    "merge_projection_metadata (p # ps) = Some (foldl join_partitions p ps)"
  using partitions_validD(2) [OF assms]
  by (simp_all add: merge_partitions_def merge_projection_metadata_def merge_metadata_eq source_ok_def)

lemma compacted_then_merged:
  assumes val: "partitions_valid (set (p # ps @ qs))"
    and nr: "\<not> rewrites_dropped (foldl join_partitions p ps) (all_rows (set qs))"
  shows "merge_partitions (apply_deletions (foldl join_partitions p ps) # qs) = merge_partitions (p # ps @ qs)"
proof -
  let ?m = "foldl join_partitions p ps"
  have vm: "partitions_valid (insert ?m (set (p # ps @ qs)))"
    using parts.valid_foldl [OF val, of p ps] by auto
  have vc: "partitions_valid (insert (apply_deletions ?m) (insert ?m (set (p # ps @ qs))))"
    by (rule partitions_valid_apply [OF vm]) simp
  have "merge_partitions (apply_deletions ?m # qs) = Some (apply_deletions (foldl join_partitions (apply_deletions ?m) qs))"
    by (rule merge_partitions_fold) (rule partitions_valid_mono [OF vc], auto)
  also have "apply_deletions (foldl join_partitions (apply_deletions ?m) qs) = apply_deletions (foldl join_partitions ?m qs)"
  proof (cases qs)
    case Nil
    then show ?thesis by (simp add: apply_deletions_idem)
  next
    case (Cons q qs')
    let ?q = "foldl join_partitions q qs'"
    have cut: "foldl join_partitions x qs = join_partitions x ?q"
      if "x \<in> {apply_deletions ?m, ?m}" for x
      unfolding Cons foldl_Cons using that Cons by (intro parts.foldl_assoc [OF vc]) auto
    have "partitions_valid (insert ?q (insert ?m (set (p # ps @ qs))))"
      using Cons by (intro parts.valid_foldl [OF vm]) auto
    then have "partitions_valid {?m, ?q}" by (rule partitions_valid_mono) auto
    moreover have "\<not> rewrites_dropped ?m (set (pt_rows ?q))"
      using nr foldl_clusterings [of q qs'] unfolding rewrites_dropped_def Cons by simp
    ultimately show ?thesis using apply_join cut by simp
  qed
  also have "foldl join_partitions ?m qs = foldl join_partitions p (ps @ qs)" by simp
  finally show ?thesis using merge_partitions_fold(1) [OF val] by simp
qed

text \<open>An executable test for mergeable sources.\<close>

definition rows_agree :: "row \<Rightarrow> row \<Rightarrow> bool" where
  "rows_agree x y \<longleftrightarrow>
     (marked_for_delete_at (row_deletion x) = marked_for_delete_at (row_deletion y) \<longrightarrow> row_deletion x = row_deletion y)
     \<and> (li_timestamp (primary_key_liveness x) = li_timestamp (primary_key_liveness y)
          \<longrightarrow> primary_key_liveness x = primary_key_liveness y)"

definition sources_mergeable :: "partition list \<Rightarrow> bool" where
  "sources_mergeable ps \<longleftrightarrow>
     (let rows = concat (map pt_rows ps); statics = List.map_filter pt_static_row ps in
      list_all source_ok ps
      \<and> list_all (\<lambda>p. list_all (\<lambda>q. pt_key p = pt_key q
           \<and> (marked_for_delete_at (pt_deletion p) = marked_for_delete_at (pt_deletion q) \<longrightarrow> pt_deletion p = pt_deletion q)) ps) ps
      \<and> list_all (\<lambda>r. row_wf r \<and> is_i64 (marked_for_delete_at (row_deletion r))) (rows @ statics)
      \<and> list_all (\<lambda>x. list_all (\<lambda>y. row_clustering x = row_clustering y \<longrightarrow> rows_agree x y) rows) rows)"

lemma rows_validI:
  assumes "\<And>x y. x \<in> S \<Longrightarrow> y \<in> S \<Longrightarrow> row_clustering x = row_clustering y \<and> rows_agree x y"
    and "\<And>r. r \<in> S \<Longrightarrow> row_wf r \<and> is_i64 (marked_for_delete_at (row_deletion r))"
  shows "rows_valid S"
proof -
  have "\<exists>k. \<forall>r \<in> S. row_clustering r = k" using assms(1) by blast
  moreover have "inj_on marked_for_delete_at (row_deletion ` S)" "inj_on li_timestamp (primary_key_liveness ` S)"
    using assms(1) unfolding inj_on_def rows_agree_def by blast+
  ultimately show ?thesis using assms(2) by (simp add: rows_valid_def)
qed

lemma set_map_filter: "set (List.map_filter f xs) = Option.these (f ` set xs)"
  by (induction xs) (auto simp: map_filter_simps split: option.splits)

lemma sources_mergeable_valid:
  assumes "sources_mergeable ps"
  shows "partitions_valid (set ps)"
proof -
  have rows: "set (concat (map pt_rows ps)) = all_rows (set ps)" by (simp add: all_rows_def)
  have src: "\<forall>p \<in> set ps. source_ok p"
    and same: "\<forall>p \<in> set ps. \<forall>q \<in> set ps. pt_key p = pt_key q \<and>
      (marked_for_delete_at (pt_deletion p) = marked_for_delete_at (pt_deletion q) \<longrightarrow> pt_deletion p = pt_deletion q)"
    and wf: "\<forall>r \<in> all_rows (set ps) \<union> Option.these (pt_static_row ` set ps).
      row_wf r \<and> is_i64 (marked_for_delete_at (row_deletion r))"
    and agree: "\<forall>x \<in> all_rows (set ps). \<forall>y \<in> all_rows (set ps). row_clustering x = row_clustering y \<longrightarrow> rows_agree x y"
    using assms unfolding sources_mergeable_def Let_def list_all_iff set_append rows set_map_filter by blast+
  have static: "static_row_ok z" if z: "z \<in> Option.these (pt_static_row ` set ps)" for z
  proof -
    obtain q where "q \<in> set ps" "pt_static_row q = Some z" using z by (auto simp: in_these_eq)
    then show ?thesis using src by (auto simp: source_ok_def)
  qed
  have "rows_valid (Option.these (pt_static_row ` set ps))"
  proof (rule rows_validI)
    fix x y assume "x \<in> Option.these (pt_static_row ` set ps)" "y \<in> Option.these (pt_static_row ` set ps)"
    then show "row_clustering x = row_clustering y \<and> rows_agree x y"
      using static [of x] static [of y] by (simp add: static_row_ok_def rows_agree_def)
  qed (use wf in blast)
  moreover have "rows_valid {x \<in> all_rows (set ps). row_clustering x = k}" for k
    using agree wf by (intro rows_validI) simp_all
  moreover have "\<exists>k. \<forall>p \<in> set ps. pt_key p = k" using same by blast
  moreover have "inj_on marked_for_delete_at (pt_deletion ` set ps)" using same unfolding inj_on_def by blast
  ultimately show ?thesis using src by (simp add: partitions_valid_def rowvs.groups_valid_def)
qed

section \<open>Properties\<close>

text \<open>Small partitions for the concrete instances below.\<close>

definition sample_row :: "bytes \<Rightarrow> column_cell list \<Rightarrow> deletion_time \<Rightarrow> liveness_info \<Rightarrow> row" where
  "sample_row ck cells d l = \<lparr>row_clustering = ck, row_cells = cells, row_deletion = d, primary_key_liveness = l\<rparr>"

definition sample_partition :: "deletion_time \<Rightarrow> row list \<Rightarrow> partition" where
  "sample_partition d rows = \<lparr>pt_key = \<lparr>dk_token = 0, dk_key = [1]\<rparr>, pt_deletion = d, pt_static_row = None, pt_rows = rows\<rparr>"

text \<open>The write of one column at time 20, and a row deletion at time 30 in a partition deleted at time 10.\<close>

definition sample_insert :: partition where
  "sample_insert = sample_partition LIVE [sample_row [1] [(0, live_bytes [7] 20)] LIVE (with_timestamp 20)]"

definition sample_deletes :: partition where
  "sample_deletes = sample_partition (deletion_time_new 10 1)
     [sample_row [1] [] (deletion_time_new 30 1) liveness_NONE]"

definition sample_rewritten :: "partition list" where
  "sample_rewritten =
     [sample_partition LIVE [sample_row [1] [(0, live_bytes [7] 5)] LIVE (with_timestamp 5)],
      sample_partition (deletion_time_new 10 1) [],
      sample_partition LIVE [sample_row [1] [(1, live_bytes [8] 20)] LIVE (with_timestamp 20)]]"

lemmas sample_defs = sample_row_def sample_partition_def sample_insert_def sample_deletes_def
  row_data_defs cell_defs machine_consts

lemma samples_mergeable:
  "sources_mergeable [sample_deletes, sample_insert]"
  "sources_mergeable [sample_deletes,
     sample_partition LIVE [sample_row [2] [(0, live_bytes [7] 20)] LIVE (with_timestamp 20)]]"
  by (simp_all add: sources_mergeable_def sample_defs source_ok_def rows_ascend_def row_wf_def
      rows_agree_def is_i64_def map_filter_def)

text \<open>
  C1: The merge implements its order-free specification: on mergeable sources it returns rows in
  strictly ascending clustering order, and a cell is in the result exactly when it is the greatest
  source cell at its clustering, column and path under reconciliation, no newer row deletion covers it,
  and its row is not covered by a partition deletion.
\<close>

theorem merge_partitions_spec:
  assumes "partitions_valid (set ps)" "ps \<noteq> []"
  shows "\<exists>m. merge_partitions ps = Some m \<and> rows_ascend (pt_rows m)
     \<and> (\<forall>ck col v. cell_in (set (pt_rows m)) ck col v \<longleftrightarrow> merged_cell ps ck col v)"
proof -
  obtain p qs where ps: "ps = p # qs" using assms(2) by (cases ps) auto
  have v: "partitions_valid (set (p # qs))" using assms(1) ps by simp
  have "rows_ascend (pt_rows (foldl join_partitions p qs))"
    using partitions_validD(2) [OF v]
    by (auto simp: foldl_join_partitions(2) source_ok_def rows_ascend_def rowvs.sort_fold_strict)
  then show ?thesis
    unfolding ps merge_partitions_fold(1) [OF v]
    using merged_row_spec [OF v] apply_deletions_ascend by blast
qed

theorem merge_partitions_spec_witness:
  "\<exists>m. merge_partitions [sample_deletes, sample_insert] = Some m \<and> rows_ascend (pt_rows m)
     \<and> (\<forall>ck col v. cell_in (set (pt_rows m)) ck col v \<longleftrightarrow> merged_cell [sample_deletes, sample_insert] ck col v)"
  by (rule merge_partitions_spec) (rule sources_mergeable_valid [OF samples_mergeable(1)], simp)



text \<open>
  C11: Compaction does not change what is read: merging some sources first, with suppression, and the
  result with the remaining sources gives the same partition as merging all sources at once, provided
  no row that the first merge drops for a partition deletion is written by a remaining source.
\<close>

theorem compaction_transparent:
  assumes "partitions_valid (set (ps @ qs))" "merge_projection_metadata ps = Some m"
    and "\<not> rewrites_dropped m (all_rows (set qs))"
  shows "\<exists>c. merge_partitions ps = Some c \<and> merge_partitions (c # qs) = merge_partitions (ps @ qs)"
proof (cases ps)
  case Nil
  then show ?thesis using assms(2) by (simp add: merge_projection_metadata_def)
next
  case (Cons p ps')
  have v: "partitions_valid (set (p # ps' @ qs))" using assms(1) Cons by simp
  then have v': "partitions_valid (set (p # ps'))" by (rule partitions_valid_mono) auto
  have "m = foldl join_partitions p ps'" using assms(2) merge_partitions_fold(2) [OF v'] Cons by simp
  then show ?thesis
    using compacted_then_merged [OF v] assms(3) merge_partitions_fold(1) [OF v'] Cons by simp
qed

theorem compaction_transparent_witness:
  "\<exists>c. merge_partitions [sample_deletes] = Some c \<and>
     merge_partitions (c # [sample_partition LIVE [sample_row [2] [(0, live_bytes [7] 20)] LIVE (with_timestamp 20)]])
     = merge_partitions ([sample_deletes] @ [sample_partition LIVE [sample_row [2] [(0, live_bytes [7] 20)] LIVE (with_timestamp 20)]])"
  by (rule compaction_transparent [where m = sample_deletes])
    (use sources_mergeable_valid [OF samples_mergeable(2)] in simp, simp add: merge_projection_metadata_def,
     simp add: rewrites_dropped_def all_rows_def sample_deletes_def sample_partition_def sample_row_def)


text \<open>
  A partition deletion does not cover older cells of a row that is written again: the column
  written at time 5 survives the partition deletion at time 10 when another column of the row is
  written at time 20.
\<close>

theorem partition_deletion_keeps_older_cell:
  "\<exists>m. merge_partitions sample_rewritten = Some m \<and> marked_for_delete_at (pt_deletion m) = 10 \<and>
     cell_in (set (pt_rows m)) [1] 0 (live_bytes [7] 5)"
  by (simp add: sample_rewritten_def sample_partition_def sample_row_def merge_partitions_def
      apply_deletions_def merge_source_def sort_and_fold_rows_def dedup_row_def merge_rows_into_def
      dedup_cell_def suppress_row_def row_data_defs cell_defs machine_consts cell_in_def)

end
