(* ===== verification/Purge.thy ===== *)
theory Purge
  imports Merge
begin

text \<open>
  Dropping deletion markers that are past their grace period from compaction output (crate
  \<open>ferrosa-storage\<close>: \<open>compaction/purge.rs\<close>, and the metadata it reads from \<open>compaction/metadata.rs\<close>).

  \<^item> \<open>purge_policy\<close> is the policy of one compaction; \<open>max_purgeable_timestamp\<close> derives its timestamp bound
    from the SSTables and memtables outside the compaction.
  \<^item> \<open>purge_row\<close> and \<open>purge_partition\<close> thread the statistics through as the code does; the bitmap of
    columns with collection elements is the code's array of 1024 words of 64 bits.

  The lemmas show that the bitmap is the set it stands for, that a partition without purgeable marker is
  left alone, and that a purge never brings a deleted cell back when the purged partition is merged with
  data that respects the timestamp bound.
\<close>

unbundle bit_operations_syntax

section \<open>Policy\<close>

record sstable_metadata =
  sm_id :: string
  sm_path :: string
  sm_size_bytes :: u64
  sm_min_token :: i64
  sm_max_token :: i64
  sm_min_timestamp :: i64
  sm_max_timestamp :: i64
  sm_partition_count :: u64
  sm_legacy_format :: bool

record purge_policy =
  gc_before :: i64
  pp_max_purgeable_timestamp :: i64
  pp_table_delete :: deletion_time

definition purgeable :: "purge_policy \<Rightarrow> i64 \<Rightarrow> i64 \<Rightarrow> bool" where
  "purgeable policy ts ldt \<longleftrightarrow> ldt < gc_before policy \<and> ts < pp_max_purgeable_timestamp policy"

definition purgeable_deletion :: "purge_policy \<Rightarrow> deletion_time \<Rightarrow> bool" where
  "purgeable_deletion policy d \<longleftrightarrow>
     \<not> deletion_is_live d \<and> purgeable policy (marked_for_delete_at d) (int (dt_local_deletion_time d))"

definition max_purgeable_timestamp :: "sstable_metadata list \<Rightarrow> sstable_metadata list \<Rightarrow> i64 \<Rightarrow> i64" where
  "max_purgeable_timestamp inputs others unflushed_min =
     (case inputs of
        [] \<Rightarrow> i64_MIN
      | s # ss \<Rightarrow>
          (let low = foldl min (sm_min_token s) (map sm_min_token ss);
               high = foldl max (sm_max_token s) (map sm_max_token ss);
               overlapping = filter (\<lambda>s. sm_min_token s \<le> high \<and> sm_max_token s \<ge> low) others
           in foldl min unflushed_min
                (map (\<lambda>s. if sm_legacy_format s then i64_MIN else sm_min_timestamp s) overlapping)))"

definition policy_for :: "i64 \<Rightarrow> u32 \<Rightarrow> i64 \<Rightarrow> deletion_time \<Rightarrow> purge_policy" where
  "policy_for now_secs gc_grace_seconds max_ts table_delete =
     \<lparr>gc_before = wrap_i64 (now_secs - int gc_grace_seconds),
      pp_max_purgeable_timestamp = max_ts, pp_table_delete = table_delete\<rparr>"

section \<open>Purging\<close>

record purge_stats =
  partition_deletions :: u64
  row_deletions :: u64
  cell_tombstones :: u64
  rows_removed :: u64

definition stats_default :: purge_stats where
  "stats_default = \<lparr>partition_deletions = 0, row_deletions = 0, cell_tombstones = 0, rows_removed = 0\<rparr>"

definition markers :: "purge_stats \<Rightarrow> u64" where
  "markers s = partition_deletions s + row_deletions s + cell_tombstones s"

definition row_is_vacant :: "row \<Rightarrow> bool" where
  "row_is_vacant r \<longleftrightarrow> row_cells r = [] \<and> deletion_is_live (row_deletion r)
     \<and> \<not> has_timestamp (primary_key_liveness r)"

type_synonym column_bitmap = "64 word list"

definition mark_column :: "column_bitmap \<Rightarrow> column_cell \<Rightarrow> column_bitmap" where
  "mark_column bits cc =
     (if cv_path (snd cc) \<noteq> None
      then bits[unat (fst cc) div 64 := (bits ! (unat (fst cc) div 64)) OR push_bit (unat (fst cc) mod 64) 1]
      else bits)"

definition columns_with_elements :: "column_cell list \<Rightarrow> column_bitmap" where
  "columns_with_elements cells = foldl mark_column (replicate 1024 0) cells"

definition column_marked :: "column_bitmap \<Rightarrow> u16 \<Rightarrow> bool" where
  "column_marked bits col \<longleftrightarrow> (bits ! (unat col div 64)) AND push_bit (unat col mod 64) 1 \<noteq> 0"

definition droppable :: "purge_policy \<Rightarrow> column_bitmap \<Rightarrow> column_cell \<Rightarrow> bool" where
  "droppable policy bits cc \<longleftrightarrow>
     is_tombstone (snd cc) \<and> purgeable policy (cv_timestamp (snd cc)) (cv_local_deletion_time (snd cc))
     \<and> \<not> (cv_path (snd cc) = None \<and> column_marked bits (fst cc))"

definition purge_row :: "row \<Rightarrow> purge_policy \<Rightarrow> purge_stats \<Rightarrow> row \<times> purge_stats \<times> bool" where
  "purge_row r policy stats =
     (let before = markers stats;
          (r, stats) =
            (if purgeable_deletion policy (row_deletion r)
             then (let deleted_at = marked_for_delete_at (row_deletion r);
                       r = r\<lparr>row_deletion := LIVE\<rparr>;
                       stats = stats\<lparr>row_deletions := row_deletions stats + 1\<rparr>
                   in (if has_timestamp (primary_key_liveness r)
                          \<and> li_timestamp (primary_key_liveness r) < deleted_at
                       then r\<lparr>primary_key_liveness := liveness_NONE\<rparr> else r, stats))
             else (r, stats));
          bits = columns_with_elements (row_cells r);
          stats = stats\<lparr>cell_tombstones := cell_tombstones stats
                    + length (filter (droppable policy bits) (row_cells r))\<rparr>;
          r = r\<lparr>row_cells := filter (\<lambda>cc. \<not> droppable policy bits cc) (row_cells r)\<rparr>
      in (r, stats, markers stats \<noteq> before))"

fun purge_rows :: "purge_policy \<Rightarrow> row list \<Rightarrow> purge_stats \<Rightarrow> row list \<times> purge_stats" where
  "purge_rows policy [] stats = ([], stats)"
| "purge_rows policy (r # rs) stats =
     (let (r', stats, changed) = purge_row r policy stats;
          (rs', stats) = purge_rows policy rs stats
      in (if changed \<and> row_is_vacant r' then rs' else r' # rs', stats))"

definition purge_partition :: "partition \<Rightarrow> purge_policy \<Rightarrow> partition \<times> purge_stats" where
  "purge_partition p policy =
     (let stats = stats_default;
          (p, stats) =
            (if purgeable_deletion policy (pt_deletion p)
             then (p\<lparr>pt_deletion := LIVE\<rparr>, stats\<lparr>partition_deletions := partition_deletions stats + 1\<rparr>)
             else (p, stats));
          (p, stats) =
            (case pt_static_row p of
               None \<Rightarrow> (p, stats)
             | Some sr \<Rightarrow>
                 (let (sr', stats, changed) = purge_row sr policy stats
                  in (p\<lparr>pt_static_row := (if changed \<and> row_cells sr' = [] then None else Some sr')\<rparr>, stats)));
          rows_before = length (pt_rows p);
          (rows', stats) = purge_rows policy (pt_rows p) stats
      in (p\<lparr>pt_rows := rows'\<rparr>, stats\<lparr>rows_removed := rows_removed stats + (rows_before - length rows')\<rparr>))"

definition row_has_marker :: "purge_policy \<Rightarrow> row \<Rightarrow> bool" where
  "row_has_marker policy r \<longleftrightarrow>
     purgeable_deletion policy (row_deletion r)
     \<or> list_ex (\<lambda>(_, c). is_tombstone c \<and> purgeable policy (cv_timestamp c) (cv_local_deletion_time c)) (row_cells r)"

definition has_purgeable_marker :: "partition \<Rightarrow> purge_policy \<Rightarrow> bool" where
  "has_purgeable_marker p policy \<longleftrightarrow>
     purgeable_deletion policy (pt_deletion p)
     \<or> (case pt_static_row p of None \<Rightarrow> False | Some r \<Rightarrow> row_has_marker policy r)
     \<or> list_ex (row_has_marker policy) (pt_rows p)"

definition is_empty_partition :: "partition \<Rightarrow> bool" where
  "is_empty_partition p \<longleftrightarrow> deletion_is_live (pt_deletion p) \<and> pt_static_row p = None \<and> pt_rows p = []"

section \<open>The bitmap\<close>

lemma mark_column_length [simp]: "length (mark_column bits cc) = length bits"
  by (simp add: mark_column_def)

lemma column_index: "unat (col :: u16) div 64 < 1024"
proof -
  have "unat col < 2 ^ LENGTH(16)" by (rule unsigned_less)
  then show ?thesis by simp
qed

lemma column_inject: "unat (a :: u16) div 64 = unat b div 64 \<Longrightarrow> unat a mod 64 = unat b mod 64 \<Longrightarrow> a = b"
  by (metis div_mult_mod_eq word_unat_eq_iff)

lemma column_marked_bit:
  "column_marked bits col \<longleftrightarrow> bit (bits ! (unat col div 64)) (unat col mod 64)"
proof -
  let ?w = "bits ! (unat col div 64)" and ?n = "unat col mod 64"
  have "?w AND push_bit ?n 1 = (if bit ?w ?n then push_bit ?n 1 else 0)"
    by (rule bit_word_eqI) (auto simp: bit_and_iff bit_exp_iff)
  moreover have "bit (push_bit ?n (1 :: 64 word)) ?n" by (simp add: bit_exp_iff)
  then have "push_bit ?n (1 :: 64 word) \<noteq> 0" by (metis bit_0_eq bot_apply bot_bool_def)
  ultimately show ?thesis by (simp add: column_marked_def)
qed

lemma column_marked_step:
  assumes "length bits = 1024"
  shows "column_marked (mark_column bits cc) col
    \<longleftrightarrow> column_marked bits col \<or> (fst cc = col \<and> cv_path (snd cc) \<noteq> None)"
proof (cases "cv_path (snd cc) = None")
  case False
  show ?thesis
  proof (cases "unat (fst cc) div 64 = unat col div 64")
    case True
    then show ?thesis
      using False assms column_index [of col] column_inject [of "fst cc" col]
      by (auto simp: column_marked_bit mark_column_def bit_or_iff bit_exp_iff)
  next
    case F: False
    then show ?thesis using False by (auto simp: column_marked_bit mark_column_def)
  qed
qed (simp add: mark_column_def)

text \<open>The bitmap holds exactly the columns that have a cell with a path.\<close>

lemma columns_with_elements_iff:
  "column_marked (columns_with_elements cells) col \<longleftrightarrow> (\<exists>c. (col, c) \<in> set cells \<and> cv_path c \<noteq> None)"
proof -
  have "length bits = 1024 \<Longrightarrow> column_marked (foldl mark_column bits cells) col
      \<longleftrightarrow> column_marked bits col \<or> (\<exists>c. (col, c) \<in> set cells \<and> cv_path c \<noteq> None)" for bits
  proof (induction cells arbitrary: bits)
    case (Cons cc cells)
    then show ?case using column_marked_step [of bits cc col] by (cases cc) auto
  qed simp
  then show ?thesis
    using column_index [of col] by (simp add: columns_with_elements_def column_marked_bit)
qed

section \<open>What a purge removes\<close>

text \<open>The row after a purge does not depend on the statistics.\<close>

definition purged_deletion :: "purge_policy \<Rightarrow> row \<Rightarrow> deletion_time" where
  "purged_deletion policy r = (if purgeable_deletion policy (row_deletion r) then LIVE else row_deletion r)"

definition purged_liveness :: "purge_policy \<Rightarrow> row \<Rightarrow> liveness_info" where
  "purged_liveness policy r =
     (if purgeable_deletion policy (row_deletion r) \<and> has_timestamp (primary_key_liveness r)
         \<and> li_timestamp (primary_key_liveness r) < marked_for_delete_at (row_deletion r)
      then liveness_NONE else primary_key_liveness r)"

definition purged_row :: "purge_policy \<Rightarrow> row \<Rightarrow> row" where
  "purged_row policy r =
     \<lparr>row_clustering = row_clustering r,
      row_cells = filter (\<lambda>cc. \<not> droppable policy (columns_with_elements (row_cells r)) cc) (row_cells r),
      row_deletion = purged_deletion policy r,
      primary_key_liveness = purged_liveness policy r\<rparr>"

definition row_changes :: "purge_policy \<Rightarrow> row \<Rightarrow> bool" where
  "row_changes policy r \<longleftrightarrow> purgeable_deletion policy (row_deletion r)
     \<or> list_ex (droppable policy (columns_with_elements (row_cells r))) (row_cells r)"

lemma purge_row_eq:
  "fst (purge_row r policy stats) = purged_row policy r"
  "snd (snd (purge_row r policy stats)) = row_changes policy r"
proof -
  have "length (filter P xs) \<noteq> 0 \<longleftrightarrow> list_ex P xs" for P :: "column_cell \<Rightarrow> bool" and xs
    by (simp add: list_ex_iff filter_empty_conv)
  then show "snd (snd (purge_row r policy stats)) = row_changes policy r"
    by (auto simp: purge_row_def row_changes_def markers_def Let_def)
qed (simp add: purge_row_def purged_row_def purged_deletion_def purged_liveness_def Let_def)

definition purge_keeps :: "purge_policy \<Rightarrow> row \<Rightarrow> bool" where
  "purge_keeps policy r \<longleftrightarrow> \<not> (row_changes policy r \<and> row_is_vacant (purged_row policy r))"

lemma purge_rows_eq: "fst (purge_rows policy rs stats) = map (purged_row policy) (filter (purge_keeps policy) rs)"
proof (induction rs arbitrary: stats)
  case (Cons r rs)
  then show ?case by (simp add: case_prod_unfold Let_def purge_keeps_def purge_row_eq)
qed simp

lemma purge_partition_eq:
  "fst (purge_partition p policy) = p\<lparr>
     pt_deletion := (if purgeable_deletion policy (pt_deletion p) then LIVE else pt_deletion p),
     pt_static_row :=
       (case pt_static_row p of
          None \<Rightarrow> None
        | Some sr \<Rightarrow> if row_changes policy sr \<and> row_cells (purged_row policy sr) = [] then None
                     else Some (purged_row policy sr)),
     pt_rows := map (purged_row policy) (filter (purge_keeps policy) (pt_rows p))\<rparr>"
  by (cases "pt_static_row p"; cases "purgeable_deletion policy (pt_deletion p)")
    (simp_all add: purge_partition_def Let_def purge_rows_eq purge_row_eq case_prod_unfold)

section \<open>A purge does not resurrect\<close>

text \<open>A partition whose deletions have been applied, the invariant that a live cell is no newer than its
  row's liveness (every row write sets both), and data that respects the bound of the policy.\<close>

definition suppressed :: "partition \<Rightarrow> bool" where
  "suppressed p \<longleftrightarrow> (\<forall>r \<in> set (pt_rows p). keeps_row (pt_deletion p) r
     \<and> (\<forall>(_, c) \<in> set (row_cells r). deletion_is_live (row_deletion r) \<or> marked_for_delete_at (row_deletion r) \<le> cv_timestamp c))"

definition live_cells_covered :: "partition \<Rightarrow> bool" where
  "live_cells_covered p \<longleftrightarrow> (\<forall>r \<in> set (pt_rows p). \<forall>(_, c) \<in> set (row_cells r).
     is_tombstone c \<or> cv_timestamp c \<le> li_timestamp (primary_key_liveness r))"

definition no_older_than :: "i64 \<Rightarrow> partition \<Rightarrow> bool" where
  "no_older_than t p \<longleftrightarrow> (\<forall>r \<in> set (pt_rows p). \<forall>(_, c) \<in> set (row_cells r). t \<le> cv_timestamp c)"

definition deletion_in_use :: "deletion_time \<Rightarrow> bool" where
  "deletion_in_use d \<longleftrightarrow> deletion_is_live d \<or> i64_MIN < marked_for_delete_at d"

lemma suppressed_apply: "suppressed (apply_deletions p)"
  by (auto simp: suppressed_def apply_deletions_eq suppress_row_mem)

lemma purged_rows:
  "set (pt_rows (fst (purge_partition m policy))) = purged_row policy ` {r \<in> set (pt_rows m). purge_keeps policy r}"
  by (simp add: purge_partition_eq)

lemma purged_cell_in:
  "cell_in (set (pt_rows (fst (purge_partition m policy)))) ck col v
   \<longleftrightarrow> (\<exists>r \<in> set (pt_rows m). row_clustering r = ck \<and> (col, v) \<in> set (row_cells r)
         \<and> \<not> droppable policy (columns_with_elements (row_cells r)) (col, v))"
proof -
  have "(col, v) \<in> set (row_cells (purged_row policy r)) \<Longrightarrow> purge_keeps policy r" for r
    by (auto simp: purge_keeps_def row_is_vacant_def)
  then show ?thesis
    unfolding purged_rows cell_in_def by (auto simp: purged_row_def)
qed

text \<open>In a mergeable partition a clustering, column and path name one cell.\<close>

lemma unique_row:
  assumes "rows_ascend rs" "r \<in> set rs" "s \<in> set rs" "row_clustering r = row_clustering s"
  shows "r = s"
  using assms by (auto simp: rows_ascend_def strict_sorted_iff distinct_map inj_on_def)

lemma unique_cell:
  assumes "row_wf r" "(col, v) \<in> set (row_cells r)" "(col, w) \<in> set (row_cells r)" "cv_path v = cv_path w"
  shows "v = w"
proof -
  have "inj_on cell_key (set (row_cells r))" using assms(1) by (simp add: row_wf_def strict_sorted_iff distinct_map)
  from inj_onD [OF this, of "(col, v)" "(col, w)"] assms show ?thesis by (simp add: cell_key_def)
qed

lemma cell_in_Un [simp]: "cell_in (A \<union> B) ck col v \<longleftrightarrow> cell_in A ck col v \<or> cell_in B ck col v"
  by (auto simp: cell_in_def)

lemma no_older_thanD: "no_older_than t q \<Longrightarrow> cell_in (set (pt_rows q)) ck col v \<Longrightarrow> t \<le> cv_timestamp v"
  by (auto simp: no_older_than_def cell_in_def)

lemma purged_subset:
  "cell_in (set (pt_rows (fst (purge_partition m policy)))) ck col w \<Longrightarrow> cell_in (set (pt_rows m)) ck col w"
  unfolding purged_cell_in by (auto simp: cell_in_def)

lemma purge_best:
  assumes "rows_ascend (pt_rows m)" "\<forall>r \<in> set (pt_rows m). row_wf r"
    and "no_older_than (pp_max_purgeable_timestamp policy) q"
    and "cell_in (set (pt_rows (fst (purge_partition m policy))) \<union> set (pt_rows q)) ck col v"
  shows "best_cell {w. cell_in (set (pt_rows (fst (purge_partition m policy))) \<union> set (pt_rows q)) ck col w \<and> cv_path w = cv_path v} v
    \<longleftrightarrow> best_cell {w. cell_in (set (pt_rows m) \<union> set (pt_rows q)) ck col w \<and> cv_path w = cv_path v} v"
proof -
  let ?m' = "set (pt_rows (fst (purge_partition m policy)))" and ?m = "set (pt_rows m)" and ?q = "set (pt_rows q)"
  have "reconcile_key w \<le> reconcile_key v"
    if w: "cell_in ?m ck col w" "\<not> cell_in ?m' ck col w" "cv_path w = cv_path v" for w
  proof (cases "cell_in ?q ck col v")
    case True
    have "cv_timestamp w < pp_max_purgeable_timestamp policy"
      using w(1,2) unfolding purged_cell_in by (auto simp: cell_in_def droppable_def purgeable_def)
    then have "cv_timestamp w < cv_timestamp v" using no_older_thanD [OF assms(3) True] by simp
    then show ?thesis by (simp add: reconcile_key_def)
  next
    case False
    then have "cell_in ?m ck col v" using assms(4) purged_subset by auto
    then obtain r s where "r \<in> ?m" "s \<in> ?m" "row_clustering r = ck" "row_clustering s = ck"
        "(col, v) \<in> set (row_cells r)" "(col, w) \<in> set (row_cells s)"
      using w(1) by (auto simp: cell_in_def)
    moreover from this have "r = s" using unique_row [OF assms(1)] by simp
    ultimately have "v = w" using unique_cell [of r col v w] w(3) assms(2) by simp
    then show ?thesis by simp
  qed
  then show ?thesis
    using assms(4) purged_subset [of m policy ck col] unfolding best_cell_def by fastforce
qed

lemma purge_row_deletions:
  assumes "rows_ascend (pt_rows m)" "suppressed m" "no_older_than (pp_max_purgeable_timestamp policy) q"
    and "cell_in (set (pt_rows m) \<union> set (pt_rows q)) ck col v"
  shows "(\<forall>r \<in> set (pt_rows (fst (purge_partition m policy))) \<union> set (pt_rows q). row_clustering r = ck \<longrightarrow>
        deletion_is_live (row_deletion r) \<or> marked_for_delete_at (row_deletion r) \<le> cv_timestamp v)
    \<longleftrightarrow> (\<forall>r \<in> set (pt_rows m) \<union> set (pt_rows q). row_clustering r = ck \<longrightarrow>
        deletion_is_live (row_deletion r) \<or> marked_for_delete_at (row_deletion r) \<le> cv_timestamp v)"
    (is "?L \<longleftrightarrow> ?R")
proof
  assume R: ?R
  show ?L
  proof (intro ballI impI)
    fix r' assume r': "r' \<in> set (pt_rows (fst (purge_partition m policy))) \<union> set (pt_rows q)" "row_clustering r' = ck"
    show "deletion_is_live (row_deletion r') \<or> marked_for_delete_at (row_deletion r') \<le> cv_timestamp v"
    proof (cases "r' \<in> set (pt_rows q)")
      case False
      then obtain r where "r \<in> set (pt_rows m) \<union> set (pt_rows q)" "r' = purged_row policy r"
        using r'(1) by (auto simp: purged_rows)
      then show ?thesis
        using bspec [OF R, of r] r'(2) by (auto simp: purged_row_def purged_deletion_def deletion_is_live_iff)
    qed (use R r'(2) in blast)
  qed
next
  assume L: ?L
  have "deletion_is_live (row_deletion r) \<or> marked_for_delete_at (row_deletion r) \<le> cv_timestamp v"
    if r: "r \<in> set (pt_rows m)" "row_clustering r = ck" for r
  proof (cases "purgeable_deletion policy (row_deletion r)")
    case True
    show ?thesis
    proof (cases "cell_in (set (pt_rows q)) ck col v")
      case q: True
      show ?thesis using True no_older_thanD [OF assms(3) q] by (simp add: purgeable_deletion_def purgeable_def)
    next
      case False
      then obtain s where s: "s \<in> set (pt_rows m)" "row_clustering s = ck" "(col, v) \<in> set (row_cells s)"
        using assms(4) by (auto simp: cell_in_def)
      then have "s = r" using unique_row [OF assms(1)] r by simp
      then show ?thesis using s assms(2) by (auto simp: suppressed_def)
    qed
  next
    case False
    show ?thesis
    proof (cases "purge_keeps policy r")
      case True
      then have "purged_row policy r \<in> set (pt_rows (fst (purge_partition m policy))) \<union> set (pt_rows q)"
        using r by (simp add: purged_rows)
      from bspec [OF L this] show ?thesis using r(2) False by (simp add: purged_row_def purged_deletion_def)
    next
      case k: False
      then show ?thesis using False by (simp add: purge_keeps_def row_is_vacant_def purged_row_def purged_deletion_def)
    qed
  qed
  then show ?R using L by blast
qed

text \<open>A live cell that remains has a row whose liveness is at least as new, also after the purge.\<close>

lemma covering_row:
  assumes "live_cells_covered m" "\<not> is_tombstone v"
    and "r \<in> set (pt_rows m)" "(col, v) \<in> set (row_cells r)"
    and "deletion_is_live (row_deletion r) \<or> marked_for_delete_at (row_deletion r) \<le> cv_timestamp v"
  shows "purged_row policy r \<in> set (pt_rows (fst (purge_partition m policy)))"
    "primary_key_liveness (purged_row policy r) = primary_key_liveness r"
proof -
  have "cv_timestamp v \<le> li_timestamp (primary_key_liveness r)"
    using assms(1-4) by (auto simp: live_cells_covered_def)
  then show "primary_key_liveness (purged_row policy r) = primary_key_liveness r"
    using assms(5) by (auto simp: purged_row_def purged_liveness_def purgeable_deletion_def)
  have "(col, v) \<in> set (row_cells (purged_row policy r))"
    using assms(2,4) by (simp add: purged_row_def droppable_def)
  then have "purge_keeps policy r" by (auto simp: purge_keeps_def row_is_vacant_def)
  then show "purged_row policy r \<in> set (pt_rows (fst (purge_partition m policy)))"
    using assms(3) by (simp add: purged_rows)
qed

definition row_newer :: "row set \<Rightarrow> bytes \<Rightarrow> deletion_time \<Rightarrow> bool" where
  "row_newer R ck d \<longleftrightarrow> deletion_is_live d \<or>
     (\<exists>r \<in> R. row_clustering r = ck \<and> marked_for_delete_at d \<le> li_timestamp (primary_key_liveness r))"

lemma purge_row_newer:
  assumes m: "rows_ascend (pt_rows m)" "live_cells_covered m" "live_cells_covered q"
    and q: "no_older_than (pp_max_purgeable_timestamp policy) q"
    and v: "\<not> is_tombstone v" "cell_in (set (pt_rows m) \<union> set (pt_rows q)) ck col v"
    and del: "\<forall>r \<in> set (pt_rows m) \<union> set (pt_rows q). row_clustering r = ck \<longrightarrow>
        deletion_is_live (row_deletion r) \<or> marked_for_delete_at (row_deletion r) \<le> cv_timestamp v"
    and d: "deletion_in_use d"
  shows "row_newer (set (pt_rows (fst (purge_partition m policy))) \<union> set (pt_rows q)) ck d
    \<longleftrightarrow> row_newer (set (pt_rows m) \<union> set (pt_rows q)) ck d" (is "?L \<longleftrightarrow> ?R")
proof (cases "deletion_is_live d")
  case nl: False
  then have min: "i64_MIN < marked_for_delete_at d" using d by (simp add: deletion_in_use_def)
  let ?m' = "set (pt_rows (fst (purge_partition m policy)))"
  show ?thesis
  proof
    assume ?L
    then obtain r' where r': "r' \<in> ?m' \<union> set (pt_rows q)" "row_clustering r' = ck"
      "marked_for_delete_at d \<le> li_timestamp (primary_key_liveness r')" using nl by (auto simp: row_newer_def)
    show ?R
    proof (cases "r' \<in> set (pt_rows q)")
      case False
      then obtain r where r: "r \<in> set (pt_rows m)" "r' = purged_row policy r" using r'(1) by (auto simp: purged_rows)
      have "li_timestamp (primary_key_liveness r') = li_timestamp (primary_key_liveness r)"
        using r'(3) min by (auto simp: r(2) purged_row_def purged_liveness_def liveness_NONE_def)
      then show ?thesis using r r' by (auto simp: row_newer_def purged_row_def)
    qed (use r' in \<open>auto simp: row_newer_def\<close>)
  next
    assume ?R
    then obtain r where r: "r \<in> set (pt_rows m) \<union> set (pt_rows q)" "row_clustering r = ck"
      "marked_for_delete_at d \<le> li_timestamp (primary_key_liveness r)" using nl by (auto simp: row_newer_def)
    consider (q) "r \<in> set (pt_rows q)" | (m) "r \<in> set (pt_rows m)" "cell_in (set (pt_rows m)) ck col v"
      | (mq) "r \<in> set (pt_rows m)" "cell_in (set (pt_rows q)) ck col v" using r(1) v(2) by auto
    then show ?L
    proof cases
      case q
      then show ?thesis using r by (auto simp: row_newer_def)
    next
      case m2: m
      then obtain s where "s \<in> set (pt_rows m)" "row_clustering s = ck" "(col, v) \<in> set (row_cells s)"
        by (auto simp: cell_in_def)
      then have "r = s" "(col, v) \<in> set (row_cells r)" using unique_row [OF m(1) m2(1)] r(2) by auto
      then have "purged_row policy r \<in> ?m'" "primary_key_liveness (purged_row policy r) = primary_key_liveness r"
        using covering_row [OF m(2) v(1) m2(1)] del r by auto
      then show ?thesis using r by (auto simp: row_newer_def purged_row_def intro!: bexI [of _ "purged_row policy r"])
    next
      case mq
      then obtain s where s: "s \<in> set (pt_rows q)" "row_clustering s = ck" "(col, v) \<in> set (row_cells s)"
        by (auto simp: cell_in_def)
      then have sv: "cv_timestamp v \<le> li_timestamp (primary_key_liveness s)"
        using m(3) v(1) by (auto simp: live_cells_covered_def)
      show ?thesis
      proof (cases "purge_keeps policy r \<and> purged_liveness policy r = primary_key_liveness r")
        case True
        then have "purged_row policy r \<in> ?m'" using mq(1) by (simp add: purged_rows)
        then show ?thesis
          using True r by (auto simp: row_newer_def purged_row_def intro!: bexI [of _ "purged_row policy r"])
      next
        case False
        have "has_timestamp (primary_key_liveness r)" using r(3) min by (auto simp: has_timestamp_def)
        then have "purged_liveness policy r \<noteq> primary_key_liveness r"
          using False by (auto simp: purge_keeps_def row_is_vacant_def purged_row_def)
        then have "li_timestamp (primary_key_liveness r) < pp_max_purgeable_timestamp policy"
          by (auto simp: purged_liveness_def purgeable_deletion_def purgeable_def split: if_splits)
        then show ?thesis
          using no_older_thanD [OF q mq(2)] sv r(3) s by (auto simp: row_newer_def intro!: bexI [of _ s])
      qed
    qed
  qed
qed (simp add: row_newer_def)

lemma purged_deletion_newer:
  assumes "purgeable_deletion policy (pt_deletion m)" "suppressed m" "live_cells_covered q"
    and "no_older_than (pp_max_purgeable_timestamp policy) q" "\<not> is_tombstone v"
    and "cell_in (set (pt_rows m) \<union> set (pt_rows q)) ck col v"
  shows "row_newer (set (pt_rows m) \<union> set (pt_rows q)) ck (pt_deletion m)"
proof (cases "cell_in (set (pt_rows q)) ck col v")
  case True
  then obtain s where s: "s \<in> set (pt_rows q)" "row_clustering s = ck" "(col, v) \<in> set (row_cells s)"
    by (auto simp: cell_in_def)
  then have "cv_timestamp v \<le> li_timestamp (primary_key_liveness s)"
    using assms(3,5) by (auto simp: live_cells_covered_def)
  moreover have "marked_for_delete_at (pt_deletion m) < cv_timestamp v"
    using assms(1) no_older_thanD [OF assms(4) True] by (simp add: purgeable_deletion_def purgeable_def)
  ultimately show ?thesis using s by (auto simp: row_newer_def intro!: bexI [of _ s])
next
  case False
  then show ?thesis using assms(2,6) by (auto simp: cell_in_def suppressed_def keeps_row_def row_newer_def)
qed

lemma merged_cell_pair:
  "merged_cell [m, q] ck col v \<longleftrightarrow>
     best_cell {w. cell_in (set (pt_rows m) \<union> set (pt_rows q)) ck col w \<and> cv_path w = cv_path v} v
     \<and> (\<forall>r \<in> set (pt_rows m) \<union> set (pt_rows q). row_clustering r = ck \<longrightarrow>
          deletion_is_live (row_deletion r) \<or> marked_for_delete_at (row_deletion r) \<le> cv_timestamp v)
     \<and> row_newer (set (pt_rows m) \<union> set (pt_rows q)) ck (pt_deletion m)
     \<and> row_newer (set (pt_rows m) \<union> set (pt_rows q)) ck (pt_deletion q)"
  by (simp add: merged_cell_def all_rows_def row_newer_def)

lemma purge_merged_cell:
  assumes "rows_ascend (pt_rows m)" "\<forall>r \<in> set (pt_rows m). row_wf r"
    and "suppressed m" "live_cells_covered m" "live_cells_covered q"
    and "no_older_than (pp_max_purgeable_timestamp policy) q"
    and "deletion_in_use (pt_deletion m)" "deletion_in_use (pt_deletion q)" "\<not> is_tombstone v"
  shows "merged_cell [fst (purge_partition m policy), q] ck col v \<longleftrightarrow> merged_cell [m, q] ck col v"
proof (cases "cell_in (set (pt_rows m) \<union> set (pt_rows q)) ck col v")
  case True
  have T': "cell_in (set (pt_rows (fst (purge_partition m policy))) \<union> set (pt_rows q)) ck col v"
    using True assms(9) unfolding cell_in_Un purged_cell_in by (auto simp: cell_in_def droppable_def)
  let ?M = "set (pt_rows m) \<union> set (pt_rows q)"
  let ?M' = "set (pt_rows (fst (purge_partition m policy))) \<union> set (pt_rows q)"
  have newer: "row_newer ?M' ck (pt_deletion (fst (purge_partition m policy))) \<and> row_newer ?M' ck (pt_deletion q)
      \<longleftrightarrow> row_newer ?M ck (pt_deletion m) \<and> row_newer ?M ck (pt_deletion q)"
    if "\<forall>r \<in> ?M. row_clustering r = ck \<longrightarrow>
        deletion_is_live (row_deletion r) \<or> marked_for_delete_at (row_deletion r) \<le> cv_timestamp v"
  proof -
    note nw = purge_row_newer [OF assms(1,4,5,6,9) True that]
    show ?thesis
    proof (cases "purgeable_deletion policy (pt_deletion m)")
      case P: True
      have "pt_deletion (fst (purge_partition m policy)) = LIVE" by (simp add: purge_partition_eq P)
      then show ?thesis
        using nw [OF assms(8)] purged_deletion_newer [OF P assms(3,5,6,9) True]
        by (simp add: row_newer_def [of _ _ LIVE] deletion_is_live_iff)
    next
      case P: False
      have "pt_deletion (fst (purge_partition m policy)) = pt_deletion m" by (simp add: purge_partition_eq P)
      then show ?thesis using nw [OF assms(7)] nw [OF assms(8)] by simp
    qed
  qed
  show ?thesis
    unfolding merged_cell_pair purge_best [OF assms(1,2,6) T'] purge_row_deletions [OF assms(1,3,6) True]
    using newer by blast
next
  case False
  then have "\<not> cell_in (set (pt_rows (fst (purge_partition m policy))) \<union> set (pt_rows q)) ck col v"
    using purged_subset by auto
  then show ?thesis using False by (simp add: merged_cell_pair best_cell_def)
qed

section \<open>Properties\<close>

definition sample_policy :: purge_policy where
  "sample_policy = policy_for 1000 100 50 LIVE"

definition sample_compacted :: partition where
  "sample_compacted = sample_partition LIVE
     [sample_row [1] [(0, tombstone 20 1), (1, live_bytes [7] 30)] LIVE (with_timestamp 30)]"

definition sample_outside :: partition where
  "sample_outside = sample_partition LIVE [sample_row [1] [(0, live_bytes [9] 60)] LIVE (with_timestamp 60)]"

lemma sample_purged:
  "fst (purge_partition sample_compacted sample_policy)
   = sample_partition LIVE [sample_row [1] [(1, live_bytes [7] 30)] LIVE (with_timestamp 30)]"
proof -
  have "droppable sample_policy (columns_with_elements cells) (0, tombstone 20 1)"
    if "\<forall>c \<in> set cells. cv_path (snd c) = None" for cells
    using that by (auto simp: droppable_def columns_with_elements_iff sample_policy_def policy_for_def
        purgeable_def tombstone_def is_tombstone_def wrap_i64_def)
  moreover have "\<not> droppable sample_policy b (1, live_bytes [7] 30)" for b
    by (simp add: droppable_def live_bytes_def is_tombstone_def)
  ultimately show ?thesis
    by (simp add: purge_partition_eq sample_compacted_def sample_partition_def sample_row_def purgeable_deletion_def
        deletion_is_live_iff purge_keeps_def row_is_vacant_def purged_row_def purged_deletion_def purged_liveness_def
        tombstone_def live_bytes_def)
qed

lemma sample_purge_valid:
  "partitions_valid {fst (purge_partition sample_compacted sample_policy), sample_outside}"
  "partitions_valid {sample_compacted, sample_outside}"
proof -
  have "sources_mergeable [fst (purge_partition sample_compacted sample_policy), sample_outside]"
    "sources_mergeable [sample_compacted, sample_outside]"
    unfolding sample_purged
    by (simp_all add: sources_mergeable_def sample_compacted_def sample_outside_def sample_defs source_ok_def
        rows_ascend_def row_wf_def cell_key_def rows_agree_def is_i64_def map_filter_def)
  then show "partitions_valid {fst (purge_partition sample_compacted sample_policy), sample_outside}"
    "partitions_valid {sample_compacted, sample_outside}"
    using sources_mergeable_valid by fastforce+
qed



text \<open>
  The purge pre-check never under-reports: a partition for which it answers no is returned unchanged,
  with nothing counted.
\<close>

theorem purge_precheck_complete:
  assumes "\<not> has_purgeable_marker p policy"
  shows "purge_partition p policy = (p, stats_default)"
proof -
  have row: "purge_row r policy stats = (r, stats, False)" if "\<not> row_has_marker policy r" for r stats
  proof -
    have "filter (droppable policy bits) (row_cells r) = []" for bits
      using that by (auto simp: row_has_marker_def list_ex_iff filter_empty_conv droppable_def)
    moreover from this have "filter (\<lambda>cc. \<not> droppable policy bits cc) (row_cells r) = row_cells r" for bits
      by (simp add: filter_empty_conv filter_id_conv)
    ultimately show ?thesis using that by (simp add: purge_row_def row_has_marker_def Let_def)
  qed
  have "\<not> list_ex (row_has_marker policy) rs \<Longrightarrow> purge_rows policy rs stats = (rs, stats)" for rs stats
    by (induction rs) (auto simp: row)
  then show ?thesis
    using assms row by (cases "pt_static_row p") (auto simp: has_purgeable_marker_def purge_partition_def Let_def stats_default_def)
qed

theorem purge_precheck_complete_witness:
  "purge_partition sample_outside sample_policy = (sample_outside, stats_default)"
  by (rule purge_precheck_complete)
    (simp add: has_purgeable_marker_def row_has_marker_def purgeable_deletion_def deletion_is_live_iff
      sample_outside_def sample_partition_def sample_row_def live_bytes_def is_tombstone_def)

lemma foldl_min_le: "y \<in> insert x (set xs) \<Longrightarrow> foldl min x xs \<le> (y :: int)"
  by (induction xs rule: rev_induct) (auto simp: min_le_iff_disj)

lemma foldl_max_ge: "y \<in> insert x (set xs) \<Longrightarrow> (y :: int) \<le> foldl max x xs"
  by (induction xs rule: rev_induct) (auto simp: le_max_iff_disj)

text \<open>
  The timestamp bound of a compaction is sound: it is at most the oldest unflushed timestamp and at
  most the oldest timestamp of every SSTable outside the compaction whose token range overlaps the
  inputs, and an overlapping SSTable with untrusted bounds makes every marker unpurgeable.
\<close>

theorem max_purgeable_bound:
  assumes "s \<in> set others" "i \<in> set inputs" "j \<in> set inputs"
    and "sm_min_token s \<le> sm_max_token j" "sm_min_token i \<le> sm_max_token s"
  shows "max_purgeable_timestamp inputs others unflushed_min \<le> unflushed_min \<and>
    (\<not> sm_legacy_format s \<longrightarrow> max_purgeable_timestamp inputs others unflushed_min \<le> sm_min_timestamp s) \<and>
    (sm_legacy_format s \<and> is_i64 ts \<longrightarrow>
       \<not> purgeable (policy_for now grace (max_purgeable_timestamp inputs others unflushed_min) d) ts ldt)"
proof -
  obtain s' ss where inp: "inputs = s' # ss" using assms(2) by (cases inputs) auto
  let ?low = "foldl min (sm_min_token s') (map sm_min_token ss)"
  let ?high = "foldl max (sm_max_token s') (map sm_max_token ss)"
  have "sm_max_token j \<le> ?high" "?low \<le> sm_min_token i"
    using assms(2,3) inp foldl_max_ge [of _ "sm_max_token s'" "map sm_max_token ss"]
      foldl_min_le [of _ "sm_min_token s'" "map sm_min_token ss"] by auto
  then have "s \<in> set (filter (\<lambda>s. sm_min_token s \<le> ?high \<and> sm_max_token s \<ge> ?low) others)"
    using assms(1,4,5) by simp
  then have "(if sm_legacy_format s then i64_MIN else sm_min_timestamp s)
      \<in> set (map (\<lambda>s. if sm_legacy_format s then i64_MIN else sm_min_timestamp s)
            (filter (\<lambda>s. sm_min_token s \<le> ?high \<and> sm_max_token s \<ge> ?low) others))"
    unfolding set_map by (rule imageI)
  then have "max_purgeable_timestamp inputs others unflushed_min \<le> (if sm_legacy_format s then i64_MIN else sm_min_timestamp s)"
    unfolding max_purgeable_timestamp_def inp list.case Let_def by (intro foldl_min_le insertI2)
  moreover have "max_purgeable_timestamp inputs others unflushed_min \<le> unflushed_min"
    unfolding max_purgeable_timestamp_def inp list.case Let_def by (intro foldl_min_le insertI1)
  ultimately show ?thesis by (auto simp: purgeable_def policy_for_def is_i64_def)
qed

definition sample_sstable :: "i64 \<Rightarrow> i64 \<Rightarrow> i64 \<Rightarrow> bool \<Rightarrow> sstable_metadata" where
  "sample_sstable lo hi ts legacy = \<lparr>sm_id = ''1'', sm_path = ''t'', sm_size_bytes = 1, sm_min_token = lo,
     sm_max_token = hi, sm_min_timestamp = ts, sm_max_timestamp = ts, sm_partition_count = 1,
     sm_legacy_format = legacy\<rparr>"

theorem max_purgeable_bound_witness:
  "max_purgeable_timestamp [sample_sstable 0 10 5 False] [sample_sstable 5 20 3 True] 7 \<le> 7 \<and>
   \<not> purgeable (policy_for 1000 100
       (max_purgeable_timestamp [sample_sstable 0 10 5 False] [sample_sstable 5 20 3 True] 7) LIVE) 1 1"
  using max_purgeable_bound [of "sample_sstable 5 20 3 True" "[sample_sstable 5 20 3 True]"
      "sample_sstable 0 10 5 False" "[sample_sstable 0 10 5 False]" "sample_sstable 0 10 5 False" 7 1 1000 100 LIVE 1]
  by (simp add: sample_sstable_def is_i64_def machine_consts)


end
