(* ===== verification/Ring.thy ===== *)
theory Ring
  imports Prelude
begin

text \<open>
  The token ring and replica selection (crate \<open>ferrosa-cluster\<close>: \<open>ring/mod.rs\<close>, \<open>ring/strategy.rs\<close>, and the
  node metadata of \<open>raft/mod.rs\<close>).

  \<^item> \<open>token_ring\<close> maps tokens to nodes and nodes to metadata; both maps are ordered association lists.
  \<^item> \<open>replicas\<close> is SimpleStrategy: \<open>collect_replicas\<close> is one clockwise loop with its early return.
  \<^item> \<open>nts_replicas\<close> is NetworkTopologyStrategy: \<open>nts_step\<close> is the loop body on the per-datacenter state
    (\<open>needed\<close>, \<open>seen_racks\<close>, \<open>skipped\<close>), \<open>nts_drain\<close> moves skipped nodes to the result.  The code iterates a
    hash map in the final drain; the order of its keys is an argument.

  The lemmas show which nodes are selected: distinct, eligible, in clockwise order, and as many as the
  replication factor asks for or the ring has.
\<close>

section \<open>Nodes and the ring\<close>

type_synonym node_id = u64
type_synonym uuid = nat

datatype node_state = Joining | Normal | Leaving | Decommissioned | Learner bool

definition is_voter :: "node_state \<Rightarrow> bool" where
  "is_voter s \<longleftrightarrow> s = Normal"

definition is_learner :: "node_state \<Rightarrow> bool" where
  "is_learner s \<longleftrightarrow> (case s of Learner _ \<Rightarrow> True | _ \<Rightarrow> False)"

definition owns_tokens :: "node_state \<Rightarrow> bool" where
  "owns_tokens s \<longleftrightarrow> (case s of Learner owns \<Rightarrow> owns | _ \<Rightarrow> True)"

record node_info =
  host_id :: uuid
  ni_addr :: string
  data_center :: string
  ni_rack :: string
  ni_state :: node_state
  cql_broadcast :: "string option"

record token_ring =
  tr_ring :: "(i64, node_id) btree"
  tr_nodes :: "(node_id, node_info) btree"
  tr_bootstrap_complete :: "node_id set"

definition ring_new :: token_ring where
  "ring_new = \<lparr>tr_ring = [], tr_nodes = [], tr_bootstrap_complete = {}\<rparr>"

definition add_node :: "token_ring \<Rightarrow> node_id \<Rightarrow> node_info \<Rightarrow> token_ring" where
  "add_node r nid info = r\<lparr>tr_nodes := bt_insert nid info (tr_nodes r)\<rparr>"

definition remove_node :: "token_ring \<Rightarrow> node_id \<Rightarrow> token_ring" where
  "remove_node r nid =
     r\<lparr>tr_nodes := bt_remove nid (tr_nodes r), tr_ring := filter (\<lambda>(_, n). n \<noteq> nid) (tr_ring r)\<rparr>"

definition assign_tokens :: "token_ring \<Rightarrow> node_id \<Rightarrow> i64 list \<Rightarrow> token_ring" where
  "assign_tokens r nid tokens = r\<lparr>tr_ring := foldl (\<lambda>m t. bt_insert t nid m) (tr_ring r) tokens\<rparr>"

definition get_node :: "token_ring \<Rightarrow> node_id \<Rightarrow> node_info option" where
  "get_node r nid = map_of (tr_nodes r) nid"

definition ring_from :: "token_ring \<Rightarrow> i64 \<Rightarrow> (i64 \<times> node_id) list" where
  "ring_from r token = filter (\<lambda>(t, _). token \<le> t) (tr_ring r)"

definition ring_below :: "token_ring \<Rightarrow> i64 \<Rightarrow> (i64 \<times> node_id) list" where
  "ring_below r token = filter (\<lambda>(t, _). t < token) (tr_ring r)"

definition is_replica_eligible :: "token_ring \<Rightarrow> node_id \<Rightarrow> bool" where
  "is_replica_eligible r nid =
     (case get_node r nid of
        None \<Rightarrow> False
      | Some n \<Rightarrow> (case ni_state n of Normal \<Rightarrow> True | Learner owns \<Rightarrow> owns | _ \<Rightarrow> False))"

text \<open>One pass over ring positions; the flag says that the pass returned from \<open>replicas\<close>.\<close>

fun collect_replicas :: "token_ring \<Rightarrow> usize \<Rightarrow> node_id list \<Rightarrow> node_id list \<Rightarrow> node_id list
    \<Rightarrow> bool \<times> node_id list \<times> node_id list" where
  "collect_replicas r rf [] seen result = (False, seen, result)"
| "collect_replicas r rf (nid # nids) seen result =
     (if nid \<notin> set seen
      then (if is_replica_eligible r nid
            then (if length (result @ [nid]) \<ge> rf then (True, seen @ [nid], result @ [nid])
                  else collect_replicas r rf nids (seen @ [nid]) (result @ [nid]))
            else collect_replicas r rf nids (seen @ [nid]) result)
      else collect_replicas r rf nids seen result)"

definition replicas :: "token_ring \<Rightarrow> i64 \<Rightarrow> usize \<Rightarrow> node_id list" where
  "replicas r token rf =
     (case collect_replicas r rf (map snd (ring_from r token)) [] [] of
        (True, _, result) \<Rightarrow> result
      | (False, seen, result) \<Rightarrow> snd (snd (collect_replicas r rf (map snd (tr_ring r)) seen result)))"

definition primary_owner :: "token_ring \<Rightarrow> i64 \<Rightarrow> node_id option" where
  "primary_owner r token =
     (case ring_from r token of
        (_, nid) # _ \<Rightarrow> Some nid
      | [] \<Rightarrow> (case tr_ring r of (_, nid) # _ \<Rightarrow> Some nid | [] \<Rightarrow> None))"

definition node_count :: "token_ring \<Rightarrow> usize" where
  "node_count r = length (tr_nodes r)"

definition token_count :: "token_ring \<Rightarrow> usize" where
  "token_count r = length (tr_ring r)"

definition node_ids :: "token_ring \<Rightarrow> node_id list" where
  "node_ids r = map fst (tr_nodes r)"

definition tokens_for_node :: "token_ring \<Rightarrow> node_id \<Rightarrow> i64 list" where
  "tokens_for_node r nid = map fst (filter (\<lambda>(_, n). n = nid) (tr_ring r))"

definition select_batchlog_replicas :: "token_ring \<Rightarrow> node_id \<Rightarrow> usize \<Rightarrow> uuid list" where
  "select_batchlog_replicas r local_node_id limit =
     (let local_dc = map_option data_center (get_node r local_node_id);
          candidates = map snd (filter (\<lambda>(nid, _). nid \<noteq> local_node_id) (tr_nodes r));
          candidates = (case local_dc of
              Some dc \<Rightarrow> sort_key (\<lambda>n. if data_center n = dc then 1 else 0 :: nat) candidates
            | None \<Rightarrow> candidates)
      in map host_id (take limit candidates))"

definition set_bootstrap_complete :: "token_ring \<Rightarrow> node_id set \<Rightarrow> token_ring" where
  "set_bootstrap_complete r nodes = r\<lparr>tr_bootstrap_complete := nodes\<rparr>"

definition bootstrap_complete :: "token_ring \<Rightarrow> node_id \<Rightarrow> bool" where
  "bootstrap_complete r nid \<longleftrightarrow> nid \<in> tr_bootstrap_complete r"

definition set_node_state :: "token_ring \<Rightarrow> node_id \<Rightarrow> node_state \<Rightarrow> token_ring" where
  "set_node_state r nid s =
     (case get_node r nid of
        Some info \<Rightarrow> r\<lparr>tr_nodes := bt_insert nid (info\<lparr>ni_state := s\<rparr>) (tr_nodes r)\<rparr>
      | None \<Rightarrow> r)"

section \<open>Network topology\<close>

type_synonym dc_factors = "(string \<times> usize) list"

record nts_state =
  nts_result :: "node_id list"
  nts_seen :: "node_id list"
  nts_needed :: "string \<rightharpoonup> usize"
  nts_seen_racks :: "string \<Rightarrow> string list"
  nts_skipped :: "string \<Rightarrow> node_id list"

definition rack_count :: "token_ring \<Rightarrow> dc_factors \<Rightarrow> string \<Rightarrow> usize" where
  "rack_count r dc_rf dc =
     length (remdups (map ni_rack (filter (\<lambda>n. data_center n = dc \<and> dc \<in> set (map fst dc_rf)) (map snd (tr_nodes r)))))"

definition all_filled :: "dc_factors \<Rightarrow> (string \<rightharpoonup> usize) \<Rightarrow> bool" where
  "all_filled dc_rf needed \<longleftrightarrow> list_all (\<lambda>(dc, _). needed dc = Some 0) dc_rf"

text \<open>Move skipped nodes of a datacenter to the result while replicas are still needed there.\<close>

definition nts_drain :: "string \<Rightarrow> nts_state \<Rightarrow> nts_state" where
  "nts_drain dc s =
     (case nts_needed s dc of
        None \<Rightarrow> s
      | Some n \<Rightarrow>
          s\<lparr>nts_result := nts_result s @ take n (nts_skipped s dc),
            nts_needed := (nts_needed s)(dc \<mapsto> n - length (nts_skipped s dc)),
            nts_skipped := (nts_skipped s)(dc := drop n (nts_skipped s dc))\<rparr>)"

definition nts_step :: "token_ring \<Rightarrow> dc_factors \<Rightarrow> node_id \<Rightarrow> nts_state \<Rightarrow> nts_state" where
  "nts_step r dc_rf nid s =
     (if nid \<in> set (nts_seen s) then s
      else
        let s = s\<lparr>nts_seen := nts_seen s @ [nid]\<rparr>
        in case get_node r nid of
             None \<Rightarrow> s
           | Some info \<Rightarrow>
               if \<not> (ni_state info = Normal \<or> ni_state info = Learner True) then s
               else let dc = data_center info; rack = ni_rack info in
                 (case nts_needed s dc of
                    None \<Rightarrow> s
                  | Some n \<Rightarrow>
                      if n = 0 then s
                      else if length (nts_seen_racks s dc) < rack_count r dc_rf dc
                              \<and> rack \<in> set (nts_seen_racks s dc)
                      then s\<lparr>nts_skipped := (nts_skipped s)(dc := nts_skipped s dc @ [nid])\<rparr>
                      else
                        let s = (if length (nts_seen_racks s dc) < rack_count r dc_rf dc
                                 then s\<lparr>nts_seen_racks := (nts_seen_racks s)(dc := nts_seen_racks s dc @ [rack])\<rparr>
                                 else s);
                            s = s\<lparr>nts_result := nts_result s @ [nid],
                                  nts_needed := (nts_needed s)(dc \<mapsto> n - 1)\<rparr>
                        in if length (nts_seen_racks s dc) = rack_count r dc_rf dc then nts_drain dc s else s))"

fun nts_walk :: "token_ring \<Rightarrow> dc_factors \<Rightarrow> node_id list \<Rightarrow> nts_state \<Rightarrow> nts_state" where
  "nts_walk r dc_rf [] s = s"
| "nts_walk r dc_rf (nid # nids) s =
     (if all_filled dc_rf (nts_needed s) then s else nts_walk r dc_rf nids (nts_step r dc_rf nid s))"

definition nts_init :: "dc_factors \<Rightarrow> nts_state" where
  "nts_init dc_rf = \<lparr>nts_result = [], nts_seen = [], nts_needed = map_of dc_rf,
     nts_seen_racks = (\<lambda>_. []), nts_skipped = (\<lambda>_. [])\<rparr>"

text \<open>\<open>order\<close> is the iteration order of the datacenters in the final drain.\<close>

definition nts_replicas :: "token_ring \<Rightarrow> i64 \<Rightarrow> dc_factors \<Rightarrow> string list \<Rightarrow> node_id list" where
  "nts_replicas r token dc_rf order =
     (let clockwise = map snd (ring_from r token @ ring_below r token);
          s = nts_walk r dc_rf clockwise (nts_init dc_rf)
      in nts_result (foldl (\<lambda>s dc. nts_drain dc s) s order))"

section \<open>Strategies\<close>

datatype replication_strategy = Simple usize | NetworkTopology dc_factors

definition replication_factor :: "replication_strategy \<Rightarrow> usize" where
  "replication_factor st = (case st of Simple rf \<Rightarrow> rf | NetworkTopology dc_rf \<Rightarrow> sum_list (map snd dc_rf))"

definition dc_replication_factors :: "replication_strategy \<Rightarrow> dc_factors" where
  "dc_replication_factors st = (case st of Simple _ \<Rightarrow> [] | NetworkTopology dc_rf \<Rightarrow> dc_rf)"

definition replicas_for_strategy :: "token_ring \<Rightarrow> i64 \<Rightarrow> replication_strategy \<Rightarrow> string list \<Rightarrow> node_id list" where
  "replicas_for_strategy r token st order =
     (case st of Simple rf \<Rightarrow> replicas r token rf | NetworkTopology dc_rf \<Rightarrow> nts_replicas r token dc_rf order)"

definition replica_host_ids_for_strategy ::
    "token_ring \<Rightarrow> i64 \<Rightarrow> replication_strategy \<Rightarrow> string list \<Rightarrow> uuid list" where
  "replica_host_ids_for_strategy r token st order =
     List.map_filter (\<lambda>nid. map_option host_id (get_node r nid)) (replicas_for_strategy r token st order)"

text \<open>\<open>str::parse::<usize>\<close>: an optional plus sign and at least one decimal digit, within 64 bits.\<close>

fun parse_digits :: "nat \<Rightarrow> string \<Rightarrow> nat option" where
  "parse_digits acc [] = Some acc"
| "parse_digits acc (c # cs) =
     (if 48 \<le> (of_char c :: nat) \<and> (of_char c :: nat) \<le> 57
      then (let v = acc * 10 + (of_char c - 48 :: nat) in if v \<le> u64_MAX then parse_digits v cs else None)
      else None)"

definition parse_usize :: "string \<Rightarrow> usize option" where
  "parse_usize s =
     (let digits = (case s of c # cs \<Rightarrow> if c = CHR ''+'' then cs else s | [] \<Rightarrow> [])
      in if digits = [] then None else parse_digits 0 digits)"

record replication_params =
  rp_strategy :: string
  rp_options :: "(string \<times> string) list"

datatype strategy_parse_error = MissingFactor | InvalidFactor string | InvalidDcFactor string string | UnknownStrategy string

fun parse_dc_factors :: "(string \<times> string) list \<Rightarrow> strategy_parse_error + dc_factors" where
  "parse_dc_factors [] = Inr []"
| "parse_dc_factors ((k, v) # opts) =
     (if k = ''class'' then parse_dc_factors opts
      else (case parse_usize v of
              None \<Rightarrow> Inl (InvalidDcFactor k v)
            | Some rf \<Rightarrow> (case parse_dc_factors opts of Inl e \<Rightarrow> Inl e | Inr m \<Rightarrow> Inr ((k, rf) # m))))"

definition strategy_try_from :: "replication_params \<Rightarrow> strategy_parse_error + replication_strategy" where
  "strategy_try_from params =
     (if rp_strategy params \<in> {''SimpleStrategy'', ''org.apache.cassandra.locator.SimpleStrategy''}
      then (case map_of (rp_options params) ''replication_factor'' of
              None \<Rightarrow> Inl MissingFactor
            | Some s \<Rightarrow> (case parse_usize s of None \<Rightarrow> Inl (InvalidFactor s) | Some rf \<Rightarrow> Inr (Simple rf)))
      else if rp_strategy params \<in> {''NetworkTopologyStrategy'', ''org.apache.cassandra.locator.NetworkTopologyStrategy''}
      then (case parse_dc_factors (rp_options params) of Inl e \<Rightarrow> Inl e | Inr m \<Rightarrow> Inr (NetworkTopology m))
      else Inl (UnknownStrategy (rp_strategy params)))"

section \<open>Well-formed rings\<close>

definition ring_wf :: "token_ring \<Rightarrow> bool" where
  "ring_wf r \<longleftrightarrow> bt_wf (tr_ring r) \<and> bt_wf (tr_nodes r)"

lemma ring_wf_ops:
  "ring_wf ring_new"
  "ring_wf r \<Longrightarrow> ring_wf (add_node r nid info)"
  "ring_wf r \<Longrightarrow> ring_wf (remove_node r nid)"
  "ring_wf r \<Longrightarrow> ring_wf (assign_tokens r nid tokens)"
  "ring_wf r \<Longrightarrow> ring_wf (set_bootstrap_complete r nodes)"
  "ring_wf r \<Longrightarrow> ring_wf (set_node_state r nid st)"
proof -
  have "bt_wf m \<Longrightarrow> bt_wf (foldl (\<lambda>m t. bt_insert t nid m) m tokens)" for m
    by (induction tokens arbitrary: m) (simp_all add: bt_insert_wf)
  then show "ring_wf r \<Longrightarrow> ring_wf (assign_tokens r nid tokens)" by (simp add: ring_wf_def assign_tokens_def)
qed (auto simp: ring_wf_def ring_new_def add_node_def remove_node_def set_bootstrap_complete_def set_node_state_def
    bt_insert_wf bt_remove_wf bt_wf_filter split: option.splits)

text \<open>The ring positions clockwise from a token.\<close>

definition clockwise :: "token_ring \<Rightarrow> i64 \<Rightarrow> node_id list" where
  "clockwise r token = map snd (ring_from r token @ ring_below r token)"

lemma ring_split: "bt_wf (tr_ring r) \<Longrightarrow> tr_ring r = ring_below r token @ ring_from r token"
proof -
  have "bt_wf m \<Longrightarrow> m = filter (\<lambda>(t, _). t < token) m @ filter (\<lambda>(t, _). token \<le> t) m" for m :: "(i64, node_id) btree"
  proof (induction m)
    case (Cons e m)
    obtain t n where e: "e = (t, n)" by (cases e)
    show ?case
    proof (cases "t < token")
      case True
      then show ?thesis using Cons e by simp
    next
      case False
      then have "filter (\<lambda>(t, _). t < token) m = []" using Cons.prems e by (force simp: filter_empty_conv)
      moreover from this have "filter (\<lambda>(t, _). token \<le> t) m = m" using Cons e by simp
      ultimately show ?thesis using False e by simp
    qed
  qed simp
  then show "bt_wf (tr_ring r) \<Longrightarrow> tr_ring r = ring_below r token @ ring_from r token"
    by (simp add: ring_below_def ring_from_def)
qed

lemma set_clockwise: "set (clockwise r token) = snd ` set (tr_ring r)"
  by (force simp: clockwise_def ring_from_def ring_below_def)

section \<open>Simple replica selection\<close>

text \<open>The first occurrences of a walk, not counting what was seen before.\<close>

fun first_seen :: "'a list \<Rightarrow> 'a list \<Rightarrow> 'a list" where
  "first_seen seen [] = []"
| "first_seen seen (x # xs) = (if x \<in> set seen then first_seen seen xs else x # first_seen (seen @ [x]) xs)"

lemma set_first_seen: "set (first_seen seen xs) = set xs - set seen"
  by (induction seen xs rule: first_seen.induct) auto

lemma distinct_first_seen: "distinct (first_seen seen xs)"
  by (induction seen xs rule: first_seen.induct) (auto simp: set_first_seen)

lemma first_seen_append: "first_seen seen (xs @ ys) = first_seen seen xs @ first_seen (seen @ first_seen seen xs) ys"
  by (induction seen xs rule: first_seen.induct) auto

lemma first_seen_Nil: "set xs \<subseteq> set seen \<Longrightarrow> first_seen seen xs = []"
  by (induction xs) auto

lemma collect_replicas_eq:
  "(let es = filter (is_replica_eligible r) (first_seen seen nids); k = max 1 (rf - length result);
        (stop, seen', result') = collect_replicas r rf nids seen result
    in result' = result @ take k es \<and> (stop \<longleftrightarrow> k \<le> length es) \<and> (\<not> stop \<longrightarrow> seen' = seen @ first_seen seen nids))"
proof (induction r rf nids seen result rule: collect_replicas.induct)
  case (2 r rf nid nids seen result)
  show ?case
  proof (cases "nid \<in> set seen \<or> \<not> is_replica_eligible r nid")
    case True
    then show ?thesis using 2(2,3) by (auto simp: Let_def split: prod.splits)
  next
    case False
    show ?thesis
    proof (cases "length (result @ [nid]) \<ge> rf")
      case True
      then have "max 1 (rf - length result) = 1" by auto
      then show ?thesis using True False by (simp add: Let_def)
    next
      case len: False
      then have "max 1 (rf - length result) = Suc (max 1 (rf - length (result @ [nid])))" by simp
      then show ?thesis using False len 2(1) by (auto simp: Let_def split: prod.splits)
    qed
  qed
qed simp

lemma replicas_eq:
  assumes "ring_wf r"
  shows "replicas r token rf = take (max 1 rf) (filter (is_replica_eligible r) (first_seen [] (clockwise r token)))"
proof -
  let ?from = "map snd (ring_from r token)"
  let ?below = "map snd (ring_below r token)"
  let ?el = "filter (is_replica_eligible r)"
  let ?later = "first_seen (first_seen [] ?from) ?below"
  obtain stop seen result where c: "collect_replicas r rf ?from [] [] = (stop, seen, result)"
    by (metis prod_cases3)
  have 1: "result = take (max 1 rf) (?el (first_seen [] ?from))" "stop \<longleftrightarrow> max 1 rf \<le> length (?el (first_seen [] ?from))"
    "\<not> stop \<Longrightarrow> seen = first_seen [] ?from"
    using collect_replicas_eq [of r "[]" ?from rf "[]"] by (simp_all add: c Let_def)
  have "map snd (tr_ring r) = ?below @ ?from"
    using ring_split [of r token] assms by (simp add: ring_wf_def flip: map_append)
  then have later: "first_seen (first_seen [] ?from) (map snd (tr_ring r)) = ?later"
    by (simp add: first_seen_append set_first_seen first_seen_Nil)
  have cw: "first_seen [] (clockwise r token) = first_seen [] ?from @ ?later"
    by (simp add: clockwise_def first_seen_append)
  show ?thesis
  proof (cases stop)
    case True
    then show ?thesis using 1 by (simp add: replicas_def c cw)
  next
    case False
    obtain stop' seen' result' where
      c': "collect_replicas r rf (map snd (tr_ring r)) seen result = (stop', seen', result')" by (metis prod_cases3)
    have long: "length (?el (first_seen [] ?from)) < max 1 rf" using 1(2) False by (meson not_le)
    then have res: "result = ?el (first_seen [] ?from)" using 1(1) by simp
    have "max 1 (rf - length result) = max 1 rf - length result" using long res by simp
    moreover have "result' = result @ take (max 1 (rf - length result)) (?el ?later)"
      using collect_replicas_eq [of r seen "map snd (tr_ring r)" rf result]
      unfolding c' Let_def prod.case by (simp only: 1(3) [OF False] later)
    moreover have "replicas r token rf = result'" using False by (simp add: replicas_def c c')
    ultimately show ?thesis using long unfolding cw filter_append res by simp
  qed
qed

section \<open>Replica selection by datacenter\<close>

definition in_dc :: "token_ring \<Rightarrow> string \<Rightarrow> node_id \<Rightarrow> bool" where
  "in_dc r dc nid \<longleftrightarrow> is_replica_eligible r nid \<and> map_option data_center (get_node r nid) = Some dc"

definition dc_result :: "token_ring \<Rightarrow> string \<Rightarrow> nts_state \<Rightarrow> node_id list" where
  "dc_result r dc s = filter (in_dc r dc) (nts_result s)"

text \<open>The state of one datacenter during the walk: chosen and still needed replicas add up to the factor,
  and while replicas are needed every eligible node passed is either chosen or kept aside.\<close>

definition dc_inv :: "token_ring \<Rightarrow> string \<Rightarrow> usize \<Rightarrow> nts_state \<Rightarrow> bool" where
  "dc_inv r dc rf s \<longleftrightarrow>
     (\<exists>n. nts_needed s dc = Some n \<and> n + length (dc_result r dc s) = rf
        \<and> (0 < n \<longrightarrow> {x \<in> set (nts_seen s). in_dc r dc x} \<subseteq> set (dc_result r dc s) \<union> set (nts_skipped s dc)))
     \<and> distinct (nts_skipped s dc) \<and> set (nts_skipped s dc) \<subseteq> {x \<in> set (nts_seen s). in_dc r dc x}
     \<and> set (nts_skipped s dc) \<inter> set (nts_result s) = {}"

definition nts_inv :: "token_ring \<Rightarrow> dc_factors \<Rightarrow> nts_state \<Rightarrow> bool" where
  "nts_inv r dc_rf s \<longleftrightarrow> distinct (nts_result s) \<and> set (nts_result s) \<subseteq> set (nts_seen s)
     \<and> dom (nts_needed s) = dom (map_of dc_rf)
     \<and> (\<forall>x \<in> set (nts_result s). \<exists>dc \<in> dom (map_of dc_rf). in_dc r dc x)
     \<and> (\<forall>dc rf. map_of dc_rf dc = Some rf \<longrightarrow> dc_inv r dc rf s)"

lemma in_dc_unique: "in_dc r dc x \<Longrightarrow> in_dc r dc' x \<Longrightarrow> dc = dc'"
  by (auto simp: in_dc_def)

lemma nts_inv_init: "nts_inv r dc_rf (nts_init dc_rf)"
  by (auto simp: nts_inv_def nts_init_def dc_inv_def dc_result_def)

lemma nts_drain_other:
  "dc' \<noteq> dc \<Longrightarrow> nts_needed (nts_drain dc s) dc' = nts_needed s dc'"
  "dc' \<noteq> dc \<Longrightarrow> nts_skipped (nts_drain dc s) dc' = nts_skipped s dc'"
  "nts_seen (nts_drain dc s) = nts_seen s"
  by (auto simp: nts_drain_def split: option.splits)

lemma nts_drain_inv:
  assumes "nts_inv r dc_rf s" "map_of dc_rf dc = Some rf"
  shows "nts_inv r dc_rf (nts_drain dc s)"
    "\<exists>n. nts_needed (nts_drain dc s) dc = Some n \<and> (0 < n \<longrightarrow> nts_skipped (nts_drain dc s) dc = [])"
proof -
  let ?sk = "nts_skipped s dc" and ?s' = "nts_drain dc s"
  have inv: "dc_inv r dc rf s" using assms by (simp add: nts_inv_def)
  then obtain n where n: "nts_needed s dc = Some n" "n + length (dc_result r dc s) = rf"
    "0 < n \<Longrightarrow> {x \<in> set (nts_seen s). in_dc r dc x} \<subseteq> set (dc_result r dc s) \<union> set ?sk"
    by (auto simp: dc_inv_def)
  have sk: "distinct ?sk" "set ?sk \<subseteq> {x \<in> set (nts_seen s). in_dc r dc x}" "set ?sk \<inter> set (nts_result s) = {}"
    using inv by (simp_all add: dc_inv_def)
  have new: "nts_result ?s' = nts_result s @ take n ?sk" "nts_needed ?s' = (nts_needed s)(dc \<mapsto> n - length ?sk)"
    "nts_skipped ?s' = (nts_skipped s)(dc := drop n ?sk)" "nts_seen ?s' = nts_seen s"
    using n(1) by (simp_all add: nts_drain_def)
  show "\<exists>n. nts_needed ?s' dc = Some n \<and> (0 < n \<longrightarrow> nts_skipped ?s' dc = [])" by (simp add: new)
  have take_dc: "filter (in_dc r dc) (take n ?sk) = take n ?sk"
    using sk(2) by (auto simp: filter_id_conv dest: in_set_takeD)
  have take_other: "filter (in_dc r dc') (take n ?sk) = []" if "dc' \<noteq> dc" for dc'
    using sk(2) that in_dc_unique [of r dc _ dc'] by (auto simp: filter_empty_conv dest!: in_set_takeD)
  have tk: "distinct (take n ?sk)" "set (take n ?sk) \<subseteq> set ?sk" "set (drop n ?sk) \<subseteq> set ?sk"
    "set (take n ?sk) \<inter> set (drop n ?sk) = {}"
    using sk(1) by (simp_all add: set_take_subset set_drop_subset set_take_disj_set_drop_if_distinct)
  have res: "dc_result r dc ?s' = dc_result r dc s @ take n ?sk" by (simp add: dc_result_def new take_dc)
  have seen: "{x \<in> set (nts_seen s). in_dc r dc x} \<subseteq> set (dc_result r dc ?s') \<union> set (drop n ?sk)" if "0 < n - length ?sk"
  proof -
    have "take n ?sk = ?sk" "0 < n" using that by simp_all
    then show ?thesis using n(3) by (simp add: res)
  qed
  have "n - length ?sk + length (dc_result r dc ?s') = rf" using n(2) by (simp add: res)
  moreover have "set (drop n ?sk) \<inter> set (nts_result ?s') = {}" using sk(3) tk(3,4) unfolding new(1) set_append by blast
  moreover have "set (drop n ?sk) \<subseteq> {x \<in> set (nts_seen s). in_dc r dc x}" using sk(2) tk(3) by blast
  ultimately have this_dc: "dc_inv r dc rf ?s'"
    unfolding dc_inv_def new(2,3,4) using seen sk(1) by simp
  have other_dc: "dc_inv r dc' rf' ?s'" if "dc' \<noteq> dc" "map_of dc_rf dc' = Some rf'" for dc' rf'
  proof -
    have o: "dc_inv r dc' rf' s" using assms(1) that(2) by (simp add: nts_inv_def)
    have "set (nts_skipped s dc') \<inter> set ?sk = {}"
      using o sk(2) that(1) in_dc_unique [of r dc _ dc'] by (auto simp: dc_inv_def)
    then show ?thesis
      using o tk(2) that(1) unfolding dc_inv_def dc_result_def new filter_append take_other [OF that(1)] by auto
  qed
  have "dc_inv r dc' rf' ?s'" if "map_of dc_rf dc' = Some rf'" for dc' rf'
    using this_dc other_dc that assms(2) by (cases "dc' = dc") auto
  moreover have "distinct (nts_result ?s')" "set (nts_result ?s') \<subseteq> set (nts_seen ?s')"
    "dom (nts_needed ?s') = dom (map_of dc_rf)"
    using assms sk tk by (auto simp: new nts_inv_def)
  moreover have "\<forall>x \<in> set (nts_result ?s'). \<exists>dc \<in> dom (map_of dc_rf). in_dc r dc x"
    using assms sk(2) tk(2) unfolding new nts_inv_def by auto
  ultimately show "nts_inv r dc_rf ?s'" unfolding nts_inv_def by simp
qed

lemma dc_invI:
  assumes "nts_needed s dc = Some n" "n + length (dc_result r dc s) = rf"
    and "0 < n \<Longrightarrow> {x \<in> set (nts_seen s). in_dc r dc x} \<subseteq> set (dc_result r dc s) \<union> set (nts_skipped s dc)"
    and "distinct (nts_skipped s dc)" "set (nts_skipped s dc) \<subseteq> {x \<in> set (nts_seen s). in_dc r dc x}"
    and "set (nts_skipped s dc) \<inter> set (nts_result s) = {}"
  shows "dc_inv r dc rf s"
  using assms by (simp add: dc_inv_def)

lemma dc_invE:
  assumes "dc_inv r dc rf s"
  obtains n where "nts_needed s dc = Some n" "n + length (dc_result r dc s) = rf"
    "0 < n \<Longrightarrow> {x \<in> set (nts_seen s). in_dc r dc x} \<subseteq> set (dc_result r dc s) \<union> set (nts_skipped s dc)"
    "distinct (nts_skipped s dc)" "set (nts_skipped s dc) \<subseteq> {x \<in> set (nts_seen s). in_dc r dc x}"
    "set (nts_skipped s dc) \<inter> set (nts_result s) = {}"
  using assms by (auto simp: dc_inv_def)

lemma nts_invD:
  assumes "nts_inv r dc_rf s"
  shows "distinct (nts_result s)" "set (nts_result s) \<subseteq> set (nts_seen s)" "dom (nts_needed s) = dom (map_of dc_rf)"
    "\<forall>x \<in> set (nts_result s). \<exists>dc \<in> dom (map_of dc_rf). in_dc r dc x"
    "map_of dc_rf dc = Some rf \<Longrightarrow> dc_inv r dc rf s"
  using assms by (simp_all add: nts_inv_def)

text \<open>The three ways a step treats a new node: pass it, keep it aside, choose it.\<close>

lemma nts_pass_inv:
  assumes "nts_inv r dc_rf s" "\<And>dc n. nts_needed s dc = Some n \<Longrightarrow> 0 < n \<Longrightarrow> \<not> in_dc r dc nid"
    and "nts_seen s' = nts_seen s @ [nid]" "nts_result s' = nts_result s" "nts_needed s' = nts_needed s"
    and "nts_skipped s' = nts_skipped s"
  shows "nts_inv r dc_rf s'"
proof -
  note v = nts_invD [OF assms(1)]
  have "dc_inv r dc rf s'" if "map_of dc_rf dc = Some rf" for dc rf
    using v(5) [OF that]
  proof (rule dc_invE)
    fix n
    assume n: "nts_needed s dc = Some n" "n + length (dc_result r dc s) = rf"
      "0 < n \<Longrightarrow> {x \<in> set (nts_seen s). in_dc r dc x} \<subseteq> set (dc_result r dc s) \<union> set (nts_skipped s dc)"
      "distinct (nts_skipped s dc)" "set (nts_skipped s dc) \<subseteq> {x \<in> set (nts_seen s). in_dc r dc x}"
      "set (nts_skipped s dc) \<inter> set (nts_result s) = {}"
    have "{x \<in> set (nts_seen s'). in_dc r dc x} = {x \<in> set (nts_seen s). in_dc r dc x}" if "0 < n"
      using assms(2) [OF n(1) that] by (auto simp: assms(3))
    moreover have "set (nts_seen s) \<subseteq> set (nts_seen s')" by (auto simp: assms(3))
    ultimately show ?thesis
      using n by (intro dc_invI [of _ _ n]) (auto simp: assms(4-6) dc_result_def)
  qed
  then show ?thesis using v(1-4) unfolding nts_inv_def assms(3-6) by auto
qed

lemma nts_defer_inv:
  assumes "nts_inv r dc_rf s" "in_dc r dc nid" "nid \<notin> set (nts_seen s)"
    and "nts_seen s' = nts_seen s @ [nid]" "nts_result s' = nts_result s" "nts_needed s' = nts_needed s"
    and "nts_skipped s' = (nts_skipped s)(dc := nts_skipped s dc @ [nid])"
  shows "nts_inv r dc_rf s'"
proof -
  note v = nts_invD [OF assms(1)]
  have "dc_inv r dc' rf s'" if "map_of dc_rf dc' = Some rf" for dc' rf
    using v(5) [OF that]
  proof (rule dc_invE)
    fix n
    assume n: "nts_needed s dc' = Some n" "n + length (dc_result r dc' s) = rf"
      "0 < n \<Longrightarrow> {x \<in> set (nts_seen s). in_dc r dc' x} \<subseteq> set (dc_result r dc' s) \<union> set (nts_skipped s dc')"
      "distinct (nts_skipped s dc')" "set (nts_skipped s dc') \<subseteq> {x \<in> set (nts_seen s). in_dc r dc' x}"
      "set (nts_skipped s dc') \<inter> set (nts_result s) = {}"
    have ne: "in_dc r dc' nid \<longleftrightarrow> dc' = dc" using assms(2) in_dc_unique by blast
    have new: "{x \<in> set (nts_seen s'). in_dc r dc' x}
        = (if dc' = dc then insert nid {x \<in> set (nts_seen s). in_dc r dc' x} else {x \<in> set (nts_seen s). in_dc r dc' x})"
      using ne by (auto simp: assms(4))
    have "nid \<notin> set (nts_skipped s dc')" "nid \<notin> set (nts_result s)" using n(5) v(2) assms(3) by auto
    then show ?thesis
      using n by (intro dc_invI [of _ _ n]) (auto simp: new assms(5-7) dc_result_def)
  qed
  then show ?thesis using v(1-4) unfolding nts_inv_def assms(4-6) by auto
qed

lemma nts_choose_inv:
  assumes "nts_inv r dc_rf s" "in_dc r dc nid" "nid \<notin> set (nts_seen s)" "nts_needed s dc = Some (Suc m)"
    and "nts_seen s' = nts_seen s @ [nid]" "nts_result s' = nts_result s @ [nid]"
    and "nts_needed s' = (nts_needed s)(dc \<mapsto> m)" "nts_skipped s' = nts_skipped s"
  shows "nts_inv r dc_rf s'"
proof -
  note v = nts_invD [OF assms(1)]
  have dom: "dc \<in> dom (map_of dc_rf)" using v(3) assms(4) by auto
  have "dc_inv r dc' rf s'" if "map_of dc_rf dc' = Some rf" for dc' rf
    using v(5) [OF that]
  proof (rule dc_invE)
    fix n
    assume n: "nts_needed s dc' = Some n" "n + length (dc_result r dc' s) = rf"
      "0 < n \<Longrightarrow> {x \<in> set (nts_seen s). in_dc r dc' x} \<subseteq> set (dc_result r dc' s) \<union> set (nts_skipped s dc')"
      "distinct (nts_skipped s dc')" "set (nts_skipped s dc') \<subseteq> {x \<in> set (nts_seen s). in_dc r dc' x}"
      "set (nts_skipped s dc') \<inter> set (nts_result s) = {}"
    have ne: "in_dc r dc' nid \<longleftrightarrow> dc' = dc" using assms(2) in_dc_unique by blast
    have new: "{x \<in> set (nts_seen s'). in_dc r dc' x}
        = (if dc' = dc then insert nid {x \<in> set (nts_seen s). in_dc r dc' x} else {x \<in> set (nts_seen s). in_dc r dc' x})"
      using ne by (auto simp: assms(5))
    have res: "dc_result r dc' s' = (if dc' = dc then dc_result r dc' s @ [nid] else dc_result r dc' s)"
      by (simp add: dc_result_def assms(6) ne)
    have "nid \<notin> set (nts_skipped s dc')" using n(5) assms(3) by auto
    then show ?thesis
      using n assms(4)
      by (intro dc_invI [of _ _ "if dc' = dc then m else n"]) (auto simp: new res assms(6-8) split: if_splits)
  qed
  then show ?thesis using v(1-4) assms(2,3) dom unfolding nts_inv_def assms(5-8) by auto
qed

lemma eligible_state:
  "get_node r nid = Some info \<Longrightarrow>
   is_replica_eligible r nid \<longleftrightarrow> ni_state info = Normal \<or> ni_state info = Learner True"
  by (auto simp: is_replica_eligible_def split: node_state.splits)

lemma nts_step_seen:
  "nts_seen (nts_step r dc_rf nid s) = (if nid \<in> set (nts_seen s) then nts_seen s else nts_seen s @ [nid])"
  by (simp add: nts_step_def Let_def nts_drain_other(3) split: option.split)

lemma nts_step_inv:
  assumes "nts_inv r dc_rf s"
  shows "nts_inv r dc_rf (nts_step r dc_rf nid s)"
proof (cases "nid \<in> set (nts_seen s)")
  case True
  then show ?thesis using assms by (simp add: nts_step_def)
next
  case new: False
  let ?s = "s\<lparr>nts_seen := nts_seen s @ [nid]\<rparr>"
  have pass: "nts_inv r dc_rf ?s" if "\<And>dc n. nts_needed s dc = Some n \<Longrightarrow> 0 < n \<Longrightarrow> \<not> in_dc r dc nid"
    by (rule nts_pass_inv [OF assms that]) simp_all
  show ?thesis
  proof (cases "is_replica_eligible r nid")
    case False
    then have "nts_step r dc_rf nid s = ?s"
      using new eligible_state [of r nid] by (auto simp: nts_step_def Let_def split: option.split)
    then show ?thesis using pass False by (simp add: in_dc_def)
  next
    case el: True
    then obtain info where info: "get_node r nid = Some info"
      by (auto simp: is_replica_eligible_def split: option.splits)
    let ?dc = "data_center info"
    have st: "ni_state info = Normal \<or> ni_state info = Learner True" using el eligible_state [OF info] by simp
    have dc: "in_dc r dc nid \<longleftrightarrow> dc = ?dc" for dc using el info by (auto simp: in_dc_def)
    show ?thesis
    proof (cases "\<exists>m. nts_needed s ?dc = Some (Suc m)")
      case False
      then have "nts_step r dc_rf nid s = ?s"
        using new info st by (auto simp: nts_step_def Let_def gr0_conv_Suc split: option.split)
      then show ?thesis using pass False dc gr0_conv_Suc by auto
    next
      case True
      then obtain m where m: "nts_needed s ?dc = Some (Suc m)" by blast
      let ?more = "length (nts_seen_racks s ?dc) < rack_count r dc_rf ?dc"
      show ?thesis
      proof (cases "?more \<and> ni_rack info \<in> set (nts_seen_racks s ?dc)")
        case True
        then have "nts_step r dc_rf nid s = ?s\<lparr>nts_skipped := (nts_skipped s)(?dc := nts_skipped s ?dc @ [nid])\<rparr>"
          using new info st m by (simp add: nts_step_def Let_def)
        then show ?thesis using nts_defer_inv [OF assms _ new, of ?dc] dc by simp
      next
        case False
        let ?racks = "if ?more then (nts_seen_racks s)(?dc := nts_seen_racks s ?dc @ [ni_rack info]) else nts_seen_racks s"
        let ?c = "?s\<lparr>nts_seen_racks := ?racks, nts_result := nts_result s @ [nid], nts_needed := (nts_needed s)(?dc \<mapsto> m)\<rparr>"
        have "nts_step r dc_rf nid s
            = (if length (?racks ?dc) = rack_count r dc_rf ?dc then nts_drain ?dc ?c else ?c)"
          using new info st m False by (auto simp: nts_step_def Let_def)
        moreover have inv: "nts_inv r dc_rf ?c" using nts_choose_inv [OF assms _ new m, of ?c] dc by simp
        moreover obtain rf where "map_of dc_rf ?dc = Some rf" using nts_invD(3) [OF assms] m by blast
        ultimately show ?thesis using nts_drain_inv(1) by simp
      qed
    qed
  qed
qed

lemma nts_walk_inv:
  "nts_inv r dc_rf s \<Longrightarrow> nts_inv r dc_rf (nts_walk r dc_rf nids s)"
  by (induction nids arbitrary: s) (simp_all add: nts_step_inv)

lemma nts_walk_mono: "set (nts_seen s) \<subseteq> set (nts_seen (nts_walk r dc_rf nids s))"
proof (induction nids arbitrary: s)
  case (Cons nid nids)
  have "set (nts_seen s) \<subseteq> set (nts_seen (nts_step r dc_rf nid s))" by (auto simp: nts_step_seen)
  then show ?case using Cons [of "nts_step r dc_rf nid s"] by auto
qed simp

lemma nts_walk_bound: "set (nts_seen (nts_walk r dc_rf nids s)) \<subseteq> set (nts_seen s) \<union> set nids"
proof (induction nids arbitrary: s)
  case (Cons nid nids)
  have "set (nts_seen (nts_step r dc_rf nid s)) \<subseteq> insert nid (set (nts_seen s))" by (auto simp: nts_step_seen)
  then show ?case using Cons [of "nts_step r dc_rf nid s"] by auto
qed simp

lemma nts_walk_complete:
  "set nids \<subseteq> set (nts_seen (nts_walk r dc_rf nids s)) \<or> all_filled dc_rf (nts_needed (nts_walk r dc_rf nids s))"
proof (induction nids arbitrary: s)
  case (Cons nid nids)
  have "nid \<in> set (nts_seen (nts_step r dc_rf nid s))" by (simp add: nts_step_seen)
  then have "nid \<in> set (nts_seen (nts_walk r dc_rf nids (nts_step r dc_rf nid s)))" using nts_walk_mono by blast
  then show ?case using Cons [of "nts_step r dc_rf nid s"] by simp
qed simp

text \<open>After the final drain a datacenter that still needs replicas has no node left aside.\<close>

lemma nts_final_drain:
  assumes "nts_inv r dc_rf s" "set order = dom (map_of dc_rf)"
  defines "f \<equiv> foldl (\<lambda>s dc. nts_drain dc s) s order"
  shows "nts_inv r dc_rf f" "nts_seen f = nts_seen s"
    "dc \<in> set order \<Longrightarrow> \<exists>n. nts_needed f dc = Some n \<and> (0 < n \<longrightarrow> nts_skipped f dc = [])"
proof -
  have "set order \<subseteq> dom (map_of dc_rf) \<Longrightarrow> nts_inv r dc_rf s \<Longrightarrow>
      nts_inv r dc_rf (foldl (\<lambda>s dc. nts_drain dc s) s order)
      \<and> nts_seen (foldl (\<lambda>s dc. nts_drain dc s) s order) = nts_seen s
      \<and> (\<forall>dc \<in> set order. \<exists>n. nts_needed (foldl (\<lambda>s dc. nts_drain dc s) s order) dc = Some n
           \<and> (0 < n \<longrightarrow> nts_skipped (foldl (\<lambda>s dc. nts_drain dc s) s order) dc = []))"
  proof (induction order rule: rev_induct)
    case (snoc d order)
    let ?f = "foldl (\<lambda>s dc. nts_drain dc s) s order"
    have IH: "nts_inv r dc_rf ?f" "nts_seen ?f = nts_seen s"
      "\<forall>dc \<in> set order. \<exists>n. nts_needed ?f dc = Some n \<and> (0 < n \<longrightarrow> nts_skipped ?f dc = [])"
      using snoc by simp_all
    obtain rf where rf: "map_of dc_rf d = Some rf" using snoc.prems(1) by auto
    note drained = nts_drain_inv [OF IH(1) rf]
    have "\<exists>n. nts_needed (nts_drain d ?f) dc = Some n \<and> (0 < n \<longrightarrow> nts_skipped (nts_drain d ?f) dc = [])"
      if "dc \<in> insert d (set order)" for dc
      using that IH(3) drained(2) by (cases "dc = d") (auto simp: nts_drain_other)
    then show ?case using drained(1) IH(2) by (simp add: nts_drain_other(3))
  qed simp
  then show "nts_inv r dc_rf f" "nts_seen f = nts_seen s"
    "dc \<in> set order \<Longrightarrow> \<exists>n. nts_needed f dc = Some n \<and> (0 < n \<longrightarrow> nts_skipped f dc = [])"
    using assms by simp_all
qed

definition dc_candidates :: "token_ring \<Rightarrow> string \<Rightarrow> node_id set" where
  "dc_candidates r dc = {x \<in> snd ` set (tr_ring r). in_dc r dc x}"

lemma nts_count:
  assumes inv: "nts_inv r dc_rf f" and rf: "map_of dc_rf dc = Some rf"
    and bound: "set (nts_seen f) \<subseteq> snd ` set (tr_ring r)"
    and rest: "\<exists>n. nts_needed f dc = Some n \<and> (0 < n \<longrightarrow> nts_skipped f dc = [] \<and> snd ` set (tr_ring r) \<subseteq> set (nts_seen f))"
  shows "length (dc_result r dc f) = min rf (card (dc_candidates r dc))"
proof -
  note v = nts_invD [OF inv]
  have d: "distinct (dc_result r dc f)" using v(1) by (simp add: dc_result_def)
  have sub: "set (dc_result r dc f) \<subseteq> dc_candidates r dc"
    using v(2) bound by (auto simp: dc_result_def dc_candidates_def)
  have fin: "finite (dc_candidates r dc)" by (simp add: dc_candidates_def)
  have le: "length (dc_result r dc f) \<le> card (dc_candidates r dc)"
    using card_mono [OF fin sub] distinct_card [OF d] by simp
  from v(5) [OF rf] show ?thesis
  proof (rule dc_invE)
    fix n
    assume n: "nts_needed f dc = Some n" "n + length (dc_result r dc f) = rf"
      "0 < n \<Longrightarrow> {x \<in> set (nts_seen f). in_dc r dc x} \<subseteq> set (dc_result r dc f) \<union> set (nts_skipped f dc)"
    show ?thesis
    proof (cases "0 < n")
      case True
      then have "dc_candidates r dc \<subseteq> set (dc_result r dc f)"
        using n(1,3) rest by (auto simp: dc_candidates_def)
      then have "card (dc_candidates r dc) \<le> length (dc_result r dc f)"
        using card_mono [of "set (dc_result r dc f)"] distinct_card [OF d] by fastforce
      then show ?thesis using le n(2) by simp
    next
      case False
      then show ?thesis using le n(2) by simp
    qed
  qed
qed

lemma nts_selected:
  fixes r token
  assumes "set order = dom (map_of dc_rf)"
  defines "w \<equiv> nts_walk r dc_rf (clockwise r token) (nts_init dc_rf)"
  defines "f \<equiv> foldl (\<lambda>s dc. nts_drain dc s) w order"
  shows "nts_inv r dc_rf f" "nts_replicas r token dc_rf order = nts_result f"
    "map_of dc_rf dc = Some rf \<Longrightarrow> length (dc_result r dc f) = min rf (card (dc_candidates r dc))"
proof -
  have w: "nts_inv r dc_rf w" unfolding w_def by (rule nts_walk_inv) (rule nts_inv_init)
  note drain = nts_final_drain [OF w assms(1), folded f_def]
  show "nts_inv r dc_rf f" by (rule drain(1))
  show "nts_replicas r token dc_rf order = nts_result f"
    by (simp add: nts_replicas_def f_def w_def clockwise_def)
  assume rf: "map_of dc_rf dc = Some rf"
  have bound: "set (nts_seen f) \<subseteq> snd ` set (tr_ring r)"
    using nts_walk_bound [of r dc_rf "clockwise r token" "nts_init dc_rf"]
    by (simp add: drain(2) w_def nts_init_def set_clockwise)
  have "nts_needed f dc = Some 0" if filled: "all_filled dc_rf (nts_needed w)"
  proof -
    have "nts_needed w dc' = Some 0" if "dc' \<in> dom (map_of dc_rf)" for dc'
      using filled that by (auto simp: all_filled_def list_all_iff dest!: map_of_SomeD)
    moreover have "\<forall>dc' \<in> set ds. nts_needed s dc' = Some 0 \<Longrightarrow> nts_needed (foldl (\<lambda>s dc. nts_drain dc s) s ds) dc = nts_needed s dc"
      for s ds by (induction ds arbitrary: s) (auto simp: nts_drain_def)
    ultimately show ?thesis using rf assms(1) by (auto simp: f_def)
  qed
  moreover have "snd ` set (tr_ring r) \<subseteq> set (nts_seen f) \<or> all_filled dc_rf (nts_needed w)"
    using nts_walk_complete [of "clockwise r token" r dc_rf "nts_init dc_rf"]
    by (simp add: drain(2) w_def set_clockwise)
  moreover have "dc \<in> set order" using rf assms(1) by auto
  ultimately have "\<exists>n. nts_needed f dc = Some n \<and> (0 < n \<longrightarrow> nts_skipped f dc = [] \<and> snd ` set (tr_ring r) \<subseteq> set (nts_seen f))"
    using drain(3) by fastforce
  then show "length (dc_result r dc f) = min rf (card (dc_candidates r dc))"
    by (rule nts_count [OF drain(1) rf bound])
qed

section \<open>Properties\<close>

definition sample_node :: "uuid \<Rightarrow> string \<Rightarrow> string \<Rightarrow> node_state \<Rightarrow> node_info" where
  "sample_node h dc rack st = \<lparr>host_id = h, ni_addr = ''a'', data_center = dc, ni_rack = rack, ni_state = st, cql_broadcast = None\<rparr>"

text \<open>Three nodes in datacenter A, of which two share a rack and one is leaving, and one in B.\<close>

definition sample_ring :: token_ring where
  "sample_ring =
     \<lparr>tr_ring = [(-10, 1), (0, 2), (10, 3), (20, 4), (30, 1)],
      tr_nodes = [(1, sample_node 101 ''A'' ''r1'' Normal), (2, sample_node 102 ''A'' ''r1'' Normal),
        (3, sample_node 103 ''A'' ''r2'' Leaving), (4, sample_node 104 ''B'' ''r1'' (Learner True))],
      tr_bootstrap_complete = {}\<rparr>"

text \<open>
  SimpleStrategy selects, in clockwise order from the token, the first \<open>rf\<close> distinct eligible nodes
  that own a token, and all of them when there are fewer.
\<close>

theorem replicas_spec:
  assumes "ring_wf r" "0 < rf"
  shows "replicas r token rf = take rf (filter (is_replica_eligible r) (first_seen [] (clockwise r token)))
    \<and> distinct (replicas r token rf)
    \<and> length (replicas r token rf) = min rf (card {n \<in> snd ` set (tr_ring r). is_replica_eligible r n})"
proof -
  let ?c = "filter (is_replica_eligible r) (first_seen [] (clockwise r token))"
  have eq: "replicas r token rf = take rf ?c" using replicas_eq [OF assms(1)] assms(2) by simp
  have d: "distinct ?c" by (simp add: distinct_first_seen)
  have "set ?c = {n \<in> snd ` set (tr_ring r). is_replica_eligible r n}"
    by (auto simp: set_first_seen set_clockwise)
  then have "length ?c = card {n \<in> snd ` set (tr_ring r). is_replica_eligible r n}" using distinct_card [OF d] by simp
  then show ?thesis using d by (simp add: eq min.commute)
qed

theorem replicas_spec_witness:
  "replicas sample_ring 5 2 = take 2 (filter (is_replica_eligible sample_ring) (first_seen [] (clockwise sample_ring 5)))
    \<and> distinct (replicas sample_ring 5 2)
    \<and> length (replicas sample_ring 5 2) = min 2 (card {n \<in> snd ` set (tr_ring sample_ring). is_replica_eligible sample_ring n})"
  by (rule replicas_spec) (simp_all add: ring_wf_def sample_ring_def)

text \<open>
  C23: NetworkTopologyStrategy meets every datacenter's replication factor: it selects distinct eligible
  nodes of the configured datacenters, and in each of them as many as its factor asks for, or all
  eligible nodes of the datacenter that own a token when there are fewer, whatever the order in which
  nodes kept aside for rack diversity are drained.
\<close>

theorem nts_replicas_spec:
  assumes "set order = dom (map_of dc_rf)" "map_of dc_rf dc = Some rf"
  shows "distinct (nts_replicas r token dc_rf order)
    \<and> (\<forall>x \<in> set (nts_replicas r token dc_rf order). \<exists>dc' \<in> dom (map_of dc_rf). in_dc r dc' x)
    \<and> length (filter (in_dc r dc) (nts_replicas r token dc_rf order)) = min rf (card (dc_candidates r dc))"
  using nts_invD [OF nts_selected(1) [OF assms(1), of r token]]
    nts_selected(3) [OF assms, of r token] unfolding nts_selected(2) [OF assms(1), of r token] dc_result_def
  by blast

theorem nts_replicas_spec_witness:
  "length (filter (in_dc sample_ring ''A'') (nts_replicas sample_ring 5 [(''A'', 2), (''B'', 1)] [''B'', ''A'']))
     = min 2 (card (dc_candidates sample_ring ''A''))"
  using nts_replicas_spec [of "[''B'', ''A'']" "[(''A'', 2), (''B'', 1)]" "''A''" 2 sample_ring 5] by auto

text \<open>
  A replication factor of zero still selects a node: the loop pushes before it compares.
\<close>

theorem replicas_zero_factor:
  "replicas sample_ring 5 0 = [4]"
  by (simp add: replicas_def sample_ring_def ring_from_def is_replica_eligible_def get_node_def sample_node_def)

text \<open>
  Every operation on the ring keeps its token and node maps ordered without duplicate keys, a removed
  node owns no token and is never selected, and an assigned token is owned by its node.
\<close>

theorem ring_operations:
  assumes "ring_wf r"
  shows "ring_wf (add_node r nid info) \<and> ring_wf (assign_tokens r nid tokens) \<and> ring_wf (remove_node r nid)
    \<and> ring_wf (set_node_state r nid st)
    \<and> tokens_for_node (remove_node r nid) nid = [] \<and> nid \<notin> set (replicas (remove_node r nid) token rf)
    \<and> set (tokens_for_node (assign_tokens r nid tokens) nid) = set (tokens_for_node r nid) \<union> set tokens"
proof -
  have wf: "ring_wf (remove_node r nid)" by (rule ring_wf_ops) (rule assms)
  have "tokens_for_node (remove_node r nid) nid = []"
    by (auto simp: tokens_for_node_def remove_node_def filter_empty_conv)
  moreover have "nid \<notin> set (replicas (remove_node r nid) token rf)"
    unfolding replicas_eq [OF wf] using set_clockwise [of "remove_node r nid" token]
    by (auto simp: is_replica_eligible_def get_node_def remove_node_def dest!: in_set_takeD)
  moreover have "set (tokens_for_node (assign_tokens r nid tokens) nid) = set (tokens_for_node r nid) \<union> set tokens"
  proof -
    have mem: "t \<in> set (tokens_for_node q nid) \<longleftrightarrow> map_of (tr_ring q) t = Some nid" if "ring_wf q" for q t
      using that by (auto simp: tokens_for_node_def ring_wf_def bt_wf_distinct image_iff intro: map_of_is_SomeI dest: map_of_SomeD)
    have get: "map_of (foldl (\<lambda>m t. bt_insert t nid m) m tokens) t
        = (if t \<in> set tokens then Some nid else map_of m t)" for m t
      by (induction tokens arbitrary: m) auto
    show ?thesis
      using mem [OF assms] mem [OF ring_wf_ops(4) [OF assms]] by (auto simp: assign_tokens_def get)
  qed
  ultimately show ?thesis using wf ring_wf_ops(2,4,6) [OF assms] by simp
qed

theorem ring_operations_witness:
  "tokens_for_node (remove_node sample_ring 1) 1 = [] \<and> 1 \<notin> set (replicas (remove_node sample_ring 1) 5 2)
   \<and> set (tokens_for_node (assign_tokens sample_ring 1 [7]) 1) = set (tokens_for_node sample_ring 1) \<union> set [7]"
  using ring_operations [of sample_ring 1 _ "[7]" Normal 5 2] by (auto simp: ring_wf_def sample_ring_def)

end
