(* ===== verification/Quorum.thy ===== *)
theory Quorum
  imports Prelude
begin

text \<open>
  Quorum systems: the interface between the components that count acknowledgements and the guarantees
  derived from counting them.  A component provides a predicate on sets of responders whose members
  pairwise meet; agreement of two deciding quorums and visibility of an acknowledged write follow once,
  for every provider.
\<close>

lemma card_overlap:
  assumes "finite U" "A \<subseteq> U" "B \<subseteq> U" "card U < card A + card B"
  shows "A \<inter> B \<noteq> {}"
proof
  assume "A \<inter> B = {}"
  then have "card (A \<union> B) = card A + card B"
    using assms(1-3) by (intro card_Un_disjoint) (auto intro: finite_subset)
  then show False using assms card_mono [of U "A \<union> B"] by simp
qed

lemma card_majorities_meet:
  assumes "finite U" "A \<subseteq> U" "B \<subseteq> U" "card U div 2 + 1 \<le> card A" "card U div 2 + 1 \<le> card B"
  shows "A \<inter> B \<noteq> {}"
  by (rule card_overlap [OF assms(1-3)]) (use assms(4,5) in linarith)

locale quorum_system =
  fixes quorum :: "'a set \<Rightarrow> bool"
  assumes meet: "quorum A \<Longrightarrow> quorum B \<Longrightarrow> A \<inter> B \<noteq> {}"
begin

lemma nonempty: "quorum A \<Longrightarrow> A \<noteq> {}"
  using meet [of A A] by auto

lemma agreement:
  assumes "quorum A" "quorum B" "\<And>x. x \<in> A \<Longrightarrow> vote x = Some v" "\<And>x. x \<in> B \<Longrightarrow> vote x = Some w"
  shows "v = w"
  using meet [OF assms(1,2)] assms(3,4) by fastforce

lemma latest_seen:
  assumes "quorum W" "quorum R" "finite R" "\<And>x. x \<in> W \<Longrightarrow> t \<le> stamp x"
  shows "(t :: 'b :: linorder) \<le> Max (stamp ` R)"
proof -
  obtain x where x: "x \<in> W" "x \<in> R" using meet [OF assms(1,2)] by auto
  then have "stamp x \<le> Max (stamp ` R)" using assms(3) by simp
  then show ?thesis using assms(4) [OF x(1)] by order
qed

end

end
