(* ===== verification/Consistency.thy ===== *)
theory Consistency
  imports Ring Quorum "HOL-Library.Sublist"
begin

text \<open>
  Consistency levels and the quorums they stand for (crate \<open>ferrosa-cluster\<close>: \<open>consistency.rs\<close>,
  \<open>coordinator/dc_quorum.rs\<close>, \<open>coordinator/cl_routing.rs\<close>).

  \<^item> \<open>consistency_level\<close> with its wire and string codecs and the counts \<open>block_for\<close>, \<open>block_for_dc\<close>.
  \<^item> \<open>progress\<close> and \<open>local_progress\<close> evaluate the responses of an operation against the configured
    datacenters; the code's closure that counts responders of a datacenter is a function argument.
  \<^item> \<open>retain_eligible_replicas_for_cl\<close> filters a replica list, \<open>route_for_cl\<close> picks the route of a level.

  Strings are ASCII, which is what level names and datacenter labels are compared as.  The lemmas show
  that satisfied quorums intersect, also between a datacenter-quorum write and a local read.
\<close>

section \<open>Levels\<close>

datatype consistency_level = One | Two | Three | Quorum | All | LocalOne | LocalQuorum | EachQuorum
  | Serial | LocalSerial | DcQuorum

fun block_for :: "consistency_level \<Rightarrow> usize \<Rightarrow> usize" where
  "block_for One rf = 1"
| "block_for LocalOne rf = 1"
| "block_for Two rf = min 2 rf"
| "block_for Three rf = min 3 rf"
| "block_for Quorum rf = rf div 2 + 1"
| "block_for LocalQuorum rf = rf div 2 + 1"
| "block_for Serial rf = rf div 2 + 1"
| "block_for DcQuorum rf = rf div 2 + 1"
| "block_for LocalSerial rf = rf div 2 + 1"
| "block_for All rf = rf"
| "block_for EachQuorum rf = rf div 2 + 1"

fun block_for_dc :: "consistency_level \<Rightarrow> usize \<Rightarrow> usize" where
  "block_for_dc EachQuorum dc_rf = dc_rf div 2 + 1"
| "block_for_dc LocalQuorum dc_rf = dc_rf div 2 + 1"
| "block_for_dc LocalSerial dc_rf = dc_rf div 2 + 1"
| "block_for_dc DcQuorum dc_rf = dc_rf div 2 + 1"
| "block_for_dc cl dc_rf = block_for cl dc_rf"

definition from_wire :: "u16 \<Rightarrow> consistency_level option" where
  "from_wire code =
     (if code = 0x0001 then Some One
      else if code = 0x0002 then Some Two
      else if code = 0x0003 then Some Three
      else if code = 0x0004 then Some Quorum
      else if code = 0x0005 then Some All
      else if code = 0x0006 then Some LocalQuorum
      else if code = 0x0007 then Some EachQuorum
      else if code = 0x0008 then Some Serial
      else if code = 0x0009 then Some LocalSerial
      else if code = 0x000A then Some LocalOne
      else if code = 0x0100 then Some DcQuorum
      else None)"

definition to_uppercase :: "string \<Rightarrow> string" where
  "to_uppercase = map (\<lambda>c. if 97 \<le> (of_char c :: nat) \<and> (of_char c :: nat) \<le> 122
     then char_of (of_char c - 32 :: nat) else c)"

definition cl_from_str :: "string \<Rightarrow> consistency_level option" where
  "cl_from_str s =
     (let u = to_uppercase s in
      if u = ''ONE'' then Some One
      else if u = ''TWO'' then Some Two
      else if u = ''THREE'' then Some Three
      else if u = ''QUORUM'' then Some Quorum
      else if u = ''ALL'' then Some All
      else if u = ''LOCAL_ONE'' then Some LocalOne
      else if u = ''LOCAL_QUORUM'' then Some LocalQuorum
      else if u = ''EACH_QUORUM'' then Some EachQuorum
      else if u = ''SERIAL'' then Some Serial
      else if u = ''LOCAL_SERIAL'' then Some LocalSerial
      else if u = ''DC_QUORUM'' then Some DcQuorum
      else None)"

fun to_wire :: "consistency_level \<Rightarrow> u16" where
  "to_wire One = 0x0001"
| "to_wire Two = 0x0002"
| "to_wire Three = 0x0003"
| "to_wire Quorum = 0x0004"
| "to_wire All = 0x0005"
| "to_wire LocalQuorum = 0x0006"
| "to_wire EachQuorum = 0x0007"
| "to_wire Serial = 0x0008"
| "to_wire LocalSerial = 0x0009"
| "to_wire LocalOne = 0x000A"
| "to_wire DcQuorum = 0x0100"

fun as_str :: "consistency_level \<Rightarrow> string" where
  "as_str One = ''ONE''"
| "as_str Two = ''TWO''"
| "as_str Three = ''THREE''"
| "as_str Quorum = ''QUORUM''"
| "as_str All = ''ALL''"
| "as_str LocalOne = ''LOCAL_ONE''"
| "as_str LocalQuorum = ''LOCAL_QUORUM''"
| "as_str EachQuorum = ''EACH_QUORUM''"
| "as_str Serial = ''SERIAL''"
| "as_str LocalSerial = ''LOCAL_SERIAL''"
| "as_str DcQuorum = ''DC_QUORUM''"

section \<open>Progress of an operation\<close>

record quorum_progress =
  pr_required :: usize
  pr_received :: usize

definition satisfied :: "quorum_progress \<Rightarrow> bool" where
  "satisfied p \<longleftrightarrow> pr_required p > 0 \<and> pr_received p \<ge> pr_required p"

abbreviation unmet_scope :: quorum_progress where
  "unmet_scope \<equiv> \<lparr>pr_required = 1, pr_received = 0\<rparr>"

definition configured_rf :: "dc_factors \<Rightarrow> string \<Rightarrow> usize option" where
  "configured_rf configured dc =
     (case map_of configured dc of Some rf \<Rightarrow> if rf > 0 then Some rf else None | None \<Rightarrow> None)"

definition local_progress :: "replication_strategy \<Rightarrow> string \<Rightarrow> (string \<Rightarrow> usize) \<Rightarrow> quorum_progress" where
  "local_progress strategy origin count_in_dc =
     (case configured_rf (dc_replication_factors strategy) origin of
        None \<Rightarrow> unmet_scope
      | Some rf \<Rightarrow> \<lparr>pr_required = rf div 2 + 1, pr_received = count_in_dc origin\<rparr>)"

definition dc_quorum_progress :: "dc_factors \<Rightarrow> string \<Rightarrow> usize \<Rightarrow> (string \<Rightarrow> usize) \<Rightarrow> quorum_progress" where
  "dc_quorum_progress configured origin tot count_in_dc =
     (case configured_rf configured origin of
        None \<Rightarrow> unmet_scope
      | Some origin_rf \<Rightarrow>
          (let org = \<lparr>pr_required = origin_rf div 2 + 1, pr_received = count_in_dc origin\<rparr>
           in if \<not> satisfied org then org
              else
                let configured_dcs = length (filter (\<lambda>(_, rf). rf > 0) configured);
                    dc_quorum = \<lparr>pr_required = configured_dcs div 2 + 1,
                      pr_received = length (filter (\<lambda>(dc, rf). rf > 0 \<and> count_in_dc dc > rf div 2) configured)\<rparr>
                in if \<not> satisfied dc_quorum then dc_quorum
                   else
                     let rf_total = sum_list (filter (\<lambda>rf. rf > 0) (map snd configured))
                     in \<lparr>pr_required = rf_total div 2 + 1, pr_received = tot\<rparr>))"

definition each_quorum_progress :: "dc_factors \<Rightarrow> (string \<Rightarrow> usize) \<Rightarrow> quorum_progress" where
  "each_quorum_progress configured count_in_dc =
     (let required = sum_list (map (\<lambda>rf. rf div 2 + 1) (filter (\<lambda>rf. rf > 0) (map snd configured)))
      in if required = 0 then unmet_scope
         else \<lparr>pr_required = required,
                pr_received = sum_list (map (\<lambda>(dc, rf). min (count_in_dc dc) (rf div 2 + 1))
                  (filter (\<lambda>(_, rf). rf > 0) configured))\<rparr>)"

definition total_progress :: "consistency_level \<Rightarrow> replication_strategy \<Rightarrow> usize \<Rightarrow> quorum_progress" where
  "total_progress cl strategy tot =
     (let rf = replication_factor strategy
      in if rf = 0 then unmet_scope
         else \<lparr>pr_required = (case cl of Two \<Rightarrow> 2 | Three \<Rightarrow> 3 | _ \<Rightarrow> block_for cl rf), pr_received = tot\<rparr>)"

definition progress ::
    "consistency_level \<Rightarrow> replication_strategy \<Rightarrow> string \<Rightarrow> usize \<Rightarrow> (string \<Rightarrow> usize) \<Rightarrow> quorum_progress" where
  "progress cl strategy origin tot count_in_dc =
     (let configured = dc_replication_factors strategy in
      if cl = DcQuorum \<and> configured \<noteq> [] then dc_quorum_progress configured origin tot count_in_dc
      else if cl \<in> {LocalQuorum, LocalOne, LocalSerial}
      then (case configured_rf configured origin of
              None \<Rightarrow> unmet_scope
            | Some rf \<Rightarrow> \<lparr>pr_required = block_for_dc cl rf, pr_received = count_in_dc origin\<rparr>)
      else if cl = EachQuorum then each_quorum_progress configured count_in_dc
      else total_progress cl strategy tot)"

section \<open>Routing\<close>

record cl_replica_policy =
  include_voters :: bool
  include_learners :: bool
  leader_only :: bool

definition VOTERS_ONLY :: cl_replica_policy where
  "VOTERS_ONLY = \<lparr>include_voters = True, include_learners = False, leader_only = False\<rparr>"
definition ANY_REPLICA :: cl_replica_policy where
  "ANY_REPLICA = \<lparr>include_voters = True, include_learners = True, leader_only = False\<rparr>"
definition ALL_REPLICAS :: cl_replica_policy where
  "ALL_REPLICAS = \<lparr>include_voters = True, include_learners = True, leader_only = False\<rparr>"
definition LEADER_ONLY :: cl_replica_policy where
  "LEADER_ONLY = \<lparr>include_voters = True, include_learners = False, leader_only = True\<rparr>"

fun replica_policy_for_cl :: "consistency_level \<Rightarrow> cl_replica_policy" where
  "replica_policy_for_cl One = ANY_REPLICA"
| "replica_policy_for_cl LocalOne = ANY_REPLICA"
| "replica_policy_for_cl All = ALL_REPLICAS"
| "replica_policy_for_cl Serial = LEADER_ONLY"
| "replica_policy_for_cl LocalSerial = LEADER_ONLY"
| "replica_policy_for_cl Two = VOTERS_ONLY"
| "replica_policy_for_cl Three = VOTERS_ONLY"
| "replica_policy_for_cl Quorum = VOTERS_ONLY"
| "replica_policy_for_cl LocalQuorum = VOTERS_ONLY"
| "replica_policy_for_cl EachQuorum = VOTERS_ONLY"
| "replica_policy_for_cl DcQuorum = VOTERS_ONLY"

definition role_eligible :: "cl_replica_policy \<Rightarrow> node_state \<Rightarrow> bool" where
  "role_eligible policy st =
     (case st of
        Normal \<Rightarrow> include_voters policy
      | Learner owns \<Rightarrow> owns \<and> include_learners policy \<and> \<not> leader_only policy
      | _ \<Rightarrow> False)"

text \<open>Two supplied aliases of one host that disagree on its datacenter; the scan compares each position
  with the earlier ones.\<close>

fun has_dc_conflict :: "token_ring \<Rightarrow> node_id list \<Rightarrow> node_id list \<Rightarrow> bool" where
  "has_dc_conflict ring earlier [] = False"
| "has_dc_conflict ring earlier (nid # nids) =
     ((case get_node ring nid of
         None \<Rightarrow> False
       | Some info \<Rightarrow> list_ex (\<lambda>prior. host_id prior = host_id info \<and> data_center prior \<noteq> data_center info)
           (List.map_filter (get_node ring) earlier))
      \<or> has_dc_conflict ring (earlier @ [nid]) nids)"

text \<open>The in-place compaction: \<open>reps\<close> is the vector, its first \<open>retained\<close> entries are kept, and the
  position runs over the remaining indices.\<close>

fun compact_replicas :: "cl_replica_policy \<Rightarrow> token_ring \<Rightarrow> usize list \<Rightarrow> node_id list \<Rightarrow> usize \<Rightarrow> node_id list \<times> usize" where
  "compact_replicas policy ring [] reps retained = (reps, retained)"
| "compact_replicas policy ring (position # positions) reps retained =
     (let nid = reps ! position in
      case get_node ring nid of
        None \<Rightarrow> compact_replicas policy ring positions reps retained
      | Some info \<Rightarrow>
          if role_eligible policy (ni_state info)
             \<and> \<not> list_ex (\<lambda>prior. host_id prior = host_id info) (List.map_filter (get_node ring) (take retained reps))
          then compact_replicas policy ring positions (reps[retained := nid]) (retained + 1)
          else compact_replicas policy ring positions reps retained)"

definition retain_eligible_replicas_for_cl :: "consistency_level \<Rightarrow> node_id list \<Rightarrow> token_ring \<Rightarrow> node_id list" where
  "retain_eligible_replicas_for_cl cl reps ring =
     (if has_dc_conflict ring [] reps then []
      else let (kept, retained) = compact_replicas (replica_policy_for_cl cl) ring [0..<length reps] reps 0
           in take retained kept)"

definition eligible_replicas_for_cl :: "consistency_level \<Rightarrow> node_id list \<Rightarrow> token_ring \<Rightarrow> node_id list" where
  "eligible_replicas_for_cl cl reps ring = retain_eligible_replicas_for_cl cl reps ring"

datatype cluster_error = NotImplemented (feature: string)

datatype cl_route =
  is_local_dc_only: LocalDcOnly
| is_all_dcs: AllDcs
| is_cross_dc_accord: CrossDcAccord
| is_not_implemented: NotImplementedCrossDc cluster_error

definition into_result :: "cl_route \<Rightarrow> cluster_error + cl_route" where
  "into_result r = (case r of NotImplementedCrossDc e \<Rightarrow> Inl e | other \<Rightarrow> Inr other)"

definition route_for_cl :: "consistency_level \<Rightarrow> usize \<Rightarrow> cl_route" where
  "route_for_cl cl dc_count =
     (let multi_dc = dc_count \<ge> 2 in
      case cl of
        Quorum \<Rightarrow> if multi_dc then CrossDcAccord else LocalDcOnly
      | EachQuorum \<Rightarrow> if multi_dc then CrossDcAccord else LocalDcOnly
      | DcQuorum \<Rightarrow> if multi_dc then CrossDcAccord else LocalDcOnly
      | All \<Rightarrow> if multi_dc then CrossDcAccord else AllDcs
      | Serial \<Rightarrow> if multi_dc 
          then NotImplementedCrossDc (NotImplemented ''SERIAL cross-DC LWT (Sprint 8 / Accord LWT)'') else LocalDcOnly
      | _ \<Rightarrow> LocalDcOnly)"

section \<open>Codecs\<close>

lemma mem_map_filter: "set (List.map_filter f xs) = {y. \<exists>x \<in> set xs. f x = Some y}"
  by (force simp: List.map_filter_def)


lemma to_uppercase_as_str [simp]: "to_uppercase (as_str cl) = as_str cl"
  by (cases cl) (simp_all add: to_uppercase_def)

lemma cl_from_str_as_str: "cl_from_str (as_str cl) = Some cl"
  by (cases cl) (simp_all only: cl_from_str_def to_uppercase_as_str Let_def, simp_all)

section \<open>Acknowledged operations\<close>

text \<open>
  The scope of an operation is the set of replicas of its key, \<open>dc_of\<close> their datacenters: each
  configured datacenter holds as many as its factor.  An operation with responders \<open>S\<close> is acknowledged
  when the counts of \<open>S\<close> satisfy its level.
\<close>

definition scope_ok :: "replication_strategy \<Rightarrow> ('n \<Rightarrow> string) \<Rightarrow> 'n set \<Rightarrow> bool" where
  "scope_ok strategy dc_of scope \<longleftrightarrow> finite scope \<and> card scope = replication_factor strategy
     \<and> distinct (map fst (dc_replication_factors strategy))
     \<and> (\<forall>(dc, rf) \<in> set (dc_replication_factors strategy). card {n \<in> scope. dc_of n = dc} = rf)"

definition acked ::
    "consistency_level \<Rightarrow> replication_strategy \<Rightarrow> string \<Rightarrow> ('n \<Rightarrow> string) \<Rightarrow> 'n set \<Rightarrow> 'n set \<Rightarrow> bool" where
  "acked cl strategy origin dc_of scope S \<longleftrightarrow> scope_ok strategy dc_of scope \<and> S \<subseteq> scope
     \<and> satisfied (progress cl strategy origin (card S) (\<lambda>dc. card {n \<in> S. dc_of n = dc}))"

lemma ackedD:
  assumes "acked cl strategy origin dc_of scope S"
  shows "finite scope" "S \<subseteq> scope"
  using assms by (simp_all add: acked_def scope_ok_def)

definition majority_levels :: "consistency_level set" where
  "majority_levels = {Quorum, Serial, All, EachQuorum, DcQuorum}"

definition local_levels :: "consistency_level set" where
  "local_levels = {LocalQuorum, LocalSerial, EachQuorum, DcQuorum}"

lemma satisfied_simp [simp]: "satisfied \<lparr>pr_required = q, pr_received = g\<rparr> \<longleftrightarrow> 0 < q \<and> q \<le> g"
  by (simp add: satisfied_def)

lemma configured_rfD: "configured_rf c dc = Some rf \<Longrightarrow> (dc, rf) \<in> set c \<and> 0 < rf"
  by (auto simp: configured_rf_def split: option.splits if_splits dest: map_of_SomeD)

lemma sum_list_mins_ge:
  assumes "sum_list (map g xs) \<le> sum_list (map (\<lambda>x. min (f x) (g x)) xs)" "x \<in> set xs"
  shows "(g x :: nat) \<le> f x"
  using assms
proof (induction xs)
  case (Cons a xs)
  have "sum_list (map (\<lambda>x. min (f x) (g x)) xs) \<le> sum_list (map g xs)" by (rule sum_list_mono) simp
  then show ?case using Cons by (auto simp: min_def split: if_splits)
qed simp

lemma sum_list_filter_pos: "sum_list (filter (\<lambda>n. 0 < n) ns) = sum_list (ns :: nat list)"
  by (induction ns) auto

lemma each_quorum_progress_iff:
  "satisfied (each_quorum_progress configured cnt) \<longleftrightarrow>
     (\<exists>(dc, rf) \<in> set configured. 0 < rf) \<and>
     (\<forall>(dc, rf) \<in> set configured. 0 < rf \<longrightarrow> rf div 2 + 1 \<le> cnt dc)"
proof -
  let ?c = "filter (\<lambda>(dc, rf). 0 < rf) configured"
  let ?g = "\<lambda>(dc, rf). rf div 2 + 1" and ?f = "\<lambda>(dc :: string, rf :: nat). cnt dc"
  have rfs: "map (\<lambda>rf. rf div 2 + 1) (filter (\<lambda>rf. 0 < rf) (map snd configured)) = map ?g ?c"
    by (induction configured) auto
  have mins: "map (\<lambda>(dc, rf). min (cnt dc) (rf div 2 + 1)) ?c = map (\<lambda>x. min (?f x) (?g x)) ?c"
    by (auto simp: case_prod_beta)
  have zero: "sum_list (map ?g ?c) = 0 \<longleftrightarrow> \<not> (\<exists>(dc, rf) \<in> set configured. 0 < rf)"
    by (auto simp: filter_empty_conv)
  have all: "sum_list (map ?g ?c) \<le> sum_list (map (\<lambda>x. min (?f x) (?g x)) ?c)
      \<longleftrightarrow> (\<forall>x \<in> set ?c. ?g x \<le> ?f x)"
  proof
    show "\<forall>x \<in> set ?c. ?g x \<le> ?f x" if "sum_list (map ?g ?c) \<le> sum_list (map (\<lambda>x. min (?f x) (?g x)) ?c)"
      using sum_list_mins_ge [OF that] by blast
    show "sum_list (map ?g ?c) \<le> sum_list (map (\<lambda>x. min (?f x) (?g x)) ?c)" if "\<forall>x \<in> set ?c. ?g x \<le> ?f x"
      by (rule sum_list_mono) (use that in \<open>force simp: min_def\<close>)
  qed
  have sat: "satisfied (if q = 0 then unmet_scope else \<lparr>pr_required = q, pr_received = g\<rparr>) \<longleftrightarrow> q \<noteq> 0 \<and> q \<le> g" for q g
    by (simp add: satisfied_def)
  show ?thesis
    unfolding each_quorum_progress_def Let_def rfs mins unfolding sat unfolding zero all by auto
qed

lemma dc_quorum_progressD:
  assumes "satisfied (dc_quorum_progress configured origin tot cnt)"
  obtains rf where "configured_rf configured origin = Some rf" "rf div 2 + 1 \<le> cnt origin"
    "sum_list (map snd configured) div 2 + 1 \<le> tot"
  using assms
  by (cases "configured_rf configured origin")
    (auto simp: dc_quorum_progress_def Let_def sum_list_filter_pos split: if_splits)

lemma sum_dc_counts_le:
  assumes "finite S" "distinct (map fst c)"
  shows "sum_list (map (\<lambda>(dc, rf). card {n \<in> S. dc_of n = dc}) c) \<le> card S"
  using assms
proof (induction c arbitrary: S)
  case (Cons x c)
  obtain dc rf where x: "x = (dc, rf)" by (cases x)
  let ?T = "{n \<in> S. dc_of n \<noteq> dc}"
  have "card S = card {n \<in> S. dc_of n = dc} + card ?T"
    using Cons.prems(1) by (subst card_Un_disjoint [symmetric]) (auto intro: arg_cong [where f = card])
  moreover have "map (\<lambda>(d, rf). card {n \<in> ?T. dc_of n = d}) c = map (\<lambda>(d, rf). card {n \<in> S. dc_of n = d}) c"
    using Cons.prems(2) x by (auto intro!: arg_cong [where f = card] simp: image_iff)
  moreover have "sum_list (map (\<lambda>(d, rf). card {n \<in> ?T. dc_of n = d}) c) \<le> card ?T"
    by (rule Cons.IH) (use Cons.prems in auto)
  ultimately show ?case using x by (simp only: list.map sum_list.Cons prod.case)
qed simp

lemma sum_half_ge:
  assumes "\<exists>(dc, rf) \<in> set c. 0 < rf" "\<forall>(dc, rf) \<in> set c. 0 < rf \<longrightarrow> rf div 2 + 1 \<le> cnt dc"
  shows "sum_list (map snd c) div 2 + 1 \<le> sum_list (map (\<lambda>(dc, rf). cnt dc) (c :: (string \<times> nat) list))"
proof -
  have "sum_list (map snd c) + (if \<exists>(dc, rf) \<in> set c. 0 < rf then 1 else 0) \<le> 2 * sum_list (map (\<lambda>(dc, rf). cnt dc) c)"
    using assms(2) by (induction c) (auto split: if_splits)
  then show ?thesis using assms(1) by simp
qed

lemma acked_majority:
  assumes "acked cl strategy origin dc_of scope S" "cl \<in> majority_levels"
  shows "card scope div 2 + 1 \<le> card S"
proof -
  let ?c = "dc_replication_factors strategy"
  have ok: "finite S" "distinct (map fst ?c)" "card scope = replication_factor strategy"
    and sat: "satisfied (progress cl strategy origin (card S) (\<lambda>dc. card {n \<in> S. dc_of n = dc}))"
    using assms(1) by (auto simp: acked_def scope_ok_def intro: finite_subset)
  have rf: "?c \<noteq> [] \<Longrightarrow> replication_factor strategy = sum_list (map snd ?c)"
    by (cases strategy) (simp_all add: replication_factor_def dc_replication_factors_def)
  have eq: "?c \<noteq> []" if "\<exists>(dc, rf) \<in> set ?c. 0 < rf" using that by auto
  show ?thesis
  proof (cases "cl = EachQuorum")
    case True
    then have each: "\<exists>(dc, rf) \<in> set ?c. 0 < rf"
      "\<forall>(dc, rf) \<in> set ?c. 0 < rf \<longrightarrow> rf div 2 + 1 \<le> card {n \<in> S. dc_of n = dc}"
      using sat by (simp_all add: progress_def Let_def each_quorum_progress_iff)
    show ?thesis using sum_half_ge [OF each] sum_dc_counts_le [OF ok(1,2), of dc_of] rf [OF eq [OF each(1)]] ok(3)
      by simp
  next
    case False
    show ?thesis
    proof (cases "cl = DcQuorum \<and> ?c \<noteq> []")
      case True
      then show ?thesis using sat rf ok(3) by (auto simp: progress_def Let_def elim!: dc_quorum_progressD)
    next
      case dq: False
      then have "satisfied (total_progress cl strategy (card S))"
        using sat assms(2) False by (auto simp: progress_def Let_def majority_levels_def)
      then show ?thesis using assms(2) False ok(3)
        by (auto simp: total_progress_def Let_def majority_levels_def split: if_splits)
    qed
  qed
qed

lemma acked_local_majority:
  assumes "acked cl strategy origin dc_of scope S" "cl \<in> local_levels"
    and "configured_rf (dc_replication_factors strategy) origin = Some rf"
  shows "card {n \<in> scope. dc_of n = origin} div 2 + 1 \<le> card {n \<in> S. dc_of n = origin}"
proof -
  let ?c = "dc_replication_factors strategy"
  have mem: "(origin, rf) \<in> set ?c" "0 < rf" "?c \<noteq> []" using configured_rfD [OF assms(3)] by auto
  then have "card {n \<in> scope. dc_of n = origin} = rf" using assms(1) by (auto simp: acked_def scope_ok_def)
  moreover have "satisfied (progress cl strategy origin (card S) (\<lambda>dc. card {n \<in> S. dc_of n = dc}))"
    using assms(1) by (simp add: acked_def)
  then have "rf div 2 + 1 \<le> card {n \<in> S. dc_of n = origin}"
    using assms(2,3) mem
    by (auto simp: progress_def Let_def local_levels_def each_quorum_progress_iff elim!: dc_quorum_progressD)
  ultimately show ?thesis by simp
qed

interpretation node_quorums: quorum_system
  "\<lambda>S. \<exists>cl \<in> majority_levels. \<exists>origin. acked cl strategy origin dc_of scope S"
  for strategy and dc_of :: "'n \<Rightarrow> string" and scope
proof
  fix A B
  assume "\<exists>cl \<in> majority_levels. \<exists>origin. acked cl strategy origin dc_of scope A"
    "\<exists>cl \<in> majority_levels. \<exists>origin. acked cl strategy origin dc_of scope B"
  then obtain c o1 d o2 where a: "c \<in> majority_levels" "acked c strategy o1 dc_of scope A"
    and b: "d \<in> majority_levels" "acked d strategy o2 dc_of scope B" by blast
  show "A \<inter> B \<noteq> {}"
    by (rule card_majorities_meet [OF ackedD(1,2) [OF a(2)] ackedD(2) [OF b(2)]
          acked_majority [OF a(2,1)] acked_majority [OF b(2,1)]])
qed

interpretation origin_quorums: quorum_system
  "\<lambda>S. configured_rf (dc_replication_factors strategy) origin \<noteq> None
     \<and> (\<exists>cl \<in> local_levels. acked cl strategy origin dc_of scope S)"
  for strategy origin and dc_of :: "'n \<Rightarrow> string" and scope
proof
  let ?in = "\<lambda>S. {n \<in> S. dc_of n = origin}"
  fix A B
  assume "configured_rf (dc_replication_factors strategy) origin \<noteq> None
      \<and> (\<exists>cl \<in> local_levels. acked cl strategy origin dc_of scope A)"
    "configured_rf (dc_replication_factors strategy) origin \<noteq> None
      \<and> (\<exists>cl \<in> local_levels. acked cl strategy origin dc_of scope B)"
  then obtain rf c d where rf: "configured_rf (dc_replication_factors strategy) origin = Some rf"
    and a: "c \<in> local_levels" "acked c strategy origin dc_of scope A"
    and b: "d \<in> local_levels" "acked d strategy origin dc_of scope B" by blast
  have "?in A \<inter> ?in B \<noteq> {}"
    by (rule card_majorities_meet [OF _ _ _ acked_local_majority [OF a(2,1) rf] acked_local_majority [OF b(2,1) rf]])
      (use ackedD [OF a(2)] ackedD [OF b(2)] in auto)
  then show "A \<inter> B \<noteq> {}" by auto
qed

section \<open>Replica filtering\<close>

text \<open>The list the in-place loop leaves in front: of each host the first eligible alias, in order.\<close>

fun keep_first :: "cl_replica_policy \<Rightarrow> token_ring \<Rightarrow> node_id list \<Rightarrow> node_id list \<Rightarrow> node_id list" where
  "keep_first policy ring kept [] = kept"
| "keep_first policy ring kept (nid # nids) =
     (case get_node ring nid of
        None \<Rightarrow> keep_first policy ring kept nids
      | Some info \<Rightarrow>
          if role_eligible policy (ni_state info)
             \<and> \<not> list_ex (\<lambda>prior. host_id prior = host_id info) (List.map_filter (get_node ring) kept)
          then keep_first policy ring (kept @ [nid]) nids
          else keep_first policy ring kept nids)"

lemma compact_replicas_keep_first:
  assumes "retained \<le> position" "position \<le> length reps"
  shows "(let (kept, k) = compact_replicas policy ring [position..<length reps] reps retained in take k kept)
    = keep_first policy ring (take retained reps) (drop position reps)"
  using assms
proof (induction "length reps - position" arbitrary: position reps retained)
  case (Suc n)
  then have lt: "position < length reps" by simp
  then have up: "[position..<length reps] = position # [Suc position..<length reps]"
    and dr: "drop position reps = reps ! position # drop (Suc position) reps"
    by (simp_all add: upt_conv_Cons Cons_nth_drop_Suc)
  have IH: "(let (kept, k) = compact_replicas policy ring [Suc position..<length r] r q in take k kept)
      = keep_first policy ring (take q r) (drop (Suc position) r)"
    if "q \<le> Suc position" "length r = length reps" for r q
    using Suc.hyps(1) [of r "Suc position" q] Suc.hyps(2) lt that by simp
  have tk: "take (Suc retained) (reps[retained := v]) = take retained reps @ [v]" for v
    using Suc.prems(1) lt by (simp add: take_Suc_conv_app_nth)
  show ?case
    using IH [of retained reps] IH [of "Suc retained" "reps[retained := reps ! position]"] Suc.prems(1)
    unfolding up dr by (auto simp: Let_def tk drop_update_cancel split: option.splits)
qed simp

definition node_eligible :: "cl_replica_policy \<Rightarrow> token_ring \<Rightarrow> node_id \<Rightarrow> bool" where
  "node_eligible policy ring nid \<longleftrightarrow>
     (case get_node ring nid of Some info \<Rightarrow> role_eligible policy (ni_state info) | None \<Rightarrow> False)"

abbreviation node_host :: "token_ring \<Rightarrow> node_id \<Rightarrow> uuid option" where
  "node_host ring nid \<equiv> map_option host_id (get_node ring nid)"

lemma host_in_kept:
  assumes "\<forall>n \<in> set kept. node_eligible policy ring n" "get_node ring nid = Some info"
  shows "list_ex (\<lambda>prior. host_id prior = host_id info) (List.map_filter (get_node ring) kept)
    \<longleftrightarrow> node_host ring nid \<in> node_host ring ` set kept"
proof -
  have "list_ex (\<lambda>prior. host_id prior = host_id info) (List.map_filter (get_node ring) kept)
      \<longleftrightarrow> (\<exists>n \<in> set kept. \<exists>prior. get_node ring n = Some prior \<and> host_id prior = host_id info)"
    by (auto simp: list_ex_iff mem_map_filter)
  moreover have "Some (host_id info) = node_host ring n \<longleftrightarrow>
      (\<exists>prior. get_node ring n = Some prior \<and> host_id prior = host_id info)" for n
    by (cases "get_node ring n") auto
  ultimately show ?thesis using assms(2) by (simp add: image_iff)
qed

lemma keep_first_Cons:
  assumes "\<forall>n \<in> set kept. node_eligible policy ring n"
  shows "keep_first policy ring kept (nid # nids) =
    (if node_eligible policy ring nid \<and> node_host ring nid \<notin> node_host ring ` set kept
     then keep_first policy ring (kept @ [nid]) nids else keep_first policy ring kept nids)"
  using host_in_kept [OF assms] by (cases "get_node ring nid") (auto simp: node_eligible_def)

lemma keep_first_spec:
  assumes "distinct (map (node_host ring) kept)" "\<forall>n \<in> set kept. node_eligible policy ring n"
  obtains more where "keep_first policy ring kept nids = kept @ more" "subseq more nids"
    "distinct (map (node_host ring) (kept @ more))" "\<forall>n \<in> set more. node_eligible policy ring n"
    "\<And>n. n \<in> set nids \<Longrightarrow> node_eligible policy ring n \<Longrightarrow> node_host ring n \<in> node_host ring ` set (kept @ more)"
  using assms
proof (induction nids arbitrary: kept thesis)
  case (Cons nid nids)
  show ?case
  proof (cases "node_eligible policy ring nid \<and> node_host ring nid \<notin> node_host ring ` set kept")
    case True
    then have "distinct (map (node_host ring) (kept @ [nid]))" "\<forall>n \<in> set (kept @ [nid]). node_eligible policy ring n"
      using Cons.prems(2,3) by auto
    from Cons.IH [OF _ this] obtain more where more: "keep_first policy ring (kept @ [nid]) nids = (kept @ [nid]) @ more"
      "subseq more nids" "distinct (map (node_host ring) ((kept @ [nid]) @ more))"
      "\<forall>n \<in> set more. node_eligible policy ring n"
      "\<And>n. n \<in> set nids \<Longrightarrow> node_eligible policy ring n \<Longrightarrow> node_host ring n \<in> node_host ring ` set ((kept @ [nid]) @ more)"
      by metis
    show ?thesis
    proof (rule Cons.prems(1) [of "nid # more"])
      show "keep_first policy ring kept (nid # nids) = kept @ nid # more"
        unfolding keep_first_Cons [OF Cons.prems(3)] using True more(1) by (simp only: if_True append_assoc append.simps simp_thms)
      show "node_host ring n \<in> node_host ring ` set (kept @ nid # more)"
        if "n \<in> set (nid # nids)" "node_eligible policy ring n" for n
        using more(5) [of n] that by (cases "n = nid") simp_all
    qed (use more(2-4) True in simp_all)
  next
    case False
    from Cons.IH [OF _ Cons.prems(2,3)] obtain more where more: "keep_first policy ring kept nids = kept @ more"
      "subseq more nids" "distinct (map (node_host ring) (kept @ more))" "\<forall>n \<in> set more. node_eligible policy ring n"
      "\<And>n. n \<in> set nids \<Longrightarrow> node_eligible policy ring n \<Longrightarrow> node_host ring n \<in> node_host ring ` set (kept @ more)"
      by metis
    show ?thesis
    proof (rule Cons.prems(1) [of more])
      show "keep_first policy ring kept (nid # nids) = kept @ more"
        unfolding keep_first_Cons [OF Cons.prems(3)] using False more(1) by (simp only: if_False)
      show "node_host ring n \<in> node_host ring ` set (kept @ more)"
        if "n \<in> set (nid # nids)" "node_eligible policy ring n" for n
        using more(5) [of n] that False by (cases "n = nid") auto
    qed (use more(2-4) in \<open>auto intro: subseq_Cons'\<close>)
  qed
qed (metis append_Nil2 empty_iff keep_first.simps(1) list.set(1) list_emb_Nil)

definition dc_clash :: "token_ring \<Rightarrow> node_id \<Rightarrow> node_id \<Rightarrow> bool" where
  "dc_clash ring m n \<longleftrightarrow> node_host ring m \<noteq> None \<and> node_host ring m = node_host ring n
     \<and> map_option data_center (get_node ring m) \<noteq> map_option data_center (get_node ring n)"

lemma dc_clash_sym: "dc_clash ring m n \<Longrightarrow> dc_clash ring n m"
  unfolding dc_clash_def by (metis)

lemma dc_clash_irrefl: "\<not> dc_clash ring n n"
  by (simp add: dc_clash_def)

lemma has_dc_conflict_iff:
  "has_dc_conflict ring earlier nids \<longleftrightarrow> (\<exists>n \<in> set nids. \<exists>m \<in> set earlier \<union> set nids. dc_clash ring m n)"
proof (induction nids arbitrary: earlier)
  case (Cons nid nids)
  have head: "(case get_node ring nid of None \<Rightarrow> False
     | Some info \<Rightarrow> list_ex (\<lambda>prior. host_id prior = host_id info \<and> data_center prior \<noteq> data_center info)
         (List.map_filter (get_node ring) earlier)) \<longleftrightarrow> (\<exists>m \<in> set earlier. dc_clash ring m nid)"
    by (force simp: list_ex_iff mem_map_filter dc_clash_def split: option.splits)
  show ?case
    unfolding has_dc_conflict.simps head Cons.IH
    using dc_clash_sym [of ring] dc_clash_irrefl [of ring] by (simp only: list.set set_append) blast
qed simp

lemma retain_keep_first:
  "retain_eligible_replicas_for_cl cl reps ring =
     (if has_dc_conflict ring [] reps then [] else keep_first (replica_policy_for_cl cl) ring [] reps)"
  using compact_replicas_keep_first [of 0 0 reps "replica_policy_for_cl cl" ring]
  by (simp add: retain_eligible_replicas_for_cl_def)

lemma local_quorum_progress: "progress LocalQuorum strategy origin tot cnt = local_progress strategy origin cnt"
  by (simp add: progress_def local_progress_def Let_def split: option.splits)

section \<open>Properties\<close>

text \<open>
  Consistency levels survive both codecs: every level decodes from its wire code and from its name,
  no other wire code decodes to it, and names are read in any letter case.
\<close>

theorem consistency_level_codecs:
  "from_wire (to_wire cl) = Some cl \<and> (from_wire code = Some cl \<longleftrightarrow> code = to_wire cl)
    \<and> cl_from_str (as_str cl) = Some cl \<and> (cl_from_str s = Some cl \<longleftrightarrow> to_uppercase s = as_str cl)"
proof (intro conjI)
  show "from_wire (to_wire cl) = Some cl" by (cases cl) (simp_all add: from_wire_def)
  show "from_wire code = Some cl \<longleftrightarrow> code = to_wire cl"
    by (cases cl) (auto simp: from_wire_def)
  show "cl_from_str (as_str cl) = Some cl" by (rule cl_from_str_as_str)
  show "cl_from_str s = Some cl \<longleftrightarrow> to_uppercase s = as_str cl"
    by (cases cl) (auto simp: cl_from_str_def Let_def)
qed


abbreviation sample_strategy :: replication_strategy where
  "sample_strategy \<equiv> NetworkTopology [(''A'', 1), (''B'', 1), (''C'', 1)]"

definition sample_dc :: "nat \<Rightarrow> string" where
  "sample_dc n = (if n = 0 then ''A'' else if n = 1 then ''B'' else ''C'')"

definition sample_scope :: "nat set" where "sample_scope = {0, 1, 2}"
definition sample_write :: "nat set" where "sample_write = {0, 1}"
definition sample_read :: "nat set" where "sample_read = {0}"

lemmas sample_sets = sample_dc_def sample_scope_def sample_write_def sample_read_def

lemma sample_dc_filter [simp]:
  "{n \<in> sample_scope. sample_dc n = ''A''} = {0}" "{n \<in> sample_scope. sample_dc n = ''B''} = {1}"
  "{n \<in> sample_scope. sample_dc n = ''C''} = {2}" "{n \<in> sample_write. sample_dc n = ''A''} = {0}"
  "{n \<in> sample_write. sample_dc n = ''B''} = {1}" "{n \<in> sample_write. sample_dc n = ''C''} = {}"
  "{n \<in> sample_read. sample_dc n = ''A''} = {0}"
  "finite sample_scope" "card sample_scope = 3" "card sample_write = 2"
  "sample_write \<subseteq> sample_scope" "sample_read \<subseteq> sample_scope"
  by (auto simp: sample_sets split: if_splits)

lemma sample_scope_ok: "scope_ok sample_strategy sample_dc sample_scope"
  by (simp add: scope_ok_def dc_replication_factors_def replication_factor_def)

lemma sample_acked: "acked DcQuorum sample_strategy ''A'' sample_dc sample_scope sample_write"
  using sample_scope_ok
  by (simp add: acked_def progress_def dc_quorum_progress_def configured_rf_def dc_replication_factors_def Let_def)


text \<open>
  A read at the origin sees every \<open>DC_QUORUM\<close> write of the origin without leaving the datacenter:
  responders that satisfy the local read requirement include one that acknowledged the write.
\<close>

theorem dc_quorum_local_read:
  assumes "acked DcQuorum strategy origin dc_of scope W" "R \<subseteq> scope"
    and "satisfied (local_progress strategy origin (\<lambda>dc. card {n \<in> R. dc_of n = dc}))"
  shows "\<exists>n \<in> R. n \<in> W"
proof -
  have cfg: "configured_rf (dc_replication_factors strategy) origin \<noteq> None"
    using assms(3) by (auto simp: local_progress_def satisfied_def split: option.splits)
  moreover have "acked LocalQuorum strategy origin dc_of scope R"
    using assms by (simp add: acked_def local_quorum_progress)
  ultimately have "W \<inter> R \<noteq> {}"
    using assms(1) by (intro origin_quorums.meet [of strategy origin dc_of scope]) (auto simp: local_levels_def)
  then show ?thesis by auto
qed

theorem dc_quorum_local_read_witness:
  "\<exists>n \<in> sample_read. n \<in> sample_write"
  by (rule dc_quorum_local_read [OF sample_acked])
    (simp_all add: local_progress_def configured_rf_def dc_replication_factors_def)

text \<open>
  \<open>EACH_QUORUM\<close> is exact although it is evaluated on two sums: it is satisfied exactly when some
  datacenter is configured with a positive factor and every such datacenter has its own quorum.
\<close>

theorem each_quorum_exact:
  "satisfied (progress EachQuorum strategy origin tot cnt) \<longleftrightarrow>
     (\<exists>(dc, rf) \<in> set (dc_replication_factors strategy). 0 < rf) \<and>
     (\<forall>(dc, rf) \<in> set (dc_replication_factors strategy). 0 < rf \<longrightarrow> block_for_dc EachQuorum rf \<le> cnt dc)"
  by (simp add: progress_def Let_def each_quorum_progress_iff)

theorem each_quorum_exact_witness:
  "satisfied (progress EachQuorum (NetworkTopology [(''A'', 3), (''B'', 1)]) ''A'' 3 (\<lambda>dc. if dc = ''A'' then 2 else 1))
    \<and> \<not> satisfied (progress EachQuorum (NetworkTopology [(''A'', 3), (''B'', 1)]) ''A'' 3 (\<lambda>dc. if dc = ''A'' then 3 else 0))"
  unfolding each_quorum_exact by (simp add: dc_replication_factors_def)

text \<open>
  The in-place replica filter implements its specification: two supplied aliases of one host that
  disagree on the datacenter leave no target, and otherwise the targets are a subsequence of the input
  that are eligible for the level, name every host at most once and every host with an eligible alias.
\<close>

theorem retain_eligible_spec:
  assumes "out = retain_eligible_replicas_for_cl cl reps ring"
  shows "(if \<exists>m \<in> set reps. \<exists>n \<in> set reps. dc_clash ring m n then out = []
    else subseq out reps \<and> distinct (map (node_host ring) out)
      \<and> (\<forall>n \<in> set out. node_eligible (replica_policy_for_cl cl) ring n)
      \<and> (\<forall>n \<in> set reps. node_eligible (replica_policy_for_cl cl) ring n \<longrightarrow>
           node_host ring n \<in> node_host ring ` set out))"
proof -
  have clash: "has_dc_conflict ring [] reps \<longleftrightarrow> (\<exists>m \<in> set reps. \<exists>n \<in> set reps. dc_clash ring m n)"
    unfolding has_dc_conflict_iff using dc_clash_sym [of ring] by auto
  obtain more where "keep_first (replica_policy_for_cl cl) ring [] reps = more" "subseq more reps"
    "distinct (map (node_host ring) more)" "\<forall>n \<in> set more. node_eligible (replica_policy_for_cl cl) ring n"
    "\<And>n. n \<in> set reps \<Longrightarrow> node_eligible (replica_policy_for_cl cl) ring n \<Longrightarrow> node_host ring n \<in> node_host ring ` set more"
    by (rule keep_first_spec [of ring "[]" "replica_policy_for_cl cl" reps]) auto
  then show ?thesis unfolding assms retain_keep_first clash by simp
qed

theorem retain_eligible_spec_witness:
  "retain_eligible_replicas_for_cl Quorum [1, 1, 9] sample_ring = [1]
    \<and> subseq (retain_eligible_replicas_for_cl Quorum [1, 1, 9] sample_ring) [1, 1, 9]"
proof -
  have "retain_eligible_replicas_for_cl Quorum [1, 1, 9] sample_ring = [1]"
    by (simp add: retain_keep_first get_node_def sample_ring_def sample_node_def role_eligible_def VOTERS_ONLY_def
        List.map_filter_def)
  then show ?thesis using retain_eligible_spec [of "[1]" Quorum "[1, 1, 9]" sample_ring] by (auto split: if_splits)
qed

end
