(* ===== verification/Bytes.thy ===== *)
theory Bytes
  imports Prelude
begin

unbundle bit_operations_syntax

text \<open>
  Words as bytes: \<open>to_be_bytes\<close>, \<open>from_be_bytes\<close> and their little-endian variants for words of any
  length, shared by the codecs of the storage files.  The lemmas give the round trips and that
  big-endian bytes compare like the words they encode.
\<close>

definition be_bytes :: "nat \<Rightarrow> 'a::len word \<Rightarrow> bytes" where
  "be_bytes n w = map (\<lambda>i. ucast (drop_bit (8 * i) w)) (rev [0..<n])"

definition of_be_bytes :: "'a::len word \<Rightarrow> bytes \<Rightarrow> 'a word" where
  "of_be_bytes acc bs = foldl (\<lambda>v b. push_bit 8 v OR ucast b) acc bs"

definition le_bytes :: "nat \<Rightarrow> 'a::len word \<Rightarrow> bytes" where
  "le_bytes n w = rev (be_bytes n w)"

definition of_le_bytes :: "bytes \<Rightarrow> 'a::len word" where
  "of_le_bytes bs = of_be_bytes 0 (rev bs)"

lemma be_bytes_simps [simp]:
  "be_bytes 0 w = []" "be_bytes (Suc n) w = ucast (drop_bit (8 * n) w) # be_bytes n w"
  by (simp_all add: be_bytes_def)

lemma length_be_bytes [simp]: "length (be_bytes n w) = n" "length (le_bytes n w) = n"
  by (simp_all add: be_bytes_def le_bytes_def)

lemma of_be_bytes_simps [simp]:
  "of_be_bytes acc [] = acc" "of_be_bytes acc (b # bs) = of_be_bytes (push_bit 8 acc OR ucast b) bs"
  by (simp_all add: of_be_bytes_def)

lemma of_be_bytes_append [simp]: "of_be_bytes acc (bs @ cs) = of_be_bytes (of_be_bytes acc bs) cs"
  by (simp add: of_be_bytes_def)

lemma take_bit_byte_split:
  "take_bit (8 * Suc n) w = push_bit (8 * n) (ucast (ucast (drop_bit (8 * n) w) :: u8)) OR take_bit (8 * n) (w :: 'a::len word)"
  by (rule bit_eqI) (auto simp: bit_simps)

lemma of_be_be_bytes: "of_be_bytes acc (be_bytes n w) = push_bit (8 * n) acc OR take_bit (8 * n) w"
proof (induction n arbitrary: acc)
  case (Suc n)
  show ?case
    unfolding take_bit_byte_split be_bytes_simps of_be_bytes_simps Suc.IH
    by (simp add: push_bit_or push_bit_push_bit or.assoc ac_simps)
qed simp

lemma of_be_be_bytes_full: "LENGTH('a) \<le> 8 * n \<Longrightarrow> of_be_bytes 0 (be_bytes n w) = (w :: 'a::len word)"
  by (simp add: of_be_be_bytes take_bit_word_eq_self)

lemma of_be_be_bytes_drop: "of_be_bytes (drop_bit (8 * n) w) (be_bytes n w) = w"
  by (simp add: of_be_be_bytes) (rule bit_eqI, auto simp: bit_simps)

lemma of_le_le_bytes_full: "LENGTH('a) \<le> 8 * n \<Longrightarrow> of_le_bytes (le_bytes n w) = (w :: 'a::len word)"
  by (simp add: of_le_bytes_def le_bytes_def of_be_be_bytes_full)

text \<open>The byte at index \<open>k\<close> and the shifted rest, as the writing loops produce them.\<close>

lemma be_bytes_snoc: "be_bytes (Suc n) w = be_bytes n (drop_bit 8 w) @ [ucast w]"
proof (induction n)
  case (Suc n)
  have "be_bytes (Suc (Suc n)) w = ucast (drop_bit (8 * Suc n) w) # be_bytes (Suc n) w" by simp
  also have "\<dots> = ucast (drop_bit (8 * n) (drop_bit 8 w)) # be_bytes n (drop_bit 8 w) @ [ucast w]"
    unfolding Suc.IH by (simp add: drop_bit_drop_bit ac_simps)
  finally show ?case by simp
qed simp

text \<open>Big-endian bytes compare like the words.\<close>

lemma take_bit_byte_nat:
  "take_bit (8 * Suc n) x = take_bit 8 (drop_bit (8 * n) x) * 2 ^ (8 * n) + take_bit (8 * n) (x :: nat)"
proof -
  have "x mod (2 ^ (8 * n) * 2 ^ 8) = 2 ^ (8 * n) * (x div 2 ^ (8 * n) mod 2 ^ 8) + x mod 2 ^ (8 * n)"
    by (rule mod_mult2_eq)
  moreover have "(2 :: nat) ^ (8 * Suc n) = 2 ^ (8 * n) * 2 ^ 8"
    by (metis mult_Suc_right add.commute power_add)
  ultimately show ?thesis unfolding take_bit_eq_mod drop_bit_eq_div by (simp add: mult.commute)
qed

lemma be_bytes_order:
  fixes v w :: "'a::len word"
  assumes "take_bit (8 * n) (unat v) < take_bit (8 * n) (unat w)"
  shows "be_bytes n v @ xs < be_bytes n w @ ys"
  using assms
proof (induction n)
  case (Suc n)
  let ?b = "\<lambda>v :: 'a word. ucast (drop_bit (8 * n) v) :: u8"
  have byte: "unat (?b u) = take_bit 8 (drop_bit (8 * n) (unat u))" for u :: "'a word"
    using unsigned_less [of u, where ?'a = nat] by (simp add: unsigned_ucast_eq unsigned_drop_bit_eq take_bit_nat_eq_self)
  have lt: "take_bit (8 * n) (unat u) < 2 ^ (8 * n)" for u :: "'a word"
    by (rule take_bit_nat_less_exp)
  have less: "unat (?b v) * 2 ^ (8 * n) + take_bit (8 * n) (unat v) < unat (?b w) * 2 ^ (8 * n) + take_bit (8 * n) (unat w)"
    using Suc.prems unfolding take_bit_byte_nat byte .
  consider "unat (?b v) < unat (?b w)" | "unat (?b v) = unat (?b w)" | "unat (?b w) < unat (?b v)" by linarith
  then show ?case
  proof cases
    case 1
    then show ?thesis by (simp add: word_less_nat_alt)
  next
    case 2
    then have "?b v = ?b w" by (rule unsigned_word_eqI)
    moreover have "take_bit (8 * n) (unat v) < take_bit (8 * n) (unat w)" using less 2 by simp
    ultimately show ?thesis using Suc.IH by simp
  next
    case 3
    then have "Suc (unat (?b w)) * 2 ^ (8 * n) \<le> unat (?b v) * 2 ^ (8 * n)" by (intro mult_le_mono1) simp
    then show ?thesis using less lt [of w] by simp
  qed
qed simp

lemma be_bytes_less_iff:
  fixes v w :: "'a::len word"
  assumes "LENGTH('a) \<le> 8 * n"
  shows "be_bytes n v @ xs < be_bytes n w @ ys \<longleftrightarrow> v < w \<or> v = w \<and> xs < ys"
proof -
  have unat: "take_bit (8 * n) (unat u) = unat u" for u :: "'a word"
  proof (rule take_bit_nat_eq_self)
    have "(2 :: nat) ^ LENGTH('a) \<le> 2 ^ (8 * n)" by (rule power_increasing [OF assms]) simp
    then show "unat u < 2 ^ (8 * n)" using unsigned_less [of u, where ?'a = nat] by linarith
  qed
  have less: "be_bytes n u @ us < be_bytes n z @ zs" if "u < z" for u z :: "'a word" and us zs
    by (rule be_bytes_order) (use that in \<open>simp add: unat word_less_nat_alt\<close>)
  have prefix: "zs @ ys < zs @ xs \<longleftrightarrow> ys < xs" for zs xs ys :: bytes by (induction zs) simp_all
  consider "v < w" | "v = w" | "w < v" by (rule linorder_cases)
  then show ?thesis using less [of v w xs ys] less [of w v ys xs] prefix [of "be_bytes n v" xs ys]
    by cases (simp_all add: less_not_sym)
qed

end
