(* ===== verification/Varint.thy ===== *)
theory Varint
  imports Bytes
begin

unbundle bit_operations_syntax

text \<open>
  Variable-length integers (crate \<open>ferrosa-sstable\<close>: \<open>varint.rs\<close>) and the positioned reads they are
  decoded from (\<open>io.rs\<close>).

  A \<open>u64\<close> is a 64-bit word here, since the codec works on its bits.  Writing into a buffer that is too
  short panics, which is \<open>None\<close>; a reading error is the left summand, without its message.
\<close>

datatype codec_error = Io | InvalidData | InvalidFormat

section \<open>Definitions\<close>

text \<open>\<open>u8::leading_ones\<close> and \<open>u64::leading_zeros\<close>.\<close>

definition leading_ones :: "u8 \<Rightarrow> nat" where
  "leading_ones b = length (takeWhile (bit b) (rev [0..<8]))"

definition leading_zeros :: "64 word \<Rightarrow> nat" where
  "leading_zeros v = length (takeWhile (\<lambda>i. \<not> bit v i) (rev [0..<64]))"

definition unsigned_vint_size :: "64 word \<Rightarrow> usize" where
  "unsigned_vint_size v =
     (let bits = 64 - leading_zeros v in
      if bits \<le> 7 then 1 else if bits \<le> 14 then 2 else if bits \<le> 21 then 3 else if bits \<le> 28 then 4
      else if bits \<le> 35 then 5 else if bits \<le> 42 then 6 else if bits \<le> 49 then 7 else if bits \<le> 56 then 8
      else 9)"

fun write_vint_bytes :: "usize list \<Rightarrow> bytes \<Rightarrow> 64 word \<Rightarrow> bytes \<times> 64 word" where
  "write_vint_bytes [] buf remaining = (buf, remaining)"
| "write_vint_bytes (i # is) buf remaining = write_vint_bytes is (buf[i := ucast remaining]) (drop_bit 8 remaining)"

definition write_unsigned_vint :: "bytes \<Rightarrow> 64 word \<Rightarrow> (bytes \<times> usize) option" where
  "write_unsigned_vint buf v =
     (let extra_bytes = unsigned_vint_size v - 1; total_bytes = extra_bytes + 1 in
      if length buf < total_bytes then None
      else if extra_bytes = 0 then Some (buf[0 := ucast v], 1)
      else
        let (buf, remaining) = write_vint_bytes (rev [1..<total_bytes]) buf v;
            first = (if extra_bytes < 8
              then push_bit (8 - extra_bytes) (drop_bit (8 - extra_bytes) (NOT 0)) OR ucast remaining else 0xFF)
        in Some (buf[0 := first], total_bytes))"

definition read_unsigned_vint :: "bytes \<Rightarrow> codec_error + 64 word \<times> usize" where
  "read_unsigned_vint buf =
     (case buf of
        [] \<Rightarrow> Inl InvalidData
      | first # rest \<Rightarrow>
          let extra_bytes = leading_ones first in
          if extra_bytes = 0 then Inr (ucast first, 1)
          else
            let total_bytes = extra_bytes + 1 in
            if length buf < total_bytes then Inl InvalidData
            else
              let v = (if extra_bytes \<le> 6 then ucast (first AND drop_bit (extra_bytes + 1) 0xFF) else 0)
              in Inr (foldl (\<lambda>v byte. push_bit 8 v OR ucast byte) v (take extra_bytes rest), total_bytes))"

definition zigzag :: "64 word \<Rightarrow> 64 word" where
  "zigzag v = push_bit 1 v XOR signed_drop_bit 63 v"

definition unzigzag :: "64 word \<Rightarrow> 64 word" where
  "unzigzag raw = drop_bit 1 raw XOR (- (raw AND 1))"

definition write_signed_vint :: "bytes \<Rightarrow> i64 \<Rightarrow> (bytes \<times> usize) option" where
  "write_signed_vint buf v = write_unsigned_vint buf (zigzag (word_of_int v))"

definition read_signed_vint :: "bytes \<Rightarrow> codec_error + i64 \<times> usize" where
  "read_signed_vint buf =
     (case read_unsigned_vint buf of
        Inl e \<Rightarrow> Inl e
      | Inr (raw, consumed) \<Rightarrow> Inr (sint (unzigzag raw), consumed))"

section \<open>Positioned reads\<close>

text \<open>
  A reader is its \<open>read_at\<close>: given a length and an offset, the bytes it delivers, fewer at the end of
  the data.  \<open>slice_read_at\<close> is the reader of a byte slice.
\<close>

type_synonym reader = "usize \<Rightarrow> u64 \<Rightarrow> codec_error + bytes"

definition slice_read_at :: "bytes \<Rightarrow> reader" where
  "slice_read_at data n offset = (if offset \<ge> length data then Inr [] else Inr (take n (drop offset data)))"

definition read_exact_at :: "reader \<Rightarrow> usize \<Rightarrow> u64 \<Rightarrow> codec_error + bytes" where
  "read_exact_at read_at n offset =
     (case read_at n offset of
        Inl e \<Rightarrow> Inl e
      | Inr bs \<Rightarrow> if length bs \<noteq> n then Inl Io else Inr bs)"

text \<open>The loop of \<open>validate_range\<close>: \<open>n\<close> is the length still to validate from \<open>offset\<close>.\<close>

function validate_chunks :: "reader \<Rightarrow> u64 \<Rightarrow> usize \<Rightarrow> codec_error + unit" where
  "validate_chunks read_at offset n =
     (if n = 0 then Inr ()
      else
        let chunk = min n 4096 in
        case read_exact_at read_at chunk offset of
          Inl e \<Rightarrow> Inl e
        | Inr _ \<Rightarrow> validate_chunks read_at (offset + chunk) (n - chunk))"
  by pat_completeness auto
termination by (relation "measure (\<lambda>(_, _, n). n)") auto

declare validate_chunks.simps [simp del]

definition validate_range :: "reader \<Rightarrow> codec_error + u64 \<Rightarrow> u64 \<Rightarrow> usize \<Rightarrow> codec_error + unit" where
  "validate_range read_at len offset n =
     (if offset + n > u64_MAX then Inl InvalidData
      else case len of
        Inl e \<Rightarrow> Inl e
      | Inr len \<Rightarrow> if offset + n > len then Inl InvalidData else validate_chunks read_at offset n)"

definition read_unsigned_vint_at :: "reader \<Rightarrow> u64 \<Rightarrow> codec_error + 64 word \<times> usize" where
  "read_unsigned_vint_at read_at offset =
     (case read_exact_at read_at 1 offset of
        Inl e \<Rightarrow> Inl e
      | Inr first \<Rightarrow>
          let extra_bytes = leading_ones (first ! 0); total_bytes = extra_bytes + 1 in
          if total_bytes = 1 then Inr (ucast (first ! 0), 1)
          else
            case read_exact_at read_at (total_bytes - 1) (offset + 1) of
              Inl e \<Rightarrow> Inl e
            | Inr rest \<Rightarrow> read_unsigned_vint (first ! 0 # rest))"

definition read_signed_vint_at :: "reader \<Rightarrow> u64 \<Rightarrow> codec_error + i64 \<times> usize" where
  "read_signed_vint_at read_at offset =
     (case read_unsigned_vint_at read_at offset of
        Inl e \<Rightarrow> Inl e
      | Inr (raw, consumed) \<Rightarrow> Inr (sint (unzigzag raw), consumed))"

section \<open>Sizes and first bytes\<close>

lemma leading_zeros_bit: "64 - leading_zeros v \<le> i \<Longrightarrow> \<not> bit v i"
proof
  assume le: "64 - leading_zeros v \<le> i" and "bit v i"
  then have i: "i < 64" using bit_imp_le_length by fastforce
  let ?t = "takeWhile (\<lambda>i. \<not> bit v i) (rev [0..<64])"
  have lt: "63 - i < length ?t" using le i by (simp add: leading_zeros_def)
  then have "?t ! (63 - i) = rev [0..<64] ! (63 - i)" by (rule takeWhile_nth)
  also have "\<dots> = i" using i by (simp add: rev_nth)
  finally have "i \<in> set ?t" using lt nth_mem by fastforce
  then show False using \<open>bit v i\<close> set_takeWhileD by fastforce
qed

lemma vint_size_range: "1 \<le> unsigned_vint_size v \<and> unsigned_vint_size v \<le> 9"
  by (simp add: unsigned_vint_size_def Let_def)

lemma vint_size_bits:
  assumes "unsigned_vint_size v = Suc e" "e < 8" "7 * Suc e \<le> i"
  shows "\<not> bit v i"
  by (rule leading_zeros_bit) (use assms in \<open>auto simp: unsigned_vint_size_def Let_def split: if_splits\<close>)

lemma rev_upt_8: "rev [0..<8] = [7, 6, 5, 4, 3, 2, 1, 0 :: nat]"
  by (simp add: upt_rec)

lemma leading_ones_eqI:
  assumes "e \<le> 8" "\<And>j. 8 - e \<le> j \<Longrightarrow> j < 8 \<Longrightarrow> bit b j" "e < 8 \<Longrightarrow> \<not> bit b (7 - e)"
  shows "leading_ones b = e"
proof -
  have "takeWhile (bit b) (rev [0..<8]) = take e (rev [0..<8])"
    by (rule takeWhile_eq_take_P_nth) (use assms(2,3) in \<open>auto simp: rev_nth\<close>)
  then show ?thesis using assms(1) by (simp add: leading_ones_def)
qed

definition vint_first :: "nat \<Rightarrow> 64 word \<Rightarrow> u8" where
  "vint_first e v = (if e = 0 then ucast v else if e < 8
     then push_bit (8 - e) (drop_bit (8 - e) (NOT 0)) OR ucast (drop_bit (8 * e) v) else 0xFF)"

lemma bit_vint_first:
  assumes "unsigned_vint_size v = Suc e" "e < 8" "j < 8"
  shows "bit (vint_first e v) j \<longleftrightarrow> 8 - e \<le> j \<or> bit v (8 * e + j)"
  using assms by (auto simp: vint_first_def bit_simps)

lemma leading_ones_first:
  assumes "unsigned_vint_size v = Suc e"
  shows "leading_ones (vint_first e v) = e"
proof -
  have "e \<le> 8" using vint_size_range [of v] assms by simp
  consider "e = 8" | "e < 8" using \<open>e \<le> 8\<close> by linarith
  then show ?thesis
  proof cases
    case 1
    then show ?thesis by (simp add: vint_first_def leading_ones_def rev_upt_8 bit_numeral_rec)
  next
    case 2
    have "\<not> bit v (8 * e + (7 - e))" using vint_size_bits [OF assms 2] 2 by simp
    then show ?thesis using 2 bit_vint_first [OF assms 2] by (intro leading_ones_eqI) simp_all
  qed
qed

lemma first_value_bits:
  assumes "unsigned_vint_size v = Suc e" "0 < e"
  shows "(if e \<le> 6 then ucast (vint_first e v AND drop_bit (e + 1) 0xFF) else 0) = drop_bit (8 * e) v"
proof (rule bit_word_eqI)
  fix i
  have mask: "drop_bit (e + 1) (0xFF :: u8) = mask (7 - e)" if "e \<le> 6"
  proof -
    have "0xFF = (mask 8 :: u8)" by (simp add: mask_eq_exp_minus_1)
    show ?thesis unfolding \<open>0xFF = mask 8\<close> using that by (auto intro!: bit_word_eqI simp: bit_simps)
  qed
  consider "e \<le> 6" | "e = 7" | "e = 8" using vint_size_range [of v] assms(1) by linarith
  then show "bit (if e \<le> 6 then ucast (vint_first e v AND drop_bit (e + 1) 0xFF) else 0 :: 64 word) i
      \<longleftrightarrow> bit (drop_bit (8 * e) v) i" if "i < LENGTH(64)"
  proof cases
    case 1
    then show ?thesis
      using bit_vint_first [OF assms(1), of i] vint_size_bits [OF assms(1), of "8 * e + i"] that
      unfolding mask [OF 1] by (cases "i < 7 - e") (auto simp: bit_simps)
  next
    case 2
    then show ?thesis using vint_size_bits [OF assms(1), of "8 * e + i"] by (simp add: bit_simps)
  next
    case 3
    have "\<not> bit v (64 + i)" using bit_imp_le_length [of v "64 + i"] by auto
    with 3 show ?thesis by (simp add: bit_simps)
  qed
qed

section \<open>Writing\<close>

lemma write_vint_bytes_eq:
  "Suc e \<le> length buf \<Longrightarrow> write_vint_bytes (rev [1..<Suc e]) buf v
     = (take 1 buf @ be_bytes e v @ drop (Suc e) buf, drop_bit (8 * e) v)"
proof (induction e arbitrary: buf v)
  case (Suc e)
  have "rev [1..<Suc (Suc e)] = Suc e # rev [1..<Suc e]" by simp
  moreover have "drop (Suc e) (buf[Suc e := ucast v]) = ucast v # drop (Suc (Suc e)) buf"
    using Suc.prems by (simp add: drop_update_swap Cons_nth_drop_Suc [symmetric])
  moreover have "take 1 (buf[Suc e := ucast v]) = take 1 buf" by simp
  ultimately show ?case
    using Suc.IH [of "buf[Suc e := ucast v]" "drop_bit 8 v"] Suc.prems
    by (simp add: be_bytes_snoc drop_bit_drop_bit ac_simps del: upt_Suc be_bytes_simps)
qed (simp add: Cons_nth_drop_Suc [symmetric] take_Suc_conv_app_nth)

lemma write_unsigned_vint_eq:
  assumes "unsigned_vint_size v = Suc e"
  shows "write_unsigned_vint buf v = (if length buf < Suc e then None
    else Some (vint_first e v # be_bytes e v @ drop (Suc e) buf, Suc e))"
proof (cases buf)
  case (Cons b bs)
  then show ?thesis
    using write_vint_bytes_eq [of e buf v] assms
    by (auto simp: write_unsigned_vint_def Let_def vint_first_def simp del: upt_Suc)
qed (simp add: write_unsigned_vint_def assms)

lemma read_vint_encoded:
  assumes "unsigned_vint_size v = Suc e"
  shows "read_unsigned_vint (vint_first e v # be_bytes e v @ rest) = Inr (v, Suc e)"
proof (cases "e = 0")
  case True
  have "n < 8" if "bit v n" for n
    using vint_size_bits [OF assms, of n] True that by (cases "n < 8") auto
  then have "ucast (vint_first 0 v) = v"
    by (intro bit_word_eqI) (auto simp: vint_first_def bit_simps)
  then show ?thesis using leading_ones_first [OF assms] True by (simp add: read_unsigned_vint_def)
next
  case False
  then show ?thesis
    using leading_ones_first [OF assms] first_value_bits [OF assms] of_be_be_bytes_drop [of e v]
    by (simp add: read_unsigned_vint_def Let_def of_be_bytes_def)
qed

lemma bit_zigzag: "n < 64 \<Longrightarrow> bit (zigzag v) n \<longleftrightarrow> (0 < n \<and> bit v (n - 1)) \<noteq> bit v 63"
  unfolding zigzag_def bit_xor_iff bit_push_bit_iff bit_signed_drop_bit_iff by (cases n) auto

lemma unzigzag_zigzag: "unzigzag (zigzag v) = v"
proof (rule bit_word_eqI)
  fix n assume n: "n < LENGTH(64)"
  have "zigzag v AND 1 = of_bool (bit (zigzag v) 0)" by (simp add: and_one_eq bit_0 odd_iff_mod_2_eq_one)
  then have neg: "- (zigzag v AND 1) = (if bit v 63 then - 1 else 0)" using bit_zigzag [of 0 v] by simp
  show "bit (unzigzag (zigzag v)) n = bit v n"
  proof (cases "n = 63")
    case True
    then show ?thesis unfolding unzigzag_def neg by (auto simp: bit_simps dest: bit_imp_le_length)
  next
    case False
    then show ?thesis using n bit_zigzag [of "Suc n" v] unfolding unzigzag_def neg by (auto simp: bit_simps)
  qed
qed

section \<open>Readers\<close>

text \<open>What decoding relies on of a reader: it delivers the bytes of its data, short only at the end.\<close>

locale positioned_reader =
  fixes read_at :: reader and data :: bytes
  assumes delivers: "read_at n offset = Inr (take n (drop offset data))"
begin

lemma read_exact:
  "read_exact_at read_at n offset = (if n = 0 \<or> offset + n \<le> length data then Inr (take n (drop offset data)) else Inl Io)"
  by (auto simp: read_exact_at_def delivers)

lemma validate_chunks_ok: "offset + n \<le> length data \<Longrightarrow> validate_chunks read_at offset n = Inr ()"
proof (induction n arbitrary: offset rule: less_induct)
  case (less n)
  then show ?case by (subst validate_chunks.simps) (auto simp: read_exact Let_def)
qed

lemma vint_at:
  assumes "read_unsigned_vint (drop offset data) = Inr r"
  shows "read_unsigned_vint_at read_at offset = Inr r"
proof -
  obtain first rest where d: "drop offset data = first # rest"
    using assms by (cases "drop offset data") (auto simp: read_unsigned_vint_def)
  then have off: "offset < length data" by (metis drop_all list.distinct(1) not_le)
  have rest: "drop (Suc offset) data = rest" using d by (metis drop_Suc list.sel(3) tl_drop)
  have len: "length data = offset + Suc (length rest)"
    using arg_cong [OF d, of length] off by simp
  let ?e = "leading_ones first"
  have one: "read_exact_at read_at 1 offset = Inr [first]" using off d by (simp add: read_exact)
  show ?thesis
  proof (cases "?e = 0")
    case True
    then show ?thesis using assms one by (simp add: read_unsigned_vint_at_def d read_unsigned_vint_def)
  next
    case False
    then have enough: "?e \<le> length rest"
      using assms by (auto simp: d read_unsigned_vint_def Let_def split: if_splits)
    then have "read_exact_at read_at ?e (Suc offset) = Inr (take ?e rest)"
      using len rest by (simp add: read_exact)
    moreover have "read_unsigned_vint (first # take ?e rest) = read_unsigned_vint (first # rest)"
      using enough by (simp add: read_unsigned_vint_def Let_def)
    ultimately show ?thesis
      using assms one False by (simp add: read_unsigned_vint_at_def d)
  qed
qed

end

interpretation slice_reader: positioned_reader "slice_read_at data" data for data
  by unfold_locales (simp add: slice_read_at_def)

lemma read_slice: "n = length xs \<Longrightarrow> offset = length pre \<Longrightarrow> read_exact_at (slice_read_at (pre @ xs @ post)) n offset = Inr xs"
  by (simp add: slice_reader.read_exact)

lemma validate_range_slice:
  "length data \<le> u64_MAX \<Longrightarrow> validate_range (slice_read_at data) (Inr (length data)) offset n
     = (if offset + n \<le> length data then Inr () else Inl InvalidData)"
  by (simp add: validate_range_def slice_reader.validate_chunks_ok)

lemma sint_of_i64: "is_i64 x \<Longrightarrow> sint (word_of_int x :: 64 word) = x"
  unfolding is_i64_def machine_consts by transfer (simp add: signed_take_bit_int_eq_self)

section \<open>Properties\<close>

text \<open>
  Variable-length integers round trip.  In a buffer of nine bytes writing never panics, uses at most
  nine bytes and leaves the rest of the buffer alone, and what was written is read back with the same
  length, unsigned and signed, from memory and through a positioned read at any offset.
\<close>

theorem vint_roundtrip:
  assumes "9 \<le> length buf" "is_i64 x"
  shows "(\<exists>buf' n. write_unsigned_vint buf v = Some (buf', n) \<and> n \<le> 9 \<and> drop n buf' = drop n buf
      \<and> read_unsigned_vint buf' = Inr (v, n)
      \<and> read_unsigned_vint_at (slice_read_at (before @ buf')) (length before) = Inr (v, n))
    \<and> (\<exists>buf' n. write_signed_vint buf x = Some (buf', n) \<and> n \<le> 9 \<and> drop n buf' = drop n buf
      \<and> read_signed_vint buf' = Inr (x, n)
      \<and> read_signed_vint_at (slice_read_at (before @ buf')) (length before) = Inr (x, n))"
proof -
  have main: "\<exists>buf' n. write_unsigned_vint buf v = Some (buf', n) \<and> n \<le> 9 \<and> drop n buf' = drop n buf
      \<and> read_unsigned_vint buf' = Inr (v, n)
      \<and> read_unsigned_vint_at (slice_read_at (before @ buf')) (length before) = Inr (v, n)" for v
  proof -
    obtain e where e: "unsigned_vint_size v = Suc e" using vint_size_range [of v] by (cases "unsigned_vint_size v") auto
    let ?out = "vint_first e v # be_bytes e v @ drop (Suc e) buf"
    have "Suc e \<le> 9" using vint_size_range [of v] e by simp
    moreover from this have "write_unsigned_vint buf v = Some (?out, Suc e)"
      using write_unsigned_vint_eq [OF e] assms(1) by simp
    moreover have "read_unsigned_vint ?out = Inr (v, Suc e)" by (rule read_vint_encoded [OF e])
    moreover from this have "read_unsigned_vint_at (slice_read_at (before @ ?out)) (length before) = Inr (v, Suc e)"
      by (intro slice_reader.vint_at) simp
    ultimately show ?thesis by (intro exI [of _ ?out] exI [of _ "Suc e"]) simp
  qed
  obtain buf' n where "write_unsigned_vint buf (zigzag (word_of_int x)) = Some (buf', n)" "n \<le> 9"
    "drop n buf' = drop n buf" "read_unsigned_vint buf' = Inr (zigzag (word_of_int x), n)"
    "read_unsigned_vint_at (slice_read_at (before @ buf')) (length before) = Inr (zigzag (word_of_int x), n)"
    using main by blast
  then show ?thesis
    using main [of v] sint_of_i64 [OF assms(2)]
    by (auto simp: write_signed_vint_def read_signed_vint_def read_signed_vint_at_def unzigzag_zigzag
        intro!: exI [of _ buf'] exI [of _ n])
qed

theorem vint_roundtrip_witness:
  "\<exists>buf' n. write_signed_vint (replicate 9 0) (- 64) = Some (buf', n) \<and> n \<le> 9
     \<and> drop n buf' = drop n (replicate 9 0) \<and> read_signed_vint buf' = Inr (- 64, n)
     \<and> read_signed_vint_at (slice_read_at ([7] @ buf')) (length [7 :: u8]) = Inr (- 64, n)"
  by (rule vint_roundtrip [THEN conjunct2]) (simp_all add: is_i64_def machine_consts)

end
