(* ===== verification/Byte_Comparable.thy ===== *)
theory Byte_Comparable
  imports Key Varint
begin

unbundle bit_operations_syntax

text \<open>
  Byte-comparable partition keys (crate \<open>ferrosa-sstable\<close>: \<open>byte_comparable.rs\<close>), the order of the
  partition index.  The output buffer is the returned list, the input position is the remaining input
  together with the number of bytes consumed.
\<close>

section \<open>Definitions\<close>

definition ESCAPE :: u8 where "ESCAPE = 0x00"
definition NEXT_COMPONENT :: u8 where "NEXT_COMPONENT = 0x40"
definition TERMINATOR :: u8 where "TERMINATOR = 0x38"
definition ESCAPED_0_CONT :: u8 where "ESCAPED_0_CONT = 0xFE"
definition ESCAPED_0_DONE :: u8 where "ESCAPED_0_DONE = 0xFF"
definition SIGN_BIT :: "64 word" where "SIGN_BIT = 0x8000000000000000"

fun encode_bytes_with_null_escape :: "bytes \<Rightarrow> bytes" where
  "encode_bytes_with_null_escape [] = []"
| "encode_bytes_with_null_escape (b # data) =
     (if b = 0x00
      then let zeros = 1 + length (takeWhile (\<lambda>x. x = 0x00) data)
           in ESCAPE # replicate (zeros - 1) ESCAPED_0_CONT @ ESCAPED_0_DONE
                # encode_bytes_with_null_escape (drop (zeros - 1) data)
      else b # encode_bytes_with_null_escape data)"

definition encode_into :: "bytes \<Rightarrow> decorated_key \<Rightarrow> bytes" where
  "encode_into buf key =
     [NEXT_COMPONENT] @ be_bytes 8 (word_of_int (dk_token key) XOR SIGN_BIT)
       @ [NEXT_COMPONENT] @ encode_bytes_with_null_escape (dk_key key) @ [ESCAPE] @ [TERMINATOR]"

definition encode :: "decorated_key \<Rightarrow> bytes" where
  "encode key = encode_into [] key"

function decode_null_escaped :: "bytes \<Rightarrow> usize \<Rightarrow> bytes \<Rightarrow> codec_error + bytes \<times> usize" where
  "decode_null_escaped result pos [] = Inr (result, pos)"
| "decode_null_escaped result pos (b # data) =
     (if b = ESCAPE
      then case data of
             [] \<Rightarrow> Inr (result, pos + 1)
           | c # rest \<Rightarrow>
               if c = ESCAPED_0_DONE then decode_null_escaped (result @ [0x00]) (pos + 2) rest
               else if c = ESCAPED_0_CONT
               then let n = length (takeWhile (\<lambda>x. x = ESCAPED_0_CONT) data);
                        result = result @ [0x00] @ replicate n 0x00
                    in (case drop n data of
                          [] \<Rightarrow> Inl InvalidFormat
                        | d # ds \<Rightarrow> if d = ESCAPED_0_DONE then decode_null_escaped result (pos + 1 + n + 1) ds
                            else Inl InvalidFormat)
               else Inr (result, pos + 1)
      else decode_null_escaped (result @ [b]) (pos + 1) data)"
  by pat_completeness auto
termination
  by (relation "measure (\<lambda>(_, _, data). length data)") (auto dest!: arg_cong [where f = length])

definition decode_null_escaped_bytes :: "bytes \<Rightarrow> codec_error + bytes \<times> usize" where
  "decode_null_escaped_bytes data = decode_null_escaped [] 0 data"

definition get_byte :: "bytes \<Rightarrow> usize \<Rightarrow> u8 option" where
  "get_byte data pos = (if pos < length data then Some (data ! pos) else None)"

definition decode :: "bytes \<Rightarrow> codec_error + decorated_key" where
  "decode data =
     (if get_byte data 0 \<noteq> Some NEXT_COMPONENT then Inl InvalidFormat
      else if length data < 1 + 8 then Inl InvalidFormat
      else
        let token_unsigned = of_be_bytes 0 (take 8 (drop 1 data));
            tok = sint (token_unsigned XOR SIGN_BIT)
        in if get_byte data 9 \<noteq> Some NEXT_COMPONENT then Inl InvalidFormat
           else case decode_null_escaped_bytes (drop 10 data) of
             Inl e \<Rightarrow> Inl e
           | Inr (key_bytes, consumed) \<Rightarrow>
               if get_byte data (10 + consumed) \<noteq> Some TERMINATOR then Inl InvalidFormat
               else Inr \<lparr>dk_token = tok, dk_key = key_bytes\<rparr>)"

lemmas byte_consts = ESCAPE_def NEXT_COMPONENT_def TERMINATOR_def ESCAPED_0_CONT_def ESCAPED_0_DONE_def

section \<open>The escape as a byte-wise transducer\<close>

fun escape_from :: "bool \<Rightarrow> bytes \<Rightarrow> bytes" where
  "escape_from False [] = []"
| "escape_from True [] = [0xFF]"
| "escape_from False (b # bs) = (if b = 0 then 0 # escape_from True bs else b # escape_from False bs)"
| "escape_from True (b # bs) = (if b = 0 then 0xFE # escape_from True bs else 0xFF # b # escape_from False bs)"

lemma escape_from_run:
  "escape_from True data = replicate (length (takeWhile (\<lambda>x. x = 0) data)) 0xFE
     @ 0xFF # escape_from False (drop (length (takeWhile (\<lambda>x. x = 0) data)) data)"
  by (induction data) auto

lemma encode_escape_from: "encode_bytes_with_null_escape data = escape_from False data"
proof (induction data rule: encode_bytes_with_null_escape.induct)
  case (2 b data)
  then show ?case by (simp add: escape_from_run byte_consts Let_def)
qed simp

lemma takeWhile_replicate_run: "x \<noteq> y \<Longrightarrow> takeWhile (\<lambda>z. z = x) (replicate n x @ y # zs) = replicate n x"
  by (induction n) auto

lemma decode_encoded:
  "decode_null_escaped result pos (encode_bytes_with_null_escape key @ [ESCAPE, TERMINATOR])
     = Inr (result @ key, pos + length (encode_bytes_with_null_escape key) + 1)"
proof (induction key arbitrary: result pos rule: encode_bytes_with_null_escape.induct)
  case (2 b data)
  let ?n = "length (takeWhile (\<lambda>x. x = 0) data)"
  show ?case
  proof (cases "b = 0")
    case True
    have zeros: "replicate ?n 0 @ drop ?n data = data"
      by (induction data) auto
    let ?rest = "encode_bytes_with_null_escape (drop ?n data) @ [ESCAPE, TERMINATOR]"
    have IH: "decode_null_escaped result pos ?rest
        = Inr (result @ drop ?n data, pos + length (encode_bytes_with_null_escape (drop ?n data)) + 1)" for result pos
      using 2(1) [OF True refl, of result pos] by simp
    have run: "takeWhile (\<lambda>x. x = 0xFE) (replicate ?n 0xFE @ (0xFF :: u8) # ?rest) = replicate ?n 0xFE"
      by (rule takeWhile_replicate_run) simp
    show ?thesis
    proof (cases ?n)
      case 0
      then show ?thesis using IH True zeros by (simp add: byte_consts)
    next
      case (Suc m)
      then have "decode_null_escaped result pos (encode_bytes_with_null_escape (b # data) @ [ESCAPE, TERMINATOR])
          = decode_null_escaped (result @ [0] @ replicate ?n 0) (pos + 1 + ?n + 1) ?rest"
        using True run by (simp add: byte_consts)
      then show ?thesis using IH True zeros by (simp add: byte_consts)
    qed
  qed (use 2(2) in \<open>simp add: byte_consts\<close>)
qed (simp add: byte_consts)

section \<open>Order\<close>

text \<open>
  Where the escape reverses the order: \<open>k\<close> ends in a zero byte and \<open>k'\<close> continues it with another one.
\<close>

definition zero_extension :: "bytes \<Rightarrow> bytes \<Rightarrow> bool" where
  "zero_extension k k' \<longleftrightarrow> k \<noteq> [] \<and> last k = 0 \<and> (\<exists>zs. k' = k @ 0 # zs)"

lemma escape_from_True_head: "\<exists>c cs. escape_from True bs = c # cs \<and> 0x38 < c"
  by (cases bs) auto

lemma word_pos: "(b :: u8) \<noteq> 0 \<Longrightarrow> 0 < b"
  by (simp add: word_neq_0_conv)

lemma escape_from_order:
  assumes "k < k'" "\<not> (\<exists>zs. k' = k @ 0 # zs \<and> (if k = [] then escaped else last k = 0))"
  shows "escape_from escaped k @ [0, 0x38] < escape_from escaped k' @ [0, 0x38]"
  using assms
proof (induction k arbitrary: escaped k')
  case Nil
  then obtain b bs where k': "k' = b # bs" by (cases k') auto
  show ?case
  proof (cases escaped)
    case True
    then have "b \<noteq> 0" using Nil.prems(2) k' by auto
    then show ?thesis using True k' word_pos by simp
  next
    case False
    then show ?thesis using k' escape_from_True_head [of bs] word_pos [of b] by auto
  qed
next
  case (Cons a as)
  then obtain b bs where k': "k' = b # bs" by (cases k') auto
  show ?case
  proof (cases "a = b")
    case True
    then have less: "as < bs" using Cons.prems(1) k' by simp
    have "\<not> (\<exists>zs. bs = as @ 0 # zs \<and> (if as = [] then a = 0 else last as = 0))"
      using Cons.prems(2) k' True by auto
    from Cons.IH [OF less this] show ?thesis
      using True k' by (cases escaped; cases "a = 0") simp_all
  next
    case False
    then have "a < b" using Cons.prems(1) k' by simp
    then show ?thesis using k' word_pos by (cases escaped; cases "a = 0"; cases "b = 0") simp_all
  qed
qed

lemma xor_sign_bit: "x XOR SIGN_BIT = x + SIGN_BIT"
proof -
  have bit: "bit SIGN_BIT n \<longleftrightarrow> n = 63" for n
  proof -
    have "SIGN_BIT = push_bit 63 1" by (simp add: SIGN_BIT_def)
    then have "bit SIGN_BIT n \<longleftrightarrow> bit (push_bit 63 1 :: 64 word) n" by simp
    then show ?thesis by (auto simp: bit_push_bit_iff bit_1_iff simp del: push_bit_of_1)
  qed
  show ?thesis
  proof (cases "bit x 63")
    case True
    let ?y = "x XOR SIGN_BIT"
    have "?y + SIGN_BIT = ?y OR SIGN_BIT"
      by (rule disjunctive_add) (use True in \<open>auto simp: bit bit_xor_iff\<close>)
    moreover have "?y OR SIGN_BIT = x"
      by (rule bit_word_eqI) (use True in \<open>auto simp: bit bit_xor_iff bit_or_iff\<close>)
    ultimately have "x + SIGN_BIT = ?y + (SIGN_BIT + SIGN_BIT)" by (metis add.assoc)
    also have "SIGN_BIT + SIGN_BIT = 0" by (simp add: SIGN_BIT_def)
    finally show ?thesis by simp
  next
    case False
    then have "x + SIGN_BIT = x OR SIGN_BIT" by (intro disjunctive_add) (auto simp: bit)
    moreover have "x OR SIGN_BIT = x XOR SIGN_BIT"
      by (rule bit_word_eqI) (use False in \<open>auto simp: bit bit_xor_iff bit_or_iff\<close>)
    ultimately show ?thesis by simp
  qed
qed

lemma append_left_less: "xs @ ys < xs @ zs \<longleftrightarrow> ys < (zs :: 'a::linorder list)"
  by (induction xs) auto

lemma token_word_order:
  assumes "is_i64 s" "is_i64 t" "s < t"
  shows "(word_of_int s :: 64 word) XOR SIGN_BIT < word_of_int t XOR SIGN_BIT"
proof -
  have "uint (word_of_int x XOR SIGN_BIT) = x + 2 ^ 63" if "is_i64 x" for x
  proof -
    have "word_of_int x XOR SIGN_BIT = word_of_int (x + 2 ^ 63)" unfolding xor_sign_bit by (simp add: SIGN_BIT_def)
    moreover have "uint (word_of_int (x + 2 ^ 63) :: 64 word) = x + 2 ^ 63"
      using that unfolding is_i64_def machine_consts by transfer (simp add: take_bit_int_eq_self)
    ultimately show ?thesis by simp
  qed
  then show ?thesis using assms by (simp add: word_less_def)
qed

lemma xor_sign_bit_twice: "(x XOR SIGN_BIT) XOR SIGN_BIT = x"
  by (simp add: xor.assoc)

section \<open>Properties\<close>

text \<open>
  Byte-comparable keys round trip: every decorated key decodes from its encoding, whatever zero
  bytes its key holds.
\<close>

theorem byte_comparable_roundtrip:
  assumes "is_i64 (dk_token key)"
  shows "decode (encode key) = Inr key"
proof -
  let ?w = "word_of_int (dk_token key) XOR SIGN_BIT" and ?k = "encode_bytes_with_null_escape (dk_key key)"
  have enc: "encode key = NEXT_COMPONENT # be_bytes 8 ?w @ NEXT_COMPONENT # ?k @ [ESCAPE, TERMINATOR]"
    by (simp add: encode_def encode_into_def del: be_bytes_simps)
  have "of_be_bytes 0 (take 8 (drop 1 (encode key))) = ?w"
    unfolding enc by (simp add: of_be_be_bytes_full del: be_bytes_simps)
  then have tok: "sint (of_be_bytes 0 (take 8 (drop 1 (encode key))) XOR SIGN_BIT) = dk_token key"
    using sint_of_i64 [OF assms] by (simp add: xor_sign_bit_twice)
  have rest: "drop 10 (encode key) = ?k @ [ESCAPE, TERMINATOR]"
    unfolding enc by (simp del: be_bytes_simps)
  have "length (encode key) = 12 + length ?k" unfolding enc by (simp del: be_bytes_simps)
  moreover have "encode key ! 0 = NEXT_COMPONENT" "encode key ! 9 = NEXT_COMPONENT" "encode key ! (11 + length ?k) = TERMINATOR"
    unfolding enc by (simp_all add: nth_append nth_Cons' del: be_bytes_simps)
  ultimately show ?thesis
    unfolding decode_def Let_def tok rest decode_null_escaped_bytes_def decode_encoded
    by (simp add: get_byte_def)
qed

theorem byte_comparable_roundtrip_witness:
  "decode (encode \<lparr>dk_token = - 5, dk_key = [0, 0, 1, 0]\<rparr>) = Inr \<lparr>dk_token = - 5, dk_key = [0, 0, 1, 0]\<rparr>"
  by (rule byte_comparable_roundtrip) (simp add: is_i64_def machine_consts)

lemma encode_order:
  assumes "is_i64 (dk_token a)" "is_i64 (dk_token b)" "decorated_key_cmp a b = Less"
    and "\<not> zero_extension (dk_key a) (dk_key b)"
  shows "encode a < encode b"
proof (cases "dk_token a = dk_token b")
  case True
  then have less: "dk_key a < dk_key b" using assms(3) by (simp add: decorated_key_cmp_def cmp_def split: if_splits)
  have "\<not> (\<exists>zs. dk_key b = dk_key a @ 0 # zs \<and> (if dk_key a = [] then False else last (dk_key a) = 0))"
    using assms(4) by (auto simp: zero_extension_def)
  from escape_from_order [OF less this] show ?thesis
    by (simp add: encode_def encode_into_def True encode_escape_from byte_consts append_left_less del: be_bytes_simps)
next
  case False
  then have "dk_token a < dk_token b"
    using assms(3) by (auto simp: decorated_key_cmp_def cmp_def split: if_splits)
  then have "unat ((word_of_int (dk_token a) :: 64 word) XOR SIGN_BIT) < unat (word_of_int (dk_token b) XOR SIGN_BIT)"
    using token_word_order [OF assms(1,2)] by (simp add: word_less_nat_alt)
  moreover have "take_bit (8 * 8) (unat w) = unat w" for w :: "64 word"
    using unsigned_less [of w, where ?'a = nat] by (simp add: take_bit_nat_eq_self)
  ultimately show ?thesis
    by (simp add: encode_def encode_into_def be_bytes_order del: be_bytes_simps)
qed

text \<open>
  C35: The byte order of the encodings is the order of decorated keys, tokens first and key bytes
  second, except between a key that ends in a zero byte and a key that continues it with another zero.
\<close>

theorem byte_comparable_order:
  assumes "is_i64 (dk_token a)" "is_i64 (dk_token b)" "decorated_key_cmp a b = Less"
    and "\<not> zero_extension (dk_key a) (dk_key b)"
  shows "encode a < encode b"
  by (rule encode_order [OF assms])

theorem byte_comparable_order_witness:
  "encode \<lparr>dk_token = - 5, dk_key = [1, 0, 2]\<rparr> < encode \<lparr>dk_token = - 5, dk_key = [1, 0, 3]\<rparr>"
  by (rule byte_comparable_order)
    (simp_all add: is_i64_def machine_consts decorated_key_cmp_def zero_extension_def)

text \<open>
  The exception is real: the key with two trailing zero bytes comes after the key with one, but its
  encoding comes before.
\<close>

theorem byte_comparable_order_reversed:
  "decorated_key_cmp \<lparr>dk_token = t, dk_key = [0x41, 0]\<rparr> \<lparr>dk_token = t, dk_key = [0x41, 0, 0]\<rparr> = Less
    \<and> encode \<lparr>dk_token = t, dk_key = [0x41, 0, 0]\<rparr> < encode \<lparr>dk_token = t, dk_key = [0x41, 0]\<rparr>"
  by (simp add: decorated_key_cmp_def encode_def encode_into_def byte_consts append_left_less del: be_bytes_simps)

end
