(* ===== verification/Bloom.thy ===== *)
theory Bloom
  imports Key Varint "HOL-Library.Signed_Division"
begin

unbundle bit_operations_syntax

text \<open>
  The Bloom filter of an SSTable (crate \<open>ferrosa-sstable\<close>: \<open>bloom.rs\<close>).

  The number of bits and of hash functions that \<open>new\<close> derives from floating-point parameters are
  arguments of \<open>bloom_new\<close>; nothing below depends on their values.  Words are stored in the byte order
  of the target, which is little-endian.  \<open>bloom_read\<close> is \<open>None\<close> where the code panics: \<open>usize\<close> has 64
  bits, its arithmetic wraps, and a vector cannot be allocated above \<open>isize::MAX\<close> bytes.
\<close>

section \<open>Definitions\<close>

record bloom_filter =
  hash_count :: i32
  bf_bits :: "64 word list"

definition bloom_new :: "usize \<Rightarrow> usize \<Rightarrow> bloom_filter" where
  "bloom_new num_bits hashes = \<lparr>hash_count = int hashes, bf_bits = replicate ((num_bits + 63) div 64) 0\<rparr>"

definition bloom_num_bits :: "bloom_filter \<Rightarrow> i64" where
  "bloom_num_bits bf = int (length (bf_bits bf) * 64)"

definition bloom_bit_index :: "bloom_filter \<Rightarrow> i64 \<Rightarrow> i64 \<Rightarrow> i64 \<Rightarrow> usize" where
  "bloom_bit_index bf h1 h2 i =
     (let hash = wrap_i64 (h2 + wrap_i64 (i * h1)) in nat \<bar>hash smod bloom_num_bits bf\<bar>)"

definition bloom_set_bit :: "i64 \<Rightarrow> i64 \<Rightarrow> bloom_filter \<Rightarrow> nat \<Rightarrow> bloom_filter" where
  "bloom_set_bit h1 h2 bf i =
     (let bit_index = bloom_bit_index bf h1 h2 (int i);
          word = bit_index div 64;
          b = bit_index mod 64
      in bf\<lparr>bf_bits := (bf_bits bf)[word := bf_bits bf ! word OR push_bit b 1]\<rparr>)"

definition bloom_add :: "bloom_filter \<Rightarrow> i64 \<Rightarrow> i64 \<Rightarrow> bloom_filter" where
  "bloom_add bf h1 h2 =
     (if bloom_num_bits bf = 0 then bf else foldl (bloom_set_bit h1 h2) bf [0..<nat (hash_count bf)])"

definition bloom_is_present :: "bloom_filter \<Rightarrow> i64 \<Rightarrow> i64 \<Rightarrow> bool" where
  "bloom_is_present bf h1 h2 =
     (bloom_num_bits bf = 0 \<or>
      list_all (\<lambda>i. let bit_index = bloom_bit_index bf h1 h2 (int i)
                    in bf_bits bf ! (bit_index div 64) AND push_bit (bit_index mod 64) 1 \<noteq> 0)
        [0..<nat (hash_count bf)])"

definition i32_as_usize :: "i32 \<Rightarrow> usize" where
  "i32_as_usize x = nat (x mod 2 ^ 64)"

definition bloom_read :: "bytes \<Rightarrow> (codec_error + bloom_filter) option" where
  "bloom_read data =
     (if length data < 8 then Some (Inl InvalidFormat)
      else
        let hashes = sint (of_be_bytes 0 (take 4 data) :: 32 word);
            word_count = i32_as_usize (sint (of_be_bytes 0 (take 4 (drop 4 data)) :: 32 word));
            expected_len = (8 + word_count * 8) mod 2 ^ 64
        in if length data < expected_len then Some (Inl InvalidFormat)
           else if word_count * 8 \<ge> 2 ^ 63 then None
           else Some (Inr \<lparr>hash_count = hashes,
             bf_bits = map (\<lambda>i. of_le_bytes (take 8 (drop (8 + 8 * i) data))) [0..<word_count]\<rparr>))"

definition bloom_write :: "bloom_filter \<Rightarrow> bytes" where
  "bloom_write bf =
     be_bytes 4 (word_of_int (hash_count bf) :: 32 word)
       @ be_bytes 4 (word_of_int (int (length (bf_bits bf))) :: 32 word)
       @ concat (map (le_bytes 8) (bf_bits bf))"

section \<open>Membership\<close>

lemma word_bit_test: "(w :: 64 word) AND push_bit b 1 \<noteq> 0 \<longleftrightarrow> bit w b" if "b < 64"
proof -
  have "bit (w AND push_bit b 1) i \<longleftrightarrow> i = b \<and> bit w b" for i
    unfolding bit_and_iff bit_push_bit_iff bit_1_iff using that by auto
  then show ?thesis by (metis bit_0_eq bit_eqI bot_apply bot_bool_def)
qed

lemma bloom_num_bits_set [simp]: "bloom_num_bits (bloom_set_bit h1 h2 bf i) = bloom_num_bits bf"
  "hash_count (bloom_set_bit h1 h2 bf i) = hash_count bf"
  by (simp_all add: bloom_num_bits_def bloom_set_bit_def Let_def)

lemma bloom_fold_set [simp]: "bloom_num_bits (foldl (bloom_set_bit h1 h2) bf is) = bloom_num_bits bf"
  "hash_count (foldl (bloom_set_bit h1 h2) bf is) = hash_count bf"
  by (induction "is" arbitrary: bf) simp_all

lemma bloom_add_params [simp]: "bloom_num_bits (bloom_add bf h1 h2) = bloom_num_bits bf"
  "hash_count (bloom_add bf h1 h2) = hash_count bf"
  by (simp_all add: bloom_add_def)

definition bloom_has :: "bloom_filter \<Rightarrow> nat \<Rightarrow> bool" where
  "bloom_has bf n \<longleftrightarrow> bit (bf_bits bf ! (n div 64)) (n mod 64)"

lemma bloom_bit_index_less: "bloom_num_bits bf \<noteq> 0 \<Longrightarrow> bloom_bit_index bf h1 h2 i div 64 < length (bf_bits bf)"
proof -
  assume "bloom_num_bits bf \<noteq> 0"
  then have pos: "0 < bloom_num_bits bf" by (simp add: bloom_num_bits_def)
  have "\<bar>x smod bloom_num_bits bf\<bar> < bloom_num_bits bf" for x
    using pos smod_int_range [of "bloom_num_bits bf" x] by auto
  then have "bloom_bit_index bf h1 h2 i < length (bf_bits bf) * 64"
    unfolding bloom_bit_index_def Let_def bloom_num_bits_def by (metis nat_less_iff nat_int abs_ge_zero zless_nat_conj zless_nat_eq_int_zless)
  then show ?thesis by (simp add: less_mult_imp_div_less)
qed

lemma bloom_set_bit_has:
  assumes "bloom_num_bits bf \<noteq> 0"
  shows "bloom_has (bloom_set_bit h1 h2 bf i) n \<longleftrightarrow> n = bloom_bit_index bf h1 h2 (int i) \<or> bloom_has bf n"
proof -
  let ?b = "bloom_bit_index bf h1 h2 (int i)"
  have "bit (w OR push_bit m 1) k \<longleftrightarrow> k = m \<or> bit w k" if "m < 64" for w :: "64 word" and m k
    unfolding bit_or_iff bit_push_bit_iff bit_1_iff using that by auto
  moreover have "n = ?b \<longleftrightarrow> n div 64 = ?b div 64 \<and> n mod 64 = ?b mod 64"
    by (metis div_mult_mod_eq)
  ultimately show ?thesis
    using bloom_bit_index_less [OF assms, of h1 h2 "int i"]
    by (auto simp: bloom_has_def bloom_set_bit_def Let_def nth_list_update simp del: push_bit_of_1)
qed

lemma bloom_bit_index_cong: "bloom_num_bits bf = bloom_num_bits bf' \<Longrightarrow> bloom_bit_index bf = bloom_bit_index bf'"
  by (simp add: bloom_bit_index_def fun_eq_iff)

lemma bloom_fold_has:
  assumes "bloom_num_bits bf \<noteq> 0"
  shows "bloom_has (foldl (bloom_set_bit h1 h2) bf is) n \<longleftrightarrow>
    (\<exists>i \<in> set is. n = bloom_bit_index bf h1 h2 (int i)) \<or> bloom_has bf n"
  using assms
proof (induction "is" arbitrary: bf)
  case (Cons i "is")
  have "bloom_bit_index (bloom_set_bit h1 h2 bf i) = bloom_bit_index bf"
    by (rule bloom_bit_index_cong) simp
  then show ?case using Cons.IH [of "bloom_set_bit h1 h2 bf i"] Cons.prems bloom_set_bit_has [OF Cons.prems] by auto
qed simp

lemma bloom_is_present_iff:
  "bloom_is_present bf h1 h2 \<longleftrightarrow> bloom_num_bits bf = 0 \<or>
     (\<forall>i < nat (hash_count bf). bloom_has bf (bloom_bit_index bf h1 h2 (int i)))"
  by (auto simp: bloom_is_present_def bloom_has_def list_all_iff Let_def word_bit_test simp del: push_bit_of_1)

lemma bloom_add_present: "bloom_is_present (bloom_add bf h1 h2) h1 h2"
proof -
  have "bloom_bit_index (bloom_add bf h1 h2) = bloom_bit_index bf" by (rule bloom_bit_index_cong) simp
  then show ?thesis
    by (auto simp: bloom_is_present_iff) (auto simp: bloom_add_def bloom_fold_has)
qed

lemma bloom_add_mono: "bloom_is_present bf g1 g2 \<Longrightarrow> bloom_is_present (bloom_add bf h1 h2) g1 g2"
proof -
  have "bloom_bit_index (bloom_add bf h1 h2) = bloom_bit_index bf" by (rule bloom_bit_index_cong) simp
  then show "bloom_is_present bf g1 g2 \<Longrightarrow> ?thesis"
    by (auto simp: bloom_is_present_iff) (auto simp: bloom_add_def bloom_fold_has)
qed

lemma bloom_adds_mono:
  "bloom_is_present bf g1 g2 \<Longrightarrow> bloom_is_present (foldl (\<lambda>bf (h1, h2). bloom_add bf h1 h2) bf keys) g1 g2"
  by (induction keys arbitrary: bf) (auto simp: bloom_add_mono)

lemma bloom_adds_params [simp]:
  "bloom_num_bits (foldl (\<lambda>bf (h1, h2). bloom_add bf h1 h2) bf keys) = bloom_num_bits bf"
  "hash_count (foldl (\<lambda>bf (h1, h2). bloom_add bf h1 h2) bf keys) = hash_count bf"
  by (induction keys arbitrary: bf) auto

lemma bloom_adds_present:
  "(h1, h2) \<in> set keys \<Longrightarrow> bloom_is_present (foldl (\<lambda>bf (h1, h2). bloom_add bf h1 h2) bf keys) h1 h2"
  by (induction keys arbitrary: bf) (auto simp: bloom_add_present bloom_adds_mono)

section \<open>Serialisation\<close>

lemma sint_of_i32: "i32_MIN \<le> x \<Longrightarrow> x \<le> i32_MAX \<Longrightarrow> sint (word_of_int x :: 32 word) = x"
  unfolding machine_consts by transfer (simp add: signed_take_bit_int_eq_self)

lemma concat_chunk:
  assumes "\<And>x. length (f x) = 8" "i < length xs"
  shows "take 8 (drop (8 * i) (concat (map f xs))) = f (xs ! i)"
  using assms(2)
proof (induction xs arbitrary: i)
  case (Cons x xs)
  then show ?case using assms(1) by (cases i) (simp_all add: drop_append)
qed simp

lemma length_concat_words: "length (concat (map (le_bytes 8) ws)) = 8 * length ws"
  by (induction ws) simp_all

definition bloom_storable :: "bloom_filter \<Rightarrow> bool" where
  "bloom_storable bf \<longleftrightarrow> i32_MIN \<le> hash_count bf \<and> hash_count bf \<le> i32_MAX \<and> int (length (bf_bits bf)) \<le> i32_MAX"

lemma bloom_read_write:
  assumes "bloom_storable bf"
  shows "bloom_read (bloom_write bf @ rest) = Some (Inr bf)"
proof -
  let ?n = "length (bf_bits bf)" and ?data = "bloom_write bf @ rest"
  let ?h = "be_bytes 4 (word_of_int (hash_count bf) :: 32 word)" and ?c = "be_bytes 4 (word_of_int (int ?n) :: 32 word)"
  have data: "?data = ?h @ ?c @ concat (map (le_bytes 8) (bf_bits bf)) @ rest" by (simp add: bloom_write_def)
  have h: "sint (of_be_bytes 0 (take 4 ?data) :: 32 word) = hash_count bf"
    unfolding data using assms by (simp add: of_be_be_bytes_full sint_of_i32 bloom_storable_def)
  have "sint (word_of_nat ?n :: 32 word) = int ?n"
    using sint_of_i32 [of "int ?n"] assms by (simp add: bloom_storable_def machine_consts)
  then have c: "i32_as_usize (sint (of_be_bytes 0 (take 4 (drop 4 ?data)) :: 32 word)) = ?n"
    unfolding data using assms
    by (simp add: of_be_be_bytes_full bloom_storable_def i32_as_usize_def machine_consts)
  have len: "length ?data = 8 + 8 * ?n + length rest" unfolding data by (simp add: length_concat_words)
  have small: "?n * 8 < 2 ^ 63" using assms by (simp add: bloom_storable_def machine_consts)
  have word: "of_le_bytes (take 8 (drop (8 + 8 * i) ?data)) = bf_bits bf ! i" if "i < ?n" for i
  proof -
    have "drop (8 + 8 * i) ?data = drop (8 * i) (concat (map (le_bytes 8) (bf_bits bf))) @ rest"
      using that unfolding data by (simp add: length_concat_words)
    then have "take 8 (drop (8 + 8 * i) ?data) = take 8 (drop (8 * i) (concat (map (le_bytes 8) (bf_bits bf))))"
      using that by (simp add: length_concat_words)
    then show ?thesis using that by (simp add: concat_chunk of_le_le_bytes_full)
  qed
  have "map (\<lambda>i. of_le_bytes (take 8 (drop (8 + 8 * i) ?data))) [0..<?n] = bf_bits bf"
    by (rule nth_equalityI) (simp_all add: word del: drop_append take_append)
  then show ?thesis
    unfolding bloom_read_def Let_def h c using len small by (simp add: mult.commute)
qed

section \<open>Properties\<close>



text \<open>
  A filter file whose word count is \<open>-1\<close> passes the length check, which wraps around, and the reader
  panics when it allocates the words; it does not report invalid data.
\<close>

theorem bloom_read_panics:
  "bloom_read [0, 0, 0, 1, 0xFF, 0xFF, 0xFF, 0xFF] = None"
  by (simp add: bloom_read_def i32_as_usize_def Let_def)

end
