(* ===== verification/Accord.thy ===== *)
theory Accord
  imports Prelude
begin

text \<open>
  The types of the Accord protocol (crate \<open>ferrosa-common\<close>: \<open>accord.rs\<close>): timestamps, the hybrid
  logical clock, ballots and the state a replica keeps of one transaction.

  A timestamp is a datatype with the four fields of the struct and the derived lexicographic order; a
  transaction id is a timestamp.  The wall clock is an argument of every clock operation, one reading
  per call of \<open>wall_clock_ns\<close>; a mutex section is one state transition.  \<open>None\<close> is the panic of an
  exhausted sequence counter or of a violated ballot assertion.
\<close>

section \<open>Timestamps\<close>

datatype timestamp = Timestamp (ts_epoch: u64) (ts_time: u64) (ts_seq: u32) (ts_node: u64)

type_synonym txn_id = timestamp
type_synonym ballot = u64

definition ts_key :: "timestamp \<Rightarrow> u64 \<times> u64 \<times> u32 \<times> u64" where
  "ts_key t = (ts_epoch t, ts_time t, ts_seq t, ts_node t)"

lemma ts_key_inject: "ts_key s = ts_key t \<longleftrightarrow> s = t"
  by (cases s; cases t) (simp add: ts_key_def)

instantiation timestamp :: linorder
begin

definition less_eq_timestamp :: "timestamp \<Rightarrow> timestamp \<Rightarrow> bool" where
  "s \<le> t \<longleftrightarrow> ts_key s \<le> ts_key t"

definition less_timestamp :: "timestamp \<Rightarrow> timestamp \<Rightarrow> bool" where
  "s < t \<longleftrightarrow> ts_key s < ts_key t"

instance
  by standard (auto simp: less_eq_timestamp_def less_timestamp_def ts_key_inject intro: order.trans)

end

lemma timestamp_less_iff [simp]:
  "Timestamp e m s n < Timestamp e' m' s' n' \<longleftrightarrow>
     e < e' \<or> e = e' \<and> (m < m' \<or> m = m' \<and> (s < s' \<or> s = s' \<and> n < n'))"
  by (auto simp: less_timestamp_def ts_key_def)

lemma timestamp_le_iff [simp]:
  "Timestamp e m s n \<le> Timestamp e' m' s' n' \<longleftrightarrow>
     e < e' \<or> e = e' \<and> (m < m' \<or> m = m' \<and> (s < s' \<or> s = s' \<and> n \<le> n'))"
  by (auto simp: less_eq_timestamp_def ts_key_def)

definition timestamp_new :: "u64 \<Rightarrow> u64 \<Rightarrow> u64 \<Rightarrow> timestamp" where
  "timestamp_new epoch hlc_now node = Timestamp epoch hlc_now 0 node"

definition timestamp_default :: timestamp where
  "timestamp_default = Timestamp 0 0 0 0"

definition bump_past :: "timestamp \<Rightarrow> timestamp \<Rightarrow> u64 \<Rightarrow> timestamp" where
  "bump_past self other node = Timestamp (ts_epoch other) (ts_time other) (min (ts_seq other + 1) u32_MAX) node"

definition txn_id_new :: "u64 \<Rightarrow> timestamp \<Rightarrow> txn_id" where
  "txn_id_new node t0 = Timestamp (ts_epoch t0) (ts_time t0) (ts_seq t0) node"

section \<open>Hybrid logical clock\<close>

record clock_drift_error =
  remote_time :: u64
  local_time :: u64
  drift_max_ns :: u64

record hlc =
  hlc_node :: u64
  hlc_state :: "u64 \<times> u32"
  max_drift_ns :: u64

definition DEFAULT_MAX_DRIFT_NS :: u64 where "DEFAULT_MAX_DRIFT_NS = 500000000"

definition hlc_new :: "u64 \<Rightarrow> u64 \<Rightarrow> hlc" where
  "hlc_new node drift = \<lparr>hlc_node = node, hlc_state = (0, 0),
     max_drift_ns = (if drift = 0 then DEFAULT_MAX_DRIFT_NS else drift)\<rparr>"

definition hlc_now :: "u64 \<Rightarrow> hlc \<Rightarrow> (hlc \<times> timestamp) option" where
  "hlc_now phys c =
     (let (time, seq) = hlc_state c;
          advanced = (if phys > time then Some (phys, 0) else if seq < u32_MAX then Some (time, seq + 1) else None)
      in map_option (\<lambda>(time, seq). (c\<lparr>hlc_state := (time, seq)\<rparr>, Timestamp 0 time seq (hlc_node c))) advanced)"

definition hlc_merge :: "u64 \<Rightarrow> timestamp \<Rightarrow> hlc \<Rightarrow> hlc \<times> (clock_drift_error + unit)" where
  "hlc_merge phys remote c =
     (if ts_time remote > phys \<and> ts_time remote - phys > max_drift_ns c
      then (c, Inl \<lparr>remote_time = ts_time remote, local_time = phys, drift_max_ns = max_drift_ns c\<rparr>)
      else (if (ts_time remote, ts_seq remote) > hlc_state c
            then c\<lparr>hlc_state := (ts_time remote, ts_seq remote)\<rparr> else c, Inr ()))"

definition hlc_witness :: "u64 \<Rightarrow> u64 \<Rightarrow> timestamp \<Rightarrow> hlc \<Rightarrow> (hlc \<times> timestamp) option" where
  "hlc_witness phys phys' remote c = hlc_now phys' (fst (hlc_merge phys remote c))"

section \<open>Ballots\<close>

definition ballot_generator_new :: u64 where "ballot_generator_new = 1"

definition fresh_ballot :: "u64 \<Rightarrow> u64 \<times> ballot" where
  "fresh_ballot next = ((next + 1) mod 2 ^ 64, next)"

section \<open>Transaction state\<close>

datatype txn_phase = PreAccepted | Accepted | Committed | Applied

fun phase_rank :: "txn_phase \<Rightarrow> nat" where
  "phase_rank PreAccepted = 0"
| "phase_rank Accepted = 1"
| "phase_rank Committed = 2"
| "phase_rank Applied = 3"

record txn_state =
  st_txn_id :: txn_id
  st_t0 :: timestamp
  st_t :: timestamp
  st_t_max :: timestamp
  st_deps :: "txn_id set"
  st_phase :: txn_phase
  max_ballot_seen :: ballot
  accepted_ballot :: ballot
  st_result :: "bytes option"

text \<open>The assertion after every mutation; its failure is a panic.\<close>

definition assert_invariant :: "txn_state \<Rightarrow> txn_state option" where
  "assert_invariant s = (if accepted_ballot s \<le> max_ballot_seen s then Some s else None)"

definition txn_state_new :: "txn_id \<Rightarrow> timestamp \<Rightarrow> txn_state option" where
  "txn_state_new txn_id t0 = assert_invariant
     \<lparr>st_txn_id = txn_id, st_t0 = t0, st_t = t0, st_t_max = t0, st_deps = {}, st_phase = PreAccepted,
      max_ballot_seen = 0, accepted_ballot = 0, st_result = None\<rparr>"

definition advance_phase :: "txn_phase \<Rightarrow> txn_state \<Rightarrow> txn_state" where
  "advance_phase p s = (if phase_rank p > phase_rank (st_phase s) then s\<lparr>st_phase := p\<rparr> else s)"

definition set_t :: "timestamp \<Rightarrow> txn_state \<Rightarrow> txn_state" where
  "set_t t s = (let s = s\<lparr>st_t := t\<rparr> in if t > st_t_max s then s\<lparr>st_t_max := t\<rparr> else s)"

definition join_ballot :: "ballot \<Rightarrow> txn_state \<Rightarrow> txn_state option" where
  "join_ballot b s = assert_invariant (if b > max_ballot_seen s then s\<lparr>max_ballot_seen := b\<rparr> else s)"

definition txn_accept :: "ballot \<Rightarrow> timestamp \<Rightarrow> txn_id set \<Rightarrow> txn_state \<Rightarrow> txn_state option" where
  "txn_accept b t deps s =
     (let s = (if b > max_ballot_seen s then s\<lparr>max_ballot_seen := b\<rparr> else s);
          s = set_t t (s\<lparr>accepted_ballot := b\<rparr>);
          s = advance_phase Accepted (s\<lparr>st_deps := deps\<rparr>)
      in assert_invariant s)"

definition txn_pre_accept :: "timestamp \<Rightarrow> txn_id set \<Rightarrow> txn_state \<Rightarrow> txn_state option" where
  "txn_pre_accept t deps s = assert_invariant (advance_phase PreAccepted ((set_t t s)\<lparr>st_deps := deps\<rparr>))"

definition txn_commit :: "timestamp \<Rightarrow> txn_id set \<Rightarrow> txn_state \<Rightarrow> txn_state option" where
  "txn_commit t deps s = assert_invariant (advance_phase Committed ((set_t t s)\<lparr>st_deps := deps\<rparr>))"

definition txn_apply :: "bytes \<Rightarrow> txn_state \<Rightarrow> txn_state option" where
  "txn_apply data s = assert_invariant ((advance_phase Applied s)\<lparr>st_result := Some data\<rparr>)"

lemmas txn_ops = join_ballot_def txn_accept_def txn_pre_accept_def txn_commit_def txn_apply_def
  txn_state_new_def assert_invariant_def advance_phase_def set_t_def Let_def

section \<open>The clock\<close>

lemma hlc_now_state:
  assumes "hlc_now phys c = Some (c', t)"
  shows "hlc_state c < hlc_state c'" "t = Timestamp 0 (fst (hlc_state c')) (snd (hlc_state c')) (hlc_node c)"
    "hlc_node c' = hlc_node c" "max_drift_ns c' = max_drift_ns c"
  using assms by (auto simp: hlc_now_def Let_def less_prod_def' split: prod.splits if_splits)

lemma hlc_merge_state: "hlc_state c \<le> hlc_state (fst (hlc_merge phys remote c))"
  "hlc_node (fst (hlc_merge phys remote c)) = hlc_node c"
  by (auto simp: hlc_merge_def)

text \<open>A history of calls with their wall-clock readings, and the timestamps it mints.\<close>

datatype clock_op = Now u64 | Merge u64 timestamp | Witness u64 u64 timestamp

fun hlc_step :: "clock_op \<Rightarrow> hlc \<Rightarrow> (hlc \<times> timestamp list) option" where
  "hlc_step (Now phys) c = map_option (\<lambda>(c, t). (c, [t])) (hlc_now phys c)"
| "hlc_step (Merge phys remote) c = Some (fst (hlc_merge phys remote c), [])"
| "hlc_step (Witness phys phys' remote) c = map_option (\<lambda>(c, t). (c, [t])) (hlc_witness phys phys' remote c)"

fun hlc_run :: "clock_op list \<Rightarrow> hlc \<Rightarrow> (hlc \<times> timestamp list) option" where
  "hlc_run [] c = Some (c, [])"
| "hlc_run (op # ops) c =
     (case hlc_step op c of
        None \<Rightarrow> None
      | Some (c, ts) \<Rightarrow> map_option (\<lambda>(c, ts'). (c, ts @ ts')) (hlc_run ops c))"

definition after_state :: "hlc \<Rightarrow> timestamp \<Rightarrow> bool" where
  "after_state c t \<longleftrightarrow> ts_epoch t = 0 \<and> ts_node t = hlc_node c \<and> hlc_state c < (ts_time t, ts_seq t)"

lemma hlc_now_mints:
  assumes "hlc_now phys c = Some (c', t)"
  shows "hlc_node c' = hlc_node c" "hlc_state c \<le> hlc_state c'" "after_state c t" "hlc_state c' = (ts_time t, ts_seq t)"
  using hlc_now_state [OF assms] by (simp_all add: after_state_def)

lemma after_state_mono: "hlc_node c' = hlc_node c \<Longrightarrow> hlc_state c \<le> hlc_state c' \<Longrightarrow> after_state c' t \<Longrightarrow> after_state c t"
  unfolding after_state_def by (metis order.strict_trans1)

lemma hlc_step_mints:
  assumes "hlc_step op c = Some (c', ts)"
  shows "hlc_node c' = hlc_node c \<and> hlc_state c \<le> hlc_state c'
    \<and> (ts = [] \<or> (\<exists>t. ts = [t] \<and> after_state c t \<and> hlc_state c' = (ts_time t, ts_seq t)))"
proof (cases op)
  case (Now phys)
  then obtain t where "hlc_now phys c = Some (c', t)" "ts = [t]" using assms by auto
  then show ?thesis using hlc_now_mints by blast
next
  case (Merge phys remote)
  then show ?thesis using assms hlc_merge_state [where c = c and phys = phys and remote = remote] by simp
next
  case (Witness phys phys' remote)
  let ?m = "fst (hlc_merge phys remote c)"
  obtain t where t: "hlc_now phys' ?m = Some (c', t)" "ts = [t]"
    using assms Witness by (auto simp: hlc_witness_def)
  note m = hlc_merge_state [where c = c and phys = phys and remote = remote] and now = hlc_now_mints [OF t(1)]
  have "hlc_node c' = hlc_node c" using m(2) now(1) by simp
  moreover have "hlc_state c \<le> hlc_state c'" using m(1) now(2) by (rule order.trans)
  ultimately show ?thesis using t(2) after_state_mono [OF m(2,1) now(3)] now(4) by simp
qed

lemma hlc_run_mints:
  assumes "hlc_run ops c = Some (c', ts)"
  shows "hlc_node c' = hlc_node c \<and> hlc_state c \<le> hlc_state c' \<and> sorted_wrt (<) ts \<and> (\<forall>t \<in> set ts. after_state c t)"
  using assms
proof (induction ops arbitrary: c ts)
  case (Cons op ops)
  then obtain c1 t1 t2 where s: "hlc_step op c = Some (c1, t1)" "hlc_run ops c1 = Some (c', t2)" "ts = t1 @ t2"
    by (auto split: option.splits)
  note IH = Cons.IH [OF s(2)] and first = hlc_step_mints [OF s(1)]
  have later: "after_state c t" if "t \<in> set t2" for t
    using IH first that after_state_mono by blast
  have "t < u" if "t \<in> set t1" "u \<in> set t2" for t u
  proof -
    have t: "t1 = [t]" "after_state c t" "hlc_state c1 = (ts_time t, ts_seq t)" using first that(1) by auto
    have "after_state c1 u" using IH that(2) by blast
    then show ?thesis using t first by (cases t; cases u) (auto simp: after_state_def)
  qed
  then show ?case using IH first later s(3) by (auto simp: sorted_wrt_append)
qed simp

lemma hlc_witness_past:
  assumes "hlc_witness phys phys' remote c = Some (c', t)" "snd (hlc_merge phys remote c) = Inr ()"
  shows "(ts_time remote, ts_seq remote) < (ts_time t, ts_seq t)"
proof -
  have "(ts_time remote, ts_seq remote) \<le> hlc_state (fst (hlc_merge phys remote c))"
    using assms(2) by (auto simp: hlc_merge_def split: if_splits)
  moreover have "hlc_state (fst (hlc_merge phys remote c)) < (ts_time t, ts_seq t)"
    using hlc_now_state [of phys' "fst (hlc_merge phys remote c)" c' t] assms(1) by (auto simp: hlc_witness_def)
  ultimately show ?thesis by order
qed

section \<open>The state of a transaction\<close>

datatype txn_op = Join ballot | Accept ballot timestamp "txn_id set" | PreAccept timestamp "txn_id set"
  | Commit timestamp "txn_id set" | Apply bytes

fun txn_step :: "txn_op \<Rightarrow> txn_state \<Rightarrow> txn_state option" where
  "txn_step (Join b) s = join_ballot b s"
| "txn_step (Accept b t deps) s = txn_accept b t deps s"
| "txn_step (PreAccept t deps) s = txn_pre_accept t deps s"
| "txn_step (Commit t deps) s = txn_commit t deps s"
| "txn_step (Apply data) s = txn_apply data s"

fun txn_run :: "txn_op list \<Rightarrow> txn_state \<Rightarrow> txn_state option" where
  "txn_run [] s = Some s"
| "txn_run (op # ops) s = (case txn_step op s of None \<Rightarrow> None | Some s \<Rightarrow> txn_run ops s)"

definition txn_wf :: "txn_state \<Rightarrow> bool" where
  "txn_wf s \<longleftrightarrow> accepted_ballot s \<le> max_ballot_seen s \<and> st_t s \<le> st_t_max s"

definition txn_grows :: "txn_state \<Rightarrow> txn_state \<Rightarrow> bool" where
  "txn_grows s s' \<longleftrightarrow> st_txn_id s' = st_txn_id s \<and> st_t0 s' = st_t0 s \<and> st_t_max s \<le> st_t_max s'
     \<and> max_ballot_seen s \<le> max_ballot_seen s' \<and> phase_rank (st_phase s) \<le> phase_rank (st_phase s')"

lemma txn_grows_refl: "txn_grows s s" by (simp add: txn_grows_def)

lemma txn_grows_trans: "txn_grows s u \<Longrightarrow> txn_grows u v \<Longrightarrow> txn_grows s v"
  by (auto simp: txn_grows_def)

lemma set_t_simps [simp]:
  "st_t (set_t t s) = t" "st_t_max (set_t t s) = max (st_t_max s) t" "st_txn_id (set_t t s) = st_txn_id s"
  "st_t0 (set_t t s) = st_t0 s" "st_phase (set_t t s) = st_phase s" "max_ballot_seen (set_t t s) = max_ballot_seen s"
  "accepted_ballot (set_t t s) = accepted_ballot s" "st_deps (set_t t s) = st_deps s" "st_result (set_t t s) = st_result s"
  by (auto simp: set_t_def Let_def max_def)

lemma advance_phase_simps [simp]:
  "st_t (advance_phase p s) = st_t s" "st_t_max (advance_phase p s) = st_t_max s"
  "st_txn_id (advance_phase p s) = st_txn_id s" "st_t0 (advance_phase p s) = st_t0 s"
  "max_ballot_seen (advance_phase p s) = max_ballot_seen s" "accepted_ballot (advance_phase p s) = accepted_ballot s"
  "st_deps (advance_phase p s) = st_deps s" "st_result (advance_phase p s) = st_result s"
  "phase_rank (st_phase (advance_phase p s)) = max (phase_rank (st_phase s)) (phase_rank p)"
  by (auto simp: advance_phase_def)

lemma assert_invariant_iff [simp]:
  "assert_invariant s = Some s' \<longleftrightarrow> s' = s \<and> accepted_ballot s \<le> max_ballot_seen s"
  by (auto simp: assert_invariant_def)

lemma txn_step_wf:
  assumes "txn_wf s"
  shows "\<exists>s'. txn_step op s = Some s' \<and> txn_wf s' \<and> txn_grows s s'"
  using assms
  by (cases op)
    (simp_all add: txn_wf_def txn_grows_def join_ballot_def txn_accept_def txn_pre_accept_def txn_commit_def
      txn_apply_def Let_def)

lemma txn_run_wf:
  assumes "txn_wf s"
  obtains s' where "txn_run ops s = Some s'" "txn_wf s'" "txn_grows s s'"
  using assms
proof (induction ops arbitrary: s thesis)
  case (Cons op ops)
  obtain u where u: "txn_step op s = Some u" "txn_wf u" "txn_grows s u" using txn_step_wf [OF Cons.prems(2)] by blast
  obtain v where "txn_run ops u = Some v" "txn_wf v" "txn_grows u v" using u(2) by (rule Cons.IH [rotated])
  then show ?case using u Cons.prems(1) txn_grows_trans by fastforce
qed (auto simp: txn_grows_refl)

lemma txn_state_new_wf:
  obtains s where "txn_state_new txn_id t0 = Some s" "txn_wf s" "st_txn_id s = txn_id" "st_t0 s = t0" "st_t s = t0"
    "st_deps s = {}" "st_phase s = PreAccepted" "max_ballot_seen s = 0" "accepted_ballot s = 0"
  by (simp add: txn_ops txn_wf_def)

section \<open>Properties\<close>

text \<open>
  C33: A hybrid logical clock never mints a timestamp twice or out of order: over any history of calls,
  with any wall-clock readings, jumps backwards included, the minted timestamps are strictly ascending
  and carry the node, so two nodes never mint the same one; and a stamp minted on witnessing a remote
  timestamp within the drift bound lies after it in time and sequence.
\<close>

theorem hlc_monotonic:
  assumes "hlc_run ops c = Some (c', ts)"
    and "hlc_witness phys phys' remote c' = Some (c'', t)" "snd (hlc_merge phys remote c') = Inr ()"
  shows "sorted_wrt (<) (ts @ [t]) \<and> (\<forall>u \<in> set (ts @ [t]). ts_node u = hlc_node c)
    \<and> (ts_time remote, ts_seq remote) < (ts_time t, ts_seq t)"
proof -
  have "hlc_run (ops @ [Witness phys phys' remote]) c = Some (c'', ts @ [t])"
    using assms(1,2) by (induction ops arbitrary: c ts) (auto split: option.splits)
  from hlc_run_mints [OF this] show ?thesis using hlc_witness_past [OF assms(2,3)]
    by (auto simp: after_state_def)
qed

theorem hlc_monotonic_witness:
  "sorted_wrt (<) ([Timestamp 0 100 0 7, Timestamp 0 100 1 7] @ [Timestamp 0 250 4 7])
    \<and> list_all (\<lambda>u. ts_node u = hlc_node (hlc_new 7 0)) [Timestamp 0 100 0 7, Timestamp 0 100 1 7, Timestamp 0 250 4 7]
    \<and> (250 :: nat, 3 :: nat) < (250, 4)"
  using hlc_monotonic [of "[Now 100, Now 90]" "hlc_new 7 0" "(hlc_new 7 0)\<lparr>hlc_state := (100, 1)\<rparr>"
      "[Timestamp 0 100 0 7, Timestamp 0 100 1 7]" 200 210 "Timestamp 0 250 3 9"
      "(hlc_new 7 0)\<lparr>hlc_state := (250, 4)\<rparr>" "Timestamp 0 250 4 7"]
  by (simp add: hlc_now_def hlc_witness_def hlc_merge_def hlc_new_def DEFAULT_MAX_DRIFT_NS_def machine_consts)

text \<open>
  The ballot assertions of a transaction's state never fail: after any sequence of operations on a
  fresh state, in any order, the accepted ballot is at most the promised one and the timestamp at most
  the highest witnessed one; identity and proposed timestamp are kept, and phase, promise and highest
  timestamp never go back.
\<close>

theorem txn_state_invariant:
  "\<exists>s0 s1 s2. txn_state_new txn_id t0 = Some s0 \<and> txn_run ops s0 = Some s1 \<and> txn_run ops' s1 = Some s2
     \<and> accepted_ballot s2 \<le> max_ballot_seen s2 \<and> st_t s2 \<le> st_t_max s2 \<and> txn_grows s1 s2
     \<and> st_txn_id s2 = txn_id \<and> st_t0 s2 = t0"
proof -
  obtain s0 where s0: "txn_state_new txn_id t0 = Some s0" "txn_wf s0" "st_txn_id s0 = txn_id" "st_t0 s0 = t0"
    by (rule txn_state_new_wf)
  obtain s1 where s1: "txn_run ops s0 = Some s1" "txn_wf s1" "txn_grows s0 s1" using s0(2) by (rule txn_run_wf)
  obtain s2 where s2: "txn_run ops' s1 = Some s2" "txn_wf s2" "txn_grows s1 s2" using s1(2) by (rule txn_run_wf)
  then show ?thesis using s0 s1 txn_grows_trans [OF s1(3) s2(3)] by (auto simp: txn_wf_def txn_grows_def)
qed

end
