(* ===== verification/Conflict_Index.thy ===== *)
theory Conflict_Index
  imports Accord Hash_Map "HOL-Library.Sublist"
begin

text \<open>
  The conflict index of an Accord replica (crate \<open>ferrosa-storage\<close>: \<open>accord/conflict_index.rs\<close>): the
  in-flight writes of every key, the execution high-water mark that outlives them, range operations
  and indexed-column projections.

  A hash map is an association list with distinct keys; its order stands for the iteration order.  A
  hash set that is only returned is a set.  The loops that retain entries are list filters, and the
  saturating decrements of the entry count add up to one truncating subtraction.
\<close>

section \<open>Reserved keys\<close>

definition bytes_of :: "string \<Rightarrow> bytes" where
  "bytes_of s = map (\<lambda>c. of_nat (of_char c)) s"

definition POSTGRES_TRANSACTION_MARKER_KEY :: bytes where
  "POSTGRES_TRANSACTION_MARKER_KEY = 0 # bytes_of ''ferrosa:postgres:serializable:v1''"
definition POSTGRES_TRANSACTION_BARRIER_KEY :: bytes where
  "POSTGRES_TRANSACTION_BARRIER_KEY = 0 # bytes_of ''ferrosa:postgres:barrier:v1''"
definition POSTGRES_READ_TABLE_KEY_PREFIX :: bytes where
  "POSTGRES_READ_TABLE_KEY_PREFIX = 0 # bytes_of ''ferrosa:postgres:read-table:v1:''"
definition POSTGRES_WRITE_TABLE_KEY_PREFIX :: bytes where
  "POSTGRES_WRITE_TABLE_KEY_PREFIX = 0 # bytes_of ''ferrosa:postgres:write-table:v1:''"
definition POSTGRES_READ_KEY_PREFIX :: bytes where
  "POSTGRES_READ_KEY_PREFIX = 0 # bytes_of ''ferrosa:postgres:read:v1:''"

definition postgres_read_table_key :: "bytes \<Rightarrow> bytes" where
  "postgres_read_table_key qualified_table = POSTGRES_READ_TABLE_KEY_PREFIX @ qualified_table"
definition is_postgres_read_table_key :: "bytes \<Rightarrow> bool" where
  "is_postgres_read_table_key key = prefix POSTGRES_READ_TABLE_KEY_PREFIX key"
definition postgres_write_table_key :: "bytes \<Rightarrow> bytes" where
  "postgres_write_table_key qualified_table = POSTGRES_WRITE_TABLE_KEY_PREFIX @ qualified_table"
definition is_postgres_write_table_key :: "bytes \<Rightarrow> bool" where
  "is_postgres_write_table_key key = prefix POSTGRES_WRITE_TABLE_KEY_PREFIX key"
definition postgres_read_key :: "bytes \<Rightarrow> bytes" where
  "postgres_read_key underlying = POSTGRES_READ_KEY_PREFIX @ underlying"
definition postgres_read_lookup_key :: "bytes \<Rightarrow> bytes" where
  "postgres_read_lookup_key key =
     (if prefix POSTGRES_READ_KEY_PREFIX key then drop (length POSTGRES_READ_KEY_PREFIX) key else key)"

section \<open>State\<close>

datatype txn_status = StPreAccepted | StAccepted | StCommitted | StApplied

record in_flight_write =
  iw_txn_id :: txn_id
  iw_t0 :: timestamp
  accord_ts :: "timestamp option"
  iw_status :: txn_status

record token_range =
  range_start :: i64
  range_end :: i64

definition range_overlaps :: "token_range \<Rightarrow> token_range \<Rightarrow> bool" where
  "range_overlaps a b \<longleftrightarrow> range_start a \<le> range_end b \<and> range_start b \<le> range_end a"

record key_entry =
  ke_writes :: "in_flight_write list"
  ke_hwm :: "timestamp option"

record conflict_index =
  single_key :: "(bytes \<times> key_entry) list"
  range_ops :: "(token_range \<times> (timestamp \<times> txn_id) list) list"
  indexed_writes :: "(string \<times> (bytes \<times> txn_id list) list) list"
  postgres_marker_hwm :: "timestamp option"
  postgres_barrier_hwm :: "timestamp option"
  current_entries :: usize

definition conflict_index_new :: conflict_index where
  "conflict_index_new = \<lparr>single_key = [], range_ops = [], indexed_writes = [], postgres_marker_hwm = None,
     postgres_barrier_hwm = None, current_entries = 0\<rparr>"

section \<open>Operations\<close>

definition ci_register :: "bytes \<Rightarrow> in_flight_write \<Rightarrow> conflict_index \<Rightarrow> conflict_index" where
  "ci_register key w ci = ci\<lparr>
     single_key := entry_update key \<lparr>ke_writes = [], ke_hwm = None\<rparr> (\<lambda>e. e\<lparr>ke_writes := ke_writes e @ [w]\<rparr>) (single_key ci),
     current_entries := current_entries ci + 1\<rparr>"

definition ci_register_range :: "token_range \<Rightarrow> timestamp \<Rightarrow> txn_id \<Rightarrow> conflict_index \<Rightarrow> conflict_index" where
  "ci_register_range rng ts txn ci = ci\<lparr>
     range_ops := entry_update rng [] (List.insert (ts, txn)) (range_ops ci),
     current_entries := current_entries ci + 1\<rparr>"

definition ci_register_indexed_write :: "string \<Rightarrow> bytes \<Rightarrow> txn_id \<Rightarrow> conflict_index \<Rightarrow> conflict_index" where
  "ci_register_indexed_write column val txn ci = ci\<lparr>
     indexed_writes := entry_update column [] (entry_update val [] (\<lambda>ids. ids @ [txn])) (indexed_writes ci)\<rparr>"

definition effective_ts :: "in_flight_write \<Rightarrow> timestamp" where
  "effective_ts w = (case accord_ts w of Some t \<Rightarrow> t | None \<Rightarrow> iw_t0 w)"

definition list_max :: "timestamp list \<Rightarrow> timestamp option" where
  "list_max ts = (if ts = [] then None else Some (foldl max (hd ts) (tl ts)))"

definition option_max :: "timestamp option \<Rightarrow> timestamp option \<Rightarrow> timestamp option" where
  "option_max a b =
     (case (a, b) of (Some x, Some y) \<Rightarrow> Some (max x y) | (Some x, None) \<Rightarrow> Some x | (None, y) \<Rightarrow> y)"

definition max_conflicting_timestamp :: "conflict_index \<Rightarrow> bytes \<Rightarrow> timestamp option" where
  "max_conflicting_timestamp ci key =
     (let e = map_of (single_key ci) key;
          live = Option.bind e (\<lambda>e. list_max (map effective_ts (ke_writes e)));
          own = Option.bind e ke_hwm;
          hwm = (if key = POSTGRES_TRANSACTION_MARKER_KEY then option_max (postgres_marker_hwm ci) own
                 else if key = POSTGRES_TRANSACTION_BARRIER_KEY then option_max (postgres_barrier_hwm ci) own
                 else own)
      in option_max live hwm)"

definition raise_hwm :: "timestamp \<Rightarrow> timestamp option \<Rightarrow> timestamp option" where
  "raise_hwm t h = Some (case h of None \<Rightarrow> t | Some current \<Rightarrow> max current t)"

definition touches :: "txn_id \<Rightarrow> key_entry \<Rightarrow> bool" where
  "touches txn e \<longleftrightarrow> list_ex (\<lambda>w. iw_txn_id w = txn) (ke_writes e)"

definition set_commit_entry :: "txn_id \<Rightarrow> timestamp \<Rightarrow> bytes \<Rightarrow> key_entry \<Rightarrow> key_entry" where
  "set_commit_entry txn t key e =
     (let e' = e\<lparr>ke_writes := map (\<lambda>w. if iw_txn_id w = txn then w\<lparr>accord_ts := Some t\<rparr> else w) (ke_writes e)\<rparr>
      in if touches txn e \<and> key \<noteq> POSTGRES_TRANSACTION_MARKER_KEY \<and> key \<noteq> POSTGRES_TRANSACTION_BARRIER_KEY
         then e'\<lparr>ke_hwm := raise_hwm t (ke_hwm e)\<rparr> else e')"

definition touches_key :: "conflict_index \<Rightarrow> txn_id \<Rightarrow> bytes \<Rightarrow> bool" where
  "touches_key ci txn key = list_ex (\<lambda>(k, e). k = key \<and> touches txn e) (single_key ci)"

definition set_commit_ts :: "txn_id \<Rightarrow> timestamp \<Rightarrow> conflict_index \<Rightarrow> conflict_index" where
  "set_commit_ts txn t ci = ci\<lparr>
     single_key := map (\<lambda>(key, e). (key, set_commit_entry txn t key e)) (single_key ci),
     postgres_marker_hwm := (if touches_key ci txn POSTGRES_TRANSACTION_MARKER_KEY
       then raise_hwm t (postgres_marker_hwm ci) else postgres_marker_hwm ci),
     postgres_barrier_hwm := (if touches_key ci txn POSTGRES_TRANSACTION_BARRIER_KEY
       then raise_hwm t (postgres_barrier_hwm ci) else postgres_barrier_hwm ci)\<rparr>"

definition max_conflicting_range_timestamp :: "conflict_index \<Rightarrow> token_range \<Rightarrow> timestamp option" where
  "max_conflicting_range_timestamp ci rng =
     foldl (\<lambda>m (stored, txns). if range_overlaps stored rng
         then foldl (\<lambda>m (ts, _). case m of None \<Rightarrow> Some ts | Some x \<Rightarrow> if ts > x then Some ts else m) m txns else m)
       None (range_ops ci)"

definition deps_before_t0 :: "conflict_index \<Rightarrow> bytes \<Rightarrow> timestamp \<Rightarrow> txn_id set" where
  "deps_before_t0 ci key t0 =
     (case map_of (single_key ci) key of
        None \<Rightarrow> {}
      | Some e \<Rightarrow> set (map iw_txn_id (filter (\<lambda>w. iw_t0 w < t0) (ke_writes e))))"

definition deps_before_t :: "conflict_index \<Rightarrow> bytes \<Rightarrow> timestamp \<Rightarrow> txn_id set" where
  "deps_before_t ci key t =
     (case map_of (single_key ci) key of
        None \<Rightarrow> {}
      | Some e \<Rightarrow> set (map iw_txn_id (filter (\<lambda>w. iw_t0 w < t) (ke_writes e))))"

definition has_write :: "conflict_index \<Rightarrow> bytes \<Rightarrow> txn_id \<Rightarrow> bool" where
  "has_write ci key txn = (case map_of (single_key ci) key of None \<Rightarrow> False | Some e \<Rightarrow> touches txn e)"

definition keep_entry :: "key_entry \<Rightarrow> bool" where
  "keep_entry e \<longleftrightarrow> ke_writes e \<noteq> [] \<or> ke_hwm e \<noteq> None"

definition retain_keys :: "(in_flight_write \<Rightarrow> bool) \<Rightarrow> (bytes \<times> key_entry) list \<Rightarrow> (bytes \<times> key_entry) list" where
  "retain_keys P m = filter (\<lambda>(k, e). keep_entry e) (map (\<lambda>(k, e). (k, e\<lparr>ke_writes := filter P (ke_writes e)\<rparr>)) m)"

definition retain_ranges :: "(txn_id \<Rightarrow> bool) \<Rightarrow> (token_range \<times> (timestamp \<times> txn_id) list) list
    \<Rightarrow> (token_range \<times> (timestamp \<times> txn_id) list) list" where
  "retain_ranges P m = filter (\<lambda>(r, txns). txns \<noteq> []) (map (\<lambda>(r, txns). (r, filter (\<lambda>(ts, txn). P txn) txns)) m)"

definition retain_indexed :: "(txn_id \<Rightarrow> bool) \<Rightarrow> (string \<times> (bytes \<times> txn_id list) list) list
    \<Rightarrow> (string \<times> (bytes \<times> txn_id list) list) list" where
  "retain_indexed P m = filter (\<lambda>(c, vals). vals \<noteq> [])
     (map (\<lambda>(c, vals). (c, filter (\<lambda>(v, ids). ids \<noteq> []) (map (\<lambda>(v, ids). (v, filter P ids)) vals))) m)"

definition count_writes :: "(bytes \<times> key_entry) list \<Rightarrow> nat" where
  "count_writes m = sum_list (map (\<lambda>(k, e). length (ke_writes e)) m)"
definition count_ranges :: "(token_range \<times> (timestamp \<times> txn_id) list) list \<Rightarrow> nat" where
  "count_ranges m = sum_list (map (\<lambda>(r, txns). length txns) m)"

definition ci_retain :: "(in_flight_write \<Rightarrow> bool) \<Rightarrow> (txn_id \<Rightarrow> bool) \<Rightarrow> conflict_index \<Rightarrow> conflict_index" where
  "ci_retain P Q ci =
     (let keys = retain_keys P (single_key ci); ranges = retain_ranges Q (range_ops ci);
          removed = (count_writes (single_key ci) - count_writes keys) + (count_ranges (range_ops ci) - count_ranges ranges)
      in ci\<lparr>single_key := keys, range_ops := ranges, indexed_writes := retain_indexed Q (indexed_writes ci),
            current_entries := current_entries ci - removed\<rparr>)"

definition ci_remove :: "txn_id \<Rightarrow> conflict_index \<Rightarrow> conflict_index" where
  "ci_remove txn ci = ci_retain (\<lambda>w. iw_txn_id w \<noteq> txn) (\<lambda>tid. tid \<noteq> txn) ci"

definition ci_mark_applied :: "txn_id \<Rightarrow> conflict_index \<Rightarrow> conflict_index" where
  "ci_mark_applied txn ci = ci\<lparr>single_key := map (\<lambda>(k, e). (k, e\<lparr>ke_writes :=
     map (\<lambda>w. if iw_txn_id w = txn then w\<lparr>iw_status := StApplied\<rparr> else w) (ke_writes e)\<rparr>)) (single_key ci)\<rparr>"

definition applied_txn_ids :: "conflict_index \<Rightarrow> txn_id list" where
  "applied_txn_ids ci =
     concat (map (\<lambda>(k, e). map iw_txn_id (filter (\<lambda>w. iw_status w = StApplied) (ke_writes e))) (single_key ci))"

definition gc_applied :: "conflict_index \<Rightarrow> conflict_index" where
  "gc_applied ci = ci_retain (\<lambda>w. iw_status w \<noteq> StApplied) (\<lambda>tid. tid \<notin> set (applied_txn_ids ci)) ci"

definition ci_len :: "conflict_index \<Rightarrow> usize" where "ci_len ci = current_entries ci"
definition ci_is_empty :: "conflict_index \<Rightarrow> bool" where "ci_is_empty ci \<longleftrightarrow> current_entries ci = 0"

definition get_indexed_writes :: "conflict_index \<Rightarrow> string \<Rightarrow> bytes \<Rightarrow> txn_id list option" where
  "get_indexed_writes ci column val = Option.bind (map_of (indexed_writes ci) column) (\<lambda>vals. map_of vals val)"

section \<open>Retained entries\<close>

lemma map_of_retain_keys:
  assumes "distinct (map fst m)"
  shows "map_of (retain_keys P m) k = Option.bind (map_of m k)
    (\<lambda>e. let e' = e\<lparr>ke_writes := filter P (ke_writes e)\<rparr> in if keep_entry e' then Some e' else None)"
proof -
  let ?m = "map (\<lambda>(k, e). (k, e\<lparr>ke_writes := filter P (ke_writes e)\<rparr>)) m"
  have "distinct (map fst ?m)" using assms by simp
  from map_of_filter_entry [OF this, of keep_entry k] show ?thesis
    unfolding retain_keys_def by (cases "map_of m k") (simp_all add: map_of_map_entry Let_def)
qed

lemma distinct_retain_keys: "distinct (map fst m) \<Longrightarrow> distinct (map fst (retain_keys P m))"
  unfolding retain_keys_def by (rule distinct_filter_entry) simp

section \<open>The high-water mark of a key\<close>

definition key_hwm :: "conflict_index \<Rightarrow> bytes \<Rightarrow> timestamp option" where
  "key_hwm ci key =
     (let own = Option.bind (map_of (single_key ci) key) ke_hwm in
      if key = POSTGRES_TRANSACTION_MARKER_KEY then option_max (postgres_marker_hwm ci) own
      else if key = POSTGRES_TRANSACTION_BARRIER_KEY then option_max (postgres_barrier_hwm ci) own
      else own)"

definition reaches :: "timestamp option \<Rightarrow> timestamp \<Rightarrow> bool" where
  "reaches m t \<longleftrightarrow> (case m of None \<Rightarrow> False | Some x \<Rightarrow> t \<le> x)"

lemma reaches_simps [simp]: "\<not> reaches None t" "reaches (Some x) t \<longleftrightarrow> t \<le> x"
  by (simp_all add: reaches_def)

lemma reaches_option_max [simp]: "reaches (option_max a b) t \<longleftrightarrow> reaches a t \<or> reaches b t"
  by (cases a; cases b) (auto simp: option_max_def le_max_iff_disj)

lemma reaches_raise [simp]: "reaches (raise_hwm t h) u \<longleftrightarrow> u \<le> t \<or> reaches h u"
  by (cases h) (auto simp: raise_hwm_def le_max_iff_disj)

lemma max_conflicting_key_hwm:
  "max_conflicting_timestamp ci key =
     option_max (Option.bind (map_of (single_key ci) key) (\<lambda>e. list_max (map effective_ts (ke_writes e)))) (key_hwm ci key)"
  by (simp add: max_conflicting_timestamp_def key_hwm_def Let_def)

definition own_hwm :: "conflict_index \<Rightarrow> bytes \<Rightarrow> timestamp option" where
  "own_hwm ci key = Option.bind (map_of (single_key ci) key) ke_hwm"

lemma key_hwm_reaches:
  "reaches (key_hwm ci key) t \<longleftrightarrow> reaches (own_hwm ci key) t
     \<or> key = POSTGRES_TRANSACTION_MARKER_KEY \<and> reaches (postgres_marker_hwm ci) t
     \<or> key = POSTGRES_TRANSACTION_BARRIER_KEY \<and> key \<noteq> POSTGRES_TRANSACTION_MARKER_KEY \<and> reaches (postgres_barrier_hwm ci) t"
  by (auto simp: key_hwm_def own_hwm_def Let_def)

section \<open>Histories\<close>

datatype ci_op = Register bytes in_flight_write | RegisterRange token_range timestamp txn_id
  | RegisterIndexed string bytes txn_id | SetCommitTs txn_id timestamp | Remove txn_id | MarkApplied txn_id | GcApplied

fun ci_step :: "conflict_index \<Rightarrow> ci_op \<Rightarrow> conflict_index" where
  "ci_step ci (Register key w) = ci_register key w ci"
| "ci_step ci (RegisterRange r ts txn) = ci_register_range r ts txn ci"
| "ci_step ci (RegisterIndexed c v txn) = ci_register_indexed_write c v txn ci"
| "ci_step ci (SetCommitTs txn t) = set_commit_ts txn t ci"
| "ci_step ci (Remove txn) = ci_remove txn ci"
| "ci_step ci (MarkApplied txn) = ci_mark_applied txn ci"
| "ci_step ci GcApplied = gc_applied ci"

definition ci_keys_distinct :: "conflict_index \<Rightarrow> bool" where
  "ci_keys_distinct ci \<longleftrightarrow> distinct (map fst (single_key ci))"

lemmas ci_ops = ci_register_def ci_register_range_def ci_register_indexed_write_def set_commit_ts_def ci_remove_def
  ci_mark_applied_def gc_applied_def ci_retain_def Let_def

lemma ci_step_distinct: "ci_keys_distinct ci \<Longrightarrow> ci_keys_distinct (ci_step ci op)"
  by (cases op) (simp_all add: ci_keys_distinct_def ci_ops distinct_entry_update distinct_retain_keys)

lemma own_hwm_retain:
  "ci_keys_distinct ci \<Longrightarrow> own_hwm (ci_retain P Q ci) key = own_hwm ci key"
  by (auto simp: own_hwm_def ci_retain_def Let_def map_of_retain_keys ci_keys_distinct_def keep_entry_def
      split: bind_splits)

lemma own_hwm_step:
  assumes "ci_keys_distinct ci" "reaches (own_hwm ci key) t"
  shows "reaches (own_hwm (ci_step ci op) key) t"
proof (cases op)
  case (Register k w)
  then show ?thesis using assms(2)
    by (auto simp: own_hwm_def ci_register_def map_of_entry_update split: option.splits)
next
  case (SetCommitTs txn u)
  then show ?thesis using assms(2)
    by (cases "map_of (single_key ci) key")
      (auto simp: own_hwm_def set_commit_ts_def map_of_map_entry set_commit_entry_def Let_def)
next
  case (MarkApplied txn)
  then show ?thesis using assms(2)
    by (cases "map_of (single_key ci) key") (auto simp: own_hwm_def ci_mark_applied_def map_of_map_entry)
next
  case (Remove txn)
  then show ?thesis using assms by (simp add: ci_remove_def own_hwm_retain)
next
  case GcApplied
  then show ?thesis using assms by (simp add: gc_applied_def own_hwm_retain)
qed (use assms(2) in \<open>simp_all add: own_hwm_def ci_register_range_def ci_register_indexed_write_def\<close>)

lemma named_hwm_step:
  "reaches (postgres_marker_hwm ci) t \<Longrightarrow> reaches (postgres_marker_hwm (ci_step ci op)) t"
  "reaches (postgres_barrier_hwm ci) t \<Longrightarrow> reaches (postgres_barrier_hwm (ci_step ci op)) t"
  by (cases op; simp add: ci_ops)+

lemma key_hwm_step:
  "ci_keys_distinct ci \<Longrightarrow> reaches (key_hwm ci key) t \<Longrightarrow> reaches (key_hwm (ci_step ci op) key) t"
  unfolding key_hwm_reaches using own_hwm_step named_hwm_step by blast

lemma key_hwm_run:
  "ci_keys_distinct ci \<Longrightarrow> reaches (key_hwm ci key) t \<Longrightarrow> reaches (key_hwm (foldl ci_step ci ops) key) t"
  by (induction ops arbitrary: ci) (simp_all add: ci_step_distinct key_hwm_step)

lemma set_commit_ts_hwm:
  assumes "has_write ci key txn"
  shows "reaches (key_hwm (set_commit_ts txn t ci) key) t"
proof -
  obtain e where e: "map_of (single_key ci) key = Some e" "touches txn e"
    using assms by (auto simp: has_write_def split: option.splits)
  have "touches_key ci txn key"
    using map_of_SomeD [OF e(1)] e(2) by (auto simp: touches_key_def list_ex_iff)
  then show ?thesis
    using e by (auto simp: key_hwm_reaches own_hwm_def set_commit_ts_def map_of_map_entry set_commit_entry_def Let_def)
qed

section \<open>The entry count\<close>

definition ci_counted :: "conflict_index \<Rightarrow> bool" where
  "ci_counted ci \<longleftrightarrow> current_entries ci = count_writes (single_key ci) + count_ranges (range_ops ci)"

lemma count_entry_update:
  "count_writes (entry_update key \<lparr>ke_writes = [], ke_hwm = None\<rparr> (\<lambda>e. e\<lparr>ke_writes := ke_writes e @ [w]\<rparr>) m)
     = count_writes m + 1"
  by (induction m) (auto simp: count_writes_def)

lemma count_range_update:
  "x \<notin> set (case map_of m r of Some txns \<Rightarrow> txns | None \<Rightarrow> []) \<Longrightarrow>
     count_ranges (entry_update r [] (List.insert x) m) = count_ranges m + 1"
  by (induction m) (auto simp: count_ranges_def)

lemma count_writes_map: "(\<And>k e. length (ke_writes (f k e)) = length (ke_writes e)) \<Longrightarrow>
    count_writes (map (\<lambda>(k, e). (k, f k e)) m) = count_writes m"
  by (induction m) (auto simp: count_writes_def)

lemma count_retain_keys: "count_writes (retain_keys P m) \<le> count_writes m"
  by (induction m) (auto simp: count_writes_def retain_keys_def intro: add_mono length_filter_le trans_le_add2)

lemma count_retain_ranges: "count_ranges (retain_ranges P m) \<le> count_ranges m"
  by (induction m) (auto simp: count_ranges_def retain_ranges_def intro: add_mono length_filter_le trans_le_add2)

definition fresh_range :: "conflict_index \<Rightarrow> ci_op \<Rightarrow> bool" where
  "fresh_range ci op \<longleftrightarrow> (case op of
     RegisterRange r ts txn \<Rightarrow> (ts, txn) \<notin> set (case map_of (range_ops ci) r of Some txns \<Rightarrow> txns | None \<Rightarrow> [])
   | _ \<Rightarrow> True)"

lemma ci_step_counted:
  assumes "ci_counted ci" "fresh_range ci op"
  shows "ci_counted (ci_step ci op)"
proof -
  have len: "length (ke_writes (set_commit_entry txn t k e)) = length (ke_writes e)" for txn t k e
    by (simp add: set_commit_entry_def Let_def)
  have retain: "ci_counted (ci_retain P Q ci)" for P Q
    using assms(1) count_retain_keys [of P "single_key ci"] count_retain_ranges [of Q "range_ops ci"]
    by (simp add: ci_counted_def ci_retain_def Let_def)
  show ?thesis
    using assms retain len
    by (cases op)
      (simp_all add: ci_counted_def fresh_range_def ci_register_def ci_register_range_def ci_register_indexed_write_def
        set_commit_ts_def ci_remove_def ci_mark_applied_def gc_applied_def count_entry_update count_range_update
        count_writes_map)
qed

lemma ci_run_counted:
  "ci_counted ci \<Longrightarrow> (\<And>pre op post. ops = pre @ op # post \<Longrightarrow> fresh_range (foldl ci_step ci pre) op) \<Longrightarrow>
     ci_counted (foldl ci_step ci ops)"
proof (induction ops rule: rev_induct)
  case (snoc op ops)
  have "ci_counted (foldl ci_step ci ops)"
    by (rule snoc.IH [OF snoc.prems(1)]) (use snoc.prems(2) in simp)
  then show ?case using ci_step_counted snoc.prems(2) [of ops op "[]"] by simp
qed simp

section \<open>Properties\<close>

text \<open>
  C10: The serialization point of a transaction is never forgotten: once its execution timestamp is set
  on a key it wrote, the index reports a conflict at or after that timestamp for the key through every
  later history of operations, garbage collection and removal included.
\<close>

theorem conflict_survives_gc:
  assumes "ci_keys_distinct ci" "has_write ci key txn"
  shows "\<exists>m. max_conflicting_timestamp (foldl ci_step (set_commit_ts txn t ci) ops) key = Some m \<and> t \<le> m"
proof -
  have "ci_keys_distinct (set_commit_ts txn t ci)" using ci_step_distinct [OF assms(1), of "SetCommitTs txn t"] by simp
  then have "reaches (key_hwm (foldl ci_step (set_commit_ts txn t ci) ops) key) t"
    by (rule key_hwm_run) (rule set_commit_ts_hwm [OF assms(2)])
  then have "reaches (max_conflicting_timestamp (foldl ci_step (set_commit_ts txn t ci) ops) key) t"
    by (simp add: max_conflicting_key_hwm)
  then show ?thesis by (auto simp: reaches_def split: option.splits)
qed

definition sample_write_of :: "nat \<Rightarrow> in_flight_write" where
  "sample_write_of n = \<lparr>iw_txn_id = Timestamp 0 n 0 1, iw_t0 = Timestamp 0 n 0 1, accord_ts = None, iw_status = StPreAccepted\<rparr>"

theorem conflict_survives_gc_witness:
  "\<exists>m. max_conflicting_timestamp (foldl ci_step (set_commit_ts (Timestamp 0 5 0 1) (Timestamp 0 9 0 2)
       (ci_register [1] (sample_write_of 5) conflict_index_new)) [MarkApplied (Timestamp 0 5 0 1), GcApplied]) [1] = Some m
     \<and> Timestamp 0 9 0 2 \<le> m"
  by (rule conflict_survives_gc)
    (simp_all add: ci_keys_distinct_def ci_register_def conflict_index_new_def has_write_def touches_def sample_write_of_def)

text \<open>
  The number of entries the index reports is the number of registrations it holds, after every
  history that does not register one transaction twice under one range.
\<close>

theorem conflict_index_len:
  assumes "\<And>pre op post. ops = pre @ op # post \<Longrightarrow> fresh_range (foldl ci_step conflict_index_new pre) op"
  shows "ci_len (foldl ci_step conflict_index_new ops)
    = count_writes (single_key (foldl ci_step conflict_index_new ops)) + count_ranges (range_ops (foldl ci_step conflict_index_new ops))"
proof -
  have "ci_counted conflict_index_new"
    by (simp add: ci_counted_def conflict_index_new_def count_writes_def count_ranges_def)
  from ci_run_counted [OF this assms] show ?thesis by (simp add: ci_counted_def ci_len_def)
qed

theorem conflict_index_len_witness:
  "ci_len (foldl ci_step conflict_index_new [Register [1] (sample_write_of 5)]) = 1 + 0"
  using conflict_index_len [of "[Register [1] (sample_write_of 5)]"]
  by (simp add: fresh_range_def Cons_eq_append_conv conflict_index_new_def ci_register_def count_writes_def count_ranges_def)

end
