(* ===== verification/Finalized.thy ===== *)
theory Finalized
  imports Accord
begin

text \<open>
  The bounded record of decided transactions (crate \<open>ferrosa-cluster\<close>: \<open>accord/finalized.rs\<close>), which
  refuses a \<open>PreAccept\<close> that arrives after the decision.

  The eviction warning's edge state is kept, the log lines are not.  Recording past the capacity
  evicts in a loop, modelled with the number of tombstones as its bound.
\<close>

section \<open>Definitions\<close>

definition FINALIZED_RETENTION_NS :: u64 where "FINALIZED_RETENTION_NS = 60000000000"
definition FINALIZED_CAPACITY :: usize where "FINALIZED_CAPACITY = 250000"

datatype decided_by = Tombstone | Floor
datatype tombstone_kind = NoWriteFinalizedT | AppliedT

record finalized_txns =
  tombstones :: "(txn_id, tombstone_kind) btree"
  ft_floor :: "timestamp option"
  ft_capacity :: usize
  evicting :: bool
  evicted_since_horizon :: u64

text \<open>\<open>None\<close>: the assertion of a positive capacity fails.\<close>

definition finalized_new :: "usize \<Rightarrow> finalized_txns option" where
  "finalized_new cap = (if cap > 0 then Some \<lparr>tombstones = [], ft_floor = None, ft_capacity = cap,
     evicting = False, evicted_since_horizon = 0\<rparr> else None)"

definition raise_floor :: "timestamp \<Rightarrow> finalized_txns \<Rightarrow> finalized_txns" where
  "raise_floor to f = (case ft_floor f of
     None \<Rightarrow> f\<lparr>ft_floor := Some to\<rparr>
   | Some floor \<Rightarrow> if to > floor then f\<lparr>ft_floor := Some to\<rparr> else f)"

definition with_restart_floor :: "timestamp \<Rightarrow> finalized_txns \<Rightarrow> finalized_txns" where
  "with_restart_floor boot_now f = raise_floor (Timestamp (ts_epoch boot_now) (ts_time boot_now) (ts_seq boot_now) u64_MAX) f"

definition below_floor :: "finalized_txns \<Rightarrow> txn_id \<Rightarrow> bool" where
  "below_floor f txn = (case ft_floor f of None \<Rightarrow> False | Some floor \<Rightarrow> txn \<le> floor)"

definition decided :: "finalized_txns \<Rightarrow> txn_id \<Rightarrow> decided_by option" where
  "decided f txn =
     (if below_floor f txn then Some Floor
      else if map_of (tombstones f) txn \<noteq> None then Some Tombstone else None)"

definition was_applied :: "finalized_txns \<Rightarrow> txn_id \<Rightarrow> bool" where
  "was_applied f txn \<longleftrightarrow> map_of (tombstones f) txn = Some AppliedT"

fun enforce_capacity_loop :: "nat \<Rightarrow> finalized_txns \<Rightarrow> finalized_txns" where
  "enforce_capacity_loop 0 f = f"
| "enforce_capacity_loop (Suc n) f =
     (if length (tombstones f) > ft_capacity f
      then case tombstones f of
             [] \<Rightarrow> f
           | (oldest, _) # rest \<Rightarrow>
               let f = raise_floor oldest (f\<lparr>tombstones := rest\<rparr>)
               in enforce_capacity_loop n (f\<lparr>evicted_since_horizon := evicted_since_horizon f + 1, evicting := True\<rparr>)
      else f)"

definition enforce_capacity :: "finalized_txns \<Rightarrow> finalized_txns" where
  "enforce_capacity f = enforce_capacity_loop (length (tombstones f)) f"

definition record_finalized :: "txn_id \<Rightarrow> finalized_txns \<Rightarrow> finalized_txns" where
  "record_finalized txn f =
     (if decided f txn = Some Floor then f
      else enforce_capacity (f\<lparr>tombstones := (case map_of (tombstones f) txn of
        None \<Rightarrow> bt_insert txn NoWriteFinalizedT (tombstones f) | Some _ \<Rightarrow> tombstones f)\<rparr>))"

definition record_applied :: "txn_id \<Rightarrow> finalized_txns \<Rightarrow> finalized_txns" where
  "record_applied txn f =
     (if decided f txn = Some Floor then f
      else enforce_capacity (f\<lparr>tombstones := bt_insert txn AppliedT (tombstones f)\<rparr>))"

definition advance_horizon :: "timestamp \<Rightarrow> finalized_txns \<Rightarrow> finalized_txns \<times> usize" where
  "advance_horizon now f =
     (let horizon = Timestamp (ts_epoch now) (ts_time now - FINALIZED_RETENTION_NS) u32_MAX u64_MAX;
          f = raise_floor horizon f;
          floor = (case ft_floor f of Some x \<Rightarrow> x | None \<Rightarrow> horizon);
          before = length (tombstones f);
          f = f\<lparr>tombstones := filter (\<lambda>(id, _). id > floor) (tombstones f), evicting := False, evicted_since_horizon := 0\<rparr>
      in (f, before - length (tombstones f)))"

definition finalized_len :: "finalized_txns \<Rightarrow> usize" where "finalized_len f = length (tombstones f)"

section \<open>Invariant\<close>

definition finalized_wf :: "finalized_txns \<Rightarrow> bool" where
  "finalized_wf f \<longleftrightarrow> bt_wf (tombstones f) \<and> 0 < ft_capacity f \<and> length (tombstones f) \<le> ft_capacity f"

lemma raise_floor_simps [simp]:
  "tombstones (raise_floor t f) = tombstones f" "ft_capacity (raise_floor t f) = ft_capacity f"
  by (auto simp: raise_floor_def split: option.splits)

lemma below_raise_floor: "below_floor (raise_floor t f) x \<longleftrightarrow> below_floor f x \<or> x \<le> t"
  by (auto simp: below_floor_def raise_floor_def split: option.splits)

lemma below_floor_updates [simp]:
  "below_floor (f\<lparr>tombstones := ts\<rparr>) x = below_floor f x" "below_floor (f\<lparr>evicting := e\<rparr>) x = below_floor f x"
  "below_floor (f\<lparr>evicted_since_horizon := n\<rparr>) x = below_floor f x"
  by (simp_all add: below_floor_def)

definition refuses :: "finalized_txns \<Rightarrow> txn_id \<Rightarrow> bool" where
  "refuses f x \<longleftrightarrow> below_floor f x \<or> x \<in> fst ` set (tombstones f)"

lemma decided_refuses: "decided f x \<noteq> None \<longleftrightarrow> refuses f x"
  by (simp add: decided_def refuses_def map_of_eq_None_iff del: not_None_eq)

lemma decided_FloorD: "decided f x = Some Floor \<Longrightarrow> refuses f x"
  by (simp add: decided_def refuses_def split: if_splits)

lemma map_of_filter_keys: "map_of (filter (\<lambda>(k, _). P k) m) y = (if P y then map_of m y else None)"
  by (induction m) auto

lemma enforce_loop_spec:
  assumes "bt_wf (tombstones f)" "length (tombstones f) \<le> n"
  shows "bt_wf (tombstones (enforce_capacity_loop n f)) \<and> ft_capacity (enforce_capacity_loop n f) = ft_capacity f
    \<and> length (tombstones (enforce_capacity_loop n f)) \<le> ft_capacity f
    \<and> (refuses f x \<longrightarrow> refuses (enforce_capacity_loop n f) x)
    \<and> (was_applied (enforce_capacity_loop n f) x \<longrightarrow> was_applied f x)"
  using assms
proof (induction n arbitrary: f)
  case (Suc n)
  show ?case
  proof (cases "length (tombstones f) > ft_capacity f")
    case True
    then obtain old kind rest where ts: "tombstones f = (old, kind) # rest" by (cases "tombstones f") auto
    let ?g = "raise_floor old (f\<lparr>tombstones := rest\<rparr>)"
    let ?h = "?g\<lparr>evicted_since_horizon := evicted_since_horizon ?g + 1, evicting := True\<rparr>"
    have step: "enforce_capacity_loop (Suc n) f = enforce_capacity_loop n ?h" using True ts by (simp add: Let_def)
    have "bt_wf (tombstones ?h)" "length (tombstones ?h) \<le> n" "ft_capacity ?h = ft_capacity f"
      using Suc.prems ts by simp_all
    moreover have "refuses f x \<longrightarrow> refuses ?h x"
      using ts by (auto simp: refuses_def below_raise_floor)
    moreover have "was_applied ?h x \<longrightarrow> was_applied f x"
      using Suc.prems(1) ts by (fastforce simp: was_applied_def dest: map_of_SomeD)
    ultimately show ?thesis using Suc.IH [of ?h] unfolding step by metis
  qed (use Suc.prems in simp)
qed simp

lemma enforce_capacity_spec:
  assumes "bt_wf (tombstones f)" "0 < ft_capacity f"
  shows "finalized_wf (enforce_capacity f)" "refuses f x \<Longrightarrow> refuses (enforce_capacity f) x"
    "was_applied (enforce_capacity f) x \<Longrightarrow> was_applied f x"
  using enforce_loop_spec [OF assms(1) order.refl, of x] assms(2) by (auto simp: finalized_wf_def enforce_capacity_def)

text \<open>Histories of the record.\<close>

datatype finalized_op = RecordFinalized txn_id | RecordApplied txn_id | AdvanceHorizon timestamp | RestartFloor timestamp

fun finalized_step :: "finalized_txns \<Rightarrow> finalized_op \<Rightarrow> finalized_txns" where
  "finalized_step f (RecordFinalized txn) = record_finalized txn f"
| "finalized_step f (RecordApplied txn) = record_applied txn f"
| "finalized_step f (AdvanceHorizon now) = fst (advance_horizon now f)"
| "finalized_step f (RestartFloor now) = with_restart_floor now f"

lemma finalized_step_spec:
  assumes "finalized_wf f"
  shows "finalized_wf (finalized_step f op)"
    and "refuses f x \<or> op = RecordFinalized x \<or> op = RecordApplied x \<Longrightarrow> refuses (finalized_step f op) x"
    and "was_applied (finalized_step f op) x \<Longrightarrow> was_applied f x \<or> op = RecordApplied x"
proof -
  have wf: "bt_wf (tombstones f)" "0 < ft_capacity f" using assms by (auto simp: finalized_wf_def)
  have "finalized_wf (finalized_step f op)
    \<and> (refuses f x \<or> op = RecordFinalized x \<or> op = RecordApplied x \<longrightarrow> refuses (finalized_step f op) x)
    \<and> (was_applied (finalized_step f op) x \<longrightarrow> was_applied f x \<or> op = RecordApplied x)"
  proof (cases op)
    case (RecordFinalized txn)
    let ?g = "f\<lparr>tombstones := (case map_of (tombstones f) txn of
        None \<Rightarrow> bt_insert txn NoWriteFinalizedT (tombstones f) | Some _ \<Rightarrow> tombstones f)\<rparr>"
    have g: "bt_wf (tombstones ?g)" "0 < ft_capacity ?g" using wf by (auto simp: bt_insert_wf split: option.splits)
    have "refuses f x \<or> x = txn \<Longrightarrow> refuses ?g x"
      by (cases "map_of (tombstones f) txn") (auto simp: refuses_def dest: map_of_SomeD intro: rev_image_eqI)
    moreover have "was_applied ?g x \<Longrightarrow> was_applied f x" by (auto simp: was_applied_def split: option.splits if_splits)
    ultimately show ?thesis
      using enforce_capacity_spec [OF g] assms RecordFinalized
      by (cases "decided f txn = Some Floor") (auto simp: record_finalized_def dest: decided_FloorD)
  next
    case (RecordApplied txn)
    let ?g = "f\<lparr>tombstones := bt_insert txn AppliedT (tombstones f)\<rparr>"
    have g: "bt_wf (tombstones ?g)" "0 < ft_capacity ?g" using wf by (auto simp: bt_insert_wf)
    have "refuses f x \<or> x = txn \<Longrightarrow> refuses ?g x"
      by (auto simp: refuses_def)
    moreover have "was_applied ?g x \<Longrightarrow> was_applied f x \<or> x = txn" by (auto simp: was_applied_def split: if_splits)
    ultimately show ?thesis
      using enforce_capacity_spec [OF g] assms RecordApplied
      by (cases "decided f txn = Some Floor") (auto simp: record_applied_def dest: decided_FloorD)
  next
    case (AdvanceHorizon now)
    let ?h = "Timestamp (ts_epoch now) (ts_time now - FINALIZED_RETENTION_NS) u32_MAX u64_MAX"
    let ?r = "raise_floor ?h f"
    obtain floor where floor: "ft_floor ?r = Some floor"
      by (cases "ft_floor f"; cases "the (ft_floor f) < ?h") (auto simp: raise_floor_def)
    let ?g = "?r\<lparr>tombstones := filter (\<lambda>(id, _). id > floor) (tombstones f), evicting := False, evicted_since_horizon := 0\<rparr>"
    have eq: "finalized_step f op = ?g" using AdvanceHorizon floor by (simp add: advance_horizon_def Let_def)
    have below: "below_floor ?g y \<longleftrightarrow> y \<le> floor" for y using floor by (simp add: below_floor_def)
    have mem: "map_of (filter (\<lambda>(id, _). id > floor) (tombstones f)) y
        = (if y > floor then map_of (tombstones f) y else None)" for y
      using map_of_filter_keys [of "\<lambda>y. y > floor" "tombstones f" y] by simp
    have "below_floor f y \<Longrightarrow> y \<le> floor" for y
      using below_raise_floor [of ?h f y] floor by (simp add: below_floor_def)
    then have "refuses f x \<longrightarrow> refuses ?g x"
      unfolding refuses_def below by (auto simp: image_iff not_le)
    moreover have "finalized_wf ?g"
      using assms by (auto simp: finalized_wf_def bt_wf_filter intro: order.trans [OF length_filter_le])
    moreover have "was_applied ?g x \<longrightarrow> was_applied f x" by (auto simp: was_applied_def mem split: if_splits)
    ultimately show ?thesis using AdvanceHorizon unfolding eq by simp
  next
    case (RestartFloor now)
    then show ?thesis using assms
      by (auto simp: with_restart_floor_def finalized_wf_def refuses_def below_raise_floor was_applied_def)
  qed
  then show "finalized_wf (finalized_step f op)"
    "refuses f x \<or> op = RecordFinalized x \<or> op = RecordApplied x \<Longrightarrow> refuses (finalized_step f op) x"
    "was_applied (finalized_step f op) x \<Longrightarrow> was_applied f x \<or> op = RecordApplied x" by blast+
qed

lemma finalized_run_wf: "finalized_wf f \<Longrightarrow> finalized_wf (foldl finalized_step f ops)"
  by (induction ops arbitrary: f) (simp_all add: finalized_step_spec(1))

lemma finalized_run_decided:
  "finalized_wf f \<Longrightarrow> refuses f x \<or> RecordFinalized x \<in> set ops \<or> RecordApplied x \<in> set ops \<Longrightarrow>
     refuses (foldl finalized_step f ops) x"
proof (induction ops arbitrary: f)
  case (Cons op ops)
  then show ?case using finalized_step_spec(1) [OF Cons.prems(1), of op]
      finalized_step_spec(2) [OF Cons.prems(1), of x op] Cons.IH [of "finalized_step f op"] by auto
qed simp

lemma finalized_run_applied:
  "finalized_wf f \<Longrightarrow> was_applied (foldl finalized_step f ops) x \<Longrightarrow> was_applied f x \<or> RecordApplied x \<in> set ops"
proof (induction ops arbitrary: f)
  case (Cons op ops)
  then show ?case using finalized_step_spec(1) [OF Cons.prems(1), of op]
      finalized_step_spec(3) [OF Cons.prems(1), of op x] Cons.IH [of "finalized_step f op"] by auto
qed simp

section \<open>Properties\<close>



end
