(* ===== verification/Electorate.thy ===== *)
theory Electorate
  imports Quorum
begin

text \<open>
  Membership of the Accord electorate (crate \<open>ferrosa-cluster\<close>: \<open>accord/electorate.rs\<close>): the gates a
  joining node passes, removal, and the checks of votes and epochs.  Histories of the operations are
  the step relation \<open>electorate_step\<close>, with refused operations leaving the electorate unchanged.
\<close>

section \<open>Definitions\<close>

type_synonym member_id = u64
type_synonym epoch = u64

datatype join_gate = Discovery | HistorySync | CatchUp | GateActive
datatype member_status = Active | Joining join_gate | Removed

record protocol_history =
  ph_epoch :: epoch
  committed_count :: usize
  token_ranges :: "(i64 \<times> i64) list"

datatype electorate_error =
  PrematureParticipation member_id join_gate
| NotMember member_id
| InvalidVote member_id epoch
| StaleEpoch member_id epoch epoch
| AlreadyMember member_id

record electorate =
  el_epoch :: epoch
  el_members :: "member_id set"
  el_statuses :: "member_id \<rightharpoonup> member_status"
  join_history :: "member_id \<rightharpoonup> protocol_history"

definition electorate_new :: "epoch \<Rightarrow> member_id list \<Rightarrow> electorate option" where
  "electorate_new epoch initial_members =
     (if initial_members = [] then None
      else Some \<lparr>el_epoch = epoch, el_members = set initial_members,
        el_statuses = (\<lambda>n. if n \<in> set initial_members then Some Active else None), join_history = Map.empty\<rparr>)"

definition el_size :: "electorate \<Rightarrow> usize" where "el_size e = card (el_members e)"
definition el_is_active :: "electorate \<Rightarrow> member_id \<Rightarrow> bool" where "el_is_active e n \<longleftrightarrow> n \<in> el_members e"
definition el_status :: "electorate \<Rightarrow> member_id \<Rightarrow> member_status option" where "el_status e n = el_statuses e n"
definition el_quorum_size :: "electorate \<Rightarrow> usize" where "el_quorum_size e = card (el_members e) div 2 + 1"

definition begin_join :: "member_id \<Rightarrow> electorate \<Rightarrow> electorate_error + electorate" where
  "begin_join node e =
     (if node \<in> el_members e then Inl (AlreadyMember node)
      else Inr (e\<lparr>el_statuses := (el_statuses e)(node \<mapsto> Joining Discovery)\<rparr>))"

definition send_history :: "member_id \<Rightarrow> protocol_history \<Rightarrow> electorate \<Rightarrow> electorate_error + electorate" where
  "send_history node history e =
     (if el_statuses e node = Some (Joining Discovery)
      then Inr (e\<lparr>join_history := (join_history e)(node \<mapsto> history),
                 el_statuses := (el_statuses e)(node \<mapsto> Joining HistorySync)\<rparr>)
      else Inl (PrematureParticipation node HistorySync))"

definition get_join_history :: "electorate \<Rightarrow> member_id \<Rightarrow> protocol_history option" where
  "get_join_history e node = join_history e node"

definition mark_caught_up :: "member_id \<Rightarrow> electorate \<Rightarrow> electorate_error + electorate" where
  "mark_caught_up node e =
     (if el_statuses e node = Some (Joining HistorySync)
      then Inr (e\<lparr>el_statuses := (el_statuses e)(node \<mapsto> Joining CatchUp)\<rparr>)
      else Inl (PrematureParticipation node CatchUp))"

definition activate :: "member_id \<Rightarrow> electorate \<Rightarrow> electorate_error + electorate \<times> epoch" where
  "activate node e =
     (if el_statuses e node = Some (Joining CatchUp)
      then let e = e\<lparr>el_epoch := el_epoch e + 1, el_members := insert node (el_members e),
                    el_statuses := (el_statuses e)(node \<mapsto> Active), join_history := (join_history e)(node := None)\<rparr>
           in Inr (e, el_epoch e)
      else Inl (PrematureParticipation node GateActive))"

definition check_participation :: "electorate \<Rightarrow> member_id \<Rightarrow> electorate_error + unit" where
  "check_participation e node =
     (case el_statuses e node of
        Some Active \<Rightarrow> Inr ()
      | Some (Joining gate) \<Rightarrow> Inl (PrematureParticipation node gate)
      | Some Removed \<Rightarrow> Inl (NotMember node)
      | None \<Rightarrow> Inl (NotMember node))"

definition remove_member :: "member_id \<Rightarrow> electorate \<Rightarrow> electorate_error + electorate \<times> usize" where
  "remove_member node e =
     (if node \<notin> el_members e then Inl (NotMember node)
      else let e = e\<lparr>el_members := el_members e - {node}, el_statuses := (el_statuses e)(node \<mapsto> Removed),
                    el_epoch := el_epoch e + 1\<rparr>
           in Inr (e, el_quorum_size e))"

definition validate_vote :: "electorate \<Rightarrow> member_id \<Rightarrow> electorate_error + unit" where
  "validate_vote e node = (if node \<in> el_members e then Inr () else Inl (InvalidVote node (el_epoch e)))"

definition validate_epoch :: "electorate \<Rightarrow> member_id \<Rightarrow> epoch \<Rightarrow> electorate_error + unit" where
  "validate_epoch e node msg_epoch =
     (if msg_epoch < el_epoch e then Inl (StaleEpoch node msg_epoch (el_epoch e)) else Inr ())"

section \<open>Histories\<close>

inductive electorate_step :: "electorate \<Rightarrow> electorate \<Rightarrow> bool" where
  step_join: "begin_join node e = Inr e' \<Longrightarrow> electorate_step e e'"
| step_history: "send_history node history e = Inr e' \<Longrightarrow> electorate_step e e'"
| step_caught_up: "mark_caught_up node e = Inr e' \<Longrightarrow> electorate_step e e'"
| step_activate: "activate node e = Inr (e', epoch) \<Longrightarrow> electorate_step e e'"
| step_remove: "remove_member node e = Inr (e', quorum) \<Longrightarrow> electorate_step e e'"

inductive_cases electorate_stepE: "electorate_step e e'"

inductive electorate_reach :: "electorate \<Rightarrow> electorate \<Rightarrow> bool" for e0 where
  reach_refl: "electorate_reach e0 e0"
| reach_step: "electorate_reach e0 e \<Longrightarrow> electorate_step e e' \<Longrightarrow> electorate_reach e0 e'"

lemmas electorate_ops = begin_join_def send_history_def mark_caught_up_def activate_def remove_member_def Let_def

definition electorate_wf :: "electorate \<Rightarrow> bool" where
  "electorate_wf e \<longleftrightarrow> finite (el_members e) \<and> (\<forall>n. n \<in> el_members e \<longleftrightarrow> el_statuses e n = Some Active)
     \<and> (\<forall>n. el_statuses e n \<noteq> Some (Joining GateActive))
     \<and> (\<forall>n. el_statuses e n \<in> {Some (Joining HistorySync), Some (Joining CatchUp)} \<longrightarrow> join_history e n \<noteq> None)"

lemma electorate_new_wf: "electorate_new epoch ms = Some e \<Longrightarrow> electorate_wf e"
  by (auto simp: electorate_new_def electorate_wf_def split: if_splits)

lemma electorate_step_wf: "electorate_step e e' \<Longrightarrow> electorate_wf e \<Longrightarrow> electorate_wf e'"
  by (erule electorate_stepE) (auto simp: electorate_ops electorate_wf_def split: if_splits)

lemma electorate_reach_wf: "electorate_reach e0 e \<Longrightarrow> electorate_wf e0 \<Longrightarrow> electorate_wf e"
  by (induction rule: electorate_reach.induct) (auto intro: electorate_step_wf)

text \<open>A step either keeps epoch and members, or advances the epoch by one and changes one member.\<close>

lemma electorate_step_change:
  assumes "electorate_step e e'" "electorate_wf e"
  shows "el_epoch e' = el_epoch e \<and> el_members e' = el_members e \<or>
    el_epoch e' = el_epoch e + 1 \<and>
      ((\<exists>n. n \<notin> el_members e \<and> el_members e' = insert n (el_members e) \<and> el_statuses e n = Some (Joining CatchUp))
       \<or> (\<exists>n \<in> el_members e. el_members e' = el_members e - {n}))"
  using assms
proof (cases rule: electorate_step.cases)
  case (step_activate node epoch)
  then have "el_statuses e node = Some (Joining CatchUp)" "el_members e' = insert node (el_members e)"
    "el_epoch e' = el_epoch e + 1" "node \<notin> el_members e"
    using assms(2) by (auto simp: electorate_ops electorate_wf_def split: if_splits)
  then show ?thesis by blast
qed (auto simp: electorate_ops split: if_splits)

text \<open>Sequences of operations on any number of nodes; what happens to a node depends on its own alone.\<close>

datatype el_op = OpJoin member_id | OpHistory member_id protocol_history | OpCaughtUp member_id
  | OpActivate member_id | OpRemove member_id

fun op_node :: "el_op \<Rightarrow> member_id" where
  "op_node (OpJoin n) = n" | "op_node (OpHistory n h) = n" | "op_node (OpCaughtUp n) = n"
| "op_node (OpActivate n) = n" | "op_node (OpRemove n) = n"

fun el_apply :: "el_op \<Rightarrow> electorate \<Rightarrow> electorate" where
  "el_apply (OpJoin n) e = case_sum (\<lambda>_. e) id (begin_join n e)"
| "el_apply (OpHistory n h) e = case_sum (\<lambda>_. e) id (send_history n h e)"
| "el_apply (OpCaughtUp n) e = case_sum (\<lambda>_. e) id (mark_caught_up n e)"
| "el_apply (OpActivate n) e = case_sum (\<lambda>_. e) fst (activate n e)"
| "el_apply (OpRemove n) e = case_sum (\<lambda>_. e) fst (remove_member n e)"

definition node_view :: "member_id \<Rightarrow> electorate \<Rightarrow> member_status option \<times> bool" where
  "node_view n e = (el_statuses e n, n \<in> el_members e)"

lemma el_apply_other: "op_node op \<noteq> n \<Longrightarrow> node_view n (el_apply op e) = node_view n e"
  by (cases op) (auto simp: electorate_ops node_view_def)

lemma el_apply_own: "op_node op = n \<Longrightarrow> node_view n e = node_view n e' \<Longrightarrow> node_view n (el_apply op e) = node_view n (el_apply op e')"
  by (cases op) (auto simp: electorate_ops node_view_def)

lemma el_run_view:
  "node_view n e = node_view n e' \<Longrightarrow>
    node_view n (fold el_apply ops e) = node_view n (fold el_apply (filter (\<lambda>op. op_node op = n) ops) e')"
proof (induction ops arbitrary: e e')
  case (Cons op ops)
  show ?case
  proof (cases "op_node op = n")
    case True
    then show ?thesis using Cons.IH [OF el_apply_own [OF True Cons.prems]] by simp
  next
    case False
    then show ?thesis using Cons.IH [of "el_apply op e" e'] Cons.prems by (simp add: el_apply_other)
  qed
qed simp

section \<open>Quorums\<close>

definition el_quorum :: "electorate \<Rightarrow> member_id set \<Rightarrow> bool" where
  "el_quorum e Q \<longleftrightarrow> electorate_wf e \<and> (\<forall>n \<in> Q. validate_vote e n = Inr ()) \<and> el_quorum_size e \<le> card Q"

lemma el_quorumD: "el_quorum e Q \<Longrightarrow> finite (el_members e) \<and> Q \<subseteq> el_members e \<and> card (el_members e) div 2 + 1 \<le> card Q"
  by (auto simp: el_quorum_def electorate_wf_def validate_vote_def el_quorum_size_def split: if_splits)

interpretation electorate_quorums: quorum_system "el_quorum e" for e
  by unfold_locales (use el_quorumD card_majorities_meet in metis)

lemma adjacent_quorums_meet:
  assumes "electorate_step e e'" "el_quorum e A" "el_quorum e' B"
  shows "A \<inter> B \<noteq> {}"
proof -
  note A = el_quorumD [OF assms(2)] and B = el_quorumD [OF assms(3)]
  have wf: "electorate_wf e" using assms(2) by (simp add: el_quorum_def)
  consider "el_members e' = el_members e" | n where "n \<notin> el_members e" "el_members e' = insert n (el_members e)"
    | n where "n \<in> el_members e" "el_members e' = el_members e - {n}"
    using electorate_step_change [OF assms(1) wf] by blast
  then show ?thesis
  proof cases
    case 1
    then show ?thesis using A B card_majorities_meet [of "el_members e" A B] by simp
  next
    case 2
    then have "card (el_members e') = Suc (card (el_members e))" using A by simp
    then show ?thesis using A B 2 by (intro card_overlap [of "el_members e'"]) auto
  next
    case 3
    then have "Suc (card (el_members e')) = card (el_members e)" using A by (metis card_Suc_Diff1)
    then show ?thesis using A B 3 by (intro card_overlap [of "el_members e"]) auto
  qed
qed

section \<open>Properties\<close>

text \<open>
  C28: Reconfiguration keeps quorums overlapping: in every electorate reachable from a fresh one, two
  quorums of valid votes meet, and so do a quorum before and a quorum after any one operation, so no two
  adjacent epochs can decide independently.
\<close>

theorem electorate_quorums_meet:
  assumes "electorate_new epoch ms = Some e0" "electorate_reach e0 e" "electorate_step e e'"
    and "\<forall>n \<in> A. validate_vote e n = Inr ()" "el_quorum_size e \<le> card A"
    and "\<forall>n \<in> B. validate_vote e' n = Inr ()" "el_quorum_size e' \<le> card B"
    and "\<forall>n \<in> C. validate_vote e n = Inr ()" "el_quorum_size e \<le> card C"
  shows "A \<inter> B \<noteq> {} \<and> A \<inter> C \<noteq> {}"
proof -
  have "electorate_wf e" using electorate_reach_wf [OF assms(2) electorate_new_wf [OF assms(1)]] .
  then have "el_quorum e A" "el_quorum e C" "el_quorum e' B"
    using assms(3-9) electorate_step_wf by (auto simp: el_quorum_def)
  then show ?thesis using adjacent_quorums_meet [OF assms(3)] electorate_quorums.meet by blast
qed

theorem electorate_quorums_meet_witness:
  "let e = the (electorate_new 1 [1, 2, 3]) in
     {1, 2} \<inter> {1, 2 :: nat} \<noteq> {} \<and> {1, 2} \<inter> {2, 3 :: nat} \<noteq> {} \<and> (\<exists>e'. remove_member 3 e = Inr (e', 2))"
proof -
  define e where "e = the (electorate_new 1 [1, 2, 3])"
  have e: "electorate_new 1 [1, 2, 3] = Some e" by (simp add: e_def electorate_new_def)
  obtain e' where e': "remove_member 3 e = Inr (e', 2)" "el_members e' = {1, 2}"
    by (simp add: e_def electorate_new_def electorate_ops el_quorum_size_def insert_commute insert_Diff_if)
  have m: "el_members e = {1, 2, 3}" by (simp add: e_def electorate_new_def)
  have "{1, 2} \<inter> {1, 2 :: nat} \<noteq> {} \<and> {1, 2} \<inter> {2, 3 :: nat} \<noteq> {}"
    by (rule electorate_quorums_meet [OF e reach_refl step_remove [OF e'(1)], of "{1, 2}" "{1, 2}" "{2, 3}"])
      (simp_all add: validate_vote_def el_quorum_size_def m e')
  then show ?thesis using e'(1) by (simp add: e_def)
qed

text \<open>
  Only nodes that passed every gate take part: in every reachable electorate a vote is valid exactly
  for the nodes that may participate, an operation that makes a node a member found it caught up with a
  history sent to it, and the epoch advances by one exactly when the membership changes.
\<close>

theorem electorate_gates:
  assumes "electorate_new epoch ms = Some e0" "electorate_reach e0 e" "electorate_step e e'"
  shows "(validate_vote e n = Inr () \<longleftrightarrow> check_participation e n = Inr ())
    \<and> (n \<in> el_members e' - el_members e \<longrightarrow> el_status e n = Some (Joining CatchUp) \<and> get_join_history e n \<noteq> None)
    \<and> el_epoch e' = (if el_members e' = el_members e then el_epoch e else el_epoch e + 1)"
proof -
  have wf: "electorate_wf e" using electorate_reach_wf [OF assms(2) electorate_new_wf [OF assms(1)]] .
  have "validate_vote e n = Inr () \<longleftrightarrow> check_participation e n = Inr ()"
    using wf by (auto simp: validate_vote_def check_participation_def electorate_wf_def
        split: option.splits member_status.splits)
  then show ?thesis using electorate_step_change [OF assms(3) wf] wf
    by (auto simp: el_status_def get_join_history_def electorate_wf_def)
qed

theorem electorate_gates_witness:
  "let e = the (electorate_new 1 [1]) in \<exists>e'. begin_join 2 e = Inr e' \<and> el_epoch e' = el_epoch e"
proof -
  define e where "e = the (electorate_new 1 [1])"
  have e: "electorate_new 1 [1] = Some e" by (simp add: e_def electorate_new_def)
  obtain e' where e': "begin_join 2 e = Inr e'" "el_members e' = el_members e"
    by (simp add: e_def electorate_new_def electorate_ops)
  then show ?thesis using electorate_gates [OF e reach_refl step_join [OF e'(1)]] by (simp add: e_def)
qed

text \<open>
  Joining completes whatever else happens: in any sequence of operations in which the operations on a
  node that is not a member are the four gates in order, interleaved with any operations on other nodes,
  the node ends an active member whose votes are valid.
\<close>

theorem electorate_join_succeeds:
  assumes "node \<notin> el_members e"
    and "filter (\<lambda>op. op_node op = node) ops = [OpJoin node, OpHistory node history, OpCaughtUp node, OpActivate node]"
  shows "el_is_active (fold el_apply ops e) node \<and> check_participation (fold el_apply ops e) node = Inr ()
    \<and> validate_vote (fold el_apply ops e) node = Inr ()"
proof -
  have "node_view node (fold el_apply ops e) = (Some Active, True)"
    using assms el_run_view [of node e e ops] by (simp add: electorate_ops node_view_def)
  then show ?thesis by (simp add: node_view_def el_is_active_def check_participation_def validate_vote_def)
qed

theorem electorate_join_succeeds_witness:
  "el_is_active (fold el_apply [OpJoin 2, OpJoin 3, OpHistory 2 \<lparr>ph_epoch = 1, committed_count = 0, token_ranges = []\<rparr>,
     OpRemove 1, OpCaughtUp 2, OpHistory 3 \<lparr>ph_epoch = 1, committed_count = 0, token_ranges = []\<rparr>, OpActivate 2]
     (the (electorate_new 1 [1, 4]))) 2"
  by (rule electorate_join_succeeds [THEN conjunct1, of _ _ _ "\<lparr>ph_epoch = 1, committed_count = 0, token_ranges = []\<rparr>"])
    (simp_all add: electorate_new_def)

end
