(* ===== verification/Dep_Wait.thy ===== *)
theory Dep_Wait
  imports Accord Hash_Map
begin

text \<open>
  The waits-for graph of parked Accord transactions (crate \<open>ferrosa-cluster\<close>: \<open>accord/dep_wait.rs\<close>):
  forward and reverse edges, the depth-first cycle check that guards every registration, and the
  operations that resolve, waive or forget waits.  Instants are arguments of the operations that read
  the clock.
\<close>

section \<open>Definitions\<close>

type_synonym instant = u64
type_synonym waits = "(txn_id \<times> txn_id list) list"

datatype dep_wait_error = CycleDetected "txn_id list" | Aborted txn_id string | Timeout txn_id u64

definition DEP_WAIT_TIMEOUT :: u64 where "DEP_WAIT_TIMEOUT = 10000000000"

record dep_wait_graph =
  waiting_on :: waits
  waited_by :: waits
  wait_start :: "(txn_id \<times> instant) list"
  g_applied :: "(txn_id \<times> instant) list"
  g_aborted :: "(txn_id \<times> instant) list"
  g_timeout :: u64

definition dep_graph_with_timeout :: "u64 \<Rightarrow> dep_wait_graph" where
  "dep_graph_with_timeout timeout = \<lparr>waiting_on = [], waited_by = [], wait_start = [], g_applied = [], g_aborted = [],
     g_timeout = timeout\<rparr>"

definition dep_graph_new :: dep_wait_graph where
  "dep_graph_new = dep_graph_with_timeout DEP_WAIT_TIMEOUT"

text \<open>
  The depth-first search.  The set of the nodes on the path is the set of the elements of the path; the
  fuel bounds the depth, and \<open>None\<close> is running out of it.
\<close>

fun dfs_cycle :: "nat \<Rightarrow> waits \<Rightarrow> txn_id \<Rightarrow> txn_id set \<Rightarrow> txn_id list \<Rightarrow> (txn_id set \<times> txn_id list option) option"
and dfs_deps :: "nat \<Rightarrow> waits \<Rightarrow> txn_id list \<Rightarrow> txn_id set \<Rightarrow> txn_id list \<Rightarrow> (txn_id set \<times> txn_id list option) option" where
  "dfs_cycle fuel w node visited path =
     (if node \<in> set path then Some (visited, Some (dropWhile (\<lambda>n. n \<noteq> node) path))
      else if node \<in> visited then Some (visited, None)
      else case fuel of 0 \<Rightarrow> None
           | Suc fuel \<Rightarrow> dfs_deps fuel w (sort (hm_get w node)) (insert node visited) (path @ [node]))"
| "dfs_deps fuel w [] visited path = Some (visited, None)"
| "dfs_deps fuel w (dep # deps) visited path =
     (case dfs_cycle fuel w dep visited path of
        None \<Rightarrow> None
      | Some (visited, Some cycle) \<Rightarrow> Some (visited, Some cycle)
      | Some (visited, None) \<Rightarrow> dfs_deps fuel w deps visited path)"

declare dfs_cycle.simps [simp del]

definition detect_cycle :: "dep_wait_graph \<Rightarrow> txn_id \<Rightarrow> txn_id list option" where
  "detect_cycle g start = Option.bind (dfs_cycle (Suc (length (waiting_on g))) (waiting_on g) start {} []) snd"

text \<open>\<open>if let Some(s) = m.get_mut(k) { s.remove(x); if s.is_empty() { m.remove(k) } }\<close>\<close>

definition unlink :: "txn_id \<Rightarrow> txn_id \<Rightarrow> waits \<Rightarrow> waits" where
  "unlink k x m =
     (case map_of m k of
        None \<Rightarrow> m
      | Some s \<Rightarrow> if removeAll x s = [] then hm_remove k m else hm_modify k (\<lambda>_. removeAll x s) m)"

definition register_wait :: "instant \<Rightarrow> txn_id \<Rightarrow> txn_id \<Rightarrow> dep_wait_graph \<Rightarrow> dep_wait_graph \<times> (dep_wait_error + unit)" where
  "register_wait now waiter dep g =
     (if map_of (g_applied g) dep \<noteq> None then (g, Inr ())
      else let g = g\<lparr>waiting_on := entry_update waiter [] (List.insert dep) (waiting_on g),
                     waited_by := entry_update dep [] (List.insert waiter) (waited_by g),
                     wait_start := entry_update waiter now id (wait_start g)\<rparr>
           in case detect_cycle g waiter of
                Some cycle \<Rightarrow> (g\<lparr>waiting_on := unlink waiter dep (waiting_on g),
                                 waited_by := unlink dep waiter (waited_by g)\<rparr>, Inl (CycleDetected cycle))
              | None \<Rightarrow> (g, Inr ()))"

definition mark_woken :: "txn_id \<Rightarrow> txn_id \<Rightarrow> waits \<times> txn_id list \<Rightarrow> waits \<times> txn_id list" where
  "mark_woken txn waiter = (\<lambda>(w, woken).
     (case map_of w waiter of
        None \<Rightarrow> (w, woken)
      | Some deps \<Rightarrow> (hm_modify waiter (removeAll txn) w,
                     if removeAll txn deps = [] then woken @ [waiter] else woken)))"

definition mark_applied :: "instant \<Rightarrow> txn_id \<Rightarrow> dep_wait_graph \<Rightarrow> dep_wait_graph \<times> txn_id list" where
  "mark_applied now txn g =
     (let waiters = hm_get (waited_by g) txn;
          (w, woken) = fold (mark_woken txn) waiters (waiting_on g, []);
          w = fold hm_remove woken w;
          starts = fold hm_remove woken (wait_start g)
      in (g\<lparr>g_applied := hm_insert txn now (g_applied g), waited_by := hm_remove txn (waited_by g),
            waiting_on := hm_remove txn w, wait_start := hm_remove txn starts\<rparr>, woken))"

definition clear_waits :: "txn_id \<Rightarrow> dep_wait_graph \<Rightarrow> dep_wait_graph" where
  "clear_waits waiter g =
     g\<lparr>waiting_on := hm_remove waiter (waiting_on g),
       waited_by := fold (\<lambda>dep. unlink dep waiter) (hm_get (waiting_on g) waiter) (waited_by g),
       wait_start := hm_remove waiter (wait_start g)\<rparr>"

definition waiters_of :: "dep_wait_graph \<Rightarrow> txn_id \<Rightarrow> txn_id list" where
  "waiters_of g dep = hm_get (waited_by g) dep"

definition waive :: "txn_id \<Rightarrow> txn_id \<Rightarrow> dep_wait_graph \<Rightarrow> dep_wait_graph \<times> bool" where
  "waive waiter dep g =
     (if dep \<notin> set (hm_get (waiting_on g) waiter) then (g, False)
      else let g = g\<lparr>waiting_on := hm_modify waiter (removeAll dep) (waiting_on g),
                     waited_by := unlink dep waiter (waited_by g)\<rparr>
           in if map_of (waiting_on g) waiter = Some []
              then (g\<lparr>waiting_on := hm_remove waiter (waiting_on g), wait_start := hm_remove waiter (wait_start g)\<rparr>, True)
              else (g, False))"

definition g_is_applied :: "dep_wait_graph \<Rightarrow> txn_id \<Rightarrow> bool" where
  "g_is_applied g txn \<longleftrightarrow> map_of (g_applied g) txn \<noteq> None"
definition g_is_aborted :: "dep_wait_graph \<Rightarrow> txn_id \<Rightarrow> bool" where
  "g_is_aborted g txn \<longleftrightarrow> map_of (g_aborted g) txn \<noteq> None"

definition prune :: "instant \<Rightarrow> u64 \<Rightarrow> dep_wait_graph \<Rightarrow> dep_wait_graph \<times> usize" where
  "prune now max_age g =
     (let before = length (g_applied g) + length (g_aborted g);
          g = g\<lparr>g_applied := filter (\<lambda>(_, at). now - at < max_age) (g_applied g),
                g_aborted := filter (\<lambda>(_, at). now - at < max_age) (g_aborted g)\<rparr>
      in (g, before - (length (g_applied g) + length (g_aborted g))))"

definition forget :: "txn_id list \<Rightarrow> dep_wait_graph \<Rightarrow> dep_wait_graph \<times> usize" where
  "forget txns g = fold (\<lambda>txn (g, n).
     (g\<lparr>g_applied := hm_remove txn (g_applied g), g_aborted := hm_remove txn (g_aborted g)\<rparr>,
      if map_of (g_applied g) txn \<noteq> None then n + 1 else n)) txns (g, 0)"

definition is_waiting :: "dep_wait_graph \<Rightarrow> txn_id \<Rightarrow> bool" where
  "is_waiting g txn \<longleftrightarrow> map_of (waiting_on g) txn \<noteq> None"
definition deps_of :: "dep_wait_graph \<Rightarrow> txn_id \<Rightarrow> txn_id list option" where
  "deps_of g txn = map_of (waiting_on g) txn"

definition check_timeouts :: "instant \<Rightarrow> dep_wait_graph \<Rightarrow> txn_id list" where
  "check_timeouts now g = map fst (filter (\<lambda>(txn, start). now - start \<ge> g_timeout g \<and> is_waiting g txn) (wait_start g))"

definition waiting_count :: "dep_wait_graph \<Rightarrow> usize" where "waiting_count g = length (waiting_on g)"

definition remove_txn :: "txn_id \<Rightarrow> dep_wait_graph \<Rightarrow> dep_wait_graph" where
  "remove_txn txn g =
     (let by = fold (\<lambda>dep. unlink dep txn) (hm_get (waiting_on g) txn) (waited_by g);
          w = hm_remove txn (waiting_on g)
      in g\<lparr>waited_by := hm_remove txn by,
           waiting_on := fold (\<lambda>waiter. hm_modify waiter (removeAll txn)) (hm_get by txn) w,
           wait_start := hm_remove txn (wait_start g)\<rparr>)"

definition break_cycle :: "instant \<Rightarrow> txn_id list \<Rightarrow> dep_wait_graph \<Rightarrow> (dep_wait_graph \<times> txn_id) option" where
  "break_cycle now cycle g =
     (if cycle = [] then None
      else let victim = Max (set cycle); g = remove_txn victim g
           in Some (g\<lparr>g_aborted := hm_insert victim now (g_aborted g)\<rparr>, victim))"

definition abort_timeout :: "instant \<Rightarrow> txn_id \<Rightarrow> dep_wait_graph \<Rightarrow> dep_wait_graph \<times> dep_wait_error" where
  "abort_timeout now txn g =
     (let waited = (case map_of (wait_start g) txn of Some start \<Rightarrow> now - start | None \<Rightarrow> g_timeout g);
          g = remove_txn txn g
      in (g\<lparr>g_aborted := hm_insert txn now (g_aborted g)\<rparr>, Timeout txn waited))"

section \<open>The depth-first search\<close>

definition waits_rel :: "waits \<Rightarrow> (txn_id \<times> txn_id) set" where
  "waits_rel w = {(x, y). y \<in> set (hm_get w x)}"

lemma waits_rel_iff: "(x, y) \<in> waits_rel w \<longleftrightarrow> y \<in> set (hm_get w x)"
  by (simp add: waits_rel_def)

text \<open>A list in which every element's dependencies come after it: the order in which the search finishes.\<close>

fun topo :: "waits \<Rightarrow> txn_id list \<Rightarrow> bool" where
  "topo w [] \<longleftrightarrow> True"
| "topo w (x # xs) \<longleftrightarrow> x \<notin> set xs \<and> set (hm_get w x) \<subseteq> set xs \<and> topo w xs"

lemma topo_closed: "topo w xs \<Longrightarrow> x \<in> set xs \<Longrightarrow> (x, y) \<in> waits_rel w \<Longrightarrow> y \<in> set xs"
  by (induction xs) (auto simp: waits_rel_iff)

lemma topo_reach: "(x, y) \<in> (waits_rel w)\<^sup>* \<Longrightarrow> topo w xs \<Longrightarrow> x \<in> set xs \<Longrightarrow> y \<in> set xs"
  by (induction rule: rtrancl_induct) (auto intro: topo_closed)

lemma topo_acyclic: "topo w xs \<Longrightarrow> x \<in> set xs \<Longrightarrow> (x, x) \<notin> (waits_rel w)\<^sup>+"
proof (induction xs)
  case (Cons a xs)
  show ?case
  proof (cases "x \<in> set xs")
    case False
    then have "x = a" using Cons.prems by simp
    show ?thesis
    proof
      assume "(x, x) \<in> (waits_rel w)\<^sup>+"
      then obtain y where y: "(x, y) \<in> waits_rel w" "(y, x) \<in> (waits_rel w)\<^sup>*" by (auto dest: tranclD)
      have "y \<in> set xs" using y(1) Cons.prems \<open>x = a\<close> by (auto simp: waits_rel_iff)
      then have "x \<in> set xs" using y(2) Cons.prems by (auto intro: topo_reach)
      then show False using False by simp
    qed
  qed (use Cons in simp)
qed simp

lemma dfs_complete:
  shows "dfs_cycle fuel w node visited path = Some (visited', None) \<Longrightarrow> visited = set path \<union> set F \<Longrightarrow>
      set path \<inter> set F = {} \<Longrightarrow> topo w F \<Longrightarrow>
      \<exists>F'. visited' = set path \<union> set F' \<and> set path \<inter> set F' = {} \<and> topo w F' \<and> set F \<subseteq> set F' \<and> node \<in> set F'"
    and "dfs_deps fuel w deps visited path = Some (visited', None) \<Longrightarrow> visited = set path \<union> set F \<Longrightarrow>
      set path \<inter> set F = {} \<Longrightarrow> topo w F \<Longrightarrow>
      \<exists>F'. visited' = set path \<union> set F' \<and> set path \<inter> set F' = {} \<and> topo w F' \<and> set F \<subseteq> set F' \<and> set deps \<subseteq> set F'"
proof (induction fuel w node visited path and fuel w deps visited path arbitrary: visited' F and visited' F
    rule: dfs_cycle_dfs_deps.induct)
  case (1 fuel w node visited path)
  show ?case
  proof (cases "node \<in> visited")
    case True
    then show ?thesis using 1(2-5) by (subst (asm) dfs_cycle.simps) (auto split: if_splits)
  next
    case False
    then obtain f where f: "fuel = Suc f"
      and d: "dfs_deps f w (sort (hm_get w node)) (insert node visited) (path @ [node]) = Some (visited', None)"
      and n: "node \<notin> set path"
      using 1(2) by (subst (asm) dfs_cycle.simps) (auto split: if_splits nat.splits)
    obtain F' where F': "visited' = set (path @ [node]) \<union> set F'" "set (path @ [node]) \<inter> set F' = {}" "topo w F'"
      "set F \<subseteq> set F'" "set (hm_get w node) \<subseteq> set F'"
      using "1.IH" [OF n False f d, of F] 1(3-5) False by auto
    then show ?thesis using n by (intro exI [of _ "node # F'"]) auto
  qed
next
  case (3 fuel w dep deps visited path)
  from 3(3) obtain v where v: "dfs_cycle fuel w dep visited path = Some (v, None)"
    and r: "dfs_deps fuel w deps v path = Some (visited', None)"
    by (auto split: option.splits prod.splits)
  obtain F1 where F1: "v = set path \<union> set F1" "set path \<inter> set F1 = {}" "topo w F1" "set F \<subseteq> set F1" "dep \<in> set F1"
    using "3.IH"(1) [OF v 3(4-6)] by blast
  obtain F2 where "visited' = set path \<union> set F2" "set path \<inter> set F2 = {}" "topo w F2" "set F1 \<subseteq> set F2" "set deps \<subseteq> set F2"
    using "3.IH"(2) [OF v _ _ r F1(1-3)] by blast
  then show ?case using F1 by (intro exI [of _ F2]) auto
qed auto

lemma dfs_sound:
  shows "dfs_cycle fuel w node visited path = Some (visited', Some cycle) \<Longrightarrow> successively (\<lambda>x y. (x, y) \<in> waits_rel w) (path @ [node]) \<Longrightarrow>
      cycle \<noteq> [] \<and> successively (\<lambda>x y. (x, y) \<in> waits_rel w) (cycle @ [hd cycle])"
    and "dfs_deps fuel w deps visited path = Some (visited', Some cycle) \<Longrightarrow> path \<noteq> [] \<Longrightarrow>
      successively (\<lambda>x y. (x, y) \<in> waits_rel w) path \<Longrightarrow> set deps \<subseteq> set (hm_get w (last path)) \<Longrightarrow>
      cycle \<noteq> [] \<and> successively (\<lambda>x y. (x, y) \<in> waits_rel w) (cycle @ [hd cycle])"
proof (induction fuel w node visited path and fuel w deps visited path arbitrary: visited' and visited'
    rule: dfs_cycle_dfs_deps.induct)
  case (1 fuel w node visited path)
  show ?case
  proof (cases "node \<in> set path")
    case True
    then have cycle: "cycle = dropWhile (\<lambda>n. n \<noteq> node) path" using 1(2) by (simp add: dfs_cycle.simps)
    have ne: "dropWhile (\<lambda>n. n \<noteq> node) path \<noteq> []" using True by (simp add: dropWhile_eq_Nil_conv)
    then have "hd cycle = node" using hd_dropWhile [OF ne] cycle by simp
    moreover have "successively (\<lambda>x y. (x, y) \<in> waits_rel w) (takeWhile (\<lambda>n. n \<noteq> node) path @ cycle @ [node])"
      using 1(3) cycle by (simp add: takeWhile_dropWhile_id flip: append_assoc)
    ultimately show ?thesis using ne cycle unfolding successively_append_iff by simp
  next
    case False
    then obtain f where f: "fuel = Suc f" "node \<notin> visited"
      and d: "dfs_deps f w (sort (hm_get w node)) (insert node visited) (path @ [node]) = Some (visited', Some cycle)"
      using 1(2) by (subst (asm) dfs_cycle.simps) (auto split: if_splits nat.splits)
    show ?thesis using "1.IH" [OF False f(2,1) d] 1(3) by simp
  qed
next
  case (3 fuel w dep deps visited path)
  have dep: "successively (\<lambda>x y. (x, y) \<in> waits_rel w) (path @ [dep])"
    using 3(4-6) by (simp add: successively_append_iff waits_rel_iff)
  show ?case
  proof (cases "dfs_cycle fuel w dep visited path")
    case (Some r)
    then obtain v c where v: "dfs_cycle fuel w dep visited path = Some (v, c)" by (cases r) auto
    show ?thesis
    proof (cases c)
      case None
      then show ?thesis using "3.IH"(2) [OF v [unfolded None] refl refl] v 3(3-6) by simp
    next
      case (Some d)
      then have "d = cycle" using v 3(3) by simp
      then show ?thesis using "3.IH"(1) [OF _ dep] v Some by simp
    qed
  qed (use 3(3) in simp)
qed simp

text \<open>The path of the search has distinct elements that all have dependencies, so its depth is bounded.\<close>

lemma dfs_fuel:
  shows "distinct path \<Longrightarrow> set path \<subseteq> fst ` set w \<Longrightarrow> length w < fuel + length path \<Longrightarrow>
      dfs_cycle fuel w node visited path \<noteq> None"
    and "distinct path \<Longrightarrow> deps \<noteq> [] \<longrightarrow> set path \<subseteq> fst ` set w \<Longrightarrow> length w < fuel + length path \<Longrightarrow>
      dfs_deps fuel w deps visited path \<noteq> None"
proof (induction fuel w node visited path and fuel w deps visited path rule: dfs_cycle_dfs_deps.induct)
  case (1 fuel w node visited path)
  have "length path = card (set path)" using 1(2) by (simp add: distinct_card)
  also have "\<dots> \<le> card (fst ` set w)" using 1(3) by (simp add: card_mono)
  also have "\<dots> \<le> length w" using card_image_le [of "set w" fst] card_length [of w] by simp
  finally obtain f where f: "fuel = Suc f" using 1(4) by (cases fuel) auto
  have k: "sort (hm_get w node) \<noteq> [] \<longrightarrow> set (path @ [node]) \<subseteq> fst ` set w"
    using 1(3) by (auto simp: hm_get_def image_iff split: option.splits dest!: map_of_SomeD) force
  show ?case using "1.IH" [OF _ _ f] k 1(2,4) f by (subst dfs_cycle.simps) auto
next
  case (3 fuel w dep deps visited path)
  obtain v c where v: "dfs_cycle fuel w dep visited path = Some (v, c)"
    using "3.IH"(1) 3(3-5) by auto
  show ?case
  proof (cases c)
    case None
    then show ?thesis using "3.IH"(2) [OF v [unfolded None] refl refl] v 3(3-5) by simp
  qed (use v in simp)
qed simp

lemma cycle_trancl: "xs \<noteq> [] \<Longrightarrow> successively (\<lambda>x y. (x, y) \<in> r) (xs @ [y]) \<Longrightarrow> (hd xs, y) \<in> r\<^sup>+"
  by (induction xs rule: induct_list012) (auto intro: trancl_into_trancl2)

lemma detect_cycle_exact:
  "case detect_cycle g start of
     Some cycle \<Rightarrow> (\<exists>x \<in> set cycle. (x, x) \<in> (waits_rel (waiting_on g))\<^sup>+)
   | None \<Rightarrow> \<not> (\<exists>x. (start, x) \<in> (waits_rel (waiting_on g))\<^sup>* \<and> (x, x) \<in> (waits_rel (waiting_on g))\<^sup>+)"
proof -
  obtain v c where d: "dfs_cycle (Suc (length (waiting_on g))) (waiting_on g) start {} [] = Some (v, c)"
    using dfs_fuel(1) [of "[]" "waiting_on g" "Suc (length (waiting_on g))" start "{}"] by auto
  show ?thesis
  proof (cases c)
    case None
    then obtain F where F: "topo (waiting_on g) F" "start \<in> set F"
      using dfs_complete(1) [OF d [unfolded None], of "[]"] by auto
    have "(x, x) \<notin> (waits_rel (waiting_on g))\<^sup>+" if "(start, x) \<in> (waits_rel (waiting_on g))\<^sup>*" for x
      using topo_acyclic [OF F(1) topo_reach [OF that F]] .
    then show ?thesis using d None by (auto simp: detect_cycle_def)
  next
    case (Some cycle)
    have "cycle \<noteq> [] \<and> successively (\<lambda>x y. (x, y) \<in> waits_rel (waiting_on g)) (cycle @ [hd cycle])"
      using dfs_sound(1) [OF d [unfolded Some]] by simp
    then have "((hd cycle), (hd cycle)) \<in> (waits_rel (waiting_on g))\<^sup>+" by (simp add: cycle_trancl)
    then show ?thesis using d Some \<open>cycle \<noteq> [] \<and> _\<close> by (auto simp: detect_cycle_def intro: bexI [of _ "hd cycle"])
  qed
qed

section \<open>Edges under the operations\<close>

lemma hm_get_updates [simp]:
  "hm_get (hm_remove k m) k' = (if k' = k then [] else hm_get m k')"
  "hm_get (entry_update k [] f m) k' = (if k' = k then f (hm_get m k) else hm_get m k')"
  by (simp_all add: hm_get_def map_of_entry_update)

lemma hm_get_modify: "f [] = [] \<Longrightarrow> hm_get (hm_modify k f m) k' = (if k' = k then f (hm_get m k) else hm_get m k')"
  by (simp add: hm_get_def split: option.splits)

lemma unlink_get [simp]: "hm_get (unlink k x m) k' = (if k' = k then removeAll x (hm_get m k) else hm_get m k')"
  by (auto simp: unlink_def hm_get_def split: option.splits)

lemma unlink_distinct: "distinct (map fst m) \<Longrightarrow> distinct (map fst (unlink k x m))"
  by (auto simp: unlink_def distinct_hm_remove split: option.splits)

lemma unlink_Some_Nil: "map_of m k' \<noteq> Some [] \<Longrightarrow> map_of (unlink k x m) k' \<noteq> Some []"
  by (auto simp: unlink_def split: option.splits if_splits)

lemma unlinks_get:
  "hm_get (fold (\<lambda>k. unlink k x) ks m) k' = (if k' \<in> set ks then removeAll x (hm_get m k') else hm_get m k')"
  by (induction ks arbitrary: m) auto

lemma unlinks_distinct: "distinct (map fst m) \<Longrightarrow> distinct (map fst (fold (\<lambda>k. unlink k x) ks m))"
  by (induction ks arbitrary: m) (auto simp: unlink_distinct)

lemma fold_hm_remove_get: "map_of (fold hm_remove ks m) k = (if k \<in> set ks then None else map_of m k)"
  by (induction ks arbitrary: m) auto

lemma fold_hm_remove_distinct: "distinct (map fst m) \<Longrightarrow> distinct (map fst (fold hm_remove ks m))"
  by (induction ks arbitrary: m) (auto simp: distinct_hm_remove)

lemma mark_woken_fold:
  assumes "fold (mark_woken txn) waiters (w, woken) = (w', woken')"
  shows "map_of w' x = (if x \<in> set waiters then map_option (removeAll txn) (map_of w x) else map_of w x)
    \<and> map fst w' = map fst w
    \<and> (x \<in> set woken' \<longleftrightarrow> x \<in> set woken \<or> x \<in> set waiters \<and> map_option (removeAll txn) (map_of w x) = Some [])"
  using assms
proof (induction waiters arbitrary: w woken)
  case (Cons a waiters)
  show ?case
  proof (cases "map_of w a")
    case None
    then show ?thesis using Cons by (auto simp: mark_woken_def)
  next
    case (Some deps)
    then have "mark_woken txn a (w, woken) =
        (hm_modify a (removeAll txn) w, if removeAll txn deps = [] then woken @ [a] else woken)"
      by (simp add: mark_woken_def)
    then have "fold (mark_woken txn) waiters (hm_modify a (removeAll txn) w,
        if removeAll txn deps = [] then woken @ [a] else woken) = (w', woken')"
      using Cons.prems by (simp only: fold_simps)
    from Cons.IH [OF this] show ?thesis using Some by (auto simp: option.map_comp comp_def)
  qed
qed simp

definition waits_left :: "txn_id \<Rightarrow> txn_id list option \<Rightarrow> txn_id list option" where
  "waits_left txn deps = Option.bind deps (\<lambda>ds. if removeAll txn ds = [] then None else Some (removeAll txn ds))"

lemma mark_applied_effect:
  assumes "mark_applied now txn g = (g', woken)"
  shows "map_of (waiting_on g') x = (if x = txn then None
      else if x \<in> set (hm_get (waited_by g) txn) then waits_left txn (map_of (waiting_on g) x) else map_of (waiting_on g) x)"
    and "x \<in> set woken \<longleftrightarrow> x \<in> set (hm_get (waited_by g) txn) \<and> map_option (removeAll txn) (map_of (waiting_on g) x) = Some []"
    and "distinct (map fst (waiting_on g)) \<Longrightarrow> distinct (map fst (waiting_on g'))"
    and "waited_by g' = hm_remove txn (waited_by g)" "g_applied g' = hm_insert txn now (g_applied g)"
    and "g_aborted g' = g_aborted g" "g_timeout g' = g_timeout g"
proof -
  obtain w wk where f: "fold (mark_woken txn) (hm_get (waited_by g) txn) (waiting_on g, []) = (w, wk)" by fastforce
  note F = mark_woken_fold [OF f]
  show "map_of (waiting_on g') x = (if x = txn then None
      else if x \<in> set (hm_get (waited_by g) txn) then waits_left txn (map_of (waiting_on g) x) else map_of (waiting_on g) x)"
    using assms F [of x] by (cases "map_of (waiting_on g) x") (auto simp: mark_applied_def f fold_hm_remove_get waits_left_def)
  show "x \<in> set woken \<longleftrightarrow> x \<in> set (hm_get (waited_by g) txn) \<and> map_option (removeAll txn) (map_of (waiting_on g) x) = Some []"
    using assms F [of x] by (auto simp: mark_applied_def f)
  show "distinct (map fst (waiting_on g))\<Longrightarrow> distinct (map fst (waiting_on g'))"
    using assms F by (auto simp: mark_applied_def f intro!: distinct_hm_remove fold_hm_remove_distinct)
  show "waited_by g' = hm_remove txn (waited_by g)" "g_applied g' = hm_insert txn now (g_applied g)"
    "g_aborted g' = g_aborted g" "g_timeout g' = g_timeout g"
    using assms by (auto simp: mark_applied_def f)
qed

section \<open>Invariant\<close>

definition graph_wf :: "dep_wait_graph \<Rightarrow> bool" where
  "graph_wf g \<longleftrightarrow> distinct (map fst (waiting_on g)) \<and> (\<forall>x. map_of (waiting_on g) x \<noteq> Some [])
     \<and> (\<forall>x y. (x, y) \<in> waits_rel (waiting_on g) \<longrightarrow> x \<in> set (waiters_of g y) \<and> \<not> g_is_applied g y)
     \<and> acyclic (waits_rel (waiting_on g)) \<and> (\<forall>y. distinct (waiters_of g y))"

lemma is_waiting_edge: "graph_wf g \<Longrightarrow> is_waiting g x \<longleftrightarrow> (\<exists>y. (x, y) \<in> waits_rel (waiting_on g))"
proof (cases "map_of (waiting_on g) x")
  case (Some deps)
  moreover assume "graph_wf g"
  ultimately have "deps \<noteq> []" by (auto simp: graph_wf_def)
  then show ?thesis using Some by (cases deps) (auto simp: is_waiting_def waits_rel_iff hm_get_def)
qed (simp add: is_waiting_def waits_rel_iff hm_get_def)

lemma graph_wf_shrink:
  assumes "graph_wf g" "distinct (map fst (waiting_on g'))" "\<And>x. map_of (waiting_on g') x \<noteq> Some []"
    and "\<And>x y. (x, y) \<in> waits_rel (waiting_on g') \<Longrightarrow> (x, y) \<in> waits_rel (waiting_on g) \<and>
      (x \<in> set (waiters_of g y) \<longrightarrow> x \<in> set (waiters_of g' y)) \<and> (\<not> g_is_applied g y \<longrightarrow> \<not> g_is_applied g' y)"
    and "\<And>y. distinct (waiters_of g y) \<Longrightarrow> distinct (waiters_of g' y)"
  shows "graph_wf g'"
proof -
  have "waits_rel (waiting_on g') \<subseteq> waits_rel (waiting_on g)" using assms(4) by auto
  then have "acyclic (waits_rel (waiting_on g'))" using assms(1) acyclic_subset by (auto simp: graph_wf_def)
  moreover have "x \<in> set (waiters_of g' y) \<and> \<not> g_is_applied g' y" if "(x, y) \<in> waits_rel (waiting_on g')" for x y
    using assms(4) [OF that] assms(1) unfolding graph_wf_def by blast
  ultimately show ?thesis using assms(1,2,3,5) by (simp add: graph_wf_def)
qed

lemma dep_graph_new_wf: "graph_wf (dep_graph_with_timeout t)"
  by (simp add: graph_wf_def dep_graph_with_timeout_def waits_rel_def hm_get_def acyclic_def waiters_of_def)

lemma waits_rel_insert: "waits_rel (entry_update x [] (List.insert y) w) = insert (x, y) (waits_rel w)"
  by (auto simp: waits_rel_def split: if_splits)

lemma waits_rel_unlink: "waits_rel (unlink x y w) = waits_rel w - {(x, y)}"
  by (auto simp: waits_rel_def split: if_splits)

lemma detect_inserted:
  assumes "acyclic (waits_rel w)" "waiting_on g = entry_update x [] (List.insert y) w"
  shows "detect_cycle g x = None \<longleftrightarrow> acyclic (insert (x, y) (waits_rel w))"
    and "detect_cycle g x = None \<longleftrightarrow> (y, x) \<notin> (waits_rel w)\<^sup>*"
proof -
  show *: "detect_cycle g x = None \<longleftrightarrow> acyclic (insert (x, y) (waits_rel w))"
  proof
    assume "detect_cycle g x = None"
    then have "(x, x) \<notin> (insert (x, y) (waits_rel w))\<^sup>+"
      using detect_cycle_exact [where g = g and start = x] by (auto simp: assms(2) waits_rel_insert)
    moreover have "(x, x) \<in> (insert (x, y) (waits_rel w))\<^sup>+" if "(y, x) \<in> (waits_rel w)\<^sup>*"
      using that by (simp add: trancl_insert)
    ultimately show "acyclic (insert (x, y) (waits_rel w))" using assms(1) by (auto simp: acyclic_insert)
  next
    assume "acyclic (insert (x, y) (waits_rel w))"
    then show "detect_cycle g x = None" using detect_cycle_exact [where g = g and start = x]
      by (cases "detect_cycle g x") (auto simp: assms(2) waits_rel_insert acyclic_def)
  qed
  show "detect_cycle g x = None \<longleftrightarrow> (y, x) \<notin> (waits_rel w)\<^sup>*" unfolding * using assms(1) by (simp add: acyclic_insert)
qed

lemma register_wait_spec:
  assumes "graph_wf g" "register_wait now waiter dep g = (g', r)"
  shows "graph_wf g'"
    and "waits_rel (waiting_on g') = (if g_is_applied g dep \<or> r \<noteq> Inr () then waits_rel (waiting_on g)
      else insert (waiter, dep) (waits_rel (waiting_on g)))"
    and "r \<noteq> Inr () \<longleftrightarrow> \<not> g_is_applied g dep \<and> (dep, waiter) \<in> (waits_rel (waiting_on g))\<^sup>*"
    and "g_applied g' = g_applied g"
proof -
  have "graph_wf g' \<and> waits_rel (waiting_on g') = (if g_is_applied g dep \<or> r \<noteq> Inr () then waits_rel (waiting_on g)
      else insert (waiter, dep) (waits_rel (waiting_on g)))
    \<and> (r \<noteq> Inr () \<longleftrightarrow> \<not> g_is_applied g dep \<and> (dep, waiter) \<in> (waits_rel (waiting_on g))\<^sup>*) \<and> g_applied g' = g_applied g"
  proof (cases "g_is_applied g dep")
    case True
    then show ?thesis using assms by (auto simp: register_wait_def g_is_applied_def)
  next
    case False
    define g1 where "g1 = g\<lparr>waiting_on := entry_update waiter [] (List.insert dep) (waiting_on g),
                     waited_by := entry_update dep [] (List.insert waiter) (waited_by g),
                     wait_start := entry_update waiter now id (wait_start g)\<rparr>"
    have r: "(g', r) = (case detect_cycle g1 waiter of
        Some cycle \<Rightarrow> (g1\<lparr>waiting_on := unlink waiter dep (waiting_on g1),
                         waited_by := unlink dep waiter (waited_by g1)\<rparr>, Inl (CycleDetected cycle))
      | None \<Rightarrow> (g1, Inr ()))"
      using assms(2) False unfolding register_wait_def g_is_applied_def Let_def g1_def [symmetric] by simp
    have acyc: "acyclic (waits_rel (waiting_on g))" using assms(1) by (simp add: graph_wf_def)
    have w1: "waiting_on g1 = entry_update waiter [] (List.insert dep) (waiting_on g)" by (simp add: g1_def)
    note D = detect_inserted [OF acyc w1]
    have nonempty: "map_of (waiting_on g1) x \<noteq> Some []" for x
      using assms(1) by (auto simp: w1 map_of_entry_update graph_wf_def List.insert_def split: option.splits)
    have dist: "distinct (map fst (waiting_on g1))" using assms(1) by (simp add: w1 graph_wf_def distinct_entry_update)
    show ?thesis
    proof (cases "detect_cycle g1 waiter")
      case None
      then have g': "g' = g1" "r = Inr ()" using r by simp_all
      have "graph_wf g1" unfolding graph_wf_def
        using dist nonempty D(1) None assms(1) False
        by (auto simp: w1 waits_rel_insert g1_def graph_wf_def waiters_of_def g_is_applied_def)
      then show ?thesis using g' False D(2) None by (auto simp: w1 waits_rel_insert) (simp_all add: g1_def)
    next
      case (Some cycle)
      then have g': "g' = g1\<lparr>waiting_on := unlink waiter dep (waiting_on g1), waited_by := unlink dep waiter (waited_by g1)\<rparr>"
        "r = Inl (CycleDetected cycle)" using r by simp_all
      have new: "(waiter, dep) \<notin> waits_rel (waiting_on g)"
        using D(2) Some acyc by (auto simp: acyclic_def dest: rtrancl_into_trancl1 r_into_trancl)
      have rel: "waits_rel (waiting_on g') = waits_rel (waiting_on g)"
        using new by (auto simp: g' w1 waits_rel_unlink waits_rel_insert)
      have "graph_wf g'"
      proof (rule graph_wf_shrink [OF assms(1)])
        show "distinct (map fst (waiting_on g'))" using unlink_distinct [OF dist] g' by simp
        show "map_of (waiting_on g') x \<noteq> Some []" for x using unlink_Some_Nil [OF nonempty] g' by simp
        show "distinct (waiters_of g' y)" if "distinct (waiters_of g y)" for y
          using that by (auto simp: g' waiters_of_def g1_def intro!: distinct_removeAll)
        fix x y
        assume "(x, y) \<in> waits_rel (waiting_on g')"
        then have "(x, y) \<in> waits_rel (waiting_on g)" "x = waiter \<longrightarrow> y \<noteq> dep" using rel new by auto
        then show "(x, y) \<in> waits_rel (waiting_on g) \<and> (x \<in> set (waiters_of g y) \<longrightarrow> x \<in> set (waiters_of g' y))
          \<and> (\<not> g_is_applied g y \<longrightarrow> \<not> g_is_applied g' y)"
          by (auto simp: g' waiters_of_def g1_def g_is_applied_def)
      qed
      then show ?thesis using rel g' False D(2) Some by (simp add: g1_def)
    qed
  qed
  then show "graph_wf g'" "waits_rel (waiting_on g') = (if g_is_applied g dep \<or> r \<noteq> Inr () then waits_rel (waiting_on g)
      else insert (waiter, dep) (waits_rel (waiting_on g)))"
    "r \<noteq> Inr () \<longleftrightarrow> \<not> g_is_applied g dep \<and> (dep, waiter) \<in> (waits_rel (waiting_on g))\<^sup>*" "g_applied g' = g_applied g"
    by blast+
qed

lemma removeAll_empty_iff: "removeAll x xs = [] \<longleftrightarrow> set xs \<subseteq> {x}"
  by (induction xs) auto

lemma waits_left_Nil: "waits_left txn d \<noteq> Some []"
  by (cases d) (auto simp: waits_left_def)

lemma mark_applied_spec:
  assumes "graph_wf g" "mark_applied now txn g = (g', woken)"
  shows "graph_wf g'"
    and "waits_rel (waiting_on g') = {(x, y) \<in> waits_rel (waiting_on g). x \<noteq> txn \<and> y \<noteq> txn}"
    and "x \<in> set woken \<longleftrightarrow> x \<noteq> txn \<and> is_waiting g x \<and> \<not> is_waiting g' x"
    and "g_is_applied g' x \<longleftrightarrow> x = txn \<or> g_is_applied g x"
proof -
  note eff = mark_applied_effect [OF assms(2)]
  have rev: "x \<in> set (hm_get (waited_by g) txn)" if "(x, txn) \<in> waits_rel (waiting_on g)" for x
    using assms(1) that by (auto simp: graph_wf_def waiters_of_def)
  have get': "hm_get (waiting_on g') x = (if x = txn then [] else if x \<in> set (hm_get (waited_by g) txn)
      then removeAll txn (hm_get (waiting_on g) x) else hm_get (waiting_on g) x)" for x
    by (cases "map_of (waiting_on g) x") (auto simp: hm_get_def [of "waiting_on g'"] hm_get_def [of "waiting_on g"] eff(1) waits_left_def)
  have get: "set (hm_get (waiting_on g') x) = (if x = txn then {} else set (hm_get (waiting_on g) x) - {txn})" for x
    using rev [of x] by (auto simp: get' waits_rel_iff)
  show rel: "waits_rel (waiting_on g') = {(x, y) \<in> waits_rel (waiting_on g). x \<noteq> txn \<and> y \<noteq> txn}"
    by (auto simp: waits_rel_def get split: if_splits)
  show applied: "g_is_applied g' x \<longleftrightarrow> x = txn \<or> g_is_applied g x" for x
    by (simp add: g_is_applied_def eff(5))
  show wf: "graph_wf g'"
  proof (rule graph_wf_shrink [OF assms(1)])
    show "distinct (map fst (waiting_on g'))" using assms(1) by (intro eff(3)) (simp add: graph_wf_def)
    show "map_of (waiting_on g') x \<noteq> Some []" for x
      using assms(1) waits_left_Nil unfolding eff(1) graph_wf_def by simp
    show "distinct (waiters_of g' y)" if "distinct (waiters_of g y)" for y using that by (simp add: waiters_of_def eff(4))
    fix x y
    assume "(x, y) \<in> waits_rel (waiting_on g')"
    then show "(x, y) \<in> waits_rel (waiting_on g) \<and> (x \<in> set (waiters_of g y) \<longrightarrow> x \<in> set (waiters_of g' y))
        \<and> (\<not> g_is_applied g y \<longrightarrow> \<not> g_is_applied g' y)"
      by (auto simp: rel waiters_of_def eff(4) applied)
  qed
  have loop: "(txn, txn) \<notin> waits_rel (waiting_on g)" using assms(1) by (auto simp: graph_wf_def acyclic_def)
  have woken: "x \<in> set woken \<longleftrightarrow> x \<in> set (hm_get (waited_by g) txn) \<and> is_waiting g x \<and> set (hm_get (waiting_on g) x) \<subseteq> {txn}"
    by (cases "map_of (waiting_on g) x") (auto simp: eff(2) is_waiting_def hm_get_def removeAll_empty_iff)
  show "x \<in> set woken \<longleftrightarrow> x \<noteq> txn \<and> is_waiting g x \<and> \<not> is_waiting g' x"
    unfolding woken is_waiting_edge [OF wf] is_waiting_edge [OF assms(1)] rel
    using rev loop by (auto simp: waits_rel_iff)
qed

lemma clear_waits_spec:
  assumes "graph_wf g"
  shows "graph_wf (clear_waits waiter g)"
    and "waits_rel (waiting_on (clear_waits waiter g)) = {(x, y) \<in> waits_rel (waiting_on g). x \<noteq> waiter}"
    and "g_applied (clear_waits waiter g) = g_applied g"
proof -
  show rel: "waits_rel (waiting_on (clear_waits waiter g)) = {(x, y) \<in> waits_rel (waiting_on g). x \<noteq> waiter}"
    by (auto simp: clear_waits_def waits_rel_def split: if_splits)
  show "g_applied (clear_waits waiter g) = g_applied g" by (simp add: clear_waits_def)
  show "graph_wf (clear_waits waiter g)"
  proof (rule graph_wf_shrink [OF assms])
    show "distinct (map fst (waiting_on (clear_waits waiter g)))"
      using assms by (simp add: clear_waits_def graph_wf_def distinct_hm_remove)
    show "map_of (waiting_on (clear_waits waiter g)) x \<noteq> Some []" for x
      using assms by (simp add: clear_waits_def graph_wf_def)
    show "distinct (waiters_of (clear_waits waiter g) y)" if "distinct (waiters_of g y)" for y
      using that by (simp add: clear_waits_def waiters_of_def unlinks_get distinct_removeAll)
    fix x y
    assume "(x, y) \<in> waits_rel (waiting_on (clear_waits waiter g))"
    then have "(x, y) \<in> waits_rel (waiting_on g)" "x \<noteq> waiter" by (simp_all add: rel)
    then show "(x, y) \<in> waits_rel (waiting_on g) \<and> (x \<in> set (waiters_of g y) \<longrightarrow> x \<in> set (waiters_of (clear_waits waiter g) y))
        \<and> (\<not> g_is_applied g y \<longrightarrow> \<not> g_is_applied (clear_waits waiter g) y)"
      by (simp add: clear_waits_def waiters_of_def unlinks_get g_is_applied_def)
  qed
qed

lemma waive_spec:
  assumes "graph_wf g" "waive waiter dep g = (g', unblocked)"
  shows "graph_wf g'"
    and "waits_rel (waiting_on g') = waits_rel (waiting_on g) - {(waiter, dep)}"
    and "unblocked \<longleftrightarrow> (waiter, dep) \<in> waits_rel (waiting_on g) \<and> \<not> is_waiting g' waiter"
    and "g_applied g' = g_applied g"
proof -
  let ?w = "hm_modify waiter (removeAll dep) (waiting_on g)"
  let ?g = "g\<lparr>waiting_on := ?w, waited_by := unlink dep waiter (waited_by g)\<rparr>"
  have rel1: "waits_rel ?w = waits_rel (waiting_on g) - {(waiter, dep)}"
    by (auto simp: waits_rel_def hm_get_modify split: if_splits)
  have dist: "distinct (map fst ?w)" using assms(1) by (simp add: graph_wf_def)
  have w': "waiting_on g' = (if map_of ?w waiter = Some [] then hm_remove waiter ?w else ?w)
    \<and> waited_by g' = unlink dep waiter (waited_by g) \<and> g_applied g' = g_applied g
    \<and> (unblocked \<longleftrightarrow> map_of ?w waiter = Some [])" if "(waiter, dep) \<in> waits_rel (waiting_on g)"
    using assms(2) that by (auto simp: waive_def waits_rel_iff Let_def split: if_splits)
  have same: "g' = g \<and> \<not> unblocked" if "(waiter, dep) \<notin> waits_rel (waiting_on g)"
    using assms(2) that by (auto simp: waive_def waits_rel_iff)
  show rel: "waits_rel (waiting_on g') = waits_rel (waiting_on g) - {(waiter, dep)}"
  proof (cases "(waiter, dep) \<in> waits_rel (waiting_on g)")
    case True
    have "waits_rel (hm_remove waiter ?w) = waits_rel ?w" if "map_of ?w waiter = Some []"
    proof -
      have "hm_get ?w waiter = []" using that by (simp only: hm_get_def option.case)
      then show ?thesis unfolding waits_rel_def hm_get_updates by (auto split: if_splits)
    qed
    then show ?thesis using w' [OF True] rel1 by presburger
  qed (use same in auto)
  show "g_applied g' = g_applied g" using w' same by blast
  show "graph_wf g'"
  proof (cases "(waiter, dep) \<in> waits_rel (waiting_on g)")
    case True
    show ?thesis
    proof (rule graph_wf_shrink [OF assms(1)])
      show "distinct (map fst (waiting_on g'))" using w' [OF True] dist by (simp add: distinct_hm_remove)
      show "map_of (waiting_on g') x \<noteq> Some []" for x
        using w' [OF True] assms(1) by (cases "x = waiter") (simp_all add: graph_wf_def)
      show "distinct (waiters_of g' y)" if "distinct (waiters_of g y)" for y
        using that conjunct1 [OF conjunct2 [OF w' [OF True]]] by (auto simp: waiters_of_def intro!: distinct_removeAll)
      fix x y
      assume "(x, y) \<in> waits_rel (waiting_on g')"
      then have "(x, y) \<in> waits_rel (waiting_on g)" "x = waiter \<longrightarrow> y \<noteq> dep" unfolding rel by simp_all
      moreover have "waited_by g' = unlink dep waiter (waited_by g)" "g_applied g' = g_applied g" using w' [OF True] by simp_all
      ultimately show "(x, y) \<in> waits_rel (waiting_on g) \<and> (x \<in> set (waiters_of g y) \<longrightarrow> x \<in> set (waiters_of g' y))
          \<and> (\<not> g_is_applied g y \<longrightarrow> \<not> g_is_applied g' y)"
        by (auto simp: waiters_of_def g_is_applied_def)
    qed
  qed (use same assms(1) in simp)
  show "unblocked \<longleftrightarrow> (waiter, dep) \<in> waits_rel (waiting_on g) \<and> \<not> is_waiting g' waiter"
  proof (cases "(waiter, dep) \<in> waits_rel (waiting_on g)")
    case True
    then have "map_of (waiting_on g) waiter \<noteq> None"
      by (cases "map_of (waiting_on g) waiter") (simp_all add: waits_rel_iff hm_get_def)
    then show ?thesis using w' [OF True] True by (auto simp: is_waiting_def)
  qed (use same in simp)
qed

lemma forget_effect:
  "waiting_on (fst (forget txns g)) = waiting_on g \<and> waited_by (fst (forget txns g)) = waited_by g
    \<and> (g_is_applied (fst (forget txns g)) x \<longleftrightarrow> g_is_applied g x \<and> x \<notin> set txns)"
proof -
  let ?f = "\<lambda>txn (g, n). (g\<lparr>g_applied := hm_remove txn (g_applied g), g_aborted := hm_remove txn (g_aborted g)\<rparr>,
      if map_of (g_applied g) txn \<noteq> None then n + 1 else n)"
  have "waiting_on (fst (fold ?f txns (g, n))) = waiting_on g \<and> waited_by (fst (fold ?f txns (g, n))) = waited_by g
    \<and> (g_is_applied (fst (fold ?f txns (g, n))) x \<longleftrightarrow> g_is_applied g x \<and> x \<notin> set txns)" for n :: nat
    by (induction txns arbitrary: g n) (auto simp: g_is_applied_def)
  then show ?thesis by (simp add: forget_def)
qed

lemma prune_effect:
  "waiting_on (fst (prune now age g)) = waiting_on g \<and> waited_by (fst (prune now age g)) = waited_by g
    \<and> (g_is_applied (fst (prune now age g)) x \<longrightarrow> g_is_applied g x)"
  by (auto simp: prune_def Let_def g_is_applied_def map_of_eq_None_iff simp flip: not_None_eq)

lemma graph_wf_forgets:
  assumes "graph_wf g" "waiting_on g' = waiting_on g" "waited_by g' = waited_by g"
    and "\<And>x. g_is_applied g' x \<Longrightarrow> g_is_applied g x"
  shows "graph_wf g'"
  using assms unfolding graph_wf_def waiters_of_def by metis

datatype graph_op = GRegister instant txn_id txn_id | GApplied instant txn_id | GClear txn_id | GWaive txn_id txn_id
  | GForget "txn_id list" | GPrune instant u64

fun graph_step :: "graph_op \<Rightarrow> dep_wait_graph \<Rightarrow> dep_wait_graph" where
  "graph_step (GRegister now waiter dep) g = fst (register_wait now waiter dep g)"
| "graph_step (GApplied now txn) g = fst (mark_applied now txn g)"
| "graph_step (GClear waiter) g = clear_waits waiter g"
| "graph_step (GWaive waiter dep) g = fst (waive waiter dep g)"
| "graph_step (GForget txns) g = fst (forget txns g)"
| "graph_step (GPrune now age) g = fst (prune now age g)"

lemma graph_step_wf: "graph_wf g \<Longrightarrow> graph_wf (graph_step op g)"
proof (cases op)
  case (GRegister now waiter dep)
  assume "graph_wf g"
  then show ?thesis using register_wait_spec(1) [of g now waiter dep] GRegister by (cases "register_wait now waiter dep g") simp
next
  case (GApplied now txn)
  assume "graph_wf g"
  then show ?thesis using mark_applied_spec(1) [of g now txn] GApplied by (cases "mark_applied now txn g") simp
next
  case (GWaive waiter dep)
  assume "graph_wf g"
  then show ?thesis using waive_spec(1) [of g waiter dep] GWaive by (cases "waive waiter dep g") simp
qed (auto intro: clear_waits_spec(1) graph_wf_forgets simp: forget_effect prune_effect)

lemma graph_run_wf: "graph_wf g \<Longrightarrow> graph_wf (fold graph_step ops g)"
  by (induction ops arbitrary: g) (auto simp: graph_step_wf)

text \<open>Following the waits of a waiting transaction ends at one that is not waiting and not applied.\<close>

lemma finite_waits_rel: "finite (waits_rel w)"
proof (rule finite_subset)
  have "x \<in> fst ` set w" if "y \<in> set (hm_get w x)" for x y
    using that by (cases "map_of w x") (auto simp: hm_get_def dest!: map_of_SomeD intro: rev_image_eqI)
  then show "waits_rel w \<subseteq> (SIGMA x:fst ` set w. set (hm_get w x))" by (auto simp: waits_rel_iff)
qed simp

lemma waits_end:
  assumes "graph_wf g" "is_waiting g x"
  shows "\<exists>y. (x, y) \<in> (waits_rel (waiting_on g))\<^sup>+ \<and> \<not> is_waiting g y \<and> \<not> g_is_applied g y"
proof -
  let ?r = "waits_rel (waiting_on g)"
  have "wf (?r\<inverse>)" using assms(1) finite_waits_rel by (intro finite_acyclic_wf_converse) (auto simp: graph_wf_def)
  then show ?thesis using assms(2)
  proof (induction x)
    case (less x)
    then obtain y where y: "(x, y) \<in> ?r" using is_waiting_edge [OF assms(1)] by blast
    then have na: "\<not> g_is_applied g y" using assms(1) unfolding graph_wf_def by blast
    show ?case
    proof (cases "is_waiting g y")
      case True
      then obtain z where "(y, z) \<in> ?r\<^sup>+" "\<not> is_waiting g z" "\<not> g_is_applied g z" using less.IH y by blast
      then show ?thesis using y by (blast intro: trancl_into_trancl2)
    qed (use y na in blast)
  qed
qed

section \<open>Properties\<close>



text \<open>
  C34: The cycle check that guards a registration terminates and is exact: after any history, registering
  a wait is refused precisely when the dependency is not applied and already waits, directly or through
  others, on the waiter; a refused registration changes no wait, and an accepted one adds exactly the
  wait asked for, none if the dependency is already applied.
\<close>

theorem register_wait_exact:
  assumes "g = fold graph_step ops (dep_graph_with_timeout t)"
  shows "dfs_cycle (Suc (length (waiting_on g))) (waiting_on g) x {} [] \<noteq> None
    \<and> (case register_wait now waiter dep g of
        (g', Inl (CycleDetected cycle)) \<Rightarrow> waits_rel (waiting_on g') = waits_rel (waiting_on g)
          \<and> \<not> g_is_applied g dep \<and> (dep, waiter) \<in> (waits_rel (waiting_on g))\<^sup>*
      | (g', Inl (Aborted txn reason)) \<Rightarrow> False
      | (g', Inl (Timeout txn waited)) \<Rightarrow> False
      | (g', Inr _) \<Rightarrow> (g_is_applied g dep \<or> (dep, waiter) \<notin> (waits_rel (waiting_on g))\<^sup>*)
          \<and> waits_rel (waiting_on g') = (if g_is_applied g dep then waits_rel (waiting_on g)
              else insert (waiter, dep) (waits_rel (waiting_on g))))"
proof -
  have wf: "graph_wf g" using assms graph_run_wf [OF dep_graph_new_wf] by simp
  have fuel: "dfs_cycle (Suc (length (waiting_on g))) (waiting_on g) x {} [] \<noteq> None"
    by (rule dfs_fuel(1)) simp_all
  obtain g' r where r: "register_wait now waiter dep g = (g', r)" by fastforce
  have S: "r \<noteq> Inr () \<longleftrightarrow> \<not> g_is_applied g dep \<and> (dep, waiter) \<in> (waits_rel (waiting_on g))\<^sup>*"
    "waits_rel (waiting_on g') = (if g_is_applied g dep \<or> r \<noteq> Inr () then waits_rel (waiting_on g)
      else insert (waiter, dep) (waits_rel (waiting_on g)))"
    using register_wait_spec(2,3) [OF wf r] by blast+
  show ?thesis
  proof (cases r)
    case (Inl e)
    have "e \<noteq> Timeout txn waited \<and> e \<noteq> Aborted txn reason" for txn waited reason
      using r Inl by (auto simp: register_wait_def Let_def split: if_splits option.splits)
    then obtain cycle where "e = CycleDetected cycle" by (cases e) auto
    then have "r = Inl (CycleDetected cycle)" using Inl by simp
    then show ?thesis using fuel S unfolding r by (simp del: not_None_eq)
  next
    case (Inr u)
    then have "r = Inr ()" by simp
    then show ?thesis using fuel S unfolding r by (simp del: not_None_eq)
  qed
qed

theorem register_wait_exact_witness:
  "let t = \<lambda>n. Timestamp 0 n 0 1;
       g = fold graph_step [GRegister 5 (t 1) (t 2), GRegister 6 (t 2) (t 3)] (dep_graph_with_timeout 10)
   in snd (register_wait 7 (t 3) (t 1) g) = Inl (CycleDetected [t 3, t 1, t 2]) \<and> (t 1, t 3) \<in> (waits_rel (waiting_on g))\<^sup>*"
proof -
  define t where "t n = Timestamp 0 n 0 1" for n
  define g where "g = fold graph_step [GRegister 5 (t 1) (t 2), GRegister 6 (t 2) (t 3)] (dep_graph_with_timeout 10)"
  have "snd (register_wait 7 (t 3) (t 1) g) = Inl (CycleDetected [t 3, t 1, t 2])"
    by (simp add: g_def t_def dep_graph_with_timeout_def register_wait_def detect_cycle_def dfs_cycle.simps hm_get_def)
  moreover from this have "(t 1, t 3) \<in> (waits_rel (waiting_on g))\<^sup>*"
    using register_wait_exact [OF g_def, where now = 7 and waiter = "t 3" and dep = "t 1"] by (cases "register_wait 7 (t 3) (t 1) g") simp
  ultimately show ?thesis unfolding g_def t_def Let_def by blast
qed

text \<open>
  Aborting a transaction, for a cycle or a timeout, can strand a waiter: it is left with an empty set of
  waits, which no later application of a transaction ever wakes.
\<close>

theorem abort_strands_waiter:
  "let t = \<lambda>n. Timestamp 0 n 0 1; g = fst (register_wait 5 (t 1) (t 2) dep_graph_new)
   in \<exists>g'. break_cycle 6 [t 2] g = Some (g', t 2) \<and> deps_of g' (t 1) = Some []
      \<and> (\<forall>txn now. txn \<noteq> t 1 \<longrightarrow> is_waiting (fst (mark_applied now txn g')) (t 1))"
  by (simp add: Let_def dep_graph_new_def dep_graph_with_timeout_def register_wait_def detect_cycle_def dfs_cycle.simps hm_get_def
      break_cycle_def remove_txn_def unlink_def deps_of_def mark_applied_def is_waiting_def hm_remove_def hm_modify_def)

end
