(* ===== verification/Spill.thy ===== *)
theory Spill
  imports Prelude
begin

text \<open>
  Staging of a transaction's payloads (crate \<open>ferrosa-storage\<close>: \<open>write_set_spill.rs\<close>): the write-set spill
  with its offset table over a mapped file, and the streaming builder that keeps a bounded prefix in
  memory.  A file is the byte list written to it; whether the file operations of a call succeed is its
  first argument, and a failed call ends the staging.
\<close>

section \<open>Definitions\<close>

datatype spill_error = PayloadTooLong usize | StagingFailed | IndexOutOfRange usize | RangeOverflows u64 u32
  | RangeEscapes usize usize | NothingStaged usize

definition WRITE_SET_SPILL_FLOOR_BYTES :: u64 where "WRITE_SET_SPILL_FLOOR_BYTES = 8 * 1024 * 1024"

record write_set_spill =
  sp_map :: "bytes option"
  sp_reservation :: bool
  sp_resident :: "bytes list"
  sp_resident_bytes :: u64
  sp_offsets :: "u64 list"
  sp_lens :: "u32 list"
  sp_bytes :: u64

text \<open>The loop of \<open>stage\<close>: the file written, the offset and length tables and the byte count.\<close>

fun stage_blobs :: "bytes list \<Rightarrow> bytes \<times> u64 list \<times> u32 list \<times> u64 \<Rightarrow> spill_error + bytes \<times> u64 list \<times> u32 list \<times> u64" where
  "stage_blobs [] st = Inr st"
| "stage_blobs (payload # blobs) (file, offsets, lens, n) =
     (if length payload > u32_MAX then Inl (PayloadTooLong (length payload))
      else stage_blobs blobs (file @ payload, offsets @ [n], lens @ [length payload], n + length payload))"

definition spill_stage :: "bool \<Rightarrow> bytes list \<Rightarrow> spill_error + write_set_spill" where
  "spill_stage io blobs =
     (if \<not> io then Inl StagingFailed
      else case stage_blobs blobs ([], [], [], 0) of
        Inl e \<Rightarrow> Inl e
      | Inr (file, offsets, lens, n) \<Rightarrow>
          Inr \<lparr>sp_map = (if n = 0 then None else Some file), sp_reservation = True, sp_resident = [], sp_resident_bytes = 0,
            sp_offsets = offsets, sp_lens = lens, sp_bytes = n\<rparr>)"

definition spill_len :: "write_set_spill \<Rightarrow> usize" where "spill_len sp = length (sp_resident sp) + length (sp_offsets sp)"
definition spill_is_empty :: "write_set_spill \<Rightarrow> bool" where "spill_is_empty sp \<longleftrightarrow> spill_len sp = 0"
definition spilled_to_disk :: "write_set_spill \<Rightarrow> bool" where "spilled_to_disk sp = sp_reservation sp"

definition spill_entry :: "write_set_spill \<Rightarrow> usize \<Rightarrow> spill_error + bytes" where
  "spill_entry sp index =
     (if index < length (sp_resident sp) then Inr (sp_resident sp ! index)
      else let spilled = index - length (sp_resident sp)
           in if spilled < length (sp_offsets sp) \<and> spilled < length (sp_lens sp)
              then let start = sp_offsets sp ! spilled; len = sp_lens sp ! spilled; end_pos = start + len
                   in if end_pos > u64_MAX then Inl (RangeOverflows start len)
                      else case sp_map sp of
                             Some m \<Rightarrow> if end_pos \<le> length m then Inr (take len (drop start m)) else Inl (RangeEscapes start end_pos)
                           | None \<Rightarrow> if len = 0 then Inr [] else Inl (NothingStaged index)
              else Inl (IndexOutOfRange index))"

definition spill_mutation :: "write_set_spill \<Rightarrow> usize \<Rightarrow> spill_error + bytes" where
  "spill_mutation sp index = spill_entry sp index"

record spill_builder =
  sb_threshold :: u64
  sb_resident :: "bytes list"
  sb_resident_bytes :: u64
  sb_writer :: "bytes option"
  sb_offsets :: "u64 list"
  sb_lens :: "u32 list"
  sb_bytes :: u64

definition builder_with_threshold :: "u64 \<Rightarrow> spill_builder" where
  "builder_with_threshold threshold = \<lparr>sb_threshold = max threshold 1, sb_resident = [], sb_resident_bytes = 0, sb_writer = None,
     sb_offsets = [], sb_lens = [], sb_bytes = 0\<rparr>"

definition builder_len :: "spill_builder \<Rightarrow> usize" where "builder_len b = length (sb_resident b) + length (sb_offsets b)"
definition builder_spilled :: "spill_builder \<Rightarrow> bool" where "builder_spilled b \<longleftrightarrow> sb_writer b \<noteq> None"

fun drain_resident :: "bytes list \<Rightarrow> bytes \<times> u64 list \<times> u32 list \<times> u64 \<Rightarrow> bytes \<times> u64 list \<times> u32 list \<times> u64" where
  "drain_resident [] st = st"
| "drain_resident (blob # rest) (file, offsets, lens, n) =
     (let len = min (length blob) u32_MAX in drain_resident rest (file @ blob, offsets @ [n], lens @ [len], n + len))"

definition begin_spill :: "bool \<Rightarrow> spill_builder \<Rightarrow> spill_error + spill_builder" where
  "begin_spill io b =
     (if \<not> io then Inl StagingFailed
      else let (file, offsets, lens, n) = drain_resident (sb_resident b) ([], sb_offsets b, sb_lens b, sb_bytes b)
           in Inr (b\<lparr>sb_resident := [], sb_resident_bytes := 0, sb_writer := Some file, sb_offsets := offsets, sb_lens := lens,
                    sb_bytes := n\<rparr>))"

definition write_spilled :: "bool \<Rightarrow> bytes \<Rightarrow> u32 \<Rightarrow> spill_builder \<Rightarrow> spill_error + spill_builder" where
  "write_spilled io payload len b =
     (if \<not> io then Inl StagingFailed
      else Inr (b\<lparr>sb_offsets := sb_offsets b @ [sb_bytes b], sb_lens := sb_lens b @ [len],
                  sb_writer := map_option (\<lambda>file. file @ payload) (sb_writer b), sb_bytes := sb_bytes b + len\<rparr>))"

definition builder_append :: "bool \<Rightarrow> bytes \<Rightarrow> spill_builder \<Rightarrow> spill_error + spill_builder" where
  "builder_append io payload b =
     (let len = length payload
      in if len > u32_MAX then Inl (PayloadTooLong len)
         else if sb_writer b = None then
           if sb_resident_bytes b + len \<le> sb_threshold b
           then Inr (b\<lparr>sb_resident := sb_resident b @ [payload], sb_resident_bytes := sb_resident_bytes b + len\<rparr>)
           else case begin_spill io b of Inl e \<Rightarrow> Inl e | Inr b \<Rightarrow> write_spilled io payload len b
         else write_spilled io payload len b)"

definition builder_finish :: "bool \<Rightarrow> spill_builder \<Rightarrow> spill_error + write_set_spill" where
  "builder_finish io b =
     (if \<not> io \<and> sb_writer b \<noteq> None then Inl StagingFailed
      else Inr \<lparr>sp_map = Option.bind (sb_writer b) (\<lambda>file. if sb_bytes b = 0 then None else Some file),
             sp_reservation = (sb_writer b \<noteq> None), sp_resident = sb_resident b, sp_resident_bytes = sb_resident_bytes b,
             sp_offsets = sb_offsets b, sp_lens = sb_lens b, sp_bytes = sb_bytes b\<rparr>)"

section \<open>Layout of the staged region\<close>

definition spill_layout :: "bytes list \<Rightarrow> bytes \<times> u64 list \<times> u32 list \<times> u64 \<Rightarrow> bool" where
  "spill_layout ps st \<longleftrightarrow> st = (concat ps, map (\<lambda>i. length (concat (take i ps))) [0..<length ps], map length ps, length (concat ps))"

lemma spill_layout_Nil: "spill_layout [] ([], [], [], 0)"
  by (simp add: spill_layout_def)

lemma spill_layout_snoc:
  "spill_layout ps (file, offsets, lens, n) \<Longrightarrow>
    spill_layout (ps @ [p]) (file @ p, offsets @ [n], lens @ [length p], n + length p)"
  by (auto simp: spill_layout_def)

lemma stage_blobs_layout:
  "spill_layout ps st \<Longrightarrow> list_all (\<lambda>p. length p \<le> u32_MAX) qs \<Longrightarrow> \<exists>st'. stage_blobs qs st = Inr st' \<and> spill_layout (ps @ qs) st'"
proof (induction qs arbitrary: ps st)
  case (Cons q qs)
  obtain f offsets lens n where st: "st = (f, offsets, lens, n)" by (cases st)
  from Cons.IH [OF spill_layout_snoc [OF Cons.prems(1) [unfolded st], of q]] Cons.prems(2)
  show ?case by (simp add: st)
qed simp

lemma drain_layout:
  "spill_layout ps st \<Longrightarrow> list_all (\<lambda>p. length p \<le> u32_MAX) qs \<Longrightarrow> spill_layout (ps @ qs) (drain_resident qs st)"
proof (induction qs arbitrary: ps st)
  case (Cons q qs)
  obtain f offsets lens n where st: "st = (f, offsets, lens, n)" by (cases st)
  from Cons.IH [OF spill_layout_snoc [OF Cons.prems(1) [unfolded st], of q]] Cons.prems(2)
  show ?case by (simp add: st min_absorb1 Let_def)
qed simp

lemma concat_split: "i < length ps \<Longrightarrow> concat ps = concat (take i ps) @ ps ! i @ concat (drop (Suc i) ps)"
  using arg_cong [OF id_take_nth_drop [of i ps], of concat] by simp

lemma concat_slice: "i < length ps \<Longrightarrow> take (length (ps ! i)) (drop (length (concat (take i ps))) (concat ps)) = ps ! i"
proof -
  assume i: "i < length ps"
  show ?thesis unfolding concat_split [OF i] by simp
qed

text \<open>A spill that holds a list of payloads: a resident one, or one staged in full.\<close>

definition spill_holds :: "bytes list \<Rightarrow> write_set_spill \<Rightarrow> bool" where
  "spill_holds ps sp \<longleftrightarrow> (sp_resident sp = ps \<and> sp_offsets sp = [] \<and> sp_lens sp = []) \<or>
     (\<exists>file. spill_layout ps (file, sp_offsets sp, sp_lens sp, sp_bytes sp) \<and> sp_resident sp = []
        \<and> sp_map sp = (if sp_bytes sp = 0 then None else Some file))"

lemma spill_entry_holds:
  assumes "spill_holds ps sp" "length (concat ps) \<le> u64_MAX"
  shows "spill_len sp = length ps"
    and "spill_entry sp i = (if i < length ps then Inr (ps ! i) else Inl (IndexOutOfRange i))"
proof -
  show "spill_len sp = length ps" using assms(1) by (auto simp: spill_holds_def spill_layout_def spill_len_def)
  have bound: "length (concat (take j ps)) + length (ps ! j) \<le> length (concat ps)" if "j < length ps" for j
    using arg_cong [OF concat_split [OF that], of length] by simp
  have empty: "ps ! j = []" if "j < length ps" "concat ps = []" for j
    using that by (simp add: concat_eq_Nil_conv)
  show "spill_entry sp i = (if i < length ps then Inr (ps ! i) else Inl (IndexOutOfRange i))"
    using assms bound [of i] empty [of i] concat_slice [of i ps]
    by (auto simp: spill_holds_def spill_layout_def spill_entry_def Let_def intro!: bexI [OF _ nth_mem])
qed

lemma stage_blobs_Inr: "stage_blobs ps st = Inr st' \<Longrightarrow> list_all (\<lambda>p. length p \<le> u32_MAX) ps"
  by (induction ps st rule: stage_blobs.induct) (auto split: if_splits)

lemma spill_stage_holds: "spill_stage io ps = Inr sp \<Longrightarrow> spill_holds ps sp"
proof -
  assume *: "spill_stage io ps = Inr sp"
  then obtain w offsets lens n where st: "stage_blobs ps ([], [], [], 0) = Inr (w, offsets, lens, n)"
    and sp: "sp = \<lparr>sp_map = (if n = 0 then None else Some w), sp_reservation = True, sp_resident = [], sp_resident_bytes = 0,
            sp_offsets = offsets, sp_lens = lens, sp_bytes = n\<rparr>"
    by (auto simp: spill_stage_def split: if_splits sum.splits)
  then have "spill_layout ps (w, offsets, lens, n)"
    using stage_blobs_layout [OF spill_layout_Nil stage_blobs_Inr [OF st]] by simp
  then show ?thesis by (auto simp: spill_holds_def sp)
qed

lemma spill_stage_succeeds: "list_all (\<lambda>p. length p \<le> u32_MAX) ps \<Longrightarrow> \<exists>sp. spill_stage True ps = Inr sp"
  using stage_blobs_layout [OF spill_layout_Nil, of ps] by (auto simp: spill_stage_def)

section \<open>The streaming builder\<close>

definition builder_holds :: "bytes list \<Rightarrow> spill_builder \<Rightarrow> bool" where
  "builder_holds ps b \<longleftrightarrow> list_all (\<lambda>p. length p \<le> u32_MAX) ps \<and>
     (case sb_writer b of
        None \<Rightarrow> sb_resident b = ps \<and> sb_offsets b = [] \<and> sb_lens b = [] \<and> sb_bytes b = 0
          \<and> sb_resident_bytes b = length (concat ps) \<and> sb_resident_bytes b \<le> sb_threshold b
      | Some w \<Rightarrow> spill_layout ps (w, sb_offsets b, sb_lens b, sb_bytes b) \<and> sb_resident b = [] \<and> sb_resident_bytes b = 0)"

lemma write_spilled_holds:
  assumes "builder_holds ps b" "sb_writer b = Some w" "length p \<le> u32_MAX"
  shows "\<exists>b'. write_spilled True p (length p) b = Inr b' \<and> builder_holds (ps @ [p]) b' \<and> sb_threshold b' = sb_threshold b"
  using assms spill_layout_snoc [of ps w "sb_offsets b" "sb_lens b" "sb_bytes b" p]
  by (simp add: builder_holds_def write_spilled_def)

lemma builder_append_holds:
  assumes "builder_holds ps b" "length p \<le> u32_MAX"
  shows "\<exists>b'. builder_append True p b = Inr b' \<and> builder_holds (ps @ [p]) b' \<and> sb_threshold b' = sb_threshold b"
proof (cases "sb_writer b")
  case None
  show ?thesis
  proof (cases "sb_resident_bytes b + length p \<le> sb_threshold b")
    case True
    then show ?thesis using assms None by (simp add: builder_holds_def builder_append_def)
  next
    case False
    obtain w offsets lens n where d: "drain_resident ps ([], [], [], 0) = (w, offsets, lens, n)" by (metis prod_cases4)
    then have "spill_layout ps (w, offsets, lens, n)"
      using drain_layout [OF spill_layout_Nil, of ps] assms(1) by (simp add: builder_holds_def)
    moreover define b1 where "b1 = b\<lparr>sb_resident := [], sb_resident_bytes := 0, sb_writer := Some w, sb_offsets := offsets,
        sb_lens := lens, sb_bytes := n\<rparr>"
    ultimately have "builder_holds ps b1" "sb_writer b1 = Some w" "sb_threshold b1 = sb_threshold b" "begin_spill True b = Inr b1"
      using assms(1) None d by (simp_all add: builder_holds_def begin_spill_def)
    then show ?thesis using write_spilled_holds [of ps b1 w p] assms(2) None False by (simp add: builder_append_def)
  qed
next
  case (Some w)
  then show ?thesis using write_spilled_holds [OF assms(1) Some assms(2)] assms(2) by (simp add: builder_append_def)
qed

fun builder_append_all :: "bytes list \<Rightarrow> spill_builder \<Rightarrow> spill_error + spill_builder" where
  "builder_append_all [] b = Inr b"
| "builder_append_all (p # ps) b = (case builder_append True p b of Inl e \<Rightarrow> Inl e | Inr b \<Rightarrow> builder_append_all ps b)"

lemma builder_append_all_holds:
  "builder_holds ps b \<Longrightarrow> list_all (\<lambda>p. length p \<le> u32_MAX) qs \<Longrightarrow>
    \<exists>b'. builder_append_all qs b = Inr b' \<and> builder_holds (ps @ qs) b' \<and> sb_threshold b' = sb_threshold b"
proof (induction qs arbitrary: ps b)
  case (Cons q qs)
  then obtain b1 where b1: "builder_append True q b = Inr b1" "builder_holds (ps @ [q]) b1" "sb_threshold b1 = sb_threshold b"
    using builder_append_holds [of ps b q] by auto
  then show ?case using Cons.IH [OF b1(2)] Cons.prems(2) by auto
qed simp

lemma builder_finish_holds:
  "builder_holds ps b \<Longrightarrow> \<exists>sp. builder_finish True b = Inr sp \<and> spill_holds ps sp \<and> sp_resident_bytes sp \<le> sb_threshold b"
  by (cases "sb_writer b") (auto simp: builder_holds_def builder_finish_def spill_holds_def)

section \<open>Properties\<close>



end
