(* ===== verification/Apply_Engine.thy ===== *)
theory Apply_Engine
  imports Dep_Wait Spill
begin

text \<open>
  The dependency-ordered apply engine (crate \<open>ferrosa-cluster\<close>: \<open>accord/apply.rs\<close>, \<open>DepWaitApplier\<close>): a
  committed write-set is handed to storage once every dependency is applied, and parked, in memory or
  staged on disk, until then; applying one transaction cascades to those it unblocks.  The storage
  applier is a parameter, the state of storage part of the engine's state.  The engine is entered by
  one caller at a time, under its gate.
\<close>

section \<open>Definitions\<close>

record apply_mutation =
  am_data :: bytes
  am_t :: timestamp
  am_deps :: "txn_id list"

datatype apply_reason = ReadBackFailed usize spill_error | ParkingFailed spill_error | CycleRefused dep_wait_error | StorageFailed string
datatype apply_error = ApplyError txn_id apply_reason

record 's storage_applier =
  apply_writeset :: "txn_id \<Rightarrow> apply_mutation list \<Rightarrow> 's \<Rightarrow> 's \<times> (apply_error + unit)"
  apply_writeset_borrowed :: "txn_id \<Rightarrow> apply_mutation list \<Rightarrow> 's \<Rightarrow> 's \<times> (apply_error + unit)"
  prune_applied_below :: "timestamp \<Rightarrow> 's \<Rightarrow> 's \<times> usize"

definition DEFAULT_PARKED_APPLY_RECLAIM_SECS :: u64 where "DEFAULT_PARKED_APPLY_RECLAIM_SECS = 60"

record staged_mutation =
  sm_index :: usize
  sm_t :: timestamp
  sm_deps :: "txn_id list"

datatype parked_write_set = Resident "apply_mutation list" | Staged write_set_spill "staged_mutation list"

record parked_apply =
  pa_set :: parked_write_set
  parked_at :: instant

record reclaimed_park =
  rp_txn_id :: txn_id
  unresolved_deps :: "txn_id list"

definition resident_payload_bytes :: "parked_write_set \<Rightarrow> usize" where
  "resident_payload_bytes ps = (case ps of Resident ms \<Rightarrow> sum_list (map (\<lambda>m. length (am_data m)) ms) | Staged sp es \<Rightarrow> 0)"

definition staged_spill_bytes :: "parked_write_set \<Rightarrow> u64" where
  "staged_spill_bytes ps = (case ps of Resident ms \<Rightarrow> 0 | Staged sp es \<Rightarrow> sp_bytes sp)"

fun read_staged :: "txn_id \<Rightarrow> write_set_spill \<Rightarrow> staged_mutation list \<Rightarrow> apply_error + apply_mutation list" where
  "read_staged txn sp [] = Inr []"
| "read_staged txn sp (m # es) =
     (case spill_mutation sp (sm_index m) of
        Inl e \<Rightarrow> Inl (ApplyError txn (ReadBackFailed (sm_index m) e))
      | Inr d \<Rightarrow> (case read_staged txn sp es of
                    Inl e \<Rightarrow> Inl e
                  | Inr ms \<Rightarrow> Inr (\<lparr>am_data = d, am_t = sm_t m, am_deps = sm_deps m\<rparr> # ms)))"

definition into_mutations :: "txn_id \<Rightarrow> parked_write_set \<Rightarrow> apply_error + apply_mutation list" where
  "into_mutations txn ps = (case ps of Resident ms \<Rightarrow> Inr ms | Staged sp es \<Rightarrow> read_staged txn sp es)"

definition build_parked_set :: "bool \<Rightarrow> txn_id \<Rightarrow> apply_mutation list \<Rightarrow> u64 \<Rightarrow> apply_error + parked_write_set" where
  "build_parked_set io txn ms floor_bytes =
     (if sum_list (map (\<lambda>m. length (am_data m)) ms) < floor_bytes then Inr (Resident ms)
      else case spill_stage io (map am_data ms) of
        Inl e \<Rightarrow> Inl (ApplyError txn (ParkingFailed e))
      | Inr sp \<Rightarrow> Inr (Staged sp (map (\<lambda>(i, m). \<lparr>sm_index = i, sm_t = am_t m, sm_deps = am_deps m\<rparr>) (enumerate 0 ms))))"

definition union_write_set_deps :: "txn_id list \<Rightarrow> txn_id list" where
  "union_write_set_deps deps = fold (\<lambda>dep out. if dep \<in> set out then out else out @ [dep]) deps []"

record 's dep_wait_applier =
  e_graph :: dep_wait_graph
  e_storage :: 's
  e_pending :: "(txn_id \<times> parked_apply) list"
  reclaim_bound :: u64
  park_spill_floor_bytes :: u64

definition applier_new :: "'s \<Rightarrow> u64 \<Rightarrow> u64 \<Rightarrow> 's dep_wait_applier" where
  "applier_new s bound floor_bytes = \<lparr>e_graph = dep_graph_new, e_storage = s, e_pending = [], reclaim_bound = bound,
     park_spill_floor_bytes = floor_bytes\<rparr>"

definition with_park_spill_floor :: "u64 \<Rightarrow> 's dep_wait_applier \<Rightarrow> 's dep_wait_applier" where
  "with_park_spill_floor n e = e\<lparr>park_spill_floor_bytes := n\<rparr>"

definition park :: "bool \<Rightarrow> instant \<Rightarrow> txn_id \<Rightarrow> apply_mutation list \<Rightarrow> 's dep_wait_applier \<Rightarrow> apply_error + 's dep_wait_applier" where
  "park io now txn ms e =
     (case build_parked_set io txn ms (park_spill_floor_bytes e) of
        Inl err \<Rightarrow> Inl err
      | Inr ps \<Rightarrow> Inr (e\<lparr>e_pending := hm_insert txn \<lparr>pa_set = ps, parked_at = now\<rparr> (e_pending e)\<rparr>))"

fun reclaim_each :: "txn_id list \<Rightarrow> dep_wait_graph \<Rightarrow> dep_wait_graph \<times> reclaimed_park list" where
  "reclaim_each [] g = (g, [])"
| "reclaim_each (txn # txns) g =
     (let deps = sort (case deps_of g txn of Some ds \<Rightarrow> ds | None \<Rightarrow> []);
          (g, rest) = reclaim_each txns (clear_waits txn g)
      in (g, \<lparr>rp_txn_id = txn, unresolved_deps = deps\<rparr> # rest))"

definition reclaim_stale :: "instant \<Rightarrow> u64 \<Rightarrow> 's dep_wait_applier \<Rightarrow> 's dep_wait_applier \<times> reclaimed_park list" where
  "reclaim_stale now max_age e =
     (let stale = map fst (filter (\<lambda>(_, pk). now - parked_at pk \<ge> max_age) (e_pending e));
          (g, reclaimed) = reclaim_each stale (e_graph e)
      in (e\<lparr>e_graph := g, e_pending := fold (\<lambda>rp. hm_remove (rp_txn_id rp)) reclaimed (e_pending e)\<rparr>, reclaimed))"

definition forget_graph_applied :: "txn_id list \<Rightarrow> 's dep_wait_applier \<Rightarrow> 's dep_wait_applier \<times> usize" where
  "forget_graph_applied txns e = (let (g, n) = forget txns (e_graph e) in (e\<lparr>e_graph := g\<rparr>, n))"

fun register_waits :: "instant \<Rightarrow> txn_id \<Rightarrow> txn_id list \<Rightarrow> bool \<Rightarrow> dep_wait_graph \<Rightarrow> dep_wait_graph \<times> (apply_error + bool)" where
  "register_waits now txn [] waiting g = (g, Inr waiting)"
| "register_waits now txn (dep # deps) waiting g =
     (if g_is_applied g dep then register_waits now txn deps waiting g
      else case register_wait now txn dep g of
        (g, Inl err) \<Rightarrow> (clear_waits txn g, Inl (ApplyError txn (CycleRefused err)))
      | (g, Inr _) \<Rightarrow> register_waits now txn deps True g)"

definition register_waits_or_refuse :: "instant \<Rightarrow> txn_id \<Rightarrow> txn_id list \<Rightarrow> dep_wait_graph \<Rightarrow> dep_wait_graph \<times> (apply_error + bool)" where
  "register_waits_or_refuse now txn deps g = register_waits now txn deps False g"

text \<open>One turn of the loop of \<open>apply_unblocked\<close>: the engine after it, the waiters woken and what was persisted.\<close>

definition unblock_one :: "'s storage_applier \<Rightarrow> instant \<Rightarrow> txn_id \<Rightarrow> 's dep_wait_applier
    \<Rightarrow> 's dep_wait_applier \<times> txn_id list \<times> (txn_id \<times> bytes) list" where
  "unblock_one ap now waiter e =
     (case map_of (e_pending e) waiter of
        None \<Rightarrow> (let (g, woken) = mark_applied now waiter (e_graph e) in (e\<lparr>e_graph := g\<rparr>, woken, []))
      | Some parked \<Rightarrow>
          (let e = e\<lparr>e_pending := hm_remove waiter (e_pending e)\<rparr>
           in case into_mutations waiter (pa_set parked) of
                Inl err \<Rightarrow> (e, [], [])
              | Inr ms \<Rightarrow>
                  (case apply_writeset ap waiter ms (e_storage e) of
                     (s, Inl err) \<Rightarrow> (e\<lparr>e_storage := s\<rparr>, [], [])
                   | (s, Inr _) \<Rightarrow>
                       (let (g, woken) = mark_applied now waiter (e_graph e)
                        in (e\<lparr>e_storage := s, e_graph := g\<rparr>, woken, map (\<lambda>m. (waiter, am_data m)) ms)))))"

lemma fold_hm_remove_length: "length (fold hm_remove ks m) \<le> length m"
  by (induction ks arbitrary: m) (auto intro: order_trans [OF _ length_hm_remove_le])

lemma mark_applied_length:
  assumes "mark_applied now txn g = (g', woken)"
  shows "length (waiting_on g') \<le> length (waiting_on g)"
    and "woken \<noteq> [] \<Longrightarrow> length (waiting_on g') < length (waiting_on g)"
proof -
  obtain w where f: "fold (mark_woken txn) (hm_get (waited_by g) txn) (waiting_on g, []) = (w, woken)"
    and g': "waiting_on g' = hm_remove txn (fold hm_remove woken w)"
    using assms by (auto simp: mark_applied_def split: prod.splits)
  have keys: "map fst w = map fst (waiting_on g)" using mark_woken_fold [OF f] by simp
  have len: "length w = length (waiting_on g)" using arg_cong [OF keys, of length] by simp
  have le: "length (waiting_on g') \<le> length (fold hm_remove woken w)" unfolding g' by (rule length_hm_remove_le)
  then show "length (waiting_on g') \<le> length (waiting_on g)" using fold_hm_remove_length [of woken w] len by simp
  assume "woken \<noteq> []"
  then obtain a rest where a: "woken = a # rest" by (cases woken) auto
  have "map_of (waiting_on g) a \<noteq> None" using conjunct2 [OF conjunct2 [OF mark_woken_fold [OF f, of a]]] a by auto
  then have "a \<in> fst ` set w" using arg_cong [OF keys, of set] by (auto simp: map_of_eq_None_iff simp del: not_None_eq)
  then have "length (hm_remove a w) < length w" by (rule length_hm_remove)
  then show "length (waiting_on g') < length (waiting_on g)"
    using le fold_hm_remove_length [of rest "hm_remove a w"] len by (simp add: a)
qed

lemma unblock_one_length:
  assumes "unblock_one ap now waiter e = (e', woken, out)"
  shows "length (waiting_on (e_graph e')) \<le> length (waiting_on (e_graph e))"
    and "woken \<noteq> [] \<Longrightarrow> length (waiting_on (e_graph e')) < length (waiting_on (e_graph e))"
  using assms mark_applied_length [of now waiter "e_graph e"]
  by (auto simp: unblock_one_def Let_def split: option.splits sum.splits prod.splits)

function (sequential) apply_unblocked :: "'s storage_applier \<Rightarrow> instant \<Rightarrow> txn_id list \<Rightarrow> 's dep_wait_applier
    \<Rightarrow> 's dep_wait_applier \<times> (txn_id \<times> bytes) list" where
  "apply_unblocked ap now [] e = (e, [])"
| "apply_unblocked ap now (waiter # queue) e =
     (let (e, woken, out) = unblock_one ap now waiter e;
          (e, rest) = apply_unblocked ap now (queue @ woken) e
      in (e, out @ rest))"
  by pat_completeness auto
termination
proof (relation "inv_image (less_than <*lex*> less_than) (\<lambda>(ap, now, queue, e). (length (waiting_on (e_graph e)), length queue))")
  fix ap now waiter queue and e :: "'s dep_wait_applier" and x e1 y woken out
  assume *: "x = unblock_one ap now waiter e" "(e1, y) = x" "(woken, out) = y"
  show "((ap, now, queue @ woken, e1), ap, now, waiter # queue, e)
      \<in> inv_image (less_than <*lex*> less_than) (\<lambda>(ap, now, queue, e). (length (waiting_on (e_graph e)), length queue))"
    using unblock_one_length [of ap now waiter e e1 woken out] * by (cases "woken = []") auto
qed (intro wf_inv_image wf_lex_prod wf_less_than)

definition cascade :: "'s storage_applier \<Rightarrow> instant \<Rightarrow> txn_id \<Rightarrow> 's dep_wait_applier \<Rightarrow> 's dep_wait_applier \<times> (txn_id \<times> bytes) list" where
  "cascade ap now just_applied e =
     (let (g, queue) = mark_applied now just_applied (e_graph e) in apply_unblocked ap now queue (e\<lparr>e_graph := g\<rparr>))"

definition notify_applied :: "'s storage_applier \<Rightarrow> instant \<Rightarrow> txn_id \<Rightarrow> 's dep_wait_applier \<Rightarrow> 's dep_wait_applier \<times> (txn_id \<times> bytes) list" where
  "notify_applied ap now txn e = cascade ap now txn e"

definition try_apply_writeset :: "'s storage_applier \<Rightarrow> bool \<Rightarrow> instant \<Rightarrow> txn_id \<Rightarrow> apply_mutation list \<Rightarrow> 's dep_wait_applier
    \<Rightarrow> 's dep_wait_applier \<times> (apply_error + (txn_id \<times> bytes) list)" where
  "try_apply_writeset ap io now txn ms e =
     (let deps = union_write_set_deps (concat (map am_deps ms))
      in case register_waits_or_refuse now txn deps (e_graph e) of
           (g, Inl err) \<Rightarrow> (e\<lparr>e_graph := g\<rparr>, Inl err)
         | (g, Inr True) \<Rightarrow>
             (case park io now txn ms (e\<lparr>e_graph := g\<rparr>) of
                Inl err \<Rightarrow> (e\<lparr>e_graph := clear_waits txn g\<rparr>, Inl err)
              | Inr e \<Rightarrow> (e, Inr []))
         | (g, Inr False) \<Rightarrow>
             (case apply_writeset ap txn ms (e_storage e) of
                (s, Inl err) \<Rightarrow> (e\<lparr>e_graph := g, e_storage := s\<rparr>, Inl err)
              | (s, Inr _) \<Rightarrow>
                  (let (e, rest) = cascade ap now txn (e\<lparr>e_graph := g, e_storage := s\<rparr>)
                   in (e, Inr (map (\<lambda>m. (txn, am_data m)) ms @ rest)))))"

definition try_apply :: "'s storage_applier \<Rightarrow> bool \<Rightarrow> instant \<Rightarrow> txn_id \<Rightarrow> apply_mutation \<Rightarrow> 's dep_wait_applier
    \<Rightarrow> 's dep_wait_applier \<times> (apply_error + (txn_id \<times> bytes) list)" where
  "try_apply ap io now txn m e = try_apply_writeset ap io now txn [m] e"

definition try_apply_writeset_borrowed :: "'s storage_applier \<Rightarrow> bool \<Rightarrow> instant \<Rightarrow> txn_id \<Rightarrow> apply_mutation list \<Rightarrow> 's dep_wait_applier
    \<Rightarrow> 's dep_wait_applier \<times> (apply_error + (txn_id \<times> bytes) list)" where
  "try_apply_writeset_borrowed ap io now txn ms e =
     (let deps = union_write_set_deps (concat (map am_deps ms))
      in case register_waits_or_refuse now txn deps (e_graph e) of
           (g, Inl err) \<Rightarrow> (e\<lparr>e_graph := g\<rparr>, Inl err)
         | (g, Inr True) \<Rightarrow>
             (case park io now txn ms (e\<lparr>e_graph := g\<rparr>) of
                Inl err \<Rightarrow> (e\<lparr>e_graph := clear_waits txn g\<rparr>, Inl err)
              | Inr e \<Rightarrow> (e, Inr []))
         | (g, Inr False) \<Rightarrow>
             (case apply_writeset_borrowed ap txn ms (e_storage e) of
                (s, Inl err) \<Rightarrow> (e\<lparr>e_graph := g, e_storage := s\<rparr>, Inl err)
              | (s, Inr _) \<Rightarrow>
                  (let (e, rest) = cascade ap now txn (e\<lparr>e_graph := g, e_storage := s\<rparr>)
                   in (e, Inr ((case ms of [] \<Rightarrow> [] | m # _ \<Rightarrow> [(txn, am_data m)]) @ rest)))))"

definition waiters_on :: "'s dep_wait_applier \<Rightarrow> txn_id \<Rightarrow> txn_id list" where
  "waiters_on e dep = waiters_of (e_graph e) dep"

definition parked_deps_of :: "'s dep_wait_applier \<Rightarrow> txn_id \<Rightarrow> txn_id list" where
  "parked_deps_of e waiter = (case deps_of (e_graph e) waiter of Some ds \<Rightarrow> ds | None \<Rightarrow> [])"

definition waive_dependency :: "'s storage_applier \<Rightarrow> instant \<Rightarrow> txn_id \<Rightarrow> txn_id \<Rightarrow> 's dep_wait_applier
    \<Rightarrow> 's dep_wait_applier \<times> (txn_id \<times> bytes) list" where
  "waive_dependency ap now waiter dep e =
     (let (g, unblocked) = waive waiter dep (e_graph e); e = e\<lparr>e_graph := g\<rparr>
      in if unblocked then apply_unblocked ap now [waiter] e else (e, []))"

section \<open>Parked write-sets\<close>

definition write_set_deps :: "apply_mutation list \<Rightarrow> txn_id set" where
  "write_set_deps ms = set (concat (map am_deps ms))"

lemma set_union_write_set_deps [simp]: "set (union_write_set_deps deps) = set deps"
proof -
  have "set (fold (\<lambda>dep out. if dep \<in> set out then out else out @ [dep]) deps out) = set out \<union> set deps" for out
    by (induction deps arbitrary: out) auto
  then show ?thesis by (simp add: union_write_set_deps_def)
qed

lemma read_staged_enumerate:
  "(\<And>i. i < length ms \<Longrightarrow> spill_mutation sp (k + i) = Inr (am_data (ms ! i))) \<Longrightarrow>
    read_staged txn sp (map (\<lambda>(i, m). \<lparr>sm_index = i, sm_t = am_t m, sm_deps = am_deps m\<rparr>) (enumerate k ms)) = Inr ms"
proof (induction ms arbitrary: k)
  case (Cons m ms)
  have "spill_mutation sp k = Inr (am_data m)" using Cons.prems [of 0] by simp
  moreover have "spill_mutation sp (Suc k + i) = Inr (am_data (ms ! i))" if "i < length ms" for i
    using Cons.prems [of "Suc i"] that by simp
  ultimately show ?case using Cons.IH [of "Suc k"] by simp
qed simp

lemma build_parked_set_reads:
  assumes "build_parked_set io txn ms floor_bytes = Inr ps" "length (concat (map am_data ms)) \<le> u64_MAX"
  shows "into_mutations txn ps = Inr ms"
proof (cases "sum_list (map (\<lambda>m. length (am_data m)) ms) < floor_bytes")
  case True
  then show ?thesis using assms(1) by (auto simp: build_parked_set_def into_mutations_def)
next
  case False
  then obtain sp where sp: "spill_stage io (map am_data ms) = Inr sp"
    and ps: "ps = Staged sp (map (\<lambda>(i, m). \<lparr>sm_index = i, sm_t = am_t m, sm_deps = am_deps m\<rparr>) (enumerate 0 ms))"
    using assms(1) by (auto simp: build_parked_set_def split: sum.splits)
  then show ?thesis using spill_entry_holds(2) [OF spill_stage_holds [OF sp] assms(2)]
    by (auto simp: into_mutations_def spill_mutation_def intro!: read_staged_enumerate)
qed

section \<open>Dependency order\<close>

text \<open>
  Of a history of the engine: the dependencies each transaction was last submitted with, the transactions
  applied so far, and the waits that were waived.
\<close>

definition parked_for :: "'s dep_wait_applier \<Rightarrow> (txn_id \<Rightarrow> txn_id set) \<Rightarrow> txn_id \<Rightarrow> bool" where
  "parked_for e need x \<longleftrightarrow> (\<exists>pk ms. map_of (e_pending e) x = Some pk \<and> into_mutations x (pa_set pk) = Inr ms
     \<and> ms \<noteq> [] \<and> write_set_deps ms = need x)"

definition engine_inv :: "'s dep_wait_applier \<Rightarrow> (txn_id \<Rightarrow> txn_id set) \<Rightarrow> txn_id set \<Rightarrow> (txn_id \<times> txn_id) set \<Rightarrow> bool" where
  "engine_inv e need D waived \<longleftrightarrow> graph_wf (e_graph e) \<and> (\<forall>x. g_is_applied (e_graph e) x \<longrightarrow> x \<in> D)
     \<and> (\<forall>x. is_waiting (e_graph e) x \<longrightarrow> parked_for e need x
          \<and> need x \<subseteq> waits_rel (waiting_on (e_graph e)) `` {x} \<union> D \<union> waived `` {x})"

definition ready :: "'s dep_wait_applier \<Rightarrow> (txn_id \<Rightarrow> txn_id set) \<Rightarrow> txn_id set \<Rightarrow> (txn_id \<times> txn_id) set \<Rightarrow> txn_id \<Rightarrow> bool" where
  "ready e need D waived x \<longleftrightarrow> \<not> is_waiting (e_graph e) x \<and> parked_for e need x \<and> need x \<subseteq> D \<union> waived `` {x}"

fun in_dep_order :: "(txn_id \<Rightarrow> txn_id set) \<Rightarrow> (txn_id \<times> txn_id) set \<Rightarrow> txn_id set \<Rightarrow> (txn_id \<times> bytes) list \<Rightarrow> bool" where
  "in_dep_order need waived D [] \<longleftrightarrow> True"
| "in_dep_order need waived D ((x, _) # out) \<longleftrightarrow> need x \<subseteq> D \<union> waived `` {x} \<and> in_dep_order need waived (insert x D) out"

lemma in_dep_order_append: "in_dep_order need waived D (a @ b) \<longleftrightarrow>
    in_dep_order need waived D a \<and> in_dep_order need waived (D \<union> fst ` set a) b"
  by (induction a arbitrary: D) auto

lemma in_dep_order_own: "need x \<subseteq> D \<union> waived `` {x} \<Longrightarrow> in_dep_order need waived D (map (\<lambda>m. (x, am_data m)) ms)"
proof (induction ms arbitrary: D)
  case (Cons m ms)
  then have "need x \<subseteq> insert x D \<union> waived `` {x}" by blast
  from Cons.IH [OF this] Cons.prems show ?case by simp
qed simp

lemma woken_distinct:
  "fold (mark_woken txn) waiters (w, woken) = (w', woken') \<Longrightarrow> distinct (woken @ waiters) \<Longrightarrow> distinct woken'"
proof (induction waiters arbitrary: w woken)
  case (Cons a waiters)
  obtain w1 woken1 where 1: "mark_woken txn a (w, woken) = (w1, woken1)" by fastforce
  then have "woken1 = woken \<or> woken1 = woken @ [a]" by (auto simp: mark_woken_def split: option.splits if_splits)
  then show ?case using Cons.IH [of w1 woken1] Cons.prems 1 by auto
qed simp

lemma parked_for_cong: "map_of (e_pending e') x = map_of (e_pending e) x \<Longrightarrow> parked_for e' need x = parked_for e need x"
  by (simp add: parked_for_def)

lemma marked_inv:
  assumes inv: "engine_inv e need D waived" and mark: "mark_applied now x (e_graph e) = (g, woken)"
    and e': "e_graph e' = g" "\<And>y. y \<noteq> x \<Longrightarrow> map_of (e_pending e') y = map_of (e_pending e) y"
  shows "engine_inv e' need (insert x D) waived"
    and "y \<in> set woken \<Longrightarrow> ready e' need (insert x D) waived y"
    and "distinct woken"
proof -
  have wf: "graph_wf (e_graph e)" using inv by (simp add: engine_inv_def)
  note M = mark_applied_spec [OF wf mark]
  have was: "is_waiting (e_graph e) y \<and> y \<noteq> x" if "is_waiting g y" for y
    using that M(2) unfolding is_waiting_edge [OF wf] is_waiting_edge [OF M(1)] by blast
  have need: "need y \<subseteq> waits_rel (waiting_on g) `` {y} \<union> insert x D \<union> waived `` {y}"
    if "is_waiting (e_graph e) y" "y \<noteq> x" for y
    using inv that unfolding engine_inv_def M(2) by auto
  have parked: "parked_for e' need y" if "is_waiting (e_graph e) y" "y \<noteq> x" for y
    using inv that e'(2) parked_for_cong unfolding engine_inv_def by metis
  show "engine_inv e' need (insert x D) waived" unfolding engine_inv_def e'(1)
    using M(1,4) inv was need parked by (auto simp: engine_inv_def)
  have "waits_rel (waiting_on g) `` {y} = {}" if "\<not> is_waiting g y"
    using that unfolding is_waiting_edge [OF M(1)] by blast
  then show "ready e' need (insert x D) waived y" if "y \<in> set woken"
    using that M(3) need [of y] parked [of y] unfolding ready_def e'(1) by auto
  have "distinct (hm_get (waited_by (e_graph e)) x)" using wf by (simp add: graph_wf_def waiters_of_def)
  then show "distinct woken" using mark woken_distinct by (auto simp: mark_applied_def split: prod.splits)
qed

lemma unblock_one_cases:
  assumes "parked_for e need x" "unblock_one ap now x e = (e', woken, out)"
  obtains
    (failed) "e_graph e' = e_graph e" "e_pending e' = hm_remove x (e_pending e)" "woken = []" "out = []"
      "\<exists>s ms err. snd (apply_writeset ap x ms s) = Inl err"
  | (persisted) ms :: "apply_mutation list" where "mark_applied now x (e_graph e) = (e_graph e', woken)" "e_pending e' = hm_remove x (e_pending e)"
      "ms \<noteq> []" "out = map (\<lambda>m. (x, am_data m)) ms"
proof -
  obtain pk ms where pk: "map_of (e_pending e) x = Some pk" "into_mutations x (pa_set pk) = Inr ms" "ms \<noteq> []"
    using assms(1) by (auto simp: parked_for_def)
  obtain s r where s: "apply_writeset ap x ms (e_storage e) = (s, r)" by fastforce
  show thesis
  proof (cases r)
    case (Inl err)
    then show thesis using assms(2) pk s by (intro failed) (auto simp: unblock_one_def Let_def intro!: exI [of _ ms] exI [of _ "e_storage e"])
  next
    case (Inr u)
    then show thesis using assms(2) pk s
      by (intro persisted [of ms]) (auto simp: unblock_one_def Let_def split: prod.splits)
  qed
qed

lemma unblock_one_inv:
  assumes inv: "engine_inv e need D waived" and x: "ready e need D waived x"
    and u: "unblock_one ap now x e = (e', woken, out)"
  shows "engine_inv e' need (D \<union> fst ` set out) waived \<and> in_dep_order need waived D out
    \<and> (\<forall>y \<in> set woken. ready e' need (D \<union> fst ` set out) waived y \<and> is_waiting (e_graph e) y) \<and> distinct woken
    \<and> (\<forall>y. y \<noteq> x \<longrightarrow> map_of (e_pending e') y = map_of (e_pending e) y)
    \<and> (\<forall>y. is_waiting (e_graph e') y \<longrightarrow> is_waiting (e_graph e) y)"
proof -
  have px: "parked_for e need x" using x by (simp add: ready_def)
  from px u show ?thesis
  proof (cases rule: unblock_one_cases)
    case failed
    have "parked_for e' need y = parked_for e need y" if "is_waiting (e_graph e) y" for y
      using that x by (intro parked_for_cong) (auto simp: failed(2) ready_def)
    then have "engine_inv e' need D waived" using inv unfolding engine_inv_def failed(1) by blast
    then show ?thesis using failed by simp
  next
    case (persisted ms)
    have out: "fst ` set out = {x}" using persisted(3,4) by (cases ms) auto
    have pend: "map_of (e_pending e') y = map_of (e_pending e) y" if "y \<noteq> x" for y using that persisted(2) by simp
    note M = marked_inv [OF inv persisted(1) refl pend]
    have wf: "graph_wf (e_graph e)" using inv by (simp add: engine_inv_def)
    note S = mark_applied_spec [OF wf persisted(1)]
    have "is_waiting (e_graph e) y" if "is_waiting (e_graph e') y" for y
      using that S(2) unfolding is_waiting_edge [OF wf] is_waiting_edge [OF S(1)] by blast
    moreover have "in_dep_order need waived D out" using x persisted(4) by (simp add: ready_def in_dep_order_own)
    ultimately show ?thesis using M pend S(3) by (simp add: out)
  qed
qed

lemma ready_other:
  assumes "ready e need D waived y" "y \<noteq> x" "map_of (e_pending e') y = map_of (e_pending e) y"
    and "is_waiting (e_graph e') y \<Longrightarrow> is_waiting (e_graph e) y" "D \<subseteq> D'"
  shows "ready e' need D' waived y"
  using assms parked_for_cong [OF assms(3)] by (auto simp: ready_def)

lemma unblocked_queue:
  assumes "engine_inv e need D waived" "\<forall>y \<in> set (x # queue). ready e need D waived y" "distinct (x # queue)"
    and "unblock_one ap now x e = (e', woken, out)"
  shows "(\<forall>y \<in> set (queue @ woken). ready e' need (D \<union> fst ` set out) waived y) \<and> distinct (queue @ woken)"
proof -
  have x: "ready e need D waived x" using assms(2) by simp
  note U = unblock_one_inv [OF assms(1) x assms(4)]
  have "ready e' need (D \<union> fst ` set out) waived y" if "y \<in> set queue" for y
  proof (rule ready_other)
    show "ready e need D waived y" "y \<noteq> x" using that assms(2,3) by auto
    then show "map_of (e_pending e') y = map_of (e_pending e) y" using U by blast
    show "is_waiting (e_graph e') y \<Longrightarrow> is_waiting (e_graph e) y" using U by blast
  qed simp
  moreover have "set queue \<inter> set woken = {}" using U assms(2) by (auto simp: ready_def)
  ultimately show ?thesis using U assms(3) by auto
qed

lemma apply_unblocked_inv:
  assumes "engine_inv e need D waived" "\<forall>x \<in> set queue. ready e need D waived x" "distinct queue"
    and "apply_unblocked ap now queue e = (e', out)"
  shows "engine_inv e' need (D \<union> fst ` set out) waived \<and> in_dep_order need waived D out"
  using assms
proof (induction ap now queue e arbitrary: D out rule: apply_unblocked.induct)
  case (2 ap now x queue e)
  obtain e1 woken out1 where u: "unblock_one ap now x e = (e1, woken, out1)" by (metis prod_cases3)
  obtain out2 where r: "apply_unblocked ap now (queue @ woken) e1 = (e', out2)" "out = out1 @ out2"
    using 2(5) u by (auto split: prod.splits)
  have x: "ready e need D waived x" using 2(3) by simp
  note U = unblock_one_inv [OF 2(2) x u] and Q = unblocked_queue [OF 2(2-4) u]
  have "engine_inv e' need (D \<union> fst ` set out1 \<union> fst ` set out2) waived
      \<and> in_dep_order need waived (D \<union> fst ` set out1) out2"
    by (rule "2.IH" [OF u [symmetric] refl refl _ _ _ r(1)]) (use U Q in simp_all)
  then show ?case using U by (simp add: r(2) in_dep_order_append Un_assoc image_Un)
qed simp

text \<open>With a storage applier that does not fail, whatever stops waiting is applied.\<close>

lemma apply_unblocked_live:
  assumes "engine_inv e need D waived" "\<forall>x \<in> set queue. ready e need D waived x" "distinct queue"
    and "apply_unblocked ap now queue e = (e', out)" "\<And>x ms s. snd (apply_writeset ap x ms s) = Inr ()"
  shows "(x \<in> set queue \<or> g_is_applied (e_graph e) x \<or> is_waiting (e_graph e) x \<and> \<not> is_waiting (e_graph e') x
      \<longrightarrow> g_is_applied (e_graph e') x)
    \<and> waits_rel (waiting_on (e_graph e')) \<subseteq> waits_rel (waiting_on (e_graph e))"
  using assms
proof (induction ap now queue e arbitrary: D out rule: apply_unblocked.induct)
  case (2 ap now z queue e)
  obtain e1 woken out1 where u: "unblock_one ap now z e = (e1, woken, out1)" by (metis prod_cases3)
  obtain out2 where r: "apply_unblocked ap now (queue @ woken) e1 = (e', out2)"
    using 2(5) u by (auto split: prod.splits)
  have z: "ready e need D waived z" using 2(3) by simp
  note U = unblock_one_inv [OF 2(2) z u] and Q = unblocked_queue [OF 2(2-4) u]
  have IH: "(x \<in> set (queue @ woken) \<or> g_is_applied (e_graph e1) x \<or> is_waiting (e_graph e1) x \<and> \<not> is_waiting (e_graph e') x
      \<longrightarrow> g_is_applied (e_graph e') x) \<and> waits_rel (waiting_on (e_graph e')) \<subseteq> waits_rel (waiting_on (e_graph e1))"
    by (rule "2.IH" [OF u [symmetric] refl refl conjunct1 [OF U] conjunct1 [OF Q] conjunct2 [OF Q] r 2(6)])
  have pz: "parked_for e need z" using z by (simp add: ready_def)
  have mark: "mark_applied now z (e_graph e) = (e_graph e1, woken)"
    using pz u
  proof (cases rule: unblock_one_cases)
    case failed
    then show ?thesis using 2(6) by (metis Inl_Inr_False)
  qed
  have wf: "graph_wf (e_graph e)" using 2(2) by (simp add: engine_inv_def)
  note M = mark_applied_spec [OF wf mark]
  have nz: "\<not> is_waiting (e_graph e) z" using z by (simp add: ready_def)
  have "g_is_applied (e_graph e') x" if "x = z \<or> x \<in> set queue \<or> g_is_applied (e_graph e) x" using that IH M(4) by auto
  moreover have "g_is_applied (e_graph e') x" if "is_waiting (e_graph e) x" "\<not> is_waiting (e_graph e') x"
    using that IH M(3) nz by (metis in_set_conv_decomp_first set_append Un_iff)
  moreover have "waits_rel (waiting_on (e_graph e1)) \<subseteq> waits_rel (waiting_on (e_graph e))" unfolding M(2) by blast
  ultimately show ?case using IH by auto
qed auto

lemma cascade_inv:
  assumes "engine_inv e need D waived" "cascade ap now x e = (e', out)"
  shows "engine_inv e' need (insert x D \<union> fst ` set out) waived \<and> in_dep_order need waived (insert x D) out"
proof -
  obtain g queue where m: "mark_applied now x (e_graph e) = (g, queue)" by fastforce
  have r: "apply_unblocked ap now queue (e\<lparr>e_graph := g\<rparr>) = (e', out)" using assms(2) by (simp add: cascade_def m)
  have "e_graph (e\<lparr>e_graph := g\<rparr>) = g" "\<And>y. map_of (e_pending (e\<lparr>e_graph := g\<rparr>)) y = map_of (e_pending e) y" by simp_all
  note M = marked_inv [OF assms(1) m this]
  show ?thesis by (rule apply_unblocked_inv [OF _ _ _ r]) (use M in auto)
qed

lemma register_waits_spec:
  assumes "graph_wf g" "register_waits now x deps waiting g = (g', r)"
  shows "graph_wf g' \<and> g_applied g' = g_applied g \<and> (case r of
      Inl _ \<Rightarrow> waits_rel (waiting_on g') = {(a, b) \<in> waits_rel (waiting_on g). a \<noteq> x}
    | Inr w \<Rightarrow> waits_rel (waiting_on g') = waits_rel (waiting_on g) \<union> {x} \<times> {d \<in> set deps. \<not> g_is_applied g d}
        \<and> (w \<longleftrightarrow> waiting \<or> (\<exists>d \<in> set deps. \<not> g_is_applied g d)) \<and> ((\<forall>d \<in> set deps. g_is_applied g d) \<longrightarrow> g' = g))"
  using assms
proof (induction deps arbitrary: waiting g)
  case (Cons d deps)
  show ?case
  proof (cases "g_is_applied g d")
    case True
    then show ?thesis using Cons.IH [OF Cons.prems(1), of waiting] Cons.prems(2)
      by (auto split: sum.splits)
  next
    case False
    obtain g1 r1 where r1: "register_wait now x d g = (g1, r1)" by fastforce
    note R = register_wait_spec [OF Cons.prems(1) r1]
    have app: "g_is_applied g1 y = g_is_applied g y" for y by (simp add: g_is_applied_def R(4))
    show ?thesis
    proof (cases r1)
      case (Inl err)
      then have "g' = clear_waits x g1" "r = Inl (ApplyError x (CycleRefused err))" using Cons.prems(2) False r1 by simp_all
      then show ?thesis using clear_waits_spec [OF R(1)] R(2,4) Inl by auto
    next
      case (Inr u)
      then have "register_waits now x deps True g1 = (g', r)" using Cons.prems(2) False r1 by simp
      from Cons.IH [OF R(1) this] show ?thesis using R(2,4) Inr False app by (auto split: sum.splits)
    qed
  qed
qed auto

lemma engine_inv_cleared:
  assumes "engine_inv e need D waived" "graph_wf (e_graph e')" "g_applied (e_graph e') = g_applied (e_graph e)"
    and "waits_rel (waiting_on (e_graph e')) = {(a, b) \<in> waits_rel (waiting_on (e_graph e)). P a}"
    and "\<And>a. P a \<Longrightarrow> map_of (e_pending e') a = map_of (e_pending e) a"
  shows "engine_inv e' need D waived"
proof -
  have wf: "graph_wf (e_graph e)" using assms(1) by (simp add: engine_inv_def)
  have w: "is_waiting (e_graph e) y \<and> P y" if "is_waiting (e_graph e') y" for y
    using that unfolding is_waiting_edge [OF wf] is_waiting_edge [OF assms(2)] assms(4) by blast
  have "parked_for e' need y \<and> need y \<subseteq> waits_rel (waiting_on (e_graph e')) `` {y} \<union> D \<union> waived `` {y}"
    if "is_waiting (e_graph e') y" for y
    using assms(1) w [OF that] parked_for_cong [OF assms(5)] unfolding engine_inv_def assms(4) by auto
  then show ?thesis using assms(1,2,3) by (auto simp: engine_inv_def g_is_applied_def)
qed

lemma submit_inv:
  assumes inv: "engine_inv e need D waived"
    and reg: "register_waits_or_refuse now x (union_write_set_deps (concat (map am_deps ms))) (e_graph e) = (g, r)"
  shows "case r of
      Inl _ \<Rightarrow> engine_inv (e\<lparr>e_graph := g\<rparr>) need D waived
    | Inr True \<Rightarrow> engine_inv (e\<lparr>e_graph := clear_waits x g\<rparr>) need D waived
        \<and> (length (concat (map am_data ms)) \<le> u64_MAX \<longrightarrow> park io now x ms (e\<lparr>e_graph := g\<rparr>) = Inr e' \<longrightarrow>
            engine_inv e' (need(x := write_set_deps ms)) D waived)
    | Inr False \<Rightarrow> g = e_graph e \<and> write_set_deps ms \<subseteq> D"
proof -
  have wf: "graph_wf (e_graph e)" using inv by (simp add: engine_inv_def)
  note R = register_waits_spec [OF wf reg [unfolded register_waits_or_refuse_def]]
  have g: "graph_wf g" "g_applied g = g_applied (e_graph e)" using R by simp_all
  show ?thesis
  proof (cases r)
    case (Inl err)
    then show ?thesis using R by (auto intro!: engine_inv_cleared [OF inv, where P = "\<lambda>a. a \<noteq> x"])
  next
    case (Inr w)
    have rel: "waits_rel (waiting_on g) = waits_rel (waiting_on (e_graph e)) \<union> {x} \<times> {d \<in> write_set_deps ms. \<not> g_is_applied (e_graph e) d}"
      and w: "w \<longleftrightarrow> (\<exists>d \<in> write_set_deps ms. \<not> g_is_applied (e_graph e) d)"
      and same: "(\<forall>d \<in> write_set_deps ms. g_is_applied (e_graph e) d) \<longrightarrow> g = e_graph e"
      using R Inr by (simp_all add: write_set_deps_def)
    have app: "g_is_applied (e_graph e) d \<Longrightarrow> d \<in> D" for d using inv by (simp add: engine_inv_def)
    show ?thesis
    proof (cases w)
      case False
      then show ?thesis using Inr w same app by auto
    next
      case True
      note C = clear_waits_spec [OF g(1), of x]
      have clr: "engine_inv (e\<lparr>e_graph := clear_waits x g\<rparr>) need D waived"
        by (rule engine_inv_cleared [OF inv, where P = "\<lambda>a. a \<noteq> x"]) (use C g(2) rel in auto)
      have "engine_inv e' (need(x := write_set_deps ms)) D waived"
        if fits: "length (concat (map am_data ms)) \<le> u64_MAX" and pk: "park io now x ms (e\<lparr>e_graph := g\<rparr>) = Inr e'"
      proof -
        obtain ps where ps: "build_parked_set io x ms (park_spill_floor_bytes e) = Inr ps"
          and e': "e' = e\<lparr>e_graph := g, e_pending := hm_insert x \<lparr>pa_set = ps, parked_at = now\<rparr> (e_pending e)\<rparr>"
          using pk by (auto simp: park_def split: sum.splits)
        have "ms \<noteq> []" using True w by (auto simp: write_set_deps_def)
        then have px: "parked_for e' (need(x := write_set_deps ms)) x"
          using build_parked_set_reads [OF ps fits] by (simp add: parked_for_def e')
        have other: "is_waiting (e_graph e) y \<and> parked_for e' (need(x := write_set_deps ms)) y = parked_for e need y"
          if "is_waiting g y" "y \<noteq> x" for y
          using that rel unfolding is_waiting_edge [OF wf] is_waiting_edge [OF g(1)] by (auto simp: parked_for_def e')
        have "parked_for e' (need(x := write_set_deps ms)) y \<and> (need(x := write_set_deps ms)) y
            \<subseteq> waits_rel (waiting_on g) `` {y} \<union> D \<union> waived `` {y}" if "is_waiting g y" for y
        proof (cases "y = x")
          case True
          then show ?thesis using px rel app by auto
        next
          case False
          then show ?thesis using other [OF that False] inv rel by (auto simp: engine_inv_def)
        qed
        then show ?thesis using g inv by (auto simp: engine_inv_def e' g_is_applied_def)
      qed
      then show ?thesis using clr Inr True by simp
    qed
  qed
qed

section \<open>Histories\<close>

datatype engine_op = Submit bool instant txn_id "apply_mutation list" | SubmitBorrowed bool instant txn_id "apply_mutation list"
  | Notify instant txn_id | Waive instant txn_id txn_id | ReclaimStale instant u64 | ForgetApplied "txn_id list"

fun op_fits :: "engine_op \<Rightarrow> bool" where
  "op_fits (Submit io now txn ms) \<longleftrightarrow> length (concat (map am_data ms)) \<le> u64_MAX"
| "op_fits (SubmitBorrowed io now txn ms) \<longleftrightarrow> length (concat (map am_data ms)) \<le> u64_MAX"
| "op_fits _ \<longleftrightarrow> True"

text \<open>The transactions an operation applies itself, before those it unblocks.\<close>

fun op_txns :: "engine_op \<Rightarrow> txn_id set" where
  "op_txns (Submit io now txn ms) = {txn}"
| "op_txns (SubmitBorrowed io now txn ms) = {txn}"
| "op_txns (Notify now txn) = {txn}"
| "op_txns _ = {}"

fun engine_op_run :: "'s storage_applier \<Rightarrow> engine_op \<Rightarrow> 's dep_wait_applier \<Rightarrow> 's dep_wait_applier \<times> (apply_error + (txn_id \<times> bytes) list)" where
  "engine_op_run ap (Submit io now txn ms) e = try_apply_writeset ap io now txn ms e"
| "engine_op_run ap (SubmitBorrowed io now txn ms) e = try_apply_writeset_borrowed ap io now txn ms e"
| "engine_op_run ap (Notify now txn) e = map_prod id Inr (notify_applied ap now txn e)"
| "engine_op_run ap (Waive now waiter dep) e = map_prod id Inr (waive_dependency ap now waiter dep e)"
| "engine_op_run ap (ReclaimStale now max_age) e = (fst (reclaim_stale now max_age e), Inr [])"
| "engine_op_run ap (ForgetApplied txns) e = (fst (forget_graph_applied txns e), Inr [])"

fun op_need :: "engine_op \<Rightarrow> (txn_id \<Rightarrow> txn_id set) \<Rightarrow> txn_id \<Rightarrow> txn_id set" where
  "op_need (Submit io now txn ms) need = need(txn := write_set_deps ms)"
| "op_need (SubmitBorrowed io now txn ms) need = need(txn := write_set_deps ms)"
| "op_need _ need = need"

fun op_waived :: "engine_op \<Rightarrow> (txn_id \<times> txn_id) set \<Rightarrow> (txn_id \<times> txn_id) set" where
  "op_waived (Waive now waiter dep) waived = insert (waiter, dep) waived"
| "op_waived _ waived = waived"

type_synonym 's engine_hist = "'s dep_wait_applier \<times> (txn_id \<Rightarrow> txn_id set) \<times> txn_id set \<times> (txn_id \<times> txn_id) set"

fun engine_step :: "'s storage_applier \<Rightarrow> engine_op \<Rightarrow> 's engine_hist \<Rightarrow> 's engine_hist" where
  "engine_step ap op (e, need, D, waived) =
     (case engine_op_run ap op e of
        (e', Inl _) \<Rightarrow> (e', need, D, waived)
      | (e', Inr out) \<Rightarrow> (e', op_need op need, D \<union> fst ` set out \<union> {x. g_is_applied (e_graph e') x}, op_waived op waived))"

definition engine_run :: "'s storage_applier \<Rightarrow> engine_op list \<Rightarrow> 's dep_wait_applier \<Rightarrow> 's engine_hist" where
  "engine_run ap ops e = fold (engine_step ap) ops (e, \<lambda>_. {}, {}, {})"

lemma engine_inv_mono: "engine_inv e need D waived \<Longrightarrow> D \<subseteq> D' \<Longrightarrow> waived \<subseteq> waived' \<Longrightarrow> engine_inv e need D' waived'"
  unfolding engine_inv_def by blast

lemma engine_inv_storage: "engine_inv (e\<lparr>e_storage := s\<rparr>) need D waived = engine_inv e need D waived"
  by (simp add: engine_inv_def parked_for_def)

lemma parked_for_need: "y \<noteq> x \<Longrightarrow> parked_for e (need(x := d)) y = parked_for e need y"
  by (simp add: parked_for_def)

lemma engine_inv_need: "engine_inv e need D waived \<Longrightarrow> \<not> is_waiting (e_graph e) x \<Longrightarrow> engine_inv e (need(x := d)) D waived"
  unfolding engine_inv_def by (metis fun_upd_other parked_for_need)

lemma in_dep_order_reports:
  "set (map fst own) \<subseteq> {x} \<Longrightarrow> need x \<subseteq> D \<union> waived `` {x} \<Longrightarrow> x \<in> D \<Longrightarrow> in_dep_order need waived D own"
  by (induction own) (auto simp: insert_absorb)

lemma persisted_inv:
  assumes inv: "engine_inv e need D waived" and deps: "write_set_deps ms \<subseteq> D"
    and casc: "cascade ap now x (e\<lparr>e_storage := s\<rparr>) = (e', rest)" and own: "set (map fst own) \<subseteq> {x}"
  shows "engine_inv e' (need(x := write_set_deps ms)) (insert x D \<union> fst ` set (own @ rest)) waived
    \<and> in_dep_order (need(x := write_set_deps ms)) waived (insert x D) (own @ rest)"
proof -
  let ?need = "need(x := write_set_deps ms)"
  obtain g queue where m: "mark_applied now x (e_graph e) = (g, queue)" by fastforce
  let ?e = "e\<lparr>e_storage := s, e_graph := g\<rparr>"
  have r: "apply_unblocked ap now queue ?e = (e', rest)" using casc by (simp add: cascade_def m)
  have "e_graph ?e = g" "\<And>y. map_of (e_pending ?e) y = map_of (e_pending e) y" by simp_all
  note M = marked_inv [OF inv m this]
  have wf: "graph_wf (e_graph e)" using inv by (simp add: engine_inv_def)
  note S = mark_applied_spec [OF wf m]
  have nx: "\<not> is_waiting g x" using S(2) unfolding is_waiting_edge [OF S(1)] by blast
  have "engine_inv ?e ?need (insert x D) waived" using engine_inv_need [OF M(1)] nx by simp
  moreover have "ready ?e ?need (insert x D) waived y" if "y \<in> set queue" for y
    using M(2) [OF that] S(3) that parked_for_need [of y x ?e need "write_set_deps ms"] by (auto simp: ready_def)
  ultimately have rest: "engine_inv e' ?need (insert x D \<union> fst ` set rest) waived \<and> in_dep_order ?need waived (insert x D) rest"
    using apply_unblocked_inv [OF _ _ M(3) r] by blast
  have o: "in_dep_order ?need waived (insert x D) own" using own deps by (intro in_dep_order_reports) auto
  have D: "insert x D \<union> fst ` set own = insert x D" using own by auto
  show ?thesis using rest o unfolding in_dep_order_append D set_append image_Un Un_assoc [symmetric] by simp
qed

lemma unblock_one_applied: "unblock_one ap now z e = (e', woken, out) \<Longrightarrow> g_is_applied (e_graph e) x \<Longrightarrow> g_is_applied (e_graph e') x"
  using mark_applied_effect(5) [of now z "e_graph e"]
  by (auto simp: unblock_one_def Let_def g_is_applied_def split: option.splits sum.splits prod.splits)

lemma apply_unblocked_applied:
  "apply_unblocked ap now queue e = (e', out) \<Longrightarrow> g_is_applied (e_graph e) x \<Longrightarrow> g_is_applied (e_graph e') x"
proof (induction ap now queue e arbitrary: out rule: apply_unblocked.induct)
  case (2 ap now z queue e)
  obtain e1 woken out1 where u: "unblock_one ap now z e = (e1, woken, out1)" by (metis prod_cases3)
  obtain out2 where r: "apply_unblocked ap now (queue @ woken) e1 = (e', out2)"
    using 2(2) u by (auto split: prod.splits)
  show ?case by (rule "2.IH" [OF u [symmetric] refl refl r unblock_one_applied [OF u 2(3)]])
qed simp

lemma cascade_applied: "cascade ap now x e = (e', out) \<Longrightarrow> g_is_applied (e_graph e') x"
proof -
  assume c: "cascade ap now x e = (e', out)"
  obtain g queue where m: "mark_applied now x (e_graph e) = (g, queue)" by fastforce
  have "apply_unblocked ap now queue (e\<lparr>e_graph := g\<rparr>) = (e', out)" using c by (simp add: cascade_def m)
  moreover have "g_is_applied g x" using mark_applied_effect(5) [OF m] by (simp add: g_is_applied_def)
  ultimately show ?thesis using apply_unblocked_applied by fastforce
qed

definition submit_with :: "'s storage_applier \<Rightarrow> (txn_id \<Rightarrow> apply_mutation list \<Rightarrow> 's \<Rightarrow> 's \<times> (apply_error + unit)) \<Rightarrow> (txn_id \<times> bytes) list
    \<Rightarrow> bool \<Rightarrow> instant \<Rightarrow> txn_id \<Rightarrow> apply_mutation list \<Rightarrow> 's dep_wait_applier \<Rightarrow> 's dep_wait_applier \<times> (apply_error + (txn_id \<times> bytes) list)" where
  "submit_with ap persist own io now txn ms e =
     (case register_waits_or_refuse now txn (union_write_set_deps (concat (map am_deps ms))) (e_graph e) of
        (g, Inl err) \<Rightarrow> (e\<lparr>e_graph := g\<rparr>, Inl err)
      | (g, Inr True) \<Rightarrow>
          (case park io now txn ms (e\<lparr>e_graph := g\<rparr>) of
             Inl err \<Rightarrow> (e\<lparr>e_graph := clear_waits txn g\<rparr>, Inl err)
           | Inr e \<Rightarrow> (e, Inr []))
      | (g, Inr False) \<Rightarrow>
          (case persist txn ms (e_storage e) of
             (s, Inl err) \<Rightarrow> (e\<lparr>e_graph := g, e_storage := s\<rparr>, Inl err)
           | (s, Inr _) \<Rightarrow>
               (let (e, rest) = cascade ap now txn (e\<lparr>e_graph := g, e_storage := s\<rparr>) in (e, Inr (own @ rest)))))"

lemma submit_with_inv:
  assumes inv: "engine_inv e need D waived" and fits: "length (concat (map am_data ms)) \<le> u64_MAX"
    and own: "set (map fst own) \<subseteq> {x}" and run: "submit_with ap persist own io now x ms e = (e', r)"
  shows "case r of
      Inl _ \<Rightarrow> engine_inv e' need D waived
    | Inr out \<Rightarrow> engine_inv e' (need(x := write_set_deps ms)) (D \<union> fst ` set out \<union> {x. g_is_applied (e_graph e') x}) waived
        \<and> in_dep_order (need(x := write_set_deps ms)) waived (insert x D) out \<and> (out \<noteq> [] \<longrightarrow> write_set_deps ms \<subseteq> D)"
proof -
  obtain g w where reg: "register_waits_or_refuse now x (union_write_set_deps (concat (map am_deps ms))) (e_graph e) = (g, w)"
    by fastforce
  note R = submit_inv [OF inv reg]
  show ?thesis
  proof (cases w)
    case (Inl err)
    then show ?thesis using R run reg by (auto simp: submit_with_def)
  next
    case (Inr b)
    show ?thesis
    proof (cases b)
      case True
      show ?thesis
      proof (cases "park io now x ms (e\<lparr>e_graph := g\<rparr>)")
        case (Inl err)
        then show ?thesis using R run reg Inr True by (auto simp: submit_with_def)
      next
        case (Inr e1)
        then have "e' = e1" "r = Inr []" using run reg \<open>w = Inr b\<close> True by (simp_all add: submit_with_def)
        moreover have "engine_inv e1 (need(x := write_set_deps ms)) D waived"
          using R fits \<open>w = Inr b\<close> True Inr by simp
        ultimately show ?thesis using engine_inv_mono [OF _ _ order_refl, of e1 "need(x := write_set_deps ms)" D] by simp
      qed
    next
      case False
      then have g: "g = e_graph e" and deps: "write_set_deps ms \<subseteq> D" using R Inr by simp_all
      obtain s p where p: "persist x ms (e_storage e) = (s, p)" by fastforce
      show ?thesis
      proof (cases p)
        case (Inl err)
        then have "e' = e\<lparr>e_storage := s\<rparr>" "r = Inl err" using run reg Inr False p g by (simp_all add: submit_with_def)
        then show ?thesis using inv by (simp add: engine_inv_storage)
      next
        case (Inr u)
        obtain rest where c: "cascade ap now x (e\<lparr>e_storage := s\<rparr>) = (e', rest)" and r: "r = Inr (own @ rest)"
          using run reg \<open>w = Inr b\<close> False p g Inr by (auto simp: submit_with_def split: prod.splits)
        have "insert x D \<union> fst ` set (own @ rest) \<subseteq> D \<union> fst ` set (own @ rest) \<union> {x. g_is_applied (e_graph e') x}"
          using cascade_applied [OF c] by auto
        note P = persisted_inv [OF inv deps c own] and P' = engine_inv_mono [OF conjunct1 [OF persisted_inv [OF inv deps c own]] this order_refl]
        show ?thesis unfolding r using P' conjunct2 [OF P] deps by simp
      qed
    qed
  qed
qed

lemma reclaim_each_spec:
  assumes "graph_wf g" "reclaim_each txns g = (g', reclaimed)"
  shows "graph_wf g' \<and> g_applied g' = g_applied g \<and> map rp_txn_id reclaimed = txns
    \<and> waits_rel (waiting_on g') = {(a, b) \<in> waits_rel (waiting_on g). a \<notin> set txns}"
  using assms
proof (induction txns arbitrary: g reclaimed)
  case (Cons x txns)
  note C = clear_waits_spec [OF Cons.prems(1), of x]
  obtain rest where r: "reclaim_each txns (clear_waits x g) = (g', rest)"
    "reclaimed = \<lparr>rp_txn_id = x, unresolved_deps = sort (case deps_of g x of Some ds \<Rightarrow> ds | None \<Rightarrow> [])\<rparr> # rest"
    using Cons.prems(2) by (auto simp: Let_def split: prod.splits)
  from Cons.IH [OF C(1) r(1)] show ?case using C(2,3) r(2) by auto
qed simp

fun op_deps :: "engine_op \<Rightarrow> txn_id set" where
  "op_deps (Submit io now txn ms) = write_set_deps ms"
| "op_deps (SubmitBorrowed io now txn ms) = write_set_deps ms"
| "op_deps _ = {}"

lemma waive_inv:
  assumes inv: "engine_inv e need D waived" and wd: "waive_dependency ap now x d e = (e', out)"
  shows "engine_inv e' need (D \<union> fst ` set out) (insert (x, d) waived) \<and> in_dep_order need (insert (x, d) waived) D out"
proof -
  have wf: "graph_wf (e_graph e)" using inv by (simp add: engine_inv_def)
  obtain g u where w: "waive x d (e_graph e) = (g, u)" by fastforce
  note W = waive_spec [OF wf w]
  let ?e = "e\<lparr>e_graph := g\<rparr>" and ?W = "insert (x, d) waived"
  have was: "is_waiting (e_graph e) y" if "is_waiting g y" for y
    using that W(2) unfolding is_waiting_edge [OF wf] is_waiting_edge [OF W(1)] by blast
  have need: "parked_for ?e need y \<and> need y \<subseteq> waits_rel (waiting_on g) `` {y} \<union> D \<union> ?W `` {y}" if "is_waiting (e_graph e) y" for y
    using inv that W(2) parked_for_cong [of ?e y e] unfolding engine_inv_def by auto
  have inv1: "engine_inv ?e need D ?W" using inv W(1,4) was need by (auto simp: engine_inv_def g_is_applied_def)
  show ?thesis
  proof (cases u)
    case True
    then have wx: "is_waiting (e_graph e) x" "\<not> is_waiting g x" using W(3) is_waiting_edge [OF wf] by auto
    have "waits_rel (waiting_on g) `` {x} = {}" using wx(2) unfolding is_waiting_edge [OF W(1)] by blast
    then have rx: "ready ?e need D ?W x" using need [OF wx(1)] wx(2) by (auto simp: ready_def)
    have r: "apply_unblocked ap now [x] ?e = (e', out)" using wd True by (simp add: waive_dependency_def w)
    show ?thesis by (rule apply_unblocked_inv [OF inv1 _ _ r]) (use rx in simp_all)
  next
    case False
    then have "e' = ?e" "out = []" using wd by (simp_all add: waive_dependency_def w)
    then show ?thesis using inv1 by simp
  qed
qed

lemma reclaim_inv:
  assumes inv: "engine_inv e need D waived"
  shows "engine_inv (fst (reclaim_stale now age e)) need D waived"
proof -
  define stale where "stale = map fst (filter (\<lambda>(_, pk). now - parked_at pk \<ge> age) (e_pending e))"
  obtain g reclaimed where r: "reclaim_each stale (e_graph e) = (g, reclaimed)" by fastforce
  have wf: "graph_wf (e_graph e)" using inv by (simp add: engine_inv_def)
  note R = reclaim_each_spec [OF wf r]
  have e': "fst (reclaim_stale now age e) =
      e\<lparr>e_graph := g, e_pending := fold (\<lambda>rp. hm_remove (rp_txn_id rp)) reclaimed (e_pending e)\<rparr>"
    by (simp add: reclaim_stale_def stale_def [symmetric] r)
  have f: "fold (\<lambda>rp. hm_remove (rp_txn_id rp)) reclaimed m = fold hm_remove (map rp_txn_id reclaimed) m" for m :: "(txn_id \<times> parked_apply) list"
    by (simp add: fold_map comp_def)
  show ?thesis unfolding e' f
    by (rule engine_inv_cleared [OF inv, where P = "\<lambda>a. a \<notin> set stale"]) (use R in \<open>auto simp: fold_hm_remove_get\<close>)
qed

lemma forget_inv:
  assumes inv: "engine_inv e need D waived"
  shows "engine_inv (fst (forget_graph_applied txns e)) need D waived"
proof -
  obtain g n where f: "forget txns (e_graph e) = (g, n)" by fastforce
  note F = forget_effect [of txns "e_graph e", unfolded f fst_conv]
  have wf: "graph_wf (e_graph e)" using inv by (simp add: engine_inv_def)
  have "graph_wf g" by (rule graph_wf_forgets [OF wf]) (use F in auto)
  then show ?thesis using inv F by (simp add: forget_graph_applied_def f engine_inv_def parked_for_def is_waiting_def)
qed

lemma engine_step_inv:
  assumes inv: "engine_inv e need D waived" and fits: "op_fits op" and run: "engine_op_run ap op e = (e', r)"
  shows "case r of
      Inl _ \<Rightarrow> engine_inv e' need D waived
    | Inr out \<Rightarrow> engine_inv e' (op_need op need) (D \<union> fst ` set out \<union> {x. g_is_applied (e_graph e') x}) (op_waived op waived)
        \<and> in_dep_order (op_need op need) (op_waived op waived) (D \<union> op_txns op) out \<and> (out \<noteq> [] \<longrightarrow> op_deps op \<subseteq> D)"
proof (cases op)
  case (Submit io now x ms)
  have "submit_with ap (apply_writeset ap) (map (\<lambda>m. (x, am_data m)) ms) io now x ms e = (e', r)"
    using run unfolding Submit engine_op_run.simps try_apply_writeset_def submit_with_def Let_def .
  moreover have "set (map fst (map (\<lambda>m. (x, am_data m)) ms)) \<subseteq> {x}" by auto
  moreover have "length (concat (map am_data ms)) \<le> u64_MAX" using fits Submit by simp
  ultimately have "case r of Inl _ \<Rightarrow> engine_inv e' need D waived
    | Inr out \<Rightarrow> engine_inv e' (need(x := write_set_deps ms)) (D \<union> fst ` set out \<union> {x. g_is_applied (e_graph e') x}) waived
        \<and> in_dep_order (need(x := write_set_deps ms)) waived (insert x D) out \<and> (out \<noteq> [] \<longrightarrow> write_set_deps ms \<subseteq> D)"
    by (intro submit_with_inv [OF inv])
  then show ?thesis unfolding Submit by (cases r) simp_all
next
  case (SubmitBorrowed io now x ms)
  have "submit_with ap (apply_writeset_borrowed ap) (case ms of [] \<Rightarrow> [] | m # _ \<Rightarrow> [(x, am_data m)]) io now x ms e = (e', r)"
    using run unfolding SubmitBorrowed engine_op_run.simps try_apply_writeset_borrowed_def submit_with_def Let_def .
  moreover have "set (map fst (case ms of [] \<Rightarrow> [] | m # _ \<Rightarrow> [(x, am_data m)])) \<subseteq> {x}" by (cases ms) auto
  moreover have "length (concat (map am_data ms)) \<le> u64_MAX" using fits SubmitBorrowed by simp
  ultimately have "case r of Inl _ \<Rightarrow> engine_inv e' need D waived
    | Inr out \<Rightarrow> engine_inv e' (need(x := write_set_deps ms)) (D \<union> fst ` set out \<union> {x. g_is_applied (e_graph e') x}) waived
        \<and> in_dep_order (need(x := write_set_deps ms)) waived (insert x D) out \<and> (out \<noteq> [] \<longrightarrow> write_set_deps ms \<subseteq> D)"
    by (intro submit_with_inv [OF inv])
  then show ?thesis unfolding SubmitBorrowed by (cases r) simp_all
next
  case (Notify now x)
  then obtain out where c: "cascade ap now x e = (e', out)" and r: "r = Inr out"
    using run by (cases "cascade ap now x e") (auto simp: notify_applied_def)
  have "insert x D \<union> fst ` set out \<subseteq> D \<union> fst ` set out \<union> {x. g_is_applied (e_graph e') x}"
    using cascade_applied [OF c] by auto
  from engine_inv_mono [OF conjunct1 [OF cascade_inv [OF inv c]] this order_refl] conjunct2 [OF cascade_inv [OF inv c]]
  show ?thesis unfolding r Notify by simp
next
  case (Waive now x d)
  then obtain out where wd: "waive_dependency ap now x d e = (e', out)" and r: "r = Inr out"
    using run by (cases "waive_dependency ap now x d e") auto
  have "engine_inv e' need (D \<union> fst ` set out) (insert (x, d) waived) \<and> in_dep_order need (insert (x, d) waived) D out"
    by (rule waive_inv [OF inv wd])
  note W = this
  show ?thesis unfolding r Waive using engine_inv_mono [OF conjunct1 [OF W] Un_upper1 order_refl] conjunct2 [OF W] by simp
next
  case (ReclaimStale now age)
  then have e': "e' = fst (reclaim_stale now age e)" "r = Inr []" using run by simp_all
  then show ?thesis using engine_inv_mono [OF reclaim_inv [OF inv]] unfolding ReclaimStale by simp
next
  case (ForgetApplied txns)
  then have e': "e' = fst (forget_graph_applied txns e)" "r = Inr []" using run by simp_all
  then show ?thesis using engine_inv_mono [OF forget_inv [OF inv]] unfolding ForgetApplied by simp
qed

lemma applier_new_inv: "engine_inv (applier_new s bound floor_bytes) need D waived"
  by (simp add: engine_inv_def applier_new_def dep_graph_new_def dep_graph_new_wf)
    (simp add: dep_graph_with_timeout_def g_is_applied_def is_waiting_def)

lemma engine_fold_inv:
  "engine_inv e need D waived \<Longrightarrow> list_all op_fits ops \<Longrightarrow> fold (engine_step ap) ops (e, need, D, waived) = (e', need', D', waived') \<Longrightarrow>
    engine_inv e' need' D' waived'"
proof (induction ops arbitrary: e need D waived)
  case (Cons op ops)
  obtain e1 r where r: "engine_op_run ap op e = (e1, r)" by fastforce
  have fits: "op_fits op" using Cons.prems(2) by simp
  note S = engine_step_inv [OF Cons.prems(1) fits r]
  show ?case
  proof (cases r)
    case (Inl err)
    then show ?thesis using Cons.IH [of e1 need D waived] Cons.prems(2,3) S r by simp
  next
    case (Inr out)
    then show ?thesis using Cons.IH [of e1 "op_need op need" "D \<union> fst ` set out \<union> {x. g_is_applied (e_graph e1) x}" "op_waived op waived"]
        Cons.prems(2,3) S r by simp
  qed
qed simp

lemma engine_run_inv:
  "list_all op_fits ops \<Longrightarrow> engine_run ap ops (applier_new s bound floor_bytes) = (e, need, D, waived) \<Longrightarrow> engine_inv e need D waived"
  unfolding engine_run_def by (rule engine_fold_inv [OF applier_new_inv])

text \<open>Applying what nothing waits for drains the engine.\<close>

lemma notify_live:
  assumes inv: "engine_inv e need D waived" and n: "notify_applied ap now x e = (e', out)"
    and ok: "\<And>x ms s. snd (apply_writeset ap x ms s) = Inr ()"
  shows "engine_inv e' need (insert x D \<union> fst ` set out) waived \<and> g_is_applied (e_graph e') x
    \<and> (\<forall>y. g_is_applied (e_graph e) y \<or> is_waiting (e_graph e) y \<and> \<not> is_waiting (e_graph e') y \<longrightarrow> g_is_applied (e_graph e') y)
    \<and> waits_rel (waiting_on (e_graph e')) \<subseteq> waits_rel (waiting_on (e_graph e))"
proof -
  have c: "cascade ap now x e = (e', out)" using n by (simp add: notify_applied_def)
  obtain g queue where m: "mark_applied now x (e_graph e) = (g, queue)" by fastforce
  let ?e = "e\<lparr>e_graph := g\<rparr>"
  have r: "apply_unblocked ap now queue ?e = (e', out)" using c by (simp add: cascade_def m)
  have "e_graph ?e = g" "\<And>y. map_of (e_pending ?e) y = map_of (e_pending e) y" by simp_all
  note M = marked_inv [OF inv m this]
  have wf: "graph_wf (e_graph e)" using inv by (simp add: engine_inv_def)
  note S = mark_applied_spec [OF wf m]
  have rdy: "\<forall>y \<in> set queue. ready ?e need (insert x D) waived y" using M(2) by blast
  note L = apply_unblocked_live [OF M(1) rdy M(3) r ok]
  have x: "g_is_applied (e_graph e') x" by (rule cascade_applied [OF c])
  have "g_is_applied (e_graph e') y" if "g_is_applied (e_graph e) y" for y using L [of y] S(4) that by simp
  moreover have "g_is_applied (e_graph e') y" if "is_waiting (e_graph e) y" "\<not> is_waiting (e_graph e') y" for y
    using L [of y] S(3) [of y] that x by (cases "is_waiting g y") auto
  moreover have "waits_rel (waiting_on (e_graph e')) \<subseteq> waits_rel (waiting_on (e_graph e))"
    using L [of x] S(2) by auto
  ultimately show ?thesis using cascade_inv [OF inv c] x by blast
qed

lemma notify_all_live:
  assumes "engine_inv e need D waived" "\<And>x ms s. snd (apply_writeset ap x ms s) = Inr ()"
    and "e' = fold (\<lambda>x e. fst (notify_applied ap now x e)) txns e"
  shows "(\<exists>D'. engine_inv e' need D' waived) \<and> (\<forall>y \<in> set txns. g_is_applied (e_graph e') y)
    \<and> (\<forall>y. g_is_applied (e_graph e) y \<or> is_waiting (e_graph e) y \<and> \<not> is_waiting (e_graph e') y \<longrightarrow> g_is_applied (e_graph e') y)
    \<and> waits_rel (waiting_on (e_graph e')) \<subseteq> waits_rel (waiting_on (e_graph e))"
  using assms(1,3)
proof (induction txns arbitrary: e D)
  case (Cons x txns)
  obtain e1 out where n: "notify_applied ap now x e = (e1, out)" by fastforce
  note N = notify_live [OF Cons.prems(1) n assms(2)]
  have "e' = fold (\<lambda>x e. fst (notify_applied ap now x e)) txns e1" using Cons.prems(2) n by simp
  note IH = Cons.IH [OF conjunct1 [OF N] this]
  have "g_is_applied (e_graph e') y" if "is_waiting (e_graph e) y" "\<not> is_waiting (e_graph e') y" for y
    using that IH N by (cases "is_waiting (e_graph e1) y") blast+
  then show ?case using IH N by auto
qed auto

lemma no_waits: "(\<And>x. \<not> is_waiting g x) \<Longrightarrow> waiting_on g = []"
proof (rule ccontr)
  assume "\<And>x. \<not> is_waiting g x" "waiting_on g \<noteq> []"
  moreover from this obtain k v l where "waiting_on g = (k, v) # l" by (cases "waiting_on g") auto
  ultimately show False by (metis is_waiting_def map_of_Cons_code(2) option.distinct(1))
qed

definition sample_applier :: "unit storage_applier" where
  "sample_applier = \<lparr>apply_writeset = (\<lambda>_ _ s. (s, Inr ())), apply_writeset_borrowed = (\<lambda>_ _ s. (s, Inr ())),
     prune_applied_below = (\<lambda>_ s. (s, 0))\<rparr>"

definition sample_txn :: "nat \<Rightarrow> txn_id" where "sample_txn n = Timestamp 0 n 0 1"

definition sample_submit :: engine_op where
  "sample_submit = Submit True 5 (sample_txn 1) [\<lparr>am_data = [7], am_t = sample_txn 1, am_deps = [sample_txn 2]\<rparr>]"

definition sample_parked :: "unit dep_wait_applier" where
  "sample_parked = \<lparr>e_graph = (dep_graph_new\<lparr>waiting_on := [(sample_txn 1, [sample_txn 2])], waited_by := [(sample_txn 2, [sample_txn 1])],
       wait_start := [(sample_txn 1, 5)]\<rparr>), e_storage = (),
     e_pending = [(sample_txn 1, \<lparr>pa_set = Resident [\<lparr>am_data = [7], am_t = sample_txn 1, am_deps = [sample_txn 2]\<rparr>], parked_at = 5\<rparr>)],
     reclaim_bound = 60, park_spill_floor_bytes = 8\<rparr>"

lemma sample_txn_eq [simp]: "sample_txn m = sample_txn n \<longleftrightarrow> m = n"
  by (simp add: sample_txn_def)

lemma sample_run:
  "engine_run sample_applier [sample_submit] (applier_new () 60 8) =
     (sample_parked, (\<lambda>_. {})(sample_txn 1 := {sample_txn 2}), {}, {})"
  by (simp add: engine_run_def sample_submit_def sample_parked_def applier_new_def try_apply_writeset_def union_write_set_deps_def
      register_waits_or_refuse_def register_wait_def g_is_applied_def dep_graph_new_def dep_graph_with_timeout_def detect_cycle_def
      dfs_cycle.simps hm_get_def park_def build_parked_set_def hm_insert_def write_set_deps_def)

lemma sample_notify:
  "notify_applied sample_applier 6 (sample_txn 2) sample_parked =
     (sample_parked\<lparr>e_graph := dep_graph_new\<lparr>g_applied := [(sample_txn 2, 6), (sample_txn 1, 6)]\<rparr>, e_pending := []\<rparr>, [(sample_txn 1, [7])])"
  by (simp add: notify_applied_def cascade_def mark_applied_def sample_parked_def sample_applier_def hm_get_def mark_woken_def hm_modify_def
      hm_remove_def hm_insert_def unblock_one_def into_mutations_def dep_graph_new_def dep_graph_with_timeout_def)

section \<open>Properties\<close>

text \<open>
  C5: Storage sees transactions in dependency order: after any history of the engine, whatever the storage
  applier does, an operation hands a submitted write-set to storage only if every dependency of the set
  was applied before, and every parked write-set it then persists, in the order it reports them, has each
  dependency applied earlier, in a previous operation or in this one, or waived.
\<close>

theorem apply_in_dependency_order:
  assumes "list_all op_fits (ops @ [op])" "engine_run ap ops (applier_new s bound floor_bytes) = (e, need, D, waived)"
    and "engine_op_run ap op e = (e', Inr out)"
  shows "in_dep_order (op_need op need) (op_waived op waived) (D \<union> op_txns op) out \<and> (out \<noteq> [] \<longrightarrow> op_deps op \<subseteq> D)"
proof -
  have "engine_inv e need D waived" by (rule engine_run_inv [OF _ assms(2)]) (use assms(1) in simp)
  from engine_step_inv [OF this _ assms(3)] assms(1) show ?thesis by simp
qed

theorem apply_in_dependency_order_witness:
  "in_dep_order ((\<lambda>_. {})(sample_txn 1 := {sample_txn 2})) {} {sample_txn 2} [(sample_txn 1, [7])]"
proof -
  have "list_all op_fits ([sample_submit] @ [Notify 6 (sample_txn 2)])" by (simp add: sample_submit_def machine_consts)
  then have "in_dep_order (op_need (Notify 6 (sample_txn 2)) ((\<lambda>_. {})(sample_txn 1 := {sample_txn 2})))
      (op_waived (Notify 6 (sample_txn 2)) {}) ({} \<union> op_txns (Notify 6 (sample_txn 2))) [(sample_txn 1, [7])]"
    by (rule apply_in_dependency_order [THEN conjunct1, OF _ sample_run]) (simp add: sample_notify)
  then show ?thesis by simp
qed

text \<open>
  C15: The engine drains: if storage accepts every write-set and every transaction that parked ones wait
  for and that is not itself parked is reported applied, in any order, the cascade terminates with nothing
  left waiting and every transaction that waited applied.
\<close>

theorem apply_engine_drains:
  assumes "list_all op_fits ops" "engine_run ap ops (applier_new s bound floor_bytes) = (e, need, D, waived)"
    and "\<forall>x ms s. snd (apply_writeset ap x ms s) = Inr ()"
    and "\<forall>x y. (x, y) \<in> waits_rel (waiting_on (e_graph e)) \<longrightarrow> is_waiting (e_graph e) y \<or> y \<in> set txns"
    and "e' = fold (\<lambda>x e. fst (notify_applied ap now x e)) txns e"
  shows "waiting_on (e_graph e') = [] \<and> (is_waiting (e_graph e) x \<longrightarrow> g_is_applied (e_graph e') x)"
proof -
  have inv: "engine_inv e need D waived" by (rule engine_run_inv [OF assms(1,2)])
  note L = notify_all_live [OF inv _ assms(5)]
  have L: "\<exists>D'. engine_inv e' need D' waived" "\<forall>y \<in> set txns. g_is_applied (e_graph e') y"
    "\<And>y. is_waiting (e_graph e) y \<Longrightarrow> \<not> is_waiting (e_graph e') y \<Longrightarrow> g_is_applied (e_graph e') y"
    "waits_rel (waiting_on (e_graph e')) \<subseteq> waits_rel (waiting_on (e_graph e))"
    using L assms(3) by blast+
  have wf: "graph_wf (e_graph e')" using L(1) by (auto simp: engine_inv_def)
  have none: "\<not> is_waiting (e_graph e') z" for z
  proof
    assume "is_waiting (e_graph e') z"
    then obtain y where y: "(z, y) \<in> (waits_rel (waiting_on (e_graph e')))\<^sup>+" "\<not> is_waiting (e_graph e') y" "\<not> g_is_applied (e_graph e') y"
      using waits_end [OF wf] by blast
    then obtain w where "(w, y) \<in> waits_rel (waiting_on (e_graph e'))" by (meson tranclD2)
    then show False using L y assms(4) by blast
  qed
  then show ?thesis using no_waits L(3) by blast
qed

theorem apply_engine_drains_witness:
  "waiting_on (e_graph (fst (notify_applied sample_applier 6 (sample_txn 2) sample_parked))) = []
    \<and> g_is_applied (e_graph (fst (notify_applied sample_applier 6 (sample_txn 2) sample_parked))) (sample_txn 1)"
proof -
  have "list_all op_fits [sample_submit]" by (simp add: sample_submit_def machine_consts)
  moreover have "\<forall>x ms s. snd (apply_writeset sample_applier x ms s) = Inr ()" by (simp add: sample_applier_def)
  moreover have "\<forall>x y. (x, y) \<in> waits_rel (waiting_on (e_graph sample_parked)) \<longrightarrow>
      is_waiting (e_graph sample_parked) y \<or> y \<in> set [sample_txn 2]"
    by (auto simp: sample_parked_def waits_rel_iff hm_get_def split: if_splits)
  ultimately show ?thesis
    using apply_engine_drains [OF _ sample_run, of "[sample_txn 2]" _ 6 "sample_txn 1"]
    by (simp add: is_waiting_def sample_parked_def)
qed

end
