(* ===== verification/Replica.thy ===== *)
theory Replica
  imports Conflict_Index Finalized Apply_Engine "HOL-Library.Monad_Syntax"
begin

text \<open>
  The Accord state machine of a replica (crate \<open>ferrosa-cluster\<close>: \<open>accord/state_machine.rs\<close>, with the
  \<open>Applied\<close> marker of \<open>accord/applied_journal.rs\<close>): the handlers of the protocol messages over the transaction
  states, the conflict index, the apply engine and the record of decided transactions.  A handler takes
  the outside world of its call as an \<open>env\<close>: which journal writes reach the disk, the readings of the
  clocks and whether staging a parked write-set succeeds.  \<open>None\<close> is a panic.
\<close>

section \<open>Definitions\<close>

datatype sm_response =
  PreAcceptOK txn_id timestamp "txn_id set"
| AcceptOK txn_id ballot "txn_id set"
| Nack txn_id ballot
| SnapshotStale
| NoResponse
| NoWriteFinalized
| AlreadyDecided txn_id decided_by

datatype journal_record =
  JPreAccepted u64 u64
| JAccepted u64 u64 ballot
| JCommitted u64 u64
| JApplied u64

record env =
  fsync :: "txn_id \<Rightarrow> journal_record \<Rightarrow> bool"
  phys1 :: u64
  phys2 :: u64
  now_instant :: instant
  stage_io :: bool

record 's replica =
  node_id :: u64
  txn_states :: "(txn_id \<times> txn_state) list"
  r_index :: conflict_index
  journal :: "journal_record list"
  dep_waiters :: "(txn_id \<times> txn_id list) list"
  committed_txns :: "txn_id set"
  last_notified :: "txn_id list"
  apply_engine :: "'s dep_wait_applier"
  applying :: "txn_id set"
  applied_epoch :: u64
  r_clock :: "hlc option"
  r_finalized :: finalized_txns
  refusing_by_floor :: bool

definition replica_new :: "u64 \<Rightarrow> 's dep_wait_applier \<Rightarrow> 's replica option" where
  "replica_new node e = do {
     f \<leftarrow> finalized_new FINALIZED_CAPACITY;
     Some \<lparr>node_id = node, txn_states = [], r_index = conflict_index_new, journal = [], dep_waiters = [], committed_txns = {},
       last_notified = [], apply_engine = e, applying = {}, applied_epoch = 0, r_clock = None, r_finalized = f,
       refusing_by_floor = False\<rparr>}"

definition with_clock :: "env \<Rightarrow> hlc \<Rightarrow> 's replica \<Rightarrow> 's replica option" where
  "with_clock env c r = do {
     (c, boot_now) \<leftarrow> hlc_now (phys1 env) c;
     Some (r\<lparr>r_finalized := with_restart_floor boot_now (r_finalized r), r_clock := Some c\<rparr>)}"

definition witness_timestamp :: "env \<Rightarrow> timestamp \<Rightarrow> 's replica \<Rightarrow> 's replica option" where
  "witness_timestamp env t r =
     (case r_clock r of
        None \<Rightarrow> Some r
      | Some c \<Rightarrow> do {(c, _) \<leftarrow> hlc_witness (phys1 env) (phys2 env) t c; Some (r\<lparr>r_clock := Some c\<rparr>)})"

definition register_dep_waiter :: "txn_id \<Rightarrow> txn_id \<Rightarrow> 's replica \<Rightarrow> 's replica" where
  "register_dep_waiter dep waiter r = r\<lparr>dep_waiters := entry_update dep [] (\<lambda>ws. ws @ [waiter]) (dep_waiters r)\<rparr>"

text \<open>\<open>txn_states.entry(txn).or_insert_with(TxnState::new)\<close>\<close>

definition state_entry :: "txn_id \<Rightarrow> timestamp \<Rightarrow> 's replica \<Rightarrow> (txn_state \<times> 's replica) option" where
  "state_entry txn t0 r =
     (case map_of (txn_states r) txn of
        Some s \<Rightarrow> Some (s, r)
      | None \<Rightarrow> do {s \<leftarrow> txn_state_new txn t0; Some (s, r\<lparr>txn_states := hm_insert txn s (txn_states r)\<rparr>)})"

definition put_state :: "txn_id \<Rightarrow> txn_state \<Rightarrow> 's replica \<Rightarrow> 's replica" where
  "put_state txn s r = r\<lparr>txn_states := hm_insert txn s (txn_states r)\<rparr>"

definition note_refused_preaccept :: "decided_by \<Rightarrow> 's replica \<Rightarrow> 's replica" where
  "note_refused_preaccept by_what r = (if by_what = Floor then r\<lparr>refusing_by_floor := True\<rparr> else r)"

text \<open>The reply to a PreAccept of a transaction that has a state, if it has one.\<close>

definition preaccept_known :: "txn_id \<Rightarrow> timestamp \<Rightarrow> ballot \<Rightarrow> 's replica \<Rightarrow> sm_response option" where
  "preaccept_known txn t0 ballot r =
     (case map_of (txn_states r) txn of
        None \<Rightarrow> None
      | Some s \<Rightarrow>
          if ballot < max_ballot_seen s then Some (Nack txn (max_ballot_seen s))
          else if st_phase s = PreAccepted \<and> st_t0 s = t0 then Some (PreAcceptOK txn (st_t s) (st_deps s))
          else if phase_rank (st_phase s) \<ge> phase_rank Accepted then Some (Nack txn (max_ballot_seen s))
          else None)"

definition max_conflict :: "conflict_index \<Rightarrow> bytes list \<Rightarrow> timestamp option" where
  "max_conflict ci keys = list_max (List.map_filter (max_conflicting_timestamp ci) keys)"

definition snapshot_stale :: "conflict_index \<Rightarrow> bytes list \<Rightarrow> timestamp option \<Rightarrow> bool" where
  "snapshot_stale ci keys snapshot_ts =
     (case snapshot_ts of
        None \<Rightarrow> False
      | Some snapshot_ts \<Rightarrow>
          (case max_conflict ci (map postgres_read_lookup_key
             (filter (\<lambda>key. key \<noteq> POSTGRES_TRANSACTION_MARKER_KEY \<and> key \<noteq> POSTGRES_TRANSACTION_BARRIER_KEY
                       \<and> \<not> is_postgres_write_table_key key) keys)) of
             None \<Rightarrow> False
           | Some latest \<Rightarrow> latest > snapshot_ts))"

definition propose :: "u64 \<Rightarrow> conflict_index \<Rightarrow> bytes list \<Rightarrow> timestamp \<Rightarrow> timestamp" where
  "propose node ci keys t0 =
     (case max_conflict ci keys of Some ct \<Rightarrow> if ct \<ge> t0 then bump_past t0 ct node else t0 | None \<Rightarrow> t0)"

definition handle_preaccept_multi_with_snapshot :: "env \<Rightarrow> txn_id \<Rightarrow> timestamp \<Rightarrow> bytes list \<Rightarrow> ballot \<Rightarrow> u64 \<Rightarrow> timestamp option
    \<Rightarrow> 's replica \<Rightarrow> ('s replica \<times> sm_response) option" where
  "handle_preaccept_multi_with_snapshot env txn t0 keys ballot epoch snapshot_ts r =
     (case decided (r_finalized r) txn of
        Some by_what \<Rightarrow> Some (note_refused_preaccept by_what r, AlreadyDecided txn by_what)
      | None \<Rightarrow>
          (let r = r\<lparr>refusing_by_floor := False\<rparr>
           in case preaccept_known txn t0 ballot r of
                Some response \<Rightarrow> Some (r, response)
              | None \<Rightarrow>
                  if snapshot_stale (r_index r) keys snapshot_ts then Some (r, SnapshotStale)
                  else do {
                    let deps = (\<Union>key \<in> set keys. deps_before_t0 (r_index r) key t0);
                    let t = propose (node_id r) (r_index r) keys t0;
                    r \<leftarrow> witness_timestamp env t r;
                    let newly_created = (map_of (txn_states r) txn = None);
                    let r = r\<lparr>r_index := fold (\<lambda>key. ci_register key
                          \<lparr>iw_txn_id = txn, iw_t0 = t0, accord_ts = Some t, iw_status = StPreAccepted\<rparr>) keys (r_index r)\<rparr>;
                    (s, r) \<leftarrow> state_entry txn t0 r;
                    s \<leftarrow> txn_pre_accept t deps s;
                    let r = put_state txn s r;
                    if \<not> fsync env txn (JPreAccepted (ts_time txn) (ts_time t))
                    then (let r = r\<lparr>r_index := ci_remove txn (r_index r)\<rparr>
                          in Some (if newly_created then r\<lparr>txn_states := hm_remove txn (txn_states r)\<rparr> else r, NoResponse))
                    else Some (r\<lparr>journal := journal r @ [JPreAccepted (ts_time txn) (ts_time t)]\<rparr>, PreAcceptOK txn t deps)}))"

definition handle_preaccept_multi :: "env \<Rightarrow> txn_id \<Rightarrow> timestamp \<Rightarrow> bytes list \<Rightarrow> ballot \<Rightarrow> u64 \<Rightarrow> 's replica \<Rightarrow> ('s replica \<times> sm_response) option" where
  "handle_preaccept_multi env txn t0 keys ballot epoch r = handle_preaccept_multi_with_snapshot env txn t0 keys ballot epoch None r"

definition handle_preaccept :: "env \<Rightarrow> txn_id \<Rightarrow> timestamp \<Rightarrow> bytes \<Rightarrow> ballot \<Rightarrow> u64 \<Rightarrow> 's replica \<Rightarrow> ('s replica \<times> sm_response) option" where
  "handle_preaccept env txn t0 key ballot epoch r = handle_preaccept_multi env txn t0 [key] ballot epoch r"

definition is_decided_phase :: "txn_phase \<Rightarrow> bool" where
  "is_decided_phase p \<longleftrightarrow> p = Committed \<or> p = Applied"

definition handle_accept :: "env \<Rightarrow> txn_id \<Rightarrow> timestamp \<Rightarrow> timestamp \<Rightarrow> txn_id list \<Rightarrow> ballot \<Rightarrow> 's replica \<Rightarrow> ('s replica \<times> sm_response) option" where
  "handle_accept env txn t0 t deps ballot r = do {
     (s, r) \<leftarrow> state_entry txn t0 r;
     if is_decided_phase (st_phase s) then Some (r, AcceptOK txn ballot (st_deps s))
     else if ballot < max_ballot_seen s then Some (r, Nack txn (max_ballot_seen s))
     else do {
       let deps_set = set deps \<union> st_deps s;
       if \<not> fsync env txn (JAccepted (ts_time txn) (ts_time t) ballot) then Some (r, NoResponse)
       else do {
         let r = r\<lparr>journal := journal r @ [JAccepted (ts_time txn) (ts_time t) ballot]\<rparr>;
         s \<leftarrow> txn_accept ballot t deps_set s;
         let r = (put_state txn s r)\<lparr>r_index := set_commit_ts txn t (r_index r)\<rparr>;
         r \<leftarrow> witness_timestamp env t r;
         Some (r, AcceptOK txn ballot deps_set)}}}"

datatype applied_ack = Ack | Withhold

definition record_applied_marker :: "env \<Rightarrow> txn_id \<Rightarrow> bool \<Rightarrow> journal_record list \<Rightarrow> journal_record list \<times> applied_ack" where
  "record_applied_marker env txn rows_durable j =
     (if fsync env txn (JApplied (ts_time txn)) then (j @ [JApplied (ts_time txn)], Ack) else (j, if rows_durable then Ack else Withhold))"

definition bookkeep_applied :: "env \<Rightarrow> txn_id \<Rightarrow> bytes \<Rightarrow> bool \<Rightarrow> 's replica \<Rightarrow> ('s replica \<times> applied_ack) option" where
  "bookkeep_applied env txn result_data rows_durable r =
     (let (j, ack) = record_applied_marker env txn rows_durable (journal r); r = r\<lparr>journal := j\<rparr>
      in if ack = Withhold then Some (r, Withhold)
         else do {
           r \<leftarrow> (case map_of (txn_states r) txn of
                  Some s \<Rightarrow> do {s \<leftarrow> txn_apply result_data s; Some (put_state txn s r)}
                | None \<Rightarrow> Some r);
           Some (r\<lparr>r_index := ci_mark_applied txn (r_index r), applied_epoch := (applied_epoch r + 1) mod 2 ^ 64\<rparr>, Ack)})"

fun bookkeep_each :: "env \<Rightarrow> (txn_id \<times> bytes) list \<Rightarrow> txn_id set \<Rightarrow> bool \<Rightarrow> 's replica \<Rightarrow> 's replica option" where
  "bookkeep_each env [] bookkept rows_durable r = Some r"
| "bookkeep_each env ((txn, result_data) # applied) bookkept rows_durable r =
     (if txn \<in> bookkept then bookkeep_each env applied bookkept rows_durable r
      else do {
        (r, _) \<leftarrow> bookkeep_applied env txn result_data rows_durable r;
        bookkeep_each env applied (insert txn bookkept) rows_durable r})"

definition bookkeep_applied_dedup :: "env \<Rightarrow> (txn_id \<times> bytes) list \<Rightarrow> bool \<Rightarrow> 's replica \<Rightarrow> 's replica option" where
  "bookkeep_applied_dedup env applied rows_durable r = bookkeep_each env applied {} rows_durable r"

definition executes_after :: "'s replica \<Rightarrow> txn_id \<Rightarrow> timestamp \<Rightarrow> bool" where
  "executes_after r dep t \<longleftrightarrow>
     (case map_of (txn_states r) dep of Some s \<Rightarrow> st_phase s = Committed \<and> st_t s > t | None \<Rightarrow> False)"

definition executes_before :: "'s replica \<Rightarrow> txn_id \<Rightarrow> timestamp \<Rightarrow> bool" where
  "executes_before r waiter t \<longleftrightarrow>
     (case map_of (txn_states r) waiter of Some s \<Rightarrow> st_phase s = Committed \<and> st_t s < t | None \<Rightarrow> False)"

fun waive_each :: "'s storage_applier \<Rightarrow> instant \<Rightarrow> (txn_id \<times> txn_id) list \<Rightarrow> 's dep_wait_applier \<Rightarrow> 's dep_wait_applier \<times> (txn_id \<times> bytes) list" where
  "waive_each ap now [] e = (e, [])"
| "waive_each ap now ((waiter, dep) # ws) e =
     (let (e, out) = waive_dependency ap now waiter dep e; (e, rest) = waive_each ap now ws e in (e, out @ rest))"

definition release_waiters_ordered_before :: "'s storage_applier \<Rightarrow> env \<Rightarrow> txn_id \<Rightarrow> timestamp \<Rightarrow> 's replica \<Rightarrow> 's replica option" where
  "release_waiters_ordered_before ap env dep dep_t r =
     (let ws = filter (\<lambda>w. executes_before r w dep_t) (waiters_on (apply_engine r) dep);
          (e, released) = waive_each ap (now_instant env) (map (\<lambda>w. (w, dep)) ws) (apply_engine r)
      in bookkeep_applied_dedup env released True (r\<lparr>apply_engine := e\<rparr>))"

definition handle_commit :: "'s storage_applier \<Rightarrow> env \<Rightarrow> txn_id \<Rightarrow> timestamp \<Rightarrow> timestamp \<Rightarrow> txn_id list \<Rightarrow> 's replica \<Rightarrow> ('s replica \<times> sm_response) option" where
  "handle_commit ap env txn t0 t deps r = do {
     (s, r) \<leftarrow> state_entry txn t0 r;
     if is_decided_phase (st_phase s) then Some (r, NoResponse)
     else if \<not> fsync env txn (JCommitted (ts_time txn) (ts_time t)) then Some (r, NoResponse)
     else do {
       let r = r\<lparr>journal := journal r @ [JCommitted (ts_time txn) (ts_time t)]\<rparr>;
       s \<leftarrow> txn_commit t (set deps) s;
       let r = (put_state txn s r)\<lparr>committed_txns := insert txn (committed_txns r), r_index := set_commit_ts txn t (r_index r)\<rparr>;
       r \<leftarrow> witness_timestamp env t r;
       let r = r\<lparr>last_notified := hm_get (dep_waiters r) txn, dep_waiters := hm_remove txn (dep_waiters r)\<rparr>;
       r \<leftarrow> release_waiters_ordered_before ap env txn t r;
       Some (r, NoResponse)}}"

definition register_committed_conflicts :: "txn_id \<Rightarrow> timestamp \<Rightarrow> bytes list \<Rightarrow> timestamp \<Rightarrow> 's replica \<Rightarrow> 's replica" where
  "register_committed_conflicts txn t0 keys t r =
     r\<lparr>r_index := fold (\<lambda>key ci. if has_write ci key txn then ci
         else ci_register key \<lparr>iw_txn_id = txn, iw_t0 = t0, accord_ts = Some t, iw_status = StCommitted\<rparr> ci) keys (r_index r)\<rparr>"

datatype apply_decision = DecisionDone sm_response | FinalizeWithoutState | NoWriteFinalize | Persist timestamp "txn_id list"

definition plan_apply :: "'s replica \<Rightarrow> txn_id \<Rightarrow> bool \<Rightarrow> apply_decision" where
  "plan_apply r txn no_write =
     (case map_of (txn_states r) txn of
        Some s \<Rightarrow>
          if st_phase s = Applied then DecisionDone NoResponse
          else if no_write then NoWriteFinalize
          else Persist (st_t s) (sorted_list_of_set (st_deps s))
      | None \<Rightarrow> if \<not> no_write then DecisionDone NoResponse else FinalizeWithoutState)"

definition ordered_deps :: "'s replica \<Rightarrow> txn_id list \<Rightarrow> timestamp \<Rightarrow> txn_id list" where
  "ordered_deps r deps t = filter (\<lambda>dep. \<not> executes_after r dep t \<and> map_of (txn_states r) dep \<noteq> None) deps"

definition write_views :: "bytes list \<Rightarrow> timestamp \<Rightarrow> txn_id list \<Rightarrow> apply_mutation list" where
  "write_views writes t deps = map (\<lambda>d. \<lparr>am_data = d, am_t = t, am_deps = deps\<rparr>) (filter (\<lambda>d. d \<noteq> []) writes)"

definition handle_apply_writeset_borrowed :: "'s storage_applier \<Rightarrow> env \<Rightarrow> txn_id \<Rightarrow> bytes list \<Rightarrow> 's replica \<Rightarrow> ('s replica \<times> sm_response) option" where
  "handle_apply_writeset_borrowed ap env txn writes r =
     (let no_write = list_all (\<lambda>w. w = []) writes
      in case plan_apply r txn no_write of
           DecisionDone response \<Rightarrow> Some (r, response)
         | FinalizeWithoutState \<Rightarrow> do {
             let r = r\<lparr>r_finalized := record_finalized txn (r_finalized r), r_index := ci_remove txn (r_index r),
                       applied_epoch := (applied_epoch r + 1) mod 2 ^ 64\<rparr>;
             let (e, woken) = notify_applied ap (now_instant env) txn (apply_engine r);
             r \<leftarrow> bookkeep_applied_dedup env woken True (r\<lparr>apply_engine := e\<rparr>);
             Some (r, NoWriteFinalized)}
         | NoWriteFinalize \<Rightarrow> do {
             (r, ack) \<leftarrow> bookkeep_applied env txn [] False r;
             if ack = Withhold then Some (r, NoResponse)
             else do {
               let (e, woken) = notify_applied ap (now_instant env) txn (apply_engine r);
               r \<leftarrow> bookkeep_applied_dedup env woken True (r\<lparr>apply_engine := e\<rparr>);
               Some (r, NoResponse)}}
         | Persist t deps \<Rightarrow>
             if txn \<in> applying r then Some (r, NoResponse)
             else (case try_apply_writeset_borrowed ap (stage_io env) (now_instant env) txn
                          (write_views writes t (ordered_deps r deps t)) (apply_engine r) of
                     (e, Inl err) \<Rightarrow> Some (r\<lparr>apply_engine := e\<rparr>, NoResponse)
                   | (e, Inr applied) \<Rightarrow>
                       if applied = [] then Some (r\<lparr>apply_engine := e\<rparr>, NoResponse)
                       else do {
                         r \<leftarrow> bookkeep_applied_dedup env applied True (r\<lparr>apply_engine := e\<rparr>);
                         Some (r, NoResponse)}))"

definition handle_apply_writeset :: "'s storage_applier \<Rightarrow> env \<Rightarrow> txn_id \<Rightarrow> bytes list \<Rightarrow> 's replica \<Rightarrow> ('s replica \<times> sm_response) option" where
  "handle_apply_writeset ap env txn writes r = handle_apply_writeset_borrowed ap env txn writes r"

definition handle_apply :: "'s storage_applier \<Rightarrow> env \<Rightarrow> txn_id \<Rightarrow> bytes \<Rightarrow> 's replica \<Rightarrow> ('s replica \<times> sm_response) option" where
  "handle_apply ap env txn result_data r = handle_apply_writeset ap env txn (if result_data = [] then [] else [result_data]) r"

record apply_durable_work =
  work_txn_id :: txn_id
  work_t :: timestamp
  work_deps :: "txn_id list"
  work_writes :: "bytes list"

record apply_durable_outcome =
  outcome_applied :: "(txn_id \<times> bytes) list"
  storage_ok :: bool

datatype apply_step = StepDone sm_response | Durable apply_durable_work

definition begin_apply_owned :: "'s storage_applier \<Rightarrow> env \<Rightarrow> txn_id \<Rightarrow> bytes list \<Rightarrow> 's replica \<Rightarrow> ('s replica \<times> apply_step) option" where
  "begin_apply_owned ap env txn writes r =
     (let no_write = list_all (\<lambda>w. w = []) writes
      in case plan_apply r txn no_write of
           DecisionDone response \<Rightarrow> Some (r, StepDone response)
         | FinalizeWithoutState \<Rightarrow> map_option (map_prod id StepDone) (handle_apply_writeset_borrowed ap env txn writes r)
         | NoWriteFinalize \<Rightarrow> map_option (map_prod id StepDone) (handle_apply_writeset_borrowed ap env txn writes r)
         | Persist t deps \<Rightarrow>
             if txn \<in> applying r then Some (r, StepDone NoResponse)
             else Some (r\<lparr>applying := insert txn (applying r)\<rparr>, Durable
               \<lparr>work_txn_id = txn, work_t = t, work_deps = ordered_deps r deps t, work_writes = filter (\<lambda>w. w \<noteq> []) writes\<rparr>))"

definition execute_apply_durability :: "'s storage_applier \<Rightarrow> env \<Rightarrow> apply_durable_work \<Rightarrow> 's replica \<Rightarrow> 's replica \<times> apply_durable_outcome" where
  "execute_apply_durability ap env work r =
     (case try_apply_writeset_borrowed ap (stage_io env) (now_instant env) (work_txn_id work)
             (map (\<lambda>d. \<lparr>am_data = d, am_t = work_t work, am_deps = work_deps work\<rparr>) (work_writes work)) (apply_engine r) of
        (e, Inr applied) \<Rightarrow> (r\<lparr>apply_engine := e\<rparr>, \<lparr>outcome_applied = applied, storage_ok = True\<rparr>)
      | (e, Inl err) \<Rightarrow> (r\<lparr>apply_engine := e\<rparr>, \<lparr>outcome_applied = [], storage_ok = False\<rparr>))"

definition release_parked_from_deps_ordered_after :: "'s storage_applier \<Rightarrow> env \<Rightarrow> txn_id \<Rightarrow> 's replica \<Rightarrow> 's replica option" where
  "release_parked_from_deps_ordered_after ap env waiter r =
     (case map_of (txn_states r) waiter of
        None \<Rightarrow> Some r
      | Some s \<Rightarrow>
          if st_phase s \<noteq> Committed then Some r
          else let deps = filter (\<lambda>dep. executes_after r dep (st_t s)) (parked_deps_of (apply_engine r) waiter);
                   (e, released) = waive_each ap (now_instant env) (map (\<lambda>dep. (waiter, dep)) deps) (apply_engine r)
               in bookkeep_applied_dedup env released True (r\<lparr>apply_engine := e\<rparr>))"

definition finish_apply :: "'s storage_applier \<Rightarrow> env \<Rightarrow> txn_id \<Rightarrow> apply_durable_outcome \<Rightarrow> 's replica \<Rightarrow> ('s replica \<times> sm_response) option" where
  "finish_apply ap env txn outcome r =
     (let r = r\<lparr>applying := applying r - {txn}\<rparr>
      in if \<not> storage_ok outcome then Some (r, NoResponse)
         else do {
           let r = r\<lparr>applying := applying r - fst ` set (outcome_applied outcome)\<rparr>;
           let parked = (txn \<notin> fst ` set (outcome_applied outcome));
           r \<leftarrow> bookkeep_applied_dedup env (outcome_applied outcome) True r;
           r \<leftarrow> (if parked then release_parked_from_deps_ordered_after ap env txn r else Some r);
           Some (r, NoResponse)})"

definition handle_recover :: "txn_id \<Rightarrow> timestamp \<Rightarrow> ballot \<Rightarrow> 's replica \<Rightarrow> ('s replica \<times> txn_state option) option" where
  "handle_recover txn t0 ballot r = do {
     (s, r) \<leftarrow> state_entry txn t0 r;
     if ballot < max_ballot_seen s then Some (r, None)
     else do {
       s \<leftarrow> (if ballot > max_ballot_seen s then join_ballot ballot s else Some s);
       Some (put_state txn s r, Some s)}}"

definition prune_applied_idempotency :: "'s storage_applier \<Rightarrow> 's replica \<Rightarrow> 's replica \<times> usize" where
  "prune_applied_idempotency ap r =
     (case ft_floor (r_finalized r) of
        Some fl \<Rightarrow> (let (s, n) = prune_applied_below ap fl (e_storage (apply_engine r))
                    in (r\<lparr>apply_engine := (apply_engine r)\<lparr>e_storage := s\<rparr>\<rparr>, n))
      | None \<Rightarrow> (r, 0))"

definition prune_one :: "txn_id \<Rightarrow> 's replica \<Rightarrow> 's replica" where
  "prune_one txn r = r\<lparr>txn_states := hm_remove txn (txn_states r), committed_txns := committed_txns r - {txn},
     dep_waiters := hm_remove txn (dep_waiters r), r_finalized := record_applied txn (r_finalized r)\<rparr>"

definition unapplied_conflicts_before :: "'s replica \<Rightarrow> bytes \<Rightarrow> timestamp \<Rightarrow> txn_id set" where
  "unapplied_conflicts_before r key t =
     Set.filter (\<lambda>dep. case map_of (txn_states r) dep of
         None \<Rightarrow> False
       | Some s \<Rightarrow> (case st_phase s of Applied \<Rightarrow> False | Committed \<Rightarrow> st_t s < t | _ \<Rightarrow> True))
       (deps_before_t (r_index r) key t)"

definition dependency_wait_signature :: "'s replica \<Rightarrow> bytes \<Rightarrow> timestamp \<Rightarrow> (txn_id \<times> nat) list" where
  "dependency_wait_signature r key t =
     map (\<lambda>dep. (dep, case map_of (txn_states r) dep of
         None \<Rightarrow> 0
       | Some s \<Rightarrow> (case st_phase s of PreAccepted \<Rightarrow> 1 | Accepted \<Rightarrow> 2 | Committed \<Rightarrow> 3 | Applied \<Rightarrow> 4)))
       (sorted_list_of_set (unapplied_conflicts_before r key t))"

definition prune_applied :: "'s storage_applier \<Rightarrow> env \<Rightarrow> 's replica \<Rightarrow> ('s replica \<times> usize) option" where
  "prune_applied ap env r = do {
     let before = length (txn_states r) + card (committed_txns r);
     let applied_ids = map fst (filter (\<lambda>(_, s). st_phase s = Applied) (txn_states r));
     let r = fold prune_one applied_ids r;
     let r = r\<lparr>r_index := gc_applied (r_index r)\<rparr>;
     r \<leftarrow> (case r_clock r of
            None \<Rightarrow> Some r
          | Some c \<Rightarrow> do {
              (c, now) \<leftarrow> hlc_now (phys1 env) c;
              Some (r\<lparr>r_clock := Some c, r_finalized := fst (advance_horizon now (r_finalized r))\<rparr>)});
     let r = fst (prune_applied_idempotency ap r);
     let r = r\<lparr>apply_engine := fst (forget_graph_applied applied_ids (apply_engine r))\<rparr>;
     Some (r, before - (length (txn_states r) + card (committed_txns r)))}"

definition advance_finalized_horizon :: "timestamp \<Rightarrow> 's replica \<Rightarrow> 's replica \<times> usize" where
  "advance_finalized_horizon now r = (let (f, n) = advance_horizon now (r_finalized r) in (r\<lparr>r_finalized := f\<rparr>, n))"

definition was_applied_and_pruned :: "'s replica \<Rightarrow> txn_id \<Rightarrow> bool" where
  "was_applied_and_pruned r txn = was_applied (r_finalized r) txn"

definition reclaim_stale_parked_applies :: "env \<Rightarrow> u64 \<Rightarrow> 's replica \<Rightarrow> 's replica \<times> reclaimed_park list" where
  "reclaim_stale_parked_applies env max_age r =
     (let (e, parks) = reclaim_stale (now_instant env) max_age (apply_engine r) in (r\<lparr>apply_engine := e\<rparr>, parks))"

definition reclaim_stale_parked_applies_default :: "env \<Rightarrow> 's replica \<Rightarrow> 's replica \<times> reclaimed_park list" where
  "reclaim_stale_parked_applies_default env r = reclaim_stale_parked_applies env (reclaim_bound (apply_engine r)) r"

section \<open>Runs\<close>

datatype sm_event =
  PreAcceptMsg txn_id timestamp "bytes list" ballot u64 "timestamp option"
| AcceptMsg txn_id timestamp timestamp "txn_id list" ballot
| CommitMsg txn_id timestamp timestamp "txn_id list"
| RegisterCommitted txn_id timestamp "bytes list" timestamp
| ApplyMsg txn_id "bytes list"
| BeginApply txn_id "bytes list"
| ExecuteApply apply_durable_work
| FinishApply txn_id apply_durable_outcome
| RecoverMsg txn_id timestamp ballot
| DepWaiter txn_id txn_id
| AdvanceFinalized timestamp
| ReclaimParked u64
| Prune

fun sm_step :: "'s storage_applier \<Rightarrow> env \<Rightarrow> sm_event \<Rightarrow> 's replica \<Rightarrow> 's replica option" where
  "sm_step ap env (PreAcceptMsg txn t0 keys ballot epoch snap) r =
     map_option fst (handle_preaccept_multi_with_snapshot env txn t0 keys ballot epoch snap r)"
| "sm_step ap env (AcceptMsg txn t0 t deps ballot) r = map_option fst (handle_accept env txn t0 t deps ballot r)"
| "sm_step ap env (CommitMsg txn t0 t deps) r = map_option fst (handle_commit ap env txn t0 t deps r)"
| "sm_step ap env (RegisterCommitted txn t0 keys t) r = Some (register_committed_conflicts txn t0 keys t r)"
| "sm_step ap env (ApplyMsg txn writes) r = map_option fst (handle_apply_writeset ap env txn writes r)"
| "sm_step ap env (BeginApply txn writes) r = map_option fst (begin_apply_owned ap env txn writes r)"
| "sm_step ap env (ExecuteApply work) r = Some (fst (execute_apply_durability ap env work r))"
| "sm_step ap env (FinishApply txn outcome) r = map_option fst (finish_apply ap env txn outcome r)"
| "sm_step ap env (RecoverMsg txn t0 ballot) r = map_option fst (handle_recover txn t0 ballot r)"
| "sm_step ap env (DepWaiter dep waiter) r = Some (register_dep_waiter dep waiter r)"
| "sm_step ap env (AdvanceFinalized now) r = Some (fst (advance_finalized_horizon now r))"
| "sm_step ap env (ReclaimParked max_age) r = Some (fst (reclaim_stale_parked_applies env max_age r))"
| "sm_step ap env Prune r = map_option fst (prune_applied ap env r)"

fun sm_run :: "'s storage_applier \<Rightarrow> (env \<times> sm_event) list \<Rightarrow> 's replica \<Rightarrow> 's replica option" where
  "sm_run ap [] r = Some r"
| "sm_run ap ((env, ev) # evs) r = do {r \<leftarrow> sm_step ap env ev r; sm_run ap evs r}"

end
