(* ===== verification/Replica_Safety.thy ===== *)
theory Replica_Safety
  imports Replica "HOL-Library.Sublist"
begin

text \<open>
  Safety of the Accord state machine of a replica.  A handler call, whatever its message and whatever
  the journal and the clocks do, is an evolution: transaction states only grow, a decision is final,
  the conflict index and the record of decided transactions change by their own operations and the
  journal is only appended to.  The properties follow for every run of handler calls.
\<close>

section \<open>Evolution of the state\<close>

definition state_evolves :: "txn_state \<Rightarrow> txn_state \<Rightarrow> bool" where
  "state_evolves s s' \<longleftrightarrow> txn_grows s s' \<and> (is_decided_phase (st_phase s) \<longrightarrow> st_t s' = st_t s \<and> st_deps s' = st_deps s)"

definition sm_inv :: "'s replica \<Rightarrow> bool" where
  "sm_inv r \<longleftrightarrow> distinct (map fst (txn_states r)) \<and> (\<forall>txn s. map_of (txn_states r) txn = Some s \<longrightarrow> txn_wf s \<and> st_txn_id s = txn)
     \<and> ci_keys_distinct (r_index r) \<and> finalized_wf (r_finalized r)"

definition finishes :: "ci_op list \<Rightarrow> txn_id \<Rightarrow> bool" where
  "finishes ops txn \<longleftrightarrow> Remove txn \<in> set ops \<or> MarkApplied txn \<in> set ops"

definition evolves :: "'s replica \<Rightarrow> 's replica \<Rightarrow> bool" where
  "evolves r r' \<longleftrightarrow> sm_inv r \<longrightarrow> sm_inv r'
     \<and> (\<forall>txn s. map_of (txn_states r) txn = Some s \<longrightarrow> (\<exists>s'. map_of (txn_states r') txn = Some s' \<and> state_evolves s s'))
     \<and> (\<exists>ops. r_index r' = foldl ci_step (r_index r) ops
          \<and> (\<forall>txn s. map_of (txn_states r) txn = Some s \<longrightarrow> st_phase s = Committed \<longrightarrow> finishes ops txn
               \<longrightarrow> (\<exists>s'. map_of (txn_states r') txn = Some s' \<and> st_phase s' = Applied)))
     \<and> (\<exists>fops. r_finalized r' = foldl finalized_step (r_finalized r) fops)
     \<and> prefix (journal r) (journal r')"

lemma decided_rank: "is_decided_phase p \<longleftrightarrow> phase_rank p \<ge> 2"
  by (cases p) (simp_all add: is_decided_phase_def)

lemma state_evolves_refl [simp]: "state_evolves s s"
  by (simp add: state_evolves_def txn_grows_refl)

lemma state_evolves_trans: "state_evolves s u \<Longrightarrow> state_evolves u v \<Longrightarrow> state_evolves s v"
  unfolding state_evolves_def decided_rank by (auto simp: txn_grows_def)

lemma applied_stays: "state_evolves s s' \<Longrightarrow> st_phase s = Applied \<Longrightarrow> st_phase s' = Applied"
  by (cases "st_phase s'") (auto simp: state_evolves_def txn_grows_def)

lemma committed_stays: "state_evolves s s' \<Longrightarrow> st_phase s = Committed \<Longrightarrow> st_phase s' = Committed \<or> st_phase s' = Applied"
  by (cases "st_phase s'") (auto simp: state_evolves_def txn_grows_def)

lemma evolves_refl [simp]: "evolves r r"
  by (auto simp: evolves_def finishes_def intro!: exI [of _ "[]"])

lemma evolvesD:
  assumes "evolves r r'" "sm_inv r"
  shows "sm_inv r'"
    and "map_of (txn_states r) txn = Some s \<Longrightarrow> \<exists>s'. map_of (txn_states r') txn = Some s' \<and> state_evolves s s'"
    and "prefix (journal r) (journal r')"
  using assms by (simp_all add: evolves_def)

lemma evolves_trans:
  assumes "evolves r u" "evolves u v"
  shows "evolves r v"
  unfolding evolves_def
proof (intro impI conjI allI)
  assume r: "sm_inv r"
  note u = evolvesD [OF assms(1) r]
  note v = evolvesD [OF assms(2) u(1)]
  show "sm_inv v" by (rule v(1))
  show "prefix (journal r) (journal v)" using u(3) v(3) by (rule prefix_order.trans)
  obtain fops fops' where "r_finalized u = foldl finalized_step (r_finalized r) fops"
    "r_finalized v = foldl finalized_step (r_finalized u) fops'"
    using assms r u(1) by (auto simp: evolves_def)
  then show "\<exists>fops. r_finalized v = foldl finalized_step (r_finalized r) fops"
    by (intro exI [of _ "fops @ fops'"]) simp
  obtain ops where ops: "r_index u = foldl ci_step (r_index r) ops"
    "\<And>txn s. map_of (txn_states r) txn = Some s \<Longrightarrow> st_phase s = Committed \<Longrightarrow> finishes ops txn
       \<Longrightarrow> \<exists>s'. map_of (txn_states u) txn = Some s' \<and> st_phase s' = Applied"
    using assms(1) r unfolding evolves_def by blast
  obtain ops' where ops': "r_index v = foldl ci_step (r_index u) ops'"
    "\<And>txn s. map_of (txn_states u) txn = Some s \<Longrightarrow> st_phase s = Committed \<Longrightarrow> finishes ops' txn
       \<Longrightarrow> \<exists>s'. map_of (txn_states v) txn = Some s' \<and> st_phase s' = Applied"
    using assms(2) u(1) unfolding evolves_def by blast
  have fin: "\<exists>s'. map_of (txn_states v) txn = Some s' \<and> st_phase s' = Applied"
    if s: "map_of (txn_states r) txn = Some s" "st_phase s = Committed" "finishes (ops @ ops') txn" for txn s
  proof -
    obtain s1 where s1: "map_of (txn_states u) txn = Some s1" "state_evolves s s1" using u(2) [OF s(1)] by blast
    obtain s2 where s2: "map_of (txn_states v) txn = Some s2" "state_evolves s1 s2" using v(2) [OF s1(1)] by blast
    from s(3) consider "finishes ops txn" | "finishes ops' txn" by (auto simp: finishes_def)
    then show ?thesis
    proof cases
      case 1
      then have "st_phase s1 = Applied" using ops(2) [OF s(1,2)] s1(1) by auto
      then show ?thesis using s2 applied_stays by blast
    next
      case 2
      from committed_stays [OF s1(2) s(2)] show ?thesis
      proof
        assume "st_phase s1 = Committed"
        then show ?thesis using ops'(2) [OF s1(1)] 2 by blast
      next
        assume "st_phase s1 = Applied"
        then show ?thesis using s2 applied_stays by blast
      qed
    qed
  qed
  show "\<exists>ops. r_index v = foldl ci_step (r_index r) ops
      \<and> (\<forall>txn s. map_of (txn_states r) txn = Some s \<longrightarrow> st_phase s = Committed \<longrightarrow> finishes ops txn
           \<longrightarrow> (\<exists>s'. map_of (txn_states v) txn = Some s' \<and> st_phase s' = Applied))"
    using fin ops(1) ops'(1) by (intro exI [of _ "ops @ ops'"]) simp
  fix txn s
  assume "map_of (txn_states r) txn = Some s"
  from u(2) [OF this] v(2) show "\<exists>s'. map_of (txn_states v) txn = Some s' \<and> state_evolves s s'"
    using state_evolves_trans by blast
qed

lemma ci_run_distinct: "ci_keys_distinct ci \<Longrightarrow> ci_keys_distinct (foldl ci_step ci ops)"
  by (induction ops arbitrary: ci) (simp_all add: ci_step_distinct)

lemma evolvesI:
  assumes "sm_inv r \<Longrightarrow> sm_inv r'"
    and "\<And>txn s. sm_inv r \<Longrightarrow> map_of (txn_states r) txn = Some s \<Longrightarrow> \<exists>s'. map_of (txn_states r') txn = Some s' \<and> state_evolves s s'"
    and "r_index r' = foldl ci_step (r_index r) ops"
    and "\<And>txn s. map_of (txn_states r) txn = Some s \<Longrightarrow> st_phase s = Committed \<Longrightarrow> finishes ops txn
      \<Longrightarrow> \<exists>s'. map_of (txn_states r') txn = Some s' \<and> st_phase s' = Applied"
    and "r_finalized r' = foldl finalized_step (r_finalized r) fops" "prefix (journal r) (journal r')"
  shows "evolves r r'"
  unfolding evolves_def
proof (intro impI conjI)
  show "\<exists>ops. r_index r' = foldl ci_step (r_index r) ops \<and> (\<forall>txn s. map_of (txn_states r) txn = Some s \<longrightarrow>
      st_phase s = Committed \<longrightarrow> finishes ops txn \<longrightarrow> (\<exists>s'. map_of (txn_states r') txn = Some s' \<and> st_phase s' = Applied))"
    using assms(3,4) by blast
qed (use assms in blast)+

lemma evolves_frame:
  assumes "txn_states r' = txn_states r" "r_index r' = foldl ci_step (r_index r) ops" "\<And>txn. \<not> finishes ops txn"
    and "r_finalized r' = foldl finalized_step (r_finalized r) fops" "prefix (journal r) (journal r')"
  shows "evolves r r'"
  using assms by (auto simp: evolves_def sm_inv_def finalized_run_wf ci_run_distinct)

lemma evolves_local:
  assumes "txn_states r' = txn_states r" "r_index r' = r_index r" "r_finalized r' = r_finalized r" "journal r' = journal r"
  shows "evolves r r'"
  using assms by (intro evolves_frame [where ops = "[]" and fops = "[]"]) (simp_all add: finishes_def)

lemma distinct_hm_insert: "distinct (map fst m) \<Longrightarrow> distinct (map fst (hm_insert k v m))"
  unfolding hm_insert_def by (rule distinct_entry_update)

lemma put_state_simps [simp]:
  "txn_states (put_state txn s r) = hm_insert txn s (txn_states r)" "r_index (put_state txn s r) = r_index r"
  "journal (put_state txn s r) = journal r" "committed_txns (put_state txn s r) = committed_txns r"
  "r_clock (put_state txn s r) = r_clock r" "r_finalized (put_state txn s r) = r_finalized r"
  by (simp_all add: put_state_def)

lemma evolves_put:
  assumes "map_of (txn_states r) txn = Some s" "sm_inv r \<Longrightarrow> txn_wf s' \<and> state_evolves s s'"
  shows "evolves r (put_state txn s' r)"
proof -
  have id: "st_txn_id s' = txn" if "sm_inv r"
    using assms that by (auto simp: sm_inv_def state_evolves_def txn_grows_def)
  then show ?thesis using assms
    by (auto simp: evolves_def put_state_def sm_inv_def distinct_hm_insert finishes_def intro!: exI [of _ "[]"])
qed

lemma state_entry_spec:
  obtains s r1 where "state_entry txn t0 r = Some (s, r1)" "evolves r r1" "map_of (txn_states r1) txn = Some s"
    "r1 = r\<lparr>txn_states := txn_states r1\<rparr>" "\<And>x. x \<noteq> txn \<Longrightarrow> map_of (txn_states r1) x = map_of (txn_states r) x"
    "map_of (txn_states r) txn = None \<Longrightarrow> st_phase s = PreAccepted \<and> txn_state_new txn t0 = Some s"
    "\<And>s0. map_of (txn_states r) txn = Some s0 \<Longrightarrow> s0 = s \<and> r1 = r"
proof (cases "map_of (txn_states r) txn")
  case None
  obtain s where s: "txn_state_new txn t0 = Some s" "txn_wf s" "st_txn_id s = txn" "st_phase s = PreAccepted"
    by (rule txn_state_new_wf)
  let ?r = "r\<lparr>txn_states := hm_insert txn s (txn_states r)\<rparr>"
  have "evolves r ?r"
    using None s by (auto simp: evolves_def sm_inv_def distinct_hm_insert finishes_def intro!: exI [of _ "[]"])
  then show thesis by (intro that [of s ?r]) (use None s in \<open>simp_all add: state_entry_def\<close>)
qed (rule that; simp add: state_entry_def)

section \<open>Panics\<close>

text \<open>The only panic of a handler is the clock running out of sequence numbers.\<close>

definition clock_fails :: "env \<Rightarrow> hlc option \<Rightarrow> bool" where
  "clock_fails env c \<longleftrightarrow> (case c of None \<Rightarrow> False
     | Some c \<Rightarrow> hlc_now (phys1 env) c = None \<or> (\<exists>t. hlc_witness (phys1 env) (phys2 env) t c = None))"

definition sm_wp :: "env \<Rightarrow> hlc option \<Rightarrow> 'a option \<Rightarrow> ('a \<Rightarrow> bool) \<Rightarrow> bool" where
  "sm_wp env c m Q \<longleftrightarrow> (case m of None \<Rightarrow> clock_fails env c | Some x \<Rightarrow> Q x)"

lemma sm_wp_Some [simp]: "sm_wp env c (Some x) Q = Q x"
  by (simp add: sm_wp_def)

lemma sm_wp_bind: "sm_wp env c m (\<lambda>x. sm_wp env c (f x) Q) \<Longrightarrow> sm_wp env c (m \<bind> f) Q"
  by (cases m) (simp_all add: sm_wp_def)

lemma sm_wp_mono: "sm_wp env c m Q \<Longrightarrow> (\<And>x. m = Some x \<Longrightarrow> Q x \<Longrightarrow> Q' x) \<Longrightarrow> sm_wp env c m Q'"
  by (cases m) (simp_all add: sm_wp_def)

lemma sm_wp_map [simp]: "sm_wp env c (map_option f m) Q = sm_wp env c m (\<lambda>x. Q (f x))"
  by (cases m) (simp_all add: sm_wp_def)

lemma witness_wp:
  "sm_wp env (r_clock r) (witness_timestamp env t r) (\<lambda>r'. \<exists>c. r' = r\<lparr>r_clock := c\<rparr>)"
proof (cases "r_clock r")
  case None
  have "\<exists>c. r = r\<lparr>r_clock := c\<rparr>" by (rule exI [of _ "r_clock r"]) simp
  then show ?thesis using None by (simp add: witness_timestamp_def)
next
  case (Some c)
  then show ?thesis
    by (cases "hlc_witness (phys1 env) (phys2 env) t c") (auto simp: witness_timestamp_def sm_wp_def clock_fails_def)
qed

section \<open>The handlers\<close>

lemma applied_state:
  assumes "txn_wf s"
  obtains s' where "txn_apply data s = Some s'" "txn_wf s'" "state_evolves s s'" "st_phase s' = Applied"
proof -
  obtain s' where s': "txn_apply data s = Some s'" "txn_wf s'" "txn_grows s s'"
    using txn_step_wf [OF assms, of "Apply data"] by auto
  then have "state_evolves s s'" by (auto simp: state_evolves_def txn_apply_def)
  moreover have "st_phase s' = Applied" using s'(1) by (cases "st_phase s") (auto simp: txn_apply_def advance_phase_def)
  ultimately show thesis using s' that by blast
qed

lemma evolves_applied:
  assumes "map_of (txn_states r) txn = Some s" "sm_inv r \<Longrightarrow> txn_wf s' \<and> state_evolves s s'" "st_phase s' = Applied"
  shows "evolves r ((put_state txn s' r)\<lparr>r_index := ci_mark_applied txn (r_index r), applied_epoch := n\<rparr>)"
proof -
  let ?q = "(put_state txn s' r)\<lparr>r_index := ci_mark_applied txn (r_index r), applied_epoch := n\<rparr>"
  have put: "evolves r (put_state txn s' r)" using assms(1,2) by (rule evolves_put)
  show ?thesis
  proof (rule evolvesI [where ops = "[MarkApplied txn]" and fops = "[]"])
    show "sm_inv ?q" if "sm_inv r"
      using evolvesD(1) [OF put that] ci_step_distinct [of "r_index r" "MarkApplied txn"] by (simp add: sm_inv_def put_state_def)
    show "\<exists>u. map_of (txn_states ?q) x = Some u \<and> state_evolves w u"
      if "sm_inv r" "map_of (txn_states r) x = Some w" for x w
      using evolvesD(2) [OF put that] by (simp add: put_state_def)
    show "\<exists>u. map_of (txn_states ?q) x = Some u \<and> st_phase u = Applied" if "finishes [MarkApplied txn] x" for x
      using that assms(3) by (simp add: finishes_def put_state_def)
  qed (simp_all add: put_state_def)
qed

lemma bookkeep_applied_evolves:
  assumes "sm_inv r"
  obtains r' ack where "bookkeep_applied env txn data d r = Some (r', ack)" "evolves r r'" "r_clock r' = r_clock r"
proof -
  obtain j ack where m: "record_applied_marker env txn d (journal r) = (j, ack)" by fastforce
  then have j: "prefix (journal r) j" by (auto simp: record_applied_marker_def split: if_splits)
  let ?r = "r\<lparr>journal := j\<rparr>"
  have r: "evolves r ?r"
    by (rule evolves_frame [where ops = "[]" and fops = "[]"]) (use j in \<open>simp_all add: finishes_def\<close>)
  note inv = evolvesD(1) [OF r assms]
  show thesis
  proof (cases "ack = Withhold")
    case True
    then show thesis using m r by (intro that [of ?r Withhold]) (simp_all add: bookkeep_applied_def)
  next
    case ack: False
    show thesis
    proof (cases "map_of (txn_states r) txn")
      case None
      let ?q = "?r\<lparr>r_index := ci_mark_applied txn (r_index r), applied_epoch := (applied_epoch r + 1) mod 2 ^ 64\<rparr>"
      have "evolves ?r ?q"
      proof (rule evolvesI [where ops = "[MarkApplied txn]" and fops = "[]"])
        show "sm_inv ?q" using inv ci_step_distinct [of "r_index r" "MarkApplied txn"] by (simp add: sm_inv_def)
        show "\<exists>u. map_of (txn_states ?q) x = Some u \<and> st_phase u = Applied"
          if "map_of (txn_states ?r) x = Some w" "finishes [MarkApplied txn] x" for x w
          using that None by (simp add: finishes_def)
      qed simp_all
      with r have "evolves r ?q" by (rule evolves_trans)
      then show thesis
        using m ack None by (intro that [of ?q Ack]) (simp_all add: bookkeep_applied_def)
    next
      case (Some s)
      then have "txn_wf s" using assms by (simp add: sm_inv_def)
      then obtain s' where s': "txn_apply data s = Some s'" "txn_wf s'" "state_evolves s s'" "st_phase s' = Applied"
        by (rule applied_state)
      let ?q = "(put_state txn s' ?r)\<lparr>r_index := ci_mark_applied txn (r_index r), applied_epoch := (applied_epoch r + 1) mod 2 ^ 64\<rparr>"
      have "evolves ?r ?q" using evolves_applied [of ?r txn s s'] Some s' by simp
      with r have "evolves r ?q" by (rule evolves_trans)
      then show thesis
        using m ack Some s'(1) by (intro that [of ?q Ack]) (simp_all add: bookkeep_applied_def put_state_def)
    qed
  qed
qed

lemma bookkeep_each_evolves:
  assumes "sm_inv r"
  obtains r' where "bookkeep_each env applied seen d r = Some r'" "evolves r r'" "r_clock r' = r_clock r"
  using assms
proof (induction env applied seen d r arbitrary: thesis rule: bookkeep_each.induct)
  case (2 env txn data applied seen d r)
  show ?case
  proof (cases "txn \<in> seen")
    case True
    with 2 show ?thesis by auto
  next
    case False
    obtain r1 ack where r1: "bookkeep_applied env txn data d r = Some (r1, ack)" "evolves r r1" "r_clock r1 = r_clock r"
      using 2(4) by (rule bookkeep_applied_evolves)
    obtain r2 where "bookkeep_each env applied (insert txn seen) d r1 = Some r2" "evolves r1 r2" "r_clock r2 = r_clock r1"
      using 2(2) [OF False r1(1) refl] evolvesD(1) [OF r1(2) 2(4)] by blast
    then show ?thesis using False r1 2(3) evolves_trans by auto
  qed
qed simp

lemma bookkeep_dedup_evolves:
  assumes "sm_inv r"
  obtains r' where "bookkeep_applied_dedup env applied d r = Some r'" "evolves r r'" "r_clock r' = r_clock r"
  using bookkeep_each_evolves [OF assms] unfolding bookkeep_applied_dedup_def by blast

lemma bookkeep_engine_evolves:
  assumes "sm_inv r"
  obtains r' where "bookkeep_applied_dedup env applied d (r\<lparr>apply_engine := e\<rparr>) = Some r'" "evolves r r'" "r_clock r' = r_clock r"
proof -
  have e: "evolves r (r\<lparr>apply_engine := e\<rparr>)" by (rule evolves_local) simp_all
  obtain r' where r': "bookkeep_applied_dedup env applied d (r\<lparr>apply_engine := e\<rparr>) = Some r'"
    "evolves (r\<lparr>apply_engine := e\<rparr>) r'" "r_clock r' = r_clock (r\<lparr>apply_engine := e\<rparr>)"
    using evolvesD(1) [OF e assms] by (rule bookkeep_dedup_evolves)
  show thesis by (rule that [OF r'(1) evolves_trans [OF e r'(2)]]) (simp add: r'(3))
qed

lemma release_before_evolves:
  assumes "sm_inv r"
  obtains r' where "release_waiters_ordered_before ap env dep t r = Some r'" "evolves r r'" "r_clock r' = r_clock r"
  using bookkeep_engine_evolves [OF assms] unfolding release_waiters_ordered_before_def Let_def case_prod_beta by metis

lemma release_after_evolves:
  assumes "sm_inv r"
  obtains r' where "release_parked_from_deps_ordered_after ap env x r = Some r'" "evolves r r'" "r_clock r' = r_clock r"
proof (cases "\<exists>s. map_of (txn_states r) x = Some s \<and> st_phase s = Committed")
  case True
  then obtain s where s: "map_of (txn_states r) x = Some s" "st_phase s = Committed" by blast
  obtain e rel where "release_parked_from_deps_ordered_after ap env x r = bookkeep_applied_dedup env rel True (r\<lparr>apply_engine := e\<rparr>)"
    unfolding release_parked_from_deps_ordered_after_def Let_def case_prod_beta using s by auto
  then show thesis using bookkeep_engine_evolves [OF assms] that by metis
next
  case False
  then show thesis
    by (intro that [of r]) (auto simp: release_parked_from_deps_ordered_after_def split: option.splits)
qed

lemma evolves_journal: "evolves r (r\<lparr>journal := journal r @ js\<rparr>)"
  by (rule evolves_frame [where ops = "[]" and fops = "[]"]) (simp_all add: finishes_def)

lemma evolves_index: "(\<And>x. \<not> finishes ops x) \<Longrightarrow> evolves r (r\<lparr>r_index := foldl ci_step (r_index r) ops\<rparr>)"
  by (rule evolves_frame [where ops = ops and fops = "[]"]) simp_all

lemma evolves_clock: "evolves r (r\<lparr>r_clock := c\<rparr>)"
  by (rule evolves_local) simp_all

lemma fold_register:
  "fold (\<lambda>key. ci_register key (w key)) keys ci = foldl ci_step ci (map (\<lambda>key. Register key (w key)) keys)"
  by (induction keys arbitrary: ci) simp_all

lemma register_committed_evolves: "evolves r (register_committed_conflicts txn t0 keys t r)"
proof -
  let ?f = "\<lambda>key ci. if has_write ci key txn then ci
    else ci_register key \<lparr>iw_txn_id = txn, iw_t0 = t0, accord_ts = Some t, iw_status = StCommitted\<rparr> ci"
  have "\<exists>ops. fold ?f keys ci = foldl ci_step ci ops \<and> (\<forall>x. \<not> finishes ops x)" for ci
  proof (induction keys arbitrary: ci)
    case (Cons key keys)
    show ?case
    proof (cases "has_write ci key txn")
      case False
      let ?w = "\<lparr>iw_txn_id = txn, iw_t0 = t0, accord_ts = Some t, iw_status = StCommitted\<rparr>"
      obtain ops where ops: "fold ?f keys (ci_register key ?w ci) = foldl ci_step (ci_register key ?w ci) ops" "\<forall>x. \<not> finishes ops x"
        using Cons.IH by blast
      show ?thesis using False ops by (intro exI [of _ "Register key ?w # ops"]) (simp add: finishes_def)
    qed (use Cons.IH in simp)
  qed (auto simp: finishes_def intro!: exI [of _ "[]"])
  then obtain ops where "fold ?f keys (r_index r) = foldl ci_step (r_index r) ops" "\<And>x. \<not> finishes ops x" by blast
  then show ?thesis using evolves_index [of ops r] by (simp add: register_committed_conflicts_def)
qed

lemma accept_state:
  assumes "txn_wf s" "\<not> is_decided_phase (st_phase s)"
  obtains s' where "txn_accept b t deps s = Some s'" "txn_wf s'" "state_evolves s s'" "max_ballot_seen s' = max (max_ballot_seen s) b"
    "st_t s' = t" "st_deps s' = deps"
  using txn_step_wf [OF assms(1), of "Accept b t deps"] assms(2)
  by (auto simp: state_evolves_def txn_accept_def Let_def)

lemma commit_state:
  assumes "txn_wf s" "\<not> is_decided_phase (st_phase s)"
  obtains s' where "txn_commit t deps s = Some s'" "txn_wf s'" "state_evolves s s'" "st_phase s' = Committed" "st_t s' = t" "st_deps s' = deps"
proof -
  obtain s' where s': "txn_commit t deps s = Some s'" "txn_wf s'" "txn_grows s s'"
    using txn_step_wf [OF assms(1), of "Commit t deps"] by auto
  then have "st_phase s' = Committed" "st_t s' = t" "st_deps s' = deps"
    using assms(2) by (cases "st_phase s"; auto simp: txn_commit_def advance_phase_def is_decided_phase_def)+
  then show thesis using s' assms(2) by (intro that) (auto simp: state_evolves_def)
qed

lemma preaccept_state:
  assumes "txn_wf s" "st_phase s = PreAccepted"
  obtains s' where "txn_pre_accept t deps s = Some s'" "txn_wf s'" "state_evolves s s'" "st_phase s' = PreAccepted" "st_t s' = t" "st_deps s' = deps"
  using txn_step_wf [OF assms(1), of "PreAccept t deps"] assms(2)
  by (auto simp: state_evolves_def txn_pre_accept_def advance_phase_def is_decided_phase_def)

lemma handle_accept_evolves:
  assumes inv: "sm_inv r"
  shows "sm_wp env (r_clock r) (handle_accept env txn t0 t deps ballot r) (\<lambda>x. evolves r (fst x))"
proof -
  obtain s r1 where r1: "state_entry txn t0 r = Some (s, r1)" "evolves r r1" "map_of (txn_states r1) txn = Some s"
    "r1 = r\<lparr>txn_states := txn_states r1\<rparr>" by (rule state_entry_spec)
  note inv1 = evolvesD(1) [OF r1(2) inv]
  have c1: "r_clock r1 = r_clock r" by (subst r1(4)) simp
  let ?go = "\<not> is_decided_phase (st_phase s) \<and> \<not> ballot < max_ballot_seen s \<and> fsync env txn (JAccepted (ts_time txn) (ts_time t) ballot)"
  show ?thesis
  proof (cases ?go)
    case True
    let ?deps = "set deps \<union> st_deps s"
    let ?r2 = "r1\<lparr>journal := journal r1 @ [JAccepted (ts_time txn) (ts_time t) ballot]\<rparr>"
    have r2: "evolves r1 ?r2" by (rule evolves_journal)
    have "txn_wf s" using inv1 r1(3) by (simp add: sm_inv_def)
    then obtain s' where s': "txn_accept ballot t ?deps s = Some s'" "txn_wf s'" "state_evolves s s'"
      using True by (blast elim: accept_state)
    let ?r3 = "(put_state txn s' ?r2)\<lparr>r_index := set_commit_ts txn t (r_index r1)\<rparr>"
    have "evolves ?r2 (put_state txn s' ?r2)" using r1(3) s' by (intro evolves_put) simp_all
    moreover have "evolves (put_state txn s' ?r2) ?r3"
      using evolves_index [of "[SetCommitTs txn t]" "put_state txn s' ?r2"] by (simp add: finishes_def put_state_def)
    ultimately have r3: "evolves r ?r3" using r1(2) r2 evolves_trans by blast
    have "sm_wp env (r_clock ?r3) (witness_timestamp env t ?r3) (\<lambda>r'. evolves r r')"
      by (rule sm_wp_mono [OF witness_wp]) (auto intro: evolves_trans [OF r3] evolves_clock)
    then have "sm_wp env (r_clock r) (witness_timestamp env t ?r3 \<bind> (\<lambda>r'. Some (r', AcceptOK txn ballot ?deps))) (\<lambda>x. evolves r (fst x))"
      by (intro sm_wp_bind) (simp add: c1 put_state_def)
    then show ?thesis using True r1(1) s'(1) unfolding handle_accept_def by (simp add: Let_def put_state_def)
  next
    case False
    then show ?thesis using r1(1,2) unfolding handle_accept_def by (auto simp: Let_def)
  qed
qed

definition undecided :: "'s replica \<Rightarrow> txn_id \<Rightarrow> bool" where
  "undecided r txn \<longleftrightarrow> (case map_of (txn_states r) txn of None \<Rightarrow> True | Some s \<Rightarrow> \<not> is_decided_phase (st_phase s))"

lemma handle_commit_commits:
  assumes inv: "sm_inv r" and und: "undecided r txn" and sync: "fsync env txn (JCommitted (ts_time txn) (ts_time t))"
  shows "sm_wp env (r_clock r) (handle_commit ap env txn t0 t deps r) (\<lambda>x. \<exists>r3 s'. evolves r r3 \<and> evolves r3 (fst x)
    \<and> r_index r3 = set_commit_ts txn t (r_index r) \<and> map_of (txn_states r3) txn = Some s'
    \<and> st_phase s' = Committed \<and> st_t s' = t \<and> st_deps s' = set deps \<and> JCommitted (ts_time txn) (ts_time t) \<in> set (journal r3))"
    (is "sm_wp _ _ _ ?Q")
proof -
  obtain s r1 where r1: "state_entry txn t0 r = Some (s, r1)" "evolves r r1" "map_of (txn_states r1) txn = Some s"
    "r1 = r\<lparr>txn_states := txn_states r1\<rparr>"
    "map_of (txn_states r) txn = None \<Longrightarrow> st_phase s = PreAccepted \<and> txn_state_new txn t0 = Some s"
    "\<And>s0. map_of (txn_states r) txn = Some s0 \<Longrightarrow> s0 = s \<and> r1 = r"
    by (rule state_entry_spec [of txn t0 r]) (rule that)
  have s: "\<not> is_decided_phase (st_phase s)"
    using und r1(5,6) by (cases "map_of (txn_states r) txn") (auto simp: undecided_def is_decided_phase_def)
  note inv1 = evolvesD(1) [OF r1(2) inv]
  have c1: "r_clock r1 = r_clock r" "r_index r1 = r_index r" by (subst r1(4), simp)+
  let ?r2 = "r1\<lparr>journal := journal r1 @ [JCommitted (ts_time txn) (ts_time t)]\<rparr>"
  have r2: "evolves r1 ?r2" by (rule evolves_journal)
  have "txn_wf s" using inv1 r1(3) by (simp add: sm_inv_def)
  then obtain s' where s': "txn_commit t (set deps) s = Some s'" "txn_wf s'" "state_evolves s s'" "st_phase s' = Committed"
    "st_t s' = t" "st_deps s' = set deps" using s by (rule commit_state)
  let ?p = "put_state txn s' ?r2"
  let ?r3 = "?p\<lparr>committed_txns := insert txn (committed_txns ?p), r_index := set_commit_ts txn t (r_index ?p)\<rparr>"
  have "evolves ?r2 ?p" using r1(3) s' by (intro evolves_put) simp_all
  moreover have "evolves ?p (?p\<lparr>r_index := set_commit_ts txn t (r_index ?p)\<rparr>)"
    using evolves_index [of "[SetCommitTs txn t]" ?p] by (simp add: finishes_def)
  moreover have "evolves (?p\<lparr>r_index := set_commit_ts txn t (r_index ?p)\<rparr>) ?r3" by (rule evolves_local) simp_all
  ultimately have r3: "evolves r ?r3" using r1(2) r2 evolves_trans by blast
  have rest: "sm_wp env (r_clock r) (do {
      let r' = r'\<lparr>last_notified := hm_get (dep_waiters r') txn, dep_waiters := hm_remove txn (dep_waiters r')\<rparr>;
      r' \<leftarrow> release_waiters_ordered_before ap env txn t r'; Some (r', NoResponse)}) ?Q"
    if "\<exists>c. r' = ?r3\<lparr>r_clock := c\<rparr>" for r'
  proof -
    let ?r4 = "r'\<lparr>last_notified := hm_get (dep_waiters r') txn, dep_waiters := hm_remove txn (dep_waiters r')\<rparr>"
    have "evolves ?r3 r'" using that evolves_clock by blast
    moreover have "evolves r' ?r4" by (rule evolves_local) simp_all
    ultimately have r4: "evolves ?r3 ?r4" using evolves_trans by blast
    obtain r5 where r5: "release_waiters_ordered_before ap env txn t ?r4 = Some r5" "evolves ?r4 r5"
      using evolvesD(1) [OF evolves_trans [OF r3 r4] inv] by (rule release_before_evolves)
    have "?Q (r5, NoResponse)"
      using r3 evolves_trans [OF r4 r5(2)] s'(4-6) c1(2) by (intro exI [of _ ?r3] exI [of _ s']) simp
    then show ?thesis using r5(1) by (simp add: Let_def del: fst_conv)
  qed
  have "sm_wp env (r_clock ?r3) (witness_timestamp env t ?r3) (\<lambda>r'. sm_wp env (r_clock r) (do {
      let r' = r'\<lparr>last_notified := hm_get (dep_waiters r') txn, dep_waiters := hm_remove txn (dep_waiters r')\<rparr>;
      r' \<leftarrow> release_waiters_ordered_before ap env txn t r'; Some (r', NoResponse)}) ?Q)"
    by (rule sm_wp_mono [OF witness_wp rest])
  moreover have "r_clock ?r3 = r_clock r" by (simp add: c1)
  ultimately show ?thesis using s sync r1(1) s'(1)
    unfolding handle_commit_def by (simp add: Let_def sm_wp_bind)
qed

lemma handle_commit_evolves:
  assumes inv: "sm_inv r"
  shows "sm_wp env (r_clock r) (handle_commit ap env txn t0 t deps r) (\<lambda>x. evolves r (fst x))"
proof (cases "undecided r txn \<and> fsync env txn (JCommitted (ts_time txn) (ts_time t))")
  case True
  show ?thesis
    by (rule sm_wp_mono [OF handle_commit_commits [OF inv]]) (use True in \<open>auto intro: evolves_trans\<close>)
next
  case False
  obtain s r1 where r1: "state_entry txn t0 r = Some (s, r1)" "evolves r r1"
    "\<And>s0. map_of (txn_states r) txn = Some s0 \<Longrightarrow> s0 = s \<and> r1 = r"
    by (rule state_entry_spec [of txn t0 r]) (rule that)
  have "is_decided_phase (st_phase s) \<or> \<not> fsync env txn (JCommitted (ts_time txn) (ts_time t))"
    using False r1(3) by (auto simp: undecided_def split: option.splits)
  then show ?thesis using r1(1,2) unfolding handle_commit_def by (auto simp: Let_def)
qed

text \<open>What a PreAccept does once no early reply applies.\<close>

definition preaccept_fresh :: "env \<Rightarrow> txn_id \<Rightarrow> timestamp \<Rightarrow> bytes list \<Rightarrow> 's replica \<Rightarrow> ('s replica \<times> sm_response) option" where
  "preaccept_fresh env txn t0 keys r = do {
     let deps = (\<Union>key \<in> set keys. deps_before_t0 (r_index r) key t0);
     let t = propose (node_id r) (r_index r) keys t0;
     r \<leftarrow> witness_timestamp env t r;
     let newly_created = (map_of (txn_states r) txn = None);
     let r = r\<lparr>r_index := fold (\<lambda>key. ci_register key
           \<lparr>iw_txn_id = txn, iw_t0 = t0, accord_ts = Some t, iw_status = StPreAccepted\<rparr>) keys (r_index r)\<rparr>;
     (s, r) \<leftarrow> state_entry txn t0 r;
     s \<leftarrow> txn_pre_accept t deps s;
     let r = put_state txn s r;
     if \<not> fsync env txn (JPreAccepted (ts_time txn) (ts_time t))
     then (let r = r\<lparr>r_index := ci_remove txn (r_index r)\<rparr>
           in Some (if newly_created then r\<lparr>txn_states := hm_remove txn (txn_states r)\<rparr> else r, NoResponse))
     else Some (r\<lparr>journal := journal r @ [JPreAccepted (ts_time txn) (ts_time t)]\<rparr>, PreAcceptOK txn t deps)}"

lemma preaccept_cases:
  obtains
    (refused) x where "handle_preaccept_multi_with_snapshot env txn t0 keys ballot epoch snap r = Some (note_refused_preaccept x r, AlreadyDecided txn x)"
      "decided (r_finalized r) txn = Some x"
  | (known) resp where "handle_preaccept_multi_with_snapshot env txn t0 keys ballot epoch snap r = Some (r\<lparr>refusing_by_floor := False\<rparr>, resp)"
      "preaccept_known txn t0 ballot r = Some resp"
  | (stale) "handle_preaccept_multi_with_snapshot env txn t0 keys ballot epoch snap r = Some (r\<lparr>refusing_by_floor := False\<rparr>, SnapshotStale)"
  | (fresh) "handle_preaccept_multi_with_snapshot env txn t0 keys ballot epoch snap r = preaccept_fresh env txn t0 keys (r\<lparr>refusing_by_floor := False\<rparr>)"
      "decided (r_finalized r) txn = None" "preaccept_known txn t0 ballot r = None"
proof -
  have kn: "preaccept_known txn t0 ballot (r\<lparr>refusing_by_floor := False\<rparr>) = preaccept_known txn t0 ballot r"
    by (simp add: preaccept_known_def)
  show thesis
  proof (cases "decided (r_finalized r) txn")
    case None
    note d = this
    show thesis
    proof (cases "preaccept_known txn t0 ballot r")
      case None
      show thesis
      proof (cases "snapshot_stale (r_index r) keys snap")
        case True
        then show thesis using d None kn by (intro stale) (simp add: handle_preaccept_multi_with_snapshot_def)
      next
        case False
        then show thesis using d None kn
          by (intro fresh) (simp_all add: handle_preaccept_multi_with_snapshot_def preaccept_fresh_def)
      qed
    next
      case (Some resp)
      then show thesis using d kn by (intro known) (simp_all add: handle_preaccept_multi_with_snapshot_def)
    qed
  next
    case (Some x)
    then show thesis by (intro refused) (simp_all add: handle_preaccept_multi_with_snapshot_def)
  qed
qed

lemma preaccept_known_None:
  "preaccept_known txn t0 ballot r = None \<Longrightarrow> map_of (txn_states r) txn = Some s \<Longrightarrow> st_phase s = PreAccepted"
  by (cases "st_phase s") (auto simp: preaccept_known_def split: if_splits)

lemma evolves_remove:
  assumes "\<And>s. map_of (txn_states r) txn = Some s \<Longrightarrow> st_phase s \<noteq> Committed"
  shows "evolves r (r\<lparr>r_index := ci_remove txn (r_index r)\<rparr>)"
proof (rule evolvesI [where ops = "[Remove txn]" and fops = "[]"])
  show "sm_inv (r\<lparr>r_index := ci_remove txn (r_index r)\<rparr>)" if "sm_inv r"
    using that ci_step_distinct [of "r_index r" "Remove txn"] by (simp add: sm_inv_def)
qed (use assms in \<open>auto simp: finishes_def\<close>)

text \<open>A state created and removed by the same call leaves no trace but the index.\<close>

lemma evolves_undone:
  assumes "map_of (txn_states r) txn = None" "txn_states r' = hm_remove txn m"
    "\<And>x. x \<noteq> txn \<Longrightarrow> map_of m x = map_of (txn_states r) x" "distinct (map fst (txn_states r)) \<Longrightarrow> distinct (map fst m)"
    "r_index r' = foldl ci_step (r_index r) ops" "\<And>x. x \<noteq> txn \<Longrightarrow> \<not> finishes ops x"
    "r_finalized r' = r_finalized r" "journal r' = journal r"
  shows "evolves r r'"
proof (rule evolvesI [where ops = ops and fops = "[]"])
  have same: "map_of (txn_states r') x = map_of (txn_states r) x" for x using assms(1-3) by (cases "x = txn") simp_all
  show "sm_inv r'" if "sm_inv r"
    using that assms(2,4,5,7) same by (simp add: sm_inv_def distinct_hm_remove ci_run_distinct)
  show "\<exists>s'. map_of (txn_states r') x = Some s' \<and> state_evolves s s'" if "map_of (txn_states r) x = Some s" for x s
    using that same by simp
  show "\<exists>s'. map_of (txn_states r') x = Some s' \<and> st_phase s' = Applied"
    if "map_of (txn_states r) x = Some s" "finishes ops x" for x s
    using that assms(1,6) by (cases "x = txn") simp_all
qed (use assms in simp_all)

lemma preaccept_fresh_cases:
  fixes r :: "'s replica" and keys :: "bytes list" and t0 :: timestamp
  assumes inv: "sm_inv r" and pre: "\<And>s. map_of (txn_states r) txn = Some s \<Longrightarrow> st_phase s = PreAccepted"
  defines "t \<equiv> propose (node_id r) (r_index r) keys t0"
  defines "deps \<equiv> (\<Union>key \<in> set keys. deps_before_t0 (r_index r) key t0)"
  shows "sm_wp env (r_clock r) (preaccept_fresh env txn t0 keys r) (\<lambda>(r', resp). evolves r r' \<and>
    (resp = NoResponse \<and> \<not> fsync env txn (JPreAccepted (ts_time txn) (ts_time t))
     \<or> resp = PreAcceptOK txn t deps \<and> JPreAccepted (ts_time txn) (ts_time t) \<in> set (journal r')
       \<and> r_index r' = fold (\<lambda>key. ci_register key
           \<lparr>iw_txn_id = txn, iw_t0 = t0, accord_ts = Some t, iw_status = StPreAccepted\<rparr>) keys (r_index r)
       \<and> (\<exists>s. map_of (txn_states r') txn = Some s \<and> st_t s = t \<and> st_deps s = deps)))"
    (is "sm_wp env (r_clock r) _ (\<lambda>(r', resp). ?Q r' resp)")
proof -
  let ?w = "\<lparr>iw_txn_id = txn, iw_t0 = t0, accord_ts = Some t, iw_status = StPreAccepted\<rparr>"
  let ?regs = "map (\<lambda>key. Register key ?w) keys"
  let ?rest = "\<lambda>r. do {
     let newly_created = (map_of (txn_states r) txn = None);
     let r = r\<lparr>r_index := fold (\<lambda>key. ci_register key ?w) keys (r_index r)\<rparr>;
     (s, r) \<leftarrow> state_entry txn t0 r;
     s \<leftarrow> txn_pre_accept t deps s;
     let r = put_state txn s r;
     if \<not> fsync env txn (JPreAccepted (ts_time txn) (ts_time t))
     then (let r = r\<lparr>r_index := ci_remove txn (r_index r)\<rparr>
           in Some (if newly_created then r\<lparr>txn_states := hm_remove txn (txn_states r)\<rparr> else r, NoResponse))
     else Some (r\<lparr>journal := journal r @ [JPreAccepted (ts_time txn) (ts_time t)]\<rparr>, PreAcceptOK txn t deps)}"
  have rest: "sm_wp env (r_clock r) (?rest r0) (\<lambda>(r', resp). ?Q r' resp)" if "\<exists>c. r0 = r\<lparr>r_clock := c\<rparr>" for r0
  proof -
    from that obtain c where r0: "r0 = r\<lparr>r_clock := c\<rparr>" by blast
    let ?r1 = "r0\<lparr>r_index := fold (\<lambda>key. ci_register key ?w) keys (r_index r0)\<rparr>"
    have e0: "evolves r r0" unfolding r0 by (rule evolves_clock)
    have "evolves r0 ?r1"
      using evolves_index [of ?regs r0] by (simp add: fold_register finishes_def image_iff)
    with e0 have e1: "evolves r ?r1" by (rule evolves_trans)
    obtain s r2 where r2: "state_entry txn t0 ?r1 = Some (s, r2)" "evolves ?r1 r2" "map_of (txn_states r2) txn = Some s"
      "r2 = ?r1\<lparr>txn_states := txn_states r2\<rparr>" "\<And>x. x \<noteq> txn \<Longrightarrow> map_of (txn_states r2) x = map_of (txn_states ?r1) x"
      "map_of (txn_states ?r1) txn = None \<Longrightarrow> st_phase s = PreAccepted \<and> txn_state_new txn t0 = Some s"
      "\<And>s0. map_of (txn_states ?r1) txn = Some s0 \<Longrightarrow> s0 = s \<and> r2 = ?r1"
      by (rule state_entry_spec [of txn t0 ?r1]) (rule that)
    have phase: "st_phase s = PreAccepted"
      using pre r2(6,7) r0 by (cases "map_of (txn_states r) txn") auto
    have e2: "evolves r r2" using e1 r2(2) by (rule evolves_trans)
    have inv2: "sm_inv r2" by (rule evolvesD(1) [OF e2 inv])
    then have "txn_wf s" using r2(3) by (simp add: sm_inv_def)
    then obtain s' where s': "txn_pre_accept t deps s = Some s'" "txn_wf s'" "state_evolves s s'" "st_phase s' = PreAccepted"
      "st_t s' = t" "st_deps s' = deps"
      using phase by (rule preaccept_state)
    let ?r3 = "put_state txn s' r2"
    have e3: "evolves r ?r3" using e2 evolves_put [OF r2(3)] s' by (blast intro: evolves_trans)
    show ?thesis
    proof (cases "fsync env txn (JPreAccepted (ts_time txn) (ts_time t))")
      case True
      let ?r4 = "?r3\<lparr>journal := journal ?r3 @ [JPreAccepted (ts_time txn) (ts_time t)]\<rparr>"
      have "?rest r0 = Some (?r4, PreAcceptOK txn t deps)" using True r2(1) s'(1) by (simp add: Let_def)
      moreover have "evolves r ?r4" using e3 evolves_journal by (rule evolves_trans)
      moreover have "r_index ?r4 = r_index ?r1" using r2(4) by (metis (no_types, lifting) put_state_simps(2)
          replica.select_convs(3) replica.surjective replica.update_convs(2,4))
      moreover have "map_of (txn_states ?r4) txn = Some s'" by simp
      ultimately show ?thesis using s'(5,6) r0 by simp
    next
      case False
      let ?r4 = "?r3\<lparr>r_index := ci_remove txn (r_index ?r3)\<rparr>"
      have fail: "?rest r0 = Some (if map_of (txn_states r) txn = None then ?r4\<lparr>txn_states := hm_remove txn (txn_states ?r4)\<rparr> else ?r4, NoResponse)"
        using False r2(1) s'(1) r0 by (simp add: Let_def)
      have "evolves r (if map_of (txn_states r) txn = None then ?r4\<lparr>txn_states := hm_remove txn (txn_states ?r4)\<rparr> else ?r4)"
      proof (cases "map_of (txn_states r) txn = None")
        case True
        have m: "map_of (hm_insert txn s' (txn_states r2)) x = map_of (txn_states r) x" if "x \<noteq> txn" for x
          using that r2(5) r0 by simp
        have d: "distinct (map fst (hm_insert txn s' (txn_states r2)))"
          using inv2 by (simp add: sm_inv_def distinct_hm_insert)
        have i: "r_index r2 = foldl ci_step (r_index r) ?regs" "r_finalized r2 = r_finalized r" "journal r2 = journal r"
          by (subst r2(4), simp add: r0 fold_register)+
        show ?thesis using True m d i
          by (simp, intro evolves_undone [where ops = "?regs @ [Remove txn]" and txn = txn and m = "hm_insert txn s' (txn_states r2)"])
            (auto simp: finishes_def)
      next
        case False
        have "evolves ?r3 ?r4" by (rule evolves_remove) (use s'(4) in simp)
        with e3 show ?thesis using False by (auto intro: evolves_trans)
      qed
      then show ?thesis using fail False by (simp del: Let_def)
    qed
  qed
  have "sm_wp env (r_clock r) (witness_timestamp env t r) (\<lambda>r0. sm_wp env (r_clock r) (?rest r0) (\<lambda>(r', resp). ?Q r' resp))"
    by (rule sm_wp_mono [OF witness_wp rest])
  then have "sm_wp env (r_clock r) (witness_timestamp env t r \<bind> ?rest) (\<lambda>(r', resp). ?Q r' resp)"
    by (rule sm_wp_bind)
  then show ?thesis unfolding preaccept_fresh_def t_def deps_def by (simp only: Let_def)
qed

lemma handle_preaccept_evolves:
  assumes inv: "sm_inv r"
  shows "sm_wp env (r_clock r) (handle_preaccept_multi_with_snapshot env txn t0 keys ballot epoch snap r) (\<lambda>x. evolves r (fst x))"
proof -
  let ?r = "r\<lparr>refusing_by_floor := False\<rparr>"
  have e: "evolves r ?r" by (rule evolves_local) simp_all
  show ?thesis
  proof (cases rule: preaccept_cases [of env txn t0 keys ballot epoch snap r])
    case (refused x)
    have "evolves r (note_refused_preaccept x r)"
      by (rule evolves_local) (simp_all add: note_refused_preaccept_def)
    then show ?thesis by (simp add: refused(1))
  next
    case fresh
    have "sm_wp env (r_clock ?r) (preaccept_fresh env txn t0 keys ?r) (\<lambda>x. evolves r (fst x))"
    proof (rule sm_wp_mono [OF preaccept_fresh_cases])
      show "sm_inv ?r" by (rule evolvesD(1) [OF e inv])
      show "st_phase s = PreAccepted" if "map_of (txn_states ?r) txn = Some s" for s
        using preaccept_known_None [OF fresh(3)] that by simp
    qed (use e in \<open>auto intro: evolves_trans\<close>)
    then show ?thesis by (simp add: fresh(1))
  qed (use e in simp_all)
qed

lemma notify_bookkeep_evolves:
  assumes "sm_inv r"
  obtains r' where "do {let (e, woken) = notify_applied ap now txn (apply_engine r);
      r \<leftarrow> bookkeep_applied_dedup env woken d (r\<lparr>apply_engine := e\<rparr>); Some (r, resp)} = Some (r', resp)"
    "evolves r r'" "r_clock r' = r_clock r"
proof -
  obtain e woken where n: "notify_applied ap now txn (apply_engine r) = (e, woken)" by fastforce
  obtain r' where "bookkeep_applied_dedup env woken d (r\<lparr>apply_engine := e\<rparr>) = Some r'" "evolves r r'" "r_clock r' = r_clock r"
    using assms by (rule bookkeep_engine_evolves)
  then show thesis by (intro that [of r']) (simp_all add: n)
qed

lemma handle_apply_evolves:
  assumes inv: "sm_inv r"
  obtains r' resp where "handle_apply_writeset_borrowed ap env txn writes r = Some (r', resp)" "evolves r r'" "r_clock r' = r_clock r"
proof -
  let ?nw = "list_all (\<lambda>w. w = []) writes"
  show thesis
  proof (cases "plan_apply r txn ?nw")
    case (DecisionDone resp)
    then show thesis by (intro that [of r resp]) (simp_all add: handle_apply_writeset_borrowed_def)
  next
    case FinalizeWithoutState
    let ?r = "r\<lparr>r_finalized := record_finalized txn (r_finalized r), r_index := ci_remove txn (r_index r),
      applied_epoch := (applied_epoch r + 1) mod 2 ^ 64\<rparr>"
    have none: "map_of (txn_states r) txn = None"
      using FinalizeWithoutState by (auto simp: plan_apply_def split: option.splits if_splits)
    have "evolves r (r\<lparr>r_index := ci_remove txn (r_index r)\<rparr>)" by (rule evolves_remove) (simp add: none)
    moreover have "evolves (r\<lparr>r_index := ci_remove txn (r_index r)\<rparr>) ?r"
      by (rule evolves_frame [where ops = "[]" and fops = "[RecordFinalized txn]"]) (simp_all add: finishes_def)
    ultimately have e: "evolves r ?r" by (rule evolves_trans)
    obtain r' where "do {let (e, woken) = notify_applied ap (now_instant env) txn (apply_engine ?r);
        r \<leftarrow> bookkeep_applied_dedup env woken True (?r\<lparr>apply_engine := e\<rparr>); Some (r, NoWriteFinalized)} = Some (r', NoWriteFinalized)"
      "evolves ?r r'" "r_clock r' = r_clock ?r"
      using evolvesD(1) [OF e inv] by (rule notify_bookkeep_evolves)
    then show thesis using FinalizeWithoutState evolves_trans [OF e]
      by (intro that [of r' NoWriteFinalized]) (simp_all add: handle_apply_writeset_borrowed_def)
  next
    case NoWriteFinalize
    obtain r1 ack where r1: "bookkeep_applied env txn [] False r = Some (r1, ack)" "evolves r r1" "r_clock r1 = r_clock r"
      using inv by (rule bookkeep_applied_evolves)
    show thesis
    proof (cases "ack = Withhold")
      case True
      then show thesis using NoWriteFinalize r1 by (intro that [of r1 NoResponse]) (simp_all add: handle_apply_writeset_borrowed_def)
    next
      case False
      obtain r' where "do {let (e, woken) = notify_applied ap (now_instant env) txn (apply_engine r1);
          r \<leftarrow> bookkeep_applied_dedup env woken True (r1\<lparr>apply_engine := e\<rparr>); Some (r, NoResponse)} = Some (r', NoResponse)"
        "evolves r1 r'" "r_clock r' = r_clock r1"
        using evolvesD(1) [OF r1(2) inv] by (rule notify_bookkeep_evolves)
      then show thesis using NoWriteFinalize False r1 evolves_trans [OF r1(2)]
        by (intro that [of r' NoResponse]) (simp_all add: handle_apply_writeset_borrowed_def)
    qed
  next
    case (Persist t deps)
    show thesis
    proof (cases "txn \<in> applying r")
      case True
      then show thesis using Persist by (intro that [of r NoResponse]) (simp_all add: handle_apply_writeset_borrowed_def)
    next
      case False
      obtain e res where run: "try_apply_writeset_borrowed ap (stage_io env) (now_instant env) txn
          (write_views writes t (ordered_deps r deps t)) (apply_engine r) = (e, res)" by fastforce
      have e: "evolves r (r\<lparr>apply_engine := e\<rparr>)" by (rule evolves_local) simp_all
      show thesis
      proof (cases "\<exists>applied. res = Inr applied \<and> applied \<noteq> []")
        case True
        then obtain applied where a: "res = Inr applied" "applied \<noteq> []" by blast
        obtain r' where "bookkeep_applied_dedup env applied True (r\<lparr>apply_engine := e\<rparr>) = Some r'" "evolves r r'" "r_clock r' = r_clock r"
          using inv by (rule bookkeep_engine_evolves)
        then show thesis using Persist False run a
          by (intro that [of r' NoResponse]) (simp_all add: handle_apply_writeset_borrowed_def)
      next
        case none: False
        then show thesis using Persist False run e
          by (cases res) (auto simp: handle_apply_writeset_borrowed_def intro!: that [of "r\<lparr>apply_engine := e\<rparr>" NoResponse])
      qed
    qed
  qed
qed

lemma begin_apply_evolves:
  assumes inv: "sm_inv r"
  obtains r' step where "begin_apply_owned ap env txn writes r = Some (r', step)" "evolves r r'" "r_clock r' = r_clock r"
proof -
  obtain r1 resp where r1: "handle_apply_writeset_borrowed ap env txn writes r = Some (r1, resp)" "evolves r r1" "r_clock r1 = r_clock r"
    using inv by (rule handle_apply_evolves)
  have e: "evolves r (r\<lparr>applying := insert txn (applying r)\<rparr>)" by (rule evolves_local) simp_all
  show thesis
  proof (cases "plan_apply r txn (list_all (\<lambda>w. w = []) writes)")
    case (DecisionDone resp)
    then show thesis by (intro that [of r]) (simp_all add: begin_apply_owned_def)
  next
    case FinalizeWithoutState
    then show thesis using r1 by (intro that [of r1]) (simp_all add: begin_apply_owned_def)
  next
    case NoWriteFinalize
    then show thesis using r1 by (intro that [of r1]) (simp_all add: begin_apply_owned_def)
  next
    case (Persist t deps)
    show thesis
    proof (cases "txn \<in> applying r")
      case True
      then show thesis using Persist by (intro that [of r]) (simp_all add: begin_apply_owned_def)
    next
      case False
      then show thesis using Persist e by (intro that [of "r\<lparr>applying := insert txn (applying r)\<rparr>"]) (simp_all add: begin_apply_owned_def)
    qed
  qed
qed

lemma finish_apply_evolves:
  assumes inv: "sm_inv r"
  obtains r' where "finish_apply ap env txn outcome r = Some (r', NoResponse)" "evolves r r'" "r_clock r' = r_clock r"
proof (cases "storage_ok outcome")
  case True
  let ?r = "r\<lparr>applying := applying r - {txn} - fst ` set (outcome_applied outcome)\<rparr>"
  have e: "evolves r ?r" by (rule evolves_local) simp_all
  obtain r1 where r1: "bookkeep_applied_dedup env (outcome_applied outcome) True ?r = Some r1" "evolves ?r r1" "r_clock r1 = r_clock ?r"
    using evolvesD(1) [OF e inv] by (rule bookkeep_dedup_evolves)
  have e1: "evolves r r1" using e r1(2) by (rule evolves_trans)
  show thesis
  proof (cases "txn \<in> fst ` set (outcome_applied outcome)")
    case in_out: True
    then show thesis using True r1 e1 by (intro that [of r1]) (simp_all add: finish_apply_def Let_def)
  next
    case False
    obtain r2 where "release_parked_from_deps_ordered_after ap env txn r1 = Some r2" "evolves r1 r2" "r_clock r2 = r_clock r1"
      using evolvesD(1) [OF e1 inv] by (rule release_after_evolves)
    then show thesis using True False r1 evolves_trans [OF e1]
      by (intro that [of r2]) (simp_all add: finish_apply_def Let_def)
  qed
next
  case False
  have "evolves r (r\<lparr>applying := applying r - {txn}\<rparr>)" by (rule evolves_local) simp_all
  then show thesis using False
    by (intro that [of "r\<lparr>applying := applying r - {txn}\<rparr>"]) (simp_all add: finish_apply_def Let_def)
qed

lemma execute_apply_evolves: "evolves r (fst (execute_apply_durability ap env work r))"
  by (rule evolves_local) (auto simp: execute_apply_durability_def split: prod.splits sum.splits)

lemma handle_recover_evolves:
  assumes inv: "sm_inv r"
  obtains r' resp where "handle_recover txn t0 ballot r = Some (r', resp)" "evolves r r'"
proof -
  obtain s r1 where r1: "state_entry txn t0 r = Some (s, r1)" "evolves r r1" "map_of (txn_states r1) txn = Some s"
    by (rule state_entry_spec [of txn t0 r]) (rule that)
  show thesis
  proof (cases "ballot < max_ballot_seen s")
    case True
    then show thesis using r1 by (intro that [of r1 None]) (simp_all add: handle_recover_def)
  next
    case False
    have wf: "txn_wf s" using evolvesD(1) [OF r1(2) inv] r1(3) by (simp add: sm_inv_def)
    obtain s' where s': "(if ballot > max_ballot_seen s then join_ballot ballot s else Some s) = Some s'" "txn_wf s' \<and> state_evolves s s'"
      using wf False by (cases "ballot > max_ballot_seen s")
        (auto simp: join_ballot_def txn_wf_def state_evolves_def txn_grows_def)
    have "evolves r (put_state txn s' r1)"
      using r1(2) evolves_put [OF r1(3) s'(2)] by (rule evolves_trans)
    then show thesis using r1(1) s'(1) False by (intro that [of "put_state txn s' r1" "Some s'"]) (simp_all add: handle_recover_def)
  qed
qed

lemma refuses_run:
  "finalized_wf f \<Longrightarrow> refuses f x \<or> RecordApplied x \<in> set fops \<Longrightarrow> refuses (foldl finalized_step f fops) x"
proof (induction fops arbitrary: f)
  case (Cons op fops)
  then have "refuses (finalized_step f op) x \<or> RecordApplied x \<in> set fops" using finalized_step_spec(2) [of f x op] by auto
  with Cons finalized_step_spec(1) show ?case by simp
qed simp

lemma fold_prune_one:
  "fold prune_one ids r = r\<lparr>txn_states := fold hm_remove ids (txn_states r), committed_txns := committed_txns r - set ids,
     dep_waiters := fold hm_remove ids (dep_waiters r), r_finalized := foldl finalized_step (r_finalized r) (map RecordApplied ids)\<rparr>"
  by (induction ids arbitrary: r) (simp_all add: prune_one_def Diff_insert2 [symmetric])

lemma map_of_fold_remove: "map_of (fold hm_remove ids m) x = (if x \<in> set ids then None else map_of m x)"
  by (induction ids arbitrary: m) auto

lemma distinct_fold_remove: "distinct (map fst m) \<Longrightarrow> distinct (map fst (fold hm_remove ids m))"
  by (induction ids arbitrary: m) (simp_all add: distinct_hm_remove)

definition pruned :: "'s replica \<Rightarrow> 's replica \<Rightarrow> bool" where
  "pruned r r' \<longleftrightarrow> sm_inv r' \<and> r_index r' = gc_applied (r_index r)
    \<and> (\<forall>x. map_of (txn_states r') x = Option.bind (map_of (txn_states r) x) (\<lambda>s. if st_phase s = Applied then None else Some s))
    \<and> (\<forall>x. refuses (r_finalized r) x \<or> (\<exists>s. map_of (txn_states r) x = Some s \<and> st_phase s = Applied) \<longrightarrow> refuses (r_finalized r') x)
    \<and> journal r' = journal r"

definition applied_ids :: "'s replica \<Rightarrow> txn_id list" where
  "applied_ids r = map fst (filter (\<lambda>(_, s). st_phase s = Applied) (txn_states r))"

lemma set_applied_ids:
  assumes "sm_inv r"
  shows "x \<in> set (applied_ids r) \<longleftrightarrow> (\<exists>s. map_of (txn_states r) x = Some s \<and> st_phase s = Applied)"
proof -
  have "distinct (map fst (txn_states r))" using assms by (simp add: sm_inv_def)
  then show ?thesis by (simp add: applied_ids_def image_iff map_of_eq_Some_iff split: prod.splits)
qed

lemma pruned_intro:
  assumes inv: "sm_inv r"
    and r': "txn_states r' = fold hm_remove (applied_ids r) (txn_states r)" "r_index r' = gc_applied (r_index r)"
      "r_finalized r' = foldl finalized_step (r_finalized r) (map RecordApplied (applied_ids r) @ fops)" "journal r' = journal r"
  shows "pruned r r'"
  unfolding pruned_def
proof (intro conjI allI impI)
  have f: "finalized_wf (r_finalized r)" using inv by (simp add: sm_inv_def)
  show states: "map_of (txn_states r') x = Option.bind (map_of (txn_states r) x) (\<lambda>s. if st_phase s = Applied then None else Some s)" for x
    using set_applied_ids [OF inv, of x] by (cases "map_of (txn_states r) x") (simp_all add: r'(1) map_of_fold_remove)
  have "txn_wf s \<and> st_txn_id s = x" if "map_of (txn_states r') x = Some s" for x s
    using that inv unfolding states by (cases "map_of (txn_states r) x") (simp_all add: sm_inv_def split: if_splits)
  moreover have "distinct (map fst (txn_states r'))" using inv by (simp add: r'(1) distinct_fold_remove sm_inv_def)
  moreover have "ci_keys_distinct (r_index r')"
    using inv ci_step_distinct [of "r_index r" GcApplied] by (simp add: r'(2) sm_inv_def)
  moreover have "finalized_wf (r_finalized r')" unfolding r'(3) by (rule finalized_run_wf [OF f])
  ultimately show "sm_inv r'" by (simp add: sm_inv_def)
  show "refuses (r_finalized r') x"
    if "refuses (r_finalized r) x \<or> (\<exists>s. map_of (txn_states r) x = Some s \<and> st_phase s = Applied)" for x
    unfolding r'(3) by (rule refuses_run [OF f]) (use that set_applied_ids [OF inv] in auto)
qed (use r' in simp_all)

lemma prune_idempotency_frame:
  obtains e where "fst (prune_applied_idempotency ap r) = r\<lparr>apply_engine := e\<rparr>"
proof (cases "ft_floor (r_finalized r)")
  case None
  then show thesis by (intro that [of "apply_engine r"]) (simp add: prune_applied_idempotency_def)
next
  case (Some fl)
  obtain st n where "prune_applied_below ap fl (e_storage (apply_engine r)) = (st, n)" by fastforce
  then show thesis using Some by (intro that) (simp add: prune_applied_idempotency_def)
qed

lemma prune_applied_spec:
  assumes inv: "sm_inv r"
  shows "sm_wp env (r_clock r) (prune_applied ap env r) (\<lambda>x. pruned r (fst x))"
proof -
  let ?r1 = "(fold prune_one (applied_ids r) r)\<lparr>r_index := gc_applied (r_index (fold prune_one (applied_ids r) r))\<rparr>"
  let ?fin = "\<lambda>r'. (fst (prune_applied_idempotency ap r'))\<lparr>apply_engine :=
    fst (forget_graph_applied (applied_ids r) (apply_engine (fst (prune_applied_idempotency ap r'))))\<rparr>"
  have tail: "pruned r (?fin r')"
    if "txn_states r' = txn_states ?r1" "r_index r' = r_index ?r1" "journal r' = journal ?r1"
      "r_finalized r' = foldl finalized_step (r_finalized ?r1) fops" for r' fops
  proof -
    obtain e where e: "fst (prune_applied_idempotency ap r') = r'\<lparr>apply_engine := e\<rparr>" by (rule prune_idempotency_frame)
    show ?thesis using that by (intro pruned_intro [OF inv, where fops = fops]) (simp_all add: e fold_prune_one)
  qed
  have c: "r_clock ?r1 = r_clock r" by (simp add: fold_prune_one)
  let ?m = "case r_clock ?r1 of None \<Rightarrow> Some ?r1 | Some c \<Rightarrow> do {
      (c, now) \<leftarrow> hlc_now (phys1 env) c;
      Some (?r1\<lparr>r_clock := Some c, r_finalized := fst (advance_horizon now (r_finalized ?r1))\<rparr>)}"
  have "sm_wp env (r_clock r) ?m (\<lambda>r'. pruned r (?fin r'))"
  proof (cases "r_clock r")
    case None
    then show ?thesis using tail [of ?r1 "[]"] by (simp add: c)
  next
    case (Some cl)
    show ?thesis
    proof (cases "hlc_now (phys1 env) cl")
      case None
      then show ?thesis using Some by (simp add: c sm_wp_def clock_fails_def)
    next
      case n: (Some p)
      obtain cl' now where p: "p = (cl', now)" by fastforce
      let ?r2 = "?r1\<lparr>r_clock := Some cl', r_finalized := fst (advance_horizon now (r_finalized ?r1))\<rparr>"
      have "pruned r (?fin ?r2)" by (rule tail [where fops = "[AdvanceHorizon now]"]) simp_all
      then show ?thesis using Some n p by (simp add: c)
    qed
  qed
  then have "sm_wp env (r_clock r) (?m \<bind> (\<lambda>r'. Some (?fin r', length (txn_states r) + card (committed_txns r)
      - (length (txn_states (?fin r')) + card (committed_txns (?fin r')))))) (\<lambda>x. pruned r (fst x))"
    by (intro sm_wp_bind) simp
  then show ?thesis unfolding prune_applied_def Let_def applied_ids_def [symmetric] .
qed

section \<open>Steps and runs\<close>

lemma sm_wp_total: "m = Some x \<Longrightarrow> Q x \<Longrightarrow> sm_wp env c m Q"
  by simp

lemma sm_step_spec:
  assumes inv: "sm_inv r"
  shows "sm_wp env (r_clock r) (sm_step ap env ev r) (\<lambda>r'. if ev = Prune then pruned r r' else evolves r r')"
proof (cases ev)
  case (ApplyMsg txn writes)
  obtain r' resp where "handle_apply_writeset_borrowed ap env txn writes r = Some (r', resp)" "evolves r r'"
    using inv by (rule handle_apply_evolves)
  then show ?thesis using ApplyMsg by (simp add: handle_apply_writeset_def)
next
  case (BeginApply txn writes)
  obtain r' st where "begin_apply_owned ap env txn writes r = Some (r', st)" "evolves r r'"
    using inv by (rule begin_apply_evolves)
  then show ?thesis using BeginApply by simp
next
  case (FinishApply txn outcome)
  obtain r' where "finish_apply ap env txn outcome r = Some (r', NoResponse)" "evolves r r'"
    using inv by (rule finish_apply_evolves)
  then show ?thesis using FinishApply by simp
next
  case (RecoverMsg txn t0 ballot)
  obtain r' resp where "handle_recover txn t0 ballot r = Some (r', resp)" "evolves r r'"
    using inv by (rule handle_recover_evolves)
  then show ?thesis using RecoverMsg by simp
next
  case (DepWaiter dep waiter)
  have "evolves r (register_dep_waiter dep waiter r)" by (rule evolves_local) (simp_all add: register_dep_waiter_def)
  then show ?thesis using DepWaiter by simp
next
  case (AdvanceFinalized now)
  have "evolves r (fst (advance_finalized_horizon now r))"
    by (rule evolves_frame [where ops = "[]" and fops = "[AdvanceHorizon now]"])
      (simp_all add: advance_finalized_horizon_def finishes_def split: prod.splits)
  then show ?thesis using AdvanceFinalized by simp
next
  case (ReclaimParked max_age)
  have "evolves r (fst (reclaim_stale_parked_applies env max_age r))"
    by (rule evolves_local) (simp_all add: reclaim_stale_parked_applies_def split: prod.splits)
  then show ?thesis using ReclaimParked by simp
next
  case (PreAcceptMsg txn t0 keys ballot epoch snap)
  then show ?thesis using handle_preaccept_evolves [OF inv] by simp
next
  case (AcceptMsg txn t0 t deps ballot)
  then show ?thesis using handle_accept_evolves [OF inv] by simp
next
  case (CommitMsg txn t0 t deps)
  then show ?thesis using handle_commit_evolves [OF inv] by simp
next
  case (RegisterCommitted txn t0 keys t)
  then show ?thesis using register_committed_evolves by simp
next
  case (ExecuteApply work)
  then show ?thesis using execute_apply_evolves by simp
next
  case Prune
  then show ?thesis using prune_applied_spec [OF inv] by simp
qed

lemma sm_step_SomeD:
  assumes "sm_inv r" "sm_step ap env ev r = Some r'"
  shows "if ev = Prune then pruned r r' else evolves r r'" "sm_inv r'" "prefix (journal r) (journal r')"
proof -
  show s: "if ev = Prune then pruned r r' else evolves r r'" using sm_step_spec [OF assms(1), of env ap ev] assms(2) by simp
  then show "sm_inv r'" using evolvesD(1) [OF _ assms(1)] by (auto simp: pruned_def split: if_splits)
  from s show "prefix (journal r) (journal r')"
    using evolvesD(3) [OF _ assms(1)] by (auto simp: pruned_def split: if_splits)
qed

lemma sm_run_inv: "sm_inv r \<Longrightarrow> sm_run ap evs r = Some r' \<Longrightarrow> sm_inv r'"
proof (induction evs arbitrary: r)
  case (Cons x evs)
  obtain env ev where x: "x = (env, ev)" by fastforce
  with Cons.prems obtain r1 where "sm_step ap env ev r = Some r1" "sm_run ap evs r1 = Some r'" by (auto split: bind_splits)
  then show ?case using Cons.IH sm_step_SomeD(2) [OF Cons.prems(1)] by blast
qed simp

lemma sm_run_Cons:
  assumes "sm_run ap ((env, ev) # evs) r = Some r'"
  obtains r1 where "sm_step ap env ev r = Some r1" "sm_run ap evs r1 = Some r'"
  using assms by (auto split: bind_splits)

lemma sm_step_state:
  assumes "sm_inv r" "sm_step ap env ev r = Some r'" "map_of (txn_states r) txn = Some s"
  shows "(\<exists>s'. map_of (txn_states r') txn = Some s' \<and> state_evolves s s') \<or> ev = Prune \<and> st_phase s = Applied"
proof (cases "ev = Prune")
  case True
  then show ?thesis using sm_step_SomeD(1) [OF assms(1,2)] assms(3) by (simp add: pruned_def)
next
  case False
  then show ?thesis using sm_step_SomeD(1) [OF assms(1,2)] evolvesD(2) [OF _ assms(1,3)] by simp
qed

text \<open>The run reaches a state in which the transaction, which was in state \<open>s\<close>, is applied.\<close>

definition applied_within :: "'s storage_applier \<Rightarrow> (env \<times> sm_event) list \<Rightarrow> 's replica \<Rightarrow> txn_id \<Rightarrow> txn_state \<Rightarrow> bool" where
  "applied_within ap evs r txn s \<longleftrightarrow> (\<exists>pre post r1 s1. evs = pre @ post \<and> sm_run ap pre r = Some r1
     \<and> map_of (txn_states r1) txn = Some s1 \<and> st_phase s1 = Applied \<and> state_evolves s s1)"

lemma applied_within_now: "map_of (txn_states r) txn = Some s \<Longrightarrow> st_phase s = Applied \<Longrightarrow> applied_within ap evs r txn s"
  unfolding applied_within_def by (intro exI [of _ "[]"] exI [of _ evs] exI [of _ r] exI [of _ s]) simp

lemma applied_within_Cons:
  assumes "sm_step ap env ev r = Some r1" "state_evolves s s1" "applied_within ap evs r1 txn s1"
  shows "applied_within ap ((env, ev) # evs) r txn s"
proof -
  obtain pre post r2 s2 where "evs = pre @ post" "sm_run ap pre r1 = Some r2" "map_of (txn_states r2) txn = Some s2"
    "st_phase s2 = Applied" "state_evolves s1 s2" using assms(3) by (auto simp: applied_within_def)
  then show ?thesis unfolding applied_within_def
    using assms(1) state_evolves_trans [OF assms(2)]
    by (intro exI [of _ "(env, ev) # pre"] exI [of _ post] exI [of _ r2] exI [of _ s2]) simp
qed

lemma sm_run_state:
  assumes "sm_inv r" "sm_run ap evs r = Some r'" "map_of (txn_states r) txn = Some s"
  shows "(\<exists>s'. map_of (txn_states r') txn = Some s' \<and> state_evolves s s') \<or> applied_within ap evs r txn s \<and> Prune \<in> snd ` set evs"
  using assms
proof (induction evs arbitrary: r s)
  case (Cons x evs)
  obtain env ev where x: "x = (env, ev)" by fastforce
  obtain r1 where r1: "sm_step ap env ev r = Some r1" "sm_run ap evs r1 = Some r'"
    using Cons.prems(2) unfolding x by (rule sm_run_Cons)
  from sm_step_state [OF Cons.prems(1) r1(1) Cons.prems(3)] show ?case
  proof
    assume "\<exists>s'. map_of (txn_states r1) txn = Some s' \<and> state_evolves s s'"
    then obtain s1 where s1: "map_of (txn_states r1) txn = Some s1" "state_evolves s s1" by blast
    from Cons.IH [OF sm_step_SomeD(2) [OF Cons.prems(1) r1(1)] r1(2) s1(1)]
    consider s' where "map_of (txn_states r') txn = Some s'" "state_evolves s1 s'"
      | "applied_within ap evs r1 txn s1" "Prune \<in> snd ` set evs" by blast
    then show ?thesis
    proof cases
      case 1
      then show ?thesis using state_evolves_trans [OF s1(2)] by blast
    next
      case 2
      then show ?thesis using applied_within_Cons [OF r1(1) s1(2)] unfolding x by simp
    qed
  next
    assume "ev = Prune \<and> st_phase s = Applied"
    then show ?thesis using applied_within_now [OF Cons.prems(3)] unfolding x by simp
  qed
qed simp

section \<open>Writes of the index\<close>

definition live_write :: "conflict_index \<Rightarrow> bytes \<Rightarrow> txn_id \<Rightarrow> timestamp \<Rightarrow> bool" where
  "live_write ci key txn t0 \<longleftrightarrow> (case map_of (single_key ci) key of None \<Rightarrow> False
     | Some e \<Rightarrow> \<exists>w \<in> set (ke_writes e). iw_txn_id w = txn \<and> iw_t0 w = t0 \<and> iw_status w \<noteq> StApplied)"

lemma live_write_retain:
  assumes "ci_keys_distinct ci" "live_write ci key txn t0"
    and "\<And>w. iw_txn_id w = txn \<Longrightarrow> iw_status w \<noteq> StApplied \<Longrightarrow> P w"
  shows "live_write (ci_retain P Q ci) key txn t0"
proof -
  obtain e w where e: "map_of (single_key ci) key = Some e" "w \<in> set (ke_writes e)" "iw_txn_id w = txn" "iw_t0 w = t0"
    "iw_status w \<noteq> StApplied" using assms(2) by (auto simp: live_write_def split: option.splits)
  then have "w \<in> set (filter P (ke_writes e))" using assms(3) by simp
  then have "keep_entry (e\<lparr>ke_writes := filter P (ke_writes e)\<rparr>)" by (auto simp: keep_entry_def filter_empty_conv)
  then show ?thesis
    using e assms(1,3) by (auto simp: live_write_def ci_retain_def Let_def map_of_retain_keys ci_keys_distinct_def)
qed

lemma live_write_step:
  assumes d: "ci_keys_distinct ci" and l: "live_write ci key txn t0" and op: "op \<noteq> Remove txn" "op \<noteq> MarkApplied txn"
  shows "live_write (ci_step ci op) key txn t0"
proof -
  obtain e w where e: "map_of (single_key ci) key = Some e" "w \<in> set (ke_writes e)" "iw_txn_id w = txn" "iw_t0 w = t0"
    "iw_status w \<noteq> StApplied" using l by (auto simp: live_write_def split: option.splits)
  show ?thesis
  proof (cases op)
    case (Register k v)
    then show ?thesis using e by (auto simp: live_write_def ci_register_def map_of_entry_update)
  next
    case (SetCommitTs x u)
    let ?w = "if iw_txn_id w = x then w\<lparr>accord_ts := Some u\<rparr> else w"
    have "?w \<in> set (ke_writes (set_commit_entry x u key e))"
      using e(2) by (auto simp: set_commit_entry_def Let_def)
    moreover have "iw_txn_id ?w = txn" "iw_t0 ?w = t0" "iw_status ?w \<noteq> StApplied" using e by simp_all
    ultimately show ?thesis using SetCommitTs e(1) unfolding live_write_def
      by (auto simp: set_commit_ts_def map_of_map_entry)
  next
    case (MarkApplied x)
    then have "x \<noteq> txn" using op by simp
    then have "w \<in> set (map (\<lambda>w. if iw_txn_id w = x then w\<lparr>iw_status := StApplied\<rparr> else w) (ke_writes e))"
      using e(2,3) by (auto simp: image_iff)
    then show ?thesis using MarkApplied e unfolding live_write_def
      by (auto simp: ci_mark_applied_def map_of_map_entry)
  next
    case (Remove x)
    then show ?thesis using op live_write_retain [OF d l] by (auto simp: ci_remove_def)
  next
    case GcApplied
    then show ?thesis using live_write_retain [OF d l] by (auto simp: gc_applied_def)
  qed (use l in \<open>simp_all add: live_write_def ci_register_range_def ci_register_indexed_write_def\<close>)
qed

lemma live_write_run:
  "ci_keys_distinct ci \<Longrightarrow> live_write ci key txn t0 \<Longrightarrow> \<not> finishes ops txn \<Longrightarrow> live_write (foldl ci_step ci ops) key txn t0"
proof (induction ops arbitrary: ci)
  case (Cons op ops)
  then have "live_write (ci_step ci op) key txn t0" by (intro live_write_step) (auto simp: finishes_def)
  then show ?case using Cons ci_step_distinct by (simp add: finishes_def)
qed simp

lemma sm_step_index:
  assumes "sm_inv r" "sm_step ap env ev r = Some r'"
  obtains ops where "r_index r' = foldl ci_step (r_index r) ops"
    "\<And>txn s. map_of (txn_states r) txn = Some s \<Longrightarrow> st_phase s = Committed \<Longrightarrow> finishes ops txn
      \<Longrightarrow> \<exists>s'. map_of (txn_states r') txn = Some s' \<and> st_phase s' = Applied"
proof (cases "ev = Prune")
  case True
  then show thesis using sm_step_SomeD(1) [OF assms]
    by (intro that [of "[GcApplied]"]) (simp_all add: pruned_def finishes_def)
next
  case False
  then have "evolves r r'" using sm_step_SomeD(1) [OF assms] by simp
  then show thesis using assms(1) that unfolding evolves_def by blast
qed

lemma sm_run_index:
  assumes "sm_inv r" "sm_run ap evs r = Some r'"
  obtains ops where "r_index r' = foldl ci_step (r_index r) ops"
  using assms
proof (induction evs arbitrary: r thesis)
  case Nil
  then show ?case by (metis foldl_Nil option.inject sm_run.simps(1))
next
  case (Cons x evs)
  obtain env ev where x: "x = (env, ev)" by fastforce
  obtain r1 where r1: "sm_step ap env ev r = Some r1" "sm_run ap evs r1 = Some r'"
    using Cons.prems(3) unfolding x by (rule sm_run_Cons)
  obtain ops where ops: "r_index r1 = foldl ci_step (r_index r) ops" using Cons.prems(2) r1(1) by (rule sm_step_index)
  obtain ops' where ops': "r_index r' = foldl ci_step (r_index r1) ops'"
    using sm_step_SomeD(2) [OF Cons.prems(2) r1(1)] r1(2) by (rule Cons.IH [rotated])
  show ?case using ops ops' by (intro Cons.prems(1) [of "ops @ ops'"]) simp
qed

lemma list_max_reaches: "reaches (list_max ts) t \<longleftrightarrow> (\<exists>x \<in> set ts. t \<le> x)"
proof -
  have "t \<le> foldl max a ts \<longleftrightarrow> t \<le> a \<or> (\<exists>x \<in> set ts. t \<le> x)" for a ts
    by (induction ts arbitrary: a) (auto simp: le_max_iff_disj)
  then show ?thesis by (cases ts) (simp_all add: list_max_def)
qed

lemma propose_after:
  assumes "key \<in> set keys" "reaches (max_conflicting_timestamp ci key) t"
  shows "t < propose node ci keys t0 \<or> ts_seq (propose node ci keys t0) = u32_MAX"
proof -
  obtain x where x: "max_conflicting_timestamp ci key = Some x" "t \<le> x" using assms(2) by (auto simp: reaches_def split: option.splits)
  have "x \<in> set (List.map_filter (max_conflicting_timestamp ci) keys)"
    using assms(1) x(1) by (force simp: map_filter_def)
  then have "reaches (max_conflict ci keys) t" using x(2) by (auto simp: max_conflict_def list_max_reaches)
  then obtain m where m: "max_conflict ci keys = Some m" "t \<le> m" by (auto simp: reaches_def split: option.splits)
  show ?thesis
  proof (cases "m \<ge> t0")
    case True
    show ?thesis
    proof (cases "ts_seq m < u32_MAX")
      case seq: True
      then have "m < bump_past t0 m node" by (cases m) (simp add: bump_past_def less_timestamp_def ts_key_def)
      then have "t < bump_past t0 m node" using m(2) by (rule le_less_trans [rotated])
      then show ?thesis using m True by (simp add: propose_def)
    next
      case False
      then show ?thesis using m True by (simp add: propose_def bump_past_def)
    qed
  next
    case False
    then have "t < t0" using m(2) by simp
    then show ?thesis using m False by (simp add: propose_def)
  qed
qed

section \<open>Reachable replicas\<close>

inductive sm_reachable :: "'s storage_applier \<Rightarrow> 's replica \<Rightarrow> bool" for ap where
  start: "replica_new node e = Some r \<Longrightarrow> sm_reachable ap r"
| clocked: "replica_new node e = Some r \<Longrightarrow> with_clock env c r = Some r' \<Longrightarrow> sm_reachable ap r'"
| step: "sm_reachable ap r \<Longrightarrow> sm_step ap env ev r = Some r' \<Longrightarrow> sm_reachable ap r'"

lemma replica_new_inv: "replica_new node e = Some r \<Longrightarrow> sm_inv r"
  by (auto simp: replica_new_def sm_inv_def finalized_new_def finalized_wf_def FINALIZED_CAPACITY_def ci_keys_distinct_def
      conflict_index_new_def bt_wf_def split: bind_splits if_splits)

lemma with_clock_inv:
  assumes "sm_inv r" "with_clock env c r = Some r'"
  shows "sm_inv r'"
proof -
  obtain c' now where "hlc_now (phys1 env) c = Some (c', now)" "r' = r\<lparr>r_finalized := with_restart_floor now (r_finalized r), r_clock := Some c'\<rparr>"
    using assms(2) by (auto simp: with_clock_def split: bind_splits)
  then show ?thesis using assms(1) finalized_step_spec(1) [of "r_finalized r" "RestartFloor now"] by (simp add: sm_inv_def)
qed

lemma sm_reachable_inv: "sm_reachable ap r \<Longrightarrow> sm_inv r"
  by (induction rule: sm_reachable.induct) (auto intro: replica_new_inv with_clock_inv sm_step_SomeD(2))

lemma sm_reachable_run: "sm_reachable ap r \<Longrightarrow> sm_run ap evs r = Some r' \<Longrightarrow> sm_reachable ap r'"
proof (induction evs arbitrary: r)
  case (Cons x evs)
  obtain env ev where x: "x = (env, ev)" by fastforce
  obtain r1 where "sm_step ap env ev r = Some r1" "sm_run ap evs r1 = Some r'"
    using Cons.prems(2) unfolding x by (rule sm_run_Cons)
  then show ?case using Cons sm_reachable.step by blast
qed simp

lemma sm_run_live_write:
  assumes "sm_inv r" "sm_run ap evs r = Some r'" "map_of (txn_states r) txn = Some s" "st_phase s = Committed"
    and "live_write (r_index r) key txn t0" "\<not> applied_within ap evs r txn s"
  shows "\<exists>s'. map_of (txn_states r') txn = Some s' \<and> st_phase s' = Committed \<and> st_t s' = st_t s \<and> live_write (r_index r') key txn t0"
  using assms
proof (induction evs arbitrary: r s)
  case (Cons x evs)
  obtain env ev where x: "x = (env, ev)" by fastforce
  obtain r1 where r1: "sm_step ap env ev r = Some r1" "sm_run ap evs r1 = Some r'"
    using Cons.prems(2) unfolding x by (rule sm_run_Cons)
  note inv1 = sm_step_SomeD(2) [OF Cons.prems(1) r1(1)]
  from sm_step_state [OF Cons.prems(1) r1(1) Cons.prems(3)] Cons.prems(4)
  obtain s1 where s1: "map_of (txn_states r1) txn = Some s1" "state_evolves s s1" by auto
  have na: "\<not> applied_within ap evs r1 txn s1" using applied_within_Cons [OF r1(1) s1(2)] Cons.prems(6) unfolding x by blast
  have com: "st_phase s1 = Committed"
    using committed_stays [OF s1(2) Cons.prems(4)] applied_within_now [OF s1(1)] na by blast
  obtain ops where ops: "r_index r1 = foldl ci_step (r_index r) ops"
    "finishes ops txn \<Longrightarrow> \<exists>s'. map_of (txn_states r1) txn = Some s' \<and> st_phase s' = Applied"
    using sm_step_index [OF Cons.prems(1) r1(1)] Cons.prems(3,4) by metis
  have "\<not> finishes ops txn" using ops(2) s1(1) com by auto
  then have live: "live_write (r_index r1) key txn t0"
    unfolding ops(1) using Cons.prems(1,5) by (intro live_write_run) (simp_all add: sm_inv_def)
  have "st_t s1 = st_t s" using s1(2) Cons.prems(4) by (simp add: state_evolves_def is_decided_phase_def)
  then show ?case using Cons.IH [OF inv1 r1(2) s1(1) com live na] by simp
qed simp

lemma preaccept_reply:
  assumes inv: "sm_inv r" and known: "preaccept_known txn t0 ballot r = None"
    and run: "handle_preaccept_multi_with_snapshot env txn t0 keys ballot epoch snap r = Some (r', PreAcceptOK txn t deps)"
  shows "t = propose (node_id r) (r_index r) keys t0" "JPreAccepted (ts_time txn) (ts_time t) \<in> set (journal r')"
proof -
  let ?r = "r\<lparr>refusing_by_floor := False\<rparr>"
  have pre: "preaccept_fresh env txn t0 keys ?r = Some (r', PreAcceptOK txn t deps)"
    by (cases rule: preaccept_cases [of env txn t0 keys ballot epoch snap r]) (use known run in auto)
  have "sm_inv ?r" using inv by (simp add: sm_inv_def)
  then have "sm_wp env (r_clock ?r) (preaccept_fresh env txn t0 keys ?r) (\<lambda>(r', resp). evolves ?r r' \<and>
      (resp = NoResponse \<and> \<not> fsync env txn (JPreAccepted (ts_time txn) (ts_time (propose (node_id ?r) (r_index ?r) keys t0)))
       \<or> resp = PreAcceptOK txn (propose (node_id ?r) (r_index ?r) keys t0) (\<Union>key \<in> set keys. deps_before_t0 (r_index ?r) key t0)
         \<and> JPreAccepted (ts_time txn) (ts_time (propose (node_id ?r) (r_index ?r) keys t0)) \<in> set (journal r')
         \<and> r_index r' = fold (\<lambda>key. ci_register key \<lparr>iw_txn_id = txn, iw_t0 = t0,
             accord_ts = Some (propose (node_id ?r) (r_index ?r) keys t0), iw_status = StPreAccepted\<rparr>) keys (r_index ?r)
         \<and> (\<exists>s. map_of (txn_states r') txn = Some s \<and> st_t s = propose (node_id ?r) (r_index ?r) keys t0
             \<and> st_deps s = (\<Union>key \<in> set keys. deps_before_t0 (r_index ?r) key t0))))"
    by (rule preaccept_fresh_cases) (use preaccept_known_None [OF known] in simp)
  then show "t = propose (node_id r) (r_index r) keys t0" "JPreAccepted (ts_time txn) (ts_time t) \<in> set (journal r')"
    unfolding pre by auto
qed

lemma handle_accept_journal:
  assumes "handle_accept env txn t0 t deps ballot r = Some (r', AcceptOK txn' b deps')" "undecided r txn"
  shows "JAccepted (ts_time txn) (ts_time t) ballot \<in> set (journal r')"
proof -
  obtain s r1 where r1: "state_entry txn t0 r = Some (s, r1)"
    "map_of (txn_states r) txn = None \<Longrightarrow> st_phase s = PreAccepted \<and> txn_state_new txn t0 = Some s"
    "\<And>s0. map_of (txn_states r) txn = Some s0 \<Longrightarrow> s0 = s \<and> r1 = r"
    by (rule state_entry_spec [of txn t0 r]) (rule that)
  have "\<not> is_decided_phase (st_phase s)"
    using assms(2) r1(2,3) by (cases "map_of (txn_states r) txn") (auto simp: undecided_def is_decided_phase_def)
  then obtain s' r3 r4 where "r3 = (put_state txn s' (r1\<lparr>journal := journal r1 @ [JAccepted (ts_time txn) (ts_time t) ballot]\<rparr>))\<lparr>r_index := set_commit_ts txn t (r_index r1)\<rparr>"
    "witness_timestamp env t r3 = Some r'"
    using assms(1) r1(1) by (auto simp: handle_accept_def Let_def split: bind_splits if_splits)
  then show ?thesis using witness_wp [of env r3 t] by auto
qed

section \<open>A sample run\<close>

definition sample_env :: env where
  "sample_env = \<lparr>fsync = (\<lambda>_ _. True), phys1 = 10, phys2 = 10, now_instant = 0, stage_io = True\<rparr>"

definition sample_replica :: "txn_state list \<Rightarrow> (bytes \<times> key_entry) list \<Rightarrow> nat \<Rightarrow> journal_record list \<Rightarrow> txn_id set \<Rightarrow> unit replica" where
  "sample_replica states keys n j com = \<lparr>node_id = 1, txn_states = map (\<lambda>s. (st_txn_id s, s)) states,
     r_index = conflict_index_new\<lparr>single_key := keys, current_entries := n\<rparr>, journal = j, dep_waiters = [], committed_txns = com,
     last_notified = [], apply_engine = applier_new () 60 8, applying = {}, applied_epoch = 0, r_clock = None,
     r_finalized = \<lparr>tombstones = [], ft_floor = None, ft_capacity = 250000, evicting = False, evicted_since_horizon = 0\<rparr>,
     refusing_by_floor = False\<rparr>"

definition sample_state :: "nat \<Rightarrow> txn_phase \<Rightarrow> txn_state" where
  "sample_state n p = \<lparr>st_txn_id = sample_txn 5, st_t0 = sample_txn 5, st_t = sample_txn n, st_t_max = sample_txn n, st_deps = {},
     st_phase = p, max_ballot_seen = 0, accepted_ballot = 0, st_result = None\<rparr>"

definition sample_entry :: "nat \<Rightarrow> timestamp option \<Rightarrow> key_entry" where
  "sample_entry n hwm = \<lparr>ke_writes = [\<lparr>iw_txn_id = sample_txn 5, iw_t0 = sample_txn 5, accord_ts = Some (sample_txn n),
     iw_status = StPreAccepted\<rparr>], ke_hwm = hwm\<rparr>"

definition sample_preaccepted :: "unit replica" where
  "sample_preaccepted = sample_replica [sample_state 5 PreAccepted] [([1], sample_entry 5 None)] 1 [JPreAccepted 5 5] {}"

definition sample_committed :: "unit replica" where
  "sample_committed = sample_replica [sample_state 6 Committed] [([1], sample_entry 6 (Some (sample_txn 6)))] 1
     [JPreAccepted 5 5, JCommitted 5 6] {sample_txn 5}"

lemmas sample_replica_defs = sample_env_def sample_replica_def sample_state_def sample_entry_def sample_preaccepted_def
  sample_committed_def sample_txn_def conflict_index_new_def

lemmas preaccept_defs = handle_preaccept_multi_with_snapshot_def decided_def below_floor_def preaccept_known_def snapshot_stale_def
  propose_def max_conflict_def map_filter_def max_conflicting_timestamp_def option_max_def list_max_def deps_before_t0_def
  witness_timestamp_def state_entry_def txn_ops put_state_def ci_register_def hm_insert_def

lemma sample_new: "replica_new 1 (applier_new () 60 8) = Some (sample_replica [] [] 0 [] {})"
  by (simp add: replica_new_def finalized_new_def FINALIZED_CAPACITY_def sample_replica_defs)

lemma sample_preaccept: "handle_preaccept_multi_with_snapshot sample_env (sample_txn 5) (sample_txn 5) [[1]] 0 0 None (sample_replica [] [] 0 [] {})
    = Some (sample_preaccepted, PreAcceptOK (sample_txn 5) (sample_txn 5) {})"
  by (simp add: preaccept_defs sample_replica_defs)

lemma sample_commit: "handle_commit sample_applier sample_env (sample_txn 5) (sample_txn 5) (sample_txn 6) [] sample_preaccepted
    = Some (sample_committed, NoResponse)"
  by (simp add: handle_commit_def preaccept_defs sample_replica_defs is_decided_phase_def set_commit_ts_def set_commit_entry_def touches_def
      touches_key_def raise_hwm_def hm_get_def hm_remove_def release_waiters_ordered_before_def waiters_on_def waiters_of_def applier_new_def
      dep_graph_new_def dep_graph_with_timeout_def bookkeep_applied_dedup_def POSTGRES_TRANSACTION_MARKER_KEY_def
      POSTGRES_TRANSACTION_BARRIER_KEY_def)

lemma sample_preaccepted_reachable: "sm_reachable ap sample_preaccepted"
proof -
  have "sm_reachable ap (sample_replica [] [] 0 [] {})" using sample_new by (rule sm_reachable.start)
  then show ?thesis
    by (rule sm_reachable.step [where env = sample_env and ev = "PreAcceptMsg (sample_txn 5) (sample_txn 5) [[1]] 0 0 None"])
      (simp add: sample_preaccept)
qed

lemma sample_committed_reachable: "sm_reachable sample_applier sample_committed"
  using sample_preaccepted_reachable
  by (rule sm_reachable.step [where env = sample_env and ev = "CommitMsg (sample_txn 5) (sample_txn 5) (sample_txn 6) []"])
    (simp add: sample_commit)

lemma sample_committed_state: "map_of (txn_states sample_committed) (sample_txn 5) = Some (sample_state 6 Committed)"
  by (simp add: sample_replica_defs)

section \<open>Properties\<close>

text \<open>
  C7: A replica never takes a decision back: through any run of handler calls, with any outcomes of the
  journal writes and any clock readings, the promised ballot and the phase of a transaction never go
  down, its original timestamp is fixed, and once it is committed or applied its execution timestamp and
  dependencies never change, until a prune discards the applied transaction.
\<close>

theorem replica_decisions_stable:
  assumes "sm_reachable ap r" "map_of (txn_states r) txn = Some s" "sm_run ap evs r = Some r'"
    and "\<not> (Prune \<in> snd ` set evs \<and> applied_within ap evs r txn s)"
  shows "\<exists>s'. map_of (txn_states r') txn = Some s' \<and> st_t0 s' = st_t0 s \<and> max_ballot_seen s \<le> max_ballot_seen s'
    \<and> phase_rank (st_phase s) \<le> phase_rank (st_phase s')
    \<and> (st_phase s = Committed \<or> st_phase s = Applied \<longrightarrow> st_t s' = st_t s \<and> st_deps s' = st_deps s)"
  using sm_run_state [OF sm_reachable_inv [OF assms(1)] assms(3,2)] assms(4)
  by (auto simp: state_evolves_def txn_grows_def is_decided_phase_def)

theorem replica_decisions_stable_witness:
  "\<exists>s'. map_of (txn_states sample_committed) (sample_txn 5) = Some s' \<and> st_t s' = sample_txn 6 \<and> st_deps s' = {}"
proof -
  have "sm_run sample_applier [(sample_env, AcceptMsg (sample_txn 5) (sample_txn 5) (sample_txn 9) [sample_txn 2] 7)] sample_committed
      = Some sample_committed"
    by (simp add: handle_accept_def state_entry_def sample_replica_defs is_decided_phase_def)
  from replica_decisions_stable [OF sample_committed_reachable sample_committed_state this]
  show ?thesis by (auto simp: sample_state_def)
qed

text \<open>
  C4: Conflicting transactions are serialized in the order of their commits: after a transaction registered
  on a key commits at \<open>t\<close>, every PreAccept on that key that is not answered from a recorded state is
  proposed a later timestamp, whatever happens in between, garbage collection included, unless the
  sequence number of the proposal is saturated.
\<close>

theorem replica_serialization_order:
  assumes "sm_reachable ap r" "has_write (r_index r) key txn" "undecided r txn"
    and "fsync env txn (JCommitted (ts_time txn) (ts_time t))" "handle_commit ap env txn t0 t deps r = Some (r1, resp)"
    and "sm_run ap evs r1 = Some r2" "preaccept_known txn' t0' ballot r2 = None" "key \<in> set keys"
    and "handle_preaccept_multi_with_snapshot env' txn' t0' keys ballot epoch snap r2 = Some (r3, PreAcceptOK txn' t' deps')"
  shows "t < t' \<or> ts_seq t' = u32_MAX"
proof -
  note inv = sm_reachable_inv [OF assms(1)]
  obtain rc where rc: "evolves r rc" "evolves rc r1" "r_index rc = set_commit_ts txn t (r_index r)"
    using handle_commit_commits [OF inv assms(3,4), of ap t0 deps] assms(5) by auto
  have invc: "sm_inv rc" by (rule evolvesD(1) [OF rc(1) inv])
  then have inv1: "sm_inv r1" using rc(2) by (rule evolvesD(1) [rotated])
  obtain ops where ops: "r_index r1 = foldl ci_step (r_index rc) ops" using rc(2) invc unfolding evolves_def by blast
  obtain ops' where ops': "r_index r2 = foldl ci_step (r_index r1) ops'" using inv1 assms(6) by (rule sm_run_index)
  have inv2: "sm_inv r2" by (rule sm_run_inv [OF inv1 assms(6)])
  have "reaches (key_hwm (foldl ci_step (r_index rc) (ops @ ops')) key) t"
    by (rule key_hwm_run) (use invc set_commit_ts_hwm [OF assms(2)] rc(3) in \<open>simp_all add: sm_inv_def\<close>)
  then have hwm: "reaches (max_conflicting_timestamp (r_index r2) key) t"
    using ops ops' by (simp add: max_conflicting_key_hwm)
  have "t' = propose (node_id r2) (r_index r2) keys t0'" by (rule preaccept_reply(1) [OF inv2 assms(7,9)])
  then show ?thesis using propose_after [OF assms(8)] hwm by simp
qed

theorem replica_serialization_order_witness:
  "\<exists>r t' deps. handle_preaccept_multi_with_snapshot sample_env (sample_txn 4) (sample_txn 4) [[1]] 0 0 None sample_committed
     = Some (r, PreAcceptOK (sample_txn 4) t' deps) \<and> (sample_txn 6 < t' \<or> ts_seq t' = u32_MAX)"
proof -
  obtain r t' deps where pre: "handle_preaccept_multi_with_snapshot sample_env (sample_txn 4) (sample_txn 4) [[1]] 0 0 None sample_committed
     = Some (r, PreAcceptOK (sample_txn 4) t' deps)"
    by (simp add: preaccept_defs sample_replica_defs effective_ts_def bump_past_def less_eq_timestamp_def less_timestamp_def ts_key_def
        POSTGRES_TRANSACTION_MARKER_KEY_def POSTGRES_TRANSACTION_BARRIER_KEY_def)
  have "sample_txn 6 < t' \<or> ts_seq t' = u32_MAX"
    by (rule replica_serialization_order [OF sample_preaccepted_reachable _ _ _ sample_commit _ _ _ pre, where key = "[1]" and evs = "[]"])
      (simp_all add: has_write_def touches_def undecided_def is_decided_phase_def preaccept_known_def sample_replica_defs)
  then show ?thesis using pre by blast
qed

text \<open>
  C6: A linearizable read never overtakes a committed write: from the commit of a transaction that wrote a
  key until the replica has applied it, every read of the key at a later timestamp finds the transaction
  among the conflicts it must wait for.
\<close>

theorem read_waits_for_committed:
  assumes "sm_reachable ap r" "map_of (txn_states r) txn = Some s" "st_phase s = Committed" "live_write (r_index r) key txn t0"
    and "sm_run ap evs r = Some r'" "\<not> applied_within ap evs r txn s" "st_t s < t" "t0 < t"
  shows "txn \<in> unapplied_conflicts_before r' key t"
proof -
  obtain s' where s': "map_of (txn_states r') txn = Some s'" "st_phase s' = Committed" "st_t s' = st_t s" "live_write (r_index r') key txn t0"
    using sm_run_live_write [OF sm_reachable_inv [OF assms(1)] assms(5,2,3,4,6)] by blast
  then have "txn \<in> deps_before_t (r_index r') key t"
    using assms(8) by (auto simp: live_write_def deps_before_t_def image_iff split: option.splits)
  then show ?thesis using s' assms(7) by (simp add: unapplied_conflicts_before_def)
qed

theorem read_waits_for_committed_witness:
  "sample_txn 5 \<in> unapplied_conflicts_before sample_committed [1] (sample_txn 7)"
proof (rule read_waits_for_committed [OF sample_committed_reachable sample_committed_state, where evs = "[]"])
  show "\<not> applied_within sample_applier [] sample_committed (sample_txn 5) (sample_state 6 Committed)"
    by (simp add: applied_within_def sample_committed_state) (simp add: sample_state_def)
  show "live_write (r_index sample_committed) [1] (sample_txn 5) (sample_txn 5)"
    by (simp add: live_write_def sample_replica_defs)
qed (simp_all add: sample_state_def sample_txn_def less_timestamp_def ts_key_def)

text \<open>
  A reply is backed by the journal: a PreAccept answered afresh, and an Accept answered for an undecided
  transaction, was recorded with its timestamp before the reply.
\<close>

theorem replica_persists_before_reply:
  assumes "sm_reachable ap r"
  shows "(handle_preaccept_multi_with_snapshot env txn t0 keys ballot epoch snap r = Some (r1, PreAcceptOK txn t1 deps1)
      \<and> preaccept_known txn t0 ballot r = None \<longrightarrow> JPreAccepted (ts_time txn) (ts_time t1) \<in> set (journal r1))
    \<and> (handle_accept env txn t0 t deps ballot r = Some (r2, AcceptOK txn ballot deps2)
      \<and> undecided r txn \<longrightarrow> JAccepted (ts_time txn) (ts_time t) ballot \<in> set (journal r2))"
proof (intro conjI impI)
  assume "handle_preaccept_multi_with_snapshot env txn t0 keys ballot epoch snap r = Some (r1, PreAcceptOK txn t1 deps1)
    \<and> preaccept_known txn t0 ballot r = None"
  then show "JPreAccepted (ts_time txn) (ts_time t1) \<in> set (journal r1)"
    using preaccept_reply(2) [OF sm_reachable_inv [OF assms]] by blast
next
  assume "handle_accept env txn t0 t deps ballot r = Some (r2, AcceptOK txn ballot deps2) \<and> undecided r txn"
  then show "JAccepted (ts_time txn) (ts_time t) ballot \<in> set (journal r2)" using handle_accept_journal by blast
qed

theorem replica_persists_before_reply_witness:
  "JPreAccepted (ts_time (sample_txn 5)) (ts_time (sample_txn 5)) \<in> set (journal sample_preaccepted)"
proof -
  have "sm_reachable sample_applier (sample_replica [] [] 0 [] {})" using sample_new by (rule sm_reachable.start)
  from replica_persists_before_reply [OF this, THEN conjunct1, rule_format, OF conjI, OF sample_preaccept]
  show ?thesis by (simp add: preaccept_known_def sample_replica_def)
qed

text \<open>
  C37: A failed journal write of an Accept is not undone: it leaves a state behind that no PreAccept made, and
  the next PreAccept of the transaction is answered from it, at its original timestamp and without
  dependencies, although it consulted no conflict, registered nothing and recorded nothing.
\<close>

theorem failed_accept_fakes_preaccept:
  assumes "map_of (txn_states r) txn = None" "decided (r_finalized r) txn = None"
    and "\<not> fsync env txn (JAccepted (ts_time txn) (ts_time t) ballot)"
    and "handle_accept env txn t0 t deps ballot r = Some (r1, resp)"
  shows "resp = NoResponse \<and> (\<exists>r2. handle_preaccept_multi_with_snapshot env' txn t0 keys 0 epoch snap r1 = Some (r2, PreAcceptOK txn t0 {})
    \<and> r_index r2 = r_index r \<and> journal r2 = journal r)"
proof -
  obtain s where s: "txn_state_new txn t0 = Some s" "st_phase s = PreAccepted" "st_t0 s = t0" "st_t s = t0" "st_deps s = {}" "max_ballot_seen s = 0"
    by (rule txn_state_new_wf)
  have "resp = NoResponse" "r1 = r\<lparr>txn_states := hm_insert txn s (txn_states r)\<rparr>"
    using assms(1,3,4) s by (auto simp: handle_accept_def state_entry_def is_decided_phase_def Let_def)
  then show ?thesis using assms(2) s
    by (simp add: handle_preaccept_multi_with_snapshot_def preaccept_known_def Let_def)
qed

theorem failed_accept_fakes_preaccept_witness:
  "\<exists>r2. handle_preaccept_multi_with_snapshot sample_env (sample_txn 4) (sample_txn 4) [[1]] 0 0 None
       (sample_committed\<lparr>txn_states := hm_insert (sample_txn 4) (the (txn_state_new (sample_txn 4) (sample_txn 4))) (txn_states sample_committed)\<rparr>)
     = Some (r2, PreAcceptOK (sample_txn 4) (sample_txn 4) {}) \<and> max_conflicting_timestamp (r_index r2) [1] = Some (sample_txn 6)"
proof -
  let ?env = "sample_env\<lparr>fsync := (\<lambda>_ _. False)\<rparr>"
  let ?r1 = "sample_committed\<lparr>txn_states := hm_insert (sample_txn 4) (the (txn_state_new (sample_txn 4) (sample_txn 4))) (txn_states sample_committed)\<rparr>"
  have "handle_accept ?env (sample_txn 4) (sample_txn 4) (sample_txn 4) [] 0 sample_committed = Some (?r1, NoResponse)"
    by (simp add: handle_accept_def state_entry_def sample_replica_defs is_decided_phase_def txn_ops)
  from failed_accept_fakes_preaccept [OF _ _ _ this, of sample_env "[[1]]" 0 None]
  have "\<exists>r2. handle_preaccept_multi_with_snapshot sample_env (sample_txn 4) (sample_txn 4) [[1]] 0 0 None ?r1
      = Some (r2, PreAcceptOK (sample_txn 4) (sample_txn 4) {}) \<and> r_index r2 = r_index sample_committed"
    by (auto simp: sample_replica_defs decided_def below_floor_def)
  moreover have "max_conflicting_timestamp (r_index sample_committed) [1] = Some (sample_txn 6)"
    by (simp add: max_conflicting_timestamp_def sample_replica_defs option_max_def list_max_def effective_ts_def
        POSTGRES_TRANSACTION_MARKER_KEY_def POSTGRES_TRANSACTION_BARRIER_KEY_def)
  ultimately show ?thesis by metis
qed

end
