(* ===== verification/Trie_Node.thy ===== *)
theory Trie_Node
  imports Varint
begin

unbundle bit_operations_syntax

text \<open>
  Nodes of the on-disk trie (crate \<open>ferrosa-sstable\<close>: \<open>trie/node.rs\<close> and the node encoders of
  \<open>trie/builder.rs\<close>).  A pointer and a position are natural numbers, converted to 64-bit words where
  their bytes are written or read.  The lemmas show that decoding the bytes of an encoded node, with
  any bytes behind it, finds its transitions and its payload again.
\<close>

section \<open>Node types\<close>

definition PAGE_SIZE :: usize where "PAGE_SIZE = 4096"

datatype node_type = PayloadOnly | SingleNopayload4 | Single8 | SingleNopayload12 | Single16 | Sparse8 | Sparse12 | Sparse16
  | Sparse24 | Sparse40 | Dense12 | Dense16 | Dense24 | Dense32 | Dense40 | LongDense

fun node_code :: "node_type \<Rightarrow> u8" where
  "node_code PayloadOnly = 0"
| "node_code SingleNopayload4 = 1"
| "node_code Single8 = 2"
| "node_code SingleNopayload12 = 3"
| "node_code Single16 = 4"
| "node_code Sparse8 = 5"
| "node_code Sparse12 = 6"
| "node_code Sparse16 = 7"
| "node_code Sparse24 = 8"
| "node_code Sparse40 = 9"
| "node_code Dense12 = 10"
| "node_code Dense16 = 11"
| "node_code Dense24 = 12"
| "node_code Dense32 = 13"
| "node_code Dense40 = 14"
| "node_code LongDense = 15"

definition from_type_byte :: "u8 \<Rightarrow> codec_error + node_type" where
  "from_type_byte byte =
     (case map_of [(0, PayloadOnly), (1, SingleNopayload4), (2, Single8), (3, SingleNopayload12), (4, Single16), (5, Sparse8),
        (6, Sparse12), (7, Sparse16), (8, Sparse24), (9, Sparse40), (10, Dense12), (11, Dense16), (12, Dense24), (13, Dense32),
        (14, Dense40), (15, LongDense)] (drop_bit 4 byte) of
        Some t \<Rightarrow> Inr t
      | None \<Rightarrow> Inl InvalidData)"

text \<open>\<open>usize::div_ceil\<close>\<close>

definition div_ceil :: "nat \<Rightarrow> nat \<Rightarrow> nat" where "div_ceil a b = (a + (b - 1)) div b"

fun node_size :: "node_type \<Rightarrow> usize \<Rightarrow> usize \<Rightarrow> usize" where
  "node_size PayloadOnly cc cs = 1"
| "node_size SingleNopayload4 cc cs = 2"
| "node_size Single8 cc cs = 3"
| "node_size SingleNopayload12 cc cs = 3"
| "node_size Single16 cc cs = 4"
| "node_size Sparse8 cc cs = 2 + cc * 2"
| "node_size Sparse12 cc cs = 2 + div_ceil (cc * 5) 2"
| "node_size Sparse16 cc cs = 2 + cc * 3"
| "node_size Sparse24 cc cs = 2 + cc * 4"
| "node_size Sparse40 cc cs = 2 + cc * 6"
| "node_size Dense12 cc cs = 3 + div_ceil (cs * 3) 2"
| "node_size Dense16 cc cs = 3 + cs * 2"
| "node_size Dense24 cc cs = 3 + cs * 3"
| "node_size Dense32 cc cs = 3 + cs * 4"
| "node_size Dense40 cc cs = 3 + cs * 5"
| "node_size LongDense cc cs = 3 + cs * 8"

definition is_single :: "node_type \<Rightarrow> bool" where
  "is_single t \<longleftrightarrow> t \<in> {SingleNopayload4, Single8, SingleNopayload12, Single16}"

definition is_sparse :: "node_type \<Rightarrow> bool" where
  "is_sparse t \<longleftrightarrow> t \<in> {Sparse8, Sparse12, Sparse16, Sparse24, Sparse40}"

definition is_dense :: "node_type \<Rightarrow> bool" where
  "is_dense t \<longleftrightarrow> t \<in> {Dense12, Dense16, Dense24, Dense32, Dense40, LongDense}"

section \<open>Payloads\<close>

definition payload_size :: "u8 \<Rightarrow> usize" where
  "payload_size pb = (if pb = 0 then 0 else if pb < 8 then unat pb else 1 + unat (pb - 7))"

definition sign_extend :: "bytes \<Rightarrow> i64" where
  "sign_extend bs =
     (if bs = [] then 0
      else sint (foldl (\<lambda>v b. push_bit 8 v OR ucast b) (if bs ! 0 AND 0x80 \<noteq> 0 then - 1 else 0) bs :: 64 word))"

definition decode_payload :: "u8 \<Rightarrow> bytes \<Rightarrow> codec_error + u8 option \<times> i64" where
  "decode_payload pb payload_bytes =
     (if pb = 0 then Inr (None, 0)
      else if pb < 8
      then let len = unat pb
           in if length payload_bytes < len then Inl InvalidData else Inr (None, sign_extend (take len payload_bytes))
      else let idx_len = unat (pb - 7); total = 1 + idx_len
           in if length payload_bytes < total then Inl InvalidData
              else Inr (Some (payload_bytes ! 0), sign_extend (take idx_len (drop 1 payload_bytes))))"

text \<open>The number of bytes of \<open>encode_signed_bytes\<close> and \<open>encode_payload_into\<close> for a non-zero value.\<close>

definition signed_len :: "i64 \<Rightarrow> usize" where
  "signed_len val =
     (let v = word_of_int val :: 64 word; a = (if val < 0 then NOT v else v); lz = leading_zeros a;
          num_bytes = div_ceil (64 - lz + 1) 8;
          top_byte = ucast (signed_drop_bit ((num_bytes - 1) * 8) v) :: u8
      in if (top_byte AND 0x80 \<noteq> 0) \<noteq> (val < 0) then num_bytes + 1 else num_bytes)"

definition signed_bytes :: "usize \<Rightarrow> i64 \<Rightarrow> bytes" where
  "signed_bytes n val = map (\<lambda>i. ucast (signed_drop_bit (i * 8) (word_of_int val :: 64 word))) (rev [0..<n])"

definition encode_signed_bytes :: "i64 \<Rightarrow> bytes" where
  "encode_signed_bytes val = (if val = 0 then [] else signed_bytes (signed_len val) val)"

record trie_payload =
  tp_hash :: "u8 option"
  tp_position :: i64

definition encode_payload :: "trie_payload \<Rightarrow> bytes" where
  "encode_payload payload =
     (let num_bytes = (if tp_position payload = 0 then 1 else signed_len (tp_position payload))
      in (case tp_hash payload of Some hash \<Rightarrow> [hash] | None \<Rightarrow> []) @ signed_bytes num_bytes (tp_position payload))"

section \<open>Decoding nodes\<close>

definition read_12bits :: "bytes \<Rightarrow> usize \<Rightarrow> usize \<Rightarrow> codec_error + u16" where
  "read_12bits data base index =
     (let byte_offset = base + (3 * index) div 2
      in if byte_offset + 1 \<ge> length data then Inl InvalidData
         else let b0 = ucast (data ! byte_offset); b1 = ucast (data ! (byte_offset + 1));
                  val = (if index mod 2 = 0 then push_bit 4 b0 OR drop_bit 4 b1 else push_bit 8 (b0 AND 0x0F) OR b1)
              in Inr (val AND 0xFFF))"

definition read_unsigned_be :: "bytes \<Rightarrow> usize \<Rightarrow> usize \<Rightarrow> codec_error + u64" where
  "read_unsigned_be data offset n =
     (if offset + n > length data then Inl InvalidData
      else Inr (unat (foldl (\<lambda>v b. push_bit 8 v OR ucast b) 0 (take n (drop offset data)) :: 64 word)))"

record node_header =
  nh_type :: node_type
  payload_bits :: u8
  nh_transitions :: bytes
  nh_pointers :: "u64 list"
  payload_position :: usize

text \<open>Reads of the pointers in order, stopping at the first error.\<close>

fun read_each :: "(nat \<Rightarrow> codec_error + 'a) \<Rightarrow> nat list \<Rightarrow> codec_error + 'a list" where
  "read_each f [] = Inr []"
| "read_each f (i # is) =
     (case f i of Inl e \<Rightarrow> Inl e | Inr x \<Rightarrow> (case read_each f is of Inl e \<Rightarrow> Inl e | Inr xs \<Rightarrow> Inr (x # xs)))"

definition read_sparse_header :: "bytes \<Rightarrow> node_type \<Rightarrow> u8 \<Rightarrow> usize \<Rightarrow> codec_error + node_header" where
  "read_sparse_header data t pb bytes_per_ptr =
     (if length data < 2 then Inl InvalidData
      else let cc = unat (data ! 1); pointers_start = 2 + cc; total = pointers_start + cc * bytes_per_ptr
           in if length data < total then Inl InvalidData
              else case read_each (\<lambda>i. read_unsigned_be data (pointers_start + i * bytes_per_ptr) bytes_per_ptr) [0..<cc] of
                     Inl e \<Rightarrow> Inl e
                   | Inr ptrs \<Rightarrow> Inr \<lparr>nh_type = t, payload_bits = pb, nh_transitions = take cc (drop 2 data), nh_pointers = ptrs,
                                      payload_position = total\<rparr>)"

definition read_sparse12_header :: "bytes \<Rightarrow> node_type \<Rightarrow> u8 \<Rightarrow> codec_error + node_header" where
  "read_sparse12_header data t pb =
     (if length data < 2 then Inl InvalidData
      else let cc = unat (data ! 1); pointers_start = 2 + cc; payload_pos = 2 + div_ceil (cc * 5) 2
           in if length data < payload_pos then Inl InvalidData
              else case read_each (\<lambda>i. map_sum id unat (read_12bits data pointers_start i)) [0..<cc] of
                     Inl e \<Rightarrow> Inl e
                   | Inr ptrs \<Rightarrow> Inr \<lparr>nh_type = t, payload_bits = pb, nh_transitions = take cc (drop 2 data), nh_pointers = ptrs,
                                      payload_position = payload_pos\<rparr>)"

definition read_dense_header :: "bytes \<Rightarrow> node_type \<Rightarrow> u8 \<Rightarrow> usize \<Rightarrow> codec_error + node_header" where
  "read_dense_header data t pb bytes_per_ptr =
     (if length data < 3 then Inl InvalidData
      else let start_byte = data ! 1; len = unat (data ! 2) + 1; total = 3 + len * bytes_per_ptr
           in if length data < total then Inl InvalidData
              else case read_each (\<lambda>i. read_unsigned_be data (3 + i * bytes_per_ptr) bytes_per_ptr) [0..<len] of
                     Inl e \<Rightarrow> Inl e
                   | Inr ptrs \<Rightarrow> Inr \<lparr>nh_type = t, payload_bits = pb, nh_transitions = map (\<lambda>i. start_byte + of_nat i) [0..<len],
                                      nh_pointers = ptrs, payload_position = total\<rparr>)"

definition read_dense12_header :: "bytes \<Rightarrow> node_type \<Rightarrow> u8 \<Rightarrow> codec_error + node_header" where
  "read_dense12_header data t pb =
     (if length data < 3 then Inl InvalidData
      else let start_byte = data ! 1; len = unat (data ! 2) + 1; payload_pos = 3 + div_ceil (len * 3) 2
           in if length data < payload_pos then Inl InvalidData
              else case read_each (\<lambda>i. map_sum id unat (read_12bits data 3 i)) [0..<len] of
                     Inl e \<Rightarrow> Inl e
                   | Inr ptrs \<Rightarrow> Inr \<lparr>nh_type = t, payload_bits = pb, nh_transitions = map (\<lambda>i. start_byte + of_nat i) [0..<len],
                                      nh_pointers = ptrs, payload_position = payload_pos\<rparr>)"

definition single_header :: "node_type \<Rightarrow> u8 \<Rightarrow> u8 \<Rightarrow> u64 \<Rightarrow> usize \<Rightarrow> node_header" where
  "single_header t pb transition ptr pos =
     \<lparr>nh_type = t, payload_bits = pb, nh_transitions = [transition], nh_pointers = [ptr], payload_position = pos\<rparr>"

definition read_node_header :: "bytes \<Rightarrow> codec_error + node_header" where
  "read_node_header data =
     (if data = [] then Inl InvalidData
      else let type_byte = data ! 0; pb = type_byte AND 0x0F
           in case from_type_byte type_byte of
                Inl e \<Rightarrow> Inl e
              | Inr t \<Rightarrow>
                 (case t of
                    PayloadOnly \<Rightarrow> Inr \<lparr>nh_type = t, payload_bits = pb, nh_transitions = [], nh_pointers = [], payload_position = 1\<rparr>
                  | SingleNopayload4 \<Rightarrow> if length data < 2 then Inl InvalidData
                      else Inr (single_header t 0 (data ! 1) (unat (type_byte AND 0x0F)) 2)
                  | Single8 \<Rightarrow> if length data < 3 then Inl InvalidData
                      else Inr (single_header t pb (data ! 1) (unat (data ! 2)) 3)
                  | SingleNopayload12 \<Rightarrow> if length data < 3 then Inl InvalidData
                      else Inr (single_header t 0 (data ! 2)
                        (unat (push_bit 8 (ucast (type_byte AND 0x0F)) OR ucast (data ! 1) :: 64 word)) 3)
                  | Single16 \<Rightarrow> if length data < 4 then Inl InvalidData
                      else (case read_unsigned_be data 2 2 of Inl e \<Rightarrow> Inl e | Inr ptr \<Rightarrow> Inr (single_header t pb (data ! 1) ptr 4))
                  | Sparse8 \<Rightarrow> read_sparse_header data t pb 1
                  | Sparse12 \<Rightarrow> read_sparse12_header data t pb
                  | Sparse16 \<Rightarrow> read_sparse_header data t pb 2
                  | Sparse24 \<Rightarrow> read_sparse_header data t pb 3
                  | Sparse40 \<Rightarrow> read_sparse_header data t pb 5
                  | Dense12 \<Rightarrow> read_dense12_header data t pb
                  | Dense16 \<Rightarrow> read_dense_header data t pb 2
                  | Dense24 \<Rightarrow> read_dense_header data t pb 3
                  | Dense32 \<Rightarrow> read_dense_header data t pb 4
                  | Dense40 \<Rightarrow> read_dense_header data t pb 5
                  | LongDense \<Rightarrow> read_dense_header data t pb 8))"

section \<open>Encoding nodes\<close>

definition type_byte :: "node_type \<Rightarrow> u8 \<Rightarrow> u8" where
  "type_byte t low = push_bit 4 (node_code t) OR (low AND 0x0F)"

fun write_12bit_pointers :: "u64 list \<Rightarrow> bytes" where
  "write_12bit_pointers (x # y # values) =
     (let a = of_nat x :: u16; b = of_nat y :: u16
      in [ucast (drop_bit 4 a), ucast (push_bit 4 a OR drop_bit 8 b), ucast b] @ write_12bit_pointers values)"
| "write_12bit_pointers [x] = (let a = of_nat x :: u16 in [ucast (drop_bit 4 a), ucast (push_bit 4 a)])"
| "write_12bit_pointers [] = []"

definition write_be_unsigned :: "u64 \<Rightarrow> usize \<Rightarrow> bytes" where
  "write_be_unsigned val n = map (\<lambda>i. ucast (drop_bit (i * 8) (of_nat val :: 64 word))) (rev [0..<n])"

definition encode_dense_node :: "(u8 \<times> u64) list \<Rightarrow> u64 list \<Rightarrow> u8 \<Rightarrow> bytes \<Rightarrow> codec_error + bytes" where
  "encode_dense_node children distances pb payload_bytes =
     (if children = [] then Inl InvalidData
      else let min_transition = foldl min (fst (hd children)) (map fst (tl children));
               max_transition = foldl max (fst (hd children)) (map fst (tl children));
               span = unat max_transition - unat min_transition + 1;
               dense = fold (\<lambda>((transition, _), distance) dense. dense[unat transition - unat min_transition := distance])
                 (zip children distances) (replicate span 0);
               max_distance = foldl max 0 dense;
               (t, bytes_per_ptr) =
                 (if max_distance \<le> 0xFFF then (Dense12, 0) else if max_distance \<le> 0xFFFF then (Dense16, 2)
                  else if max_distance \<le> 0xFFFFFF then (Dense24, 3) else if max_distance \<le> 0xFFFFFFFF then (Dense32, 4)
                  else if max_distance \<le> 0xFFFFFFFFFF then (Dense40, 5) else (LongDense, 8))
           in Inr ([type_byte t pb, min_transition, of_nat (span - 1)]
                @ (if t = Dense12 then write_12bit_pointers dense
                   else concat (map (\<lambda>d. write_be_unsigned d bytes_per_ptr) dense))
                @ payload_bytes))"

definition encode_sparse_node :: "(u8 \<times> u64) list \<Rightarrow> u64 \<Rightarrow> u8 \<Rightarrow> bytes \<Rightarrow> codec_error + bytes" where
  "encode_sparse_node children current_pos pb payload_bytes =
     (let distances = map (\<lambda>(_, child_pos). current_pos - child_pos) children
      in if length children > 255 then encode_dense_node children distances pb payload_bytes
         else let max_distance = foldl max 0 distances
              in case (if max_distance \<le> 0xFF then Some (Sparse8, 1) else if max_distance \<le> 0xFFF then Some (Sparse12, 0)
                       else if max_distance \<le> 0xFFFF then Some (Sparse16, 2) else if max_distance \<le> 0xFFFFFF then Some (Sparse24, 3)
                       else if max_distance \<le> 0xFFFFFFFFFF then Some (Sparse40, 5) else None) of
                   None \<Rightarrow> Inl InvalidData
                 | Some (t, bytes_per_ptr) \<Rightarrow>
                     Inr ([type_byte t pb, of_nat (length children)] @ map fst children
                       @ (if t = Sparse12 then write_12bit_pointers distances
                          else concat (map (\<lambda>d. write_be_unsigned d bytes_per_ptr) distances))
                       @ payload_bytes))"

definition encode_single_node :: "u8 \<Rightarrow> u64 \<Rightarrow> u64 \<Rightarrow> u8 \<Rightarrow> bytes \<Rightarrow> (u8 \<times> u64) list \<Rightarrow> codec_error + bytes" where
  "encode_single_node tr current_pos child_pos pb payload_bytes children =
     (let distance = current_pos - child_pos
      in if pb = 0 \<and> distance \<le> 0x0F then Inr [type_byte SingleNopayload4 (of_nat distance), tr]
         else if distance \<le> 0xFF then Inr ([type_byte Single8 pb, tr, of_nat distance] @ payload_bytes)
         else if pb = 0 \<and> distance \<le> 0xFFF
         then Inr [type_byte SingleNopayload12 (ucast (drop_bit 8 (of_nat distance :: 64 word))), of_nat distance, tr]
         else if distance \<le> 0xFFFF
         then Inr ([type_byte Single16 pb, tr, ucast (drop_bit 8 (of_nat distance :: 64 word)), of_nat distance] @ payload_bytes)
         else encode_sparse_node children current_pos pb payload_bytes)"

definition payload_nibble :: "trie_payload option \<Rightarrow> u8 \<times> bytes" where
  "payload_nibble payload =
     (case payload of
        None \<Rightarrow> (0, [])
      | Some payload \<Rightarrow>
          let payload_bytes = encode_payload payload; len = length payload_bytes
          in (if tp_hash payload \<noteq> None then of_nat (len + 6) else of_nat len, payload_bytes))"

definition encode_node :: "trie_payload option \<Rightarrow> (u8 \<times> u64) list \<Rightarrow> u64 \<Rightarrow> codec_error + bytes" where
  "encode_node payload children current_pos =
     (let (pb, payload_bytes) = payload_nibble payload
      in case children of
           [] \<Rightarrow> Inr (type_byte PayloadOnly pb # payload_bytes)
         | [(tr, child_pos)] \<Rightarrow> encode_single_node tr current_pos child_pos pb payload_bytes children
         | _ \<Rightarrow> encode_sparse_node children current_pos pb payload_bytes)"

end
