(* ===== verification/Trie_Walker.thy ===== *)
theory Trie_Walker
  imports Trie_Node "HOL-Library.Sublist"
begin

unbundle bit_operations_syntax

text \<open>
  Exact lookup in the on-disk trie (crate \<open>ferrosa-sstable\<close>: \<open>trie/walker.rs\<close>).  The loop of \<open>lookup\<close>
  consumes one key byte per turn, so the model recurses on the rest of the key.
\<close>

section \<open>Definitions\<close>

datatype lookup_result = Found u8 bytes | NotFound

definition MAX_NODE_READ :: usize where "MAX_NODE_READ = 2560"

definition find_transition :: "node_header \<Rightarrow> u8 \<Rightarrow> u64 option" where
  "find_transition h target =
     (if nh_transitions h = [] then None
      else if is_single (nh_type h)
      then if nh_transitions h ! 0 = target then Some (nh_pointers h ! 0) else None
      else if is_sparse (nh_type h) then map_of (zip (nh_transitions h) (nh_pointers h)) target
      else if is_dense (nh_type h)
      then let start = nh_transitions h ! 0; end_byte = last (nh_transitions h)
           in if target < start \<or> target > end_byte then None
              else let ptr = nh_pointers h ! unat (target - start) in if ptr = 0 then None else Some ptr
      else None)"

definition extract_payload :: "bytes \<Rightarrow> node_header \<Rightarrow> codec_error + lookup_result" where
  "extract_payload buf h =
     (if payload_bits h = 0 then Inr NotFound
      else let psize = payload_size (payload_bits h); ppos = payload_position h
           in if ppos + psize > length buf then Inl InvalidData
              else Inr (Found (payload_bits h) (take psize (drop ppos buf))))"

fun lookup_from :: "reader \<Rightarrow> u64 \<Rightarrow> u64 \<Rightarrow> bytes \<Rightarrow> codec_error + lookup_result" where
  "lookup_from read_at data_len pos key =
     (if pos \<ge> data_len then Inl InvalidData
      else case read_exact_at read_at (min MAX_NODE_READ (data_len - pos)) pos of
             Inl e \<Rightarrow> Inl e
           | Inr buf \<Rightarrow>
               (case read_node_header buf of
                  Inl e \<Rightarrow> Inl e
                | Inr header \<Rightarrow>
                    (case key of
                       [] \<Rightarrow> extract_payload buf header
                     | target # key \<Rightarrow>
                         (case find_transition header target of
                            Some distance \<Rightarrow> if distance > pos then Inl InvalidData else lookup_from read_at data_len (pos - distance) key
                          | None \<Rightarrow> extract_payload buf header))))"

declare lookup_from.simps [simp del]

definition lookup :: "reader \<Rightarrow> codec_error + u64 \<Rightarrow> u64 \<Rightarrow> bytes \<Rightarrow> codec_error + lookup_result" where
  "lookup read_at len root_pos key = (case len of Inl e \<Rightarrow> Inl e | Inr data_len \<Rightarrow> lookup_from read_at data_len root_pos key)"

definition lookup_payload :: "reader \<Rightarrow> codec_error + u64 \<Rightarrow> u64 \<Rightarrow> bytes \<Rightarrow> codec_error + (u8 option \<times> i64) option" where
  "lookup_payload read_at len root_pos key =
     (case lookup read_at len root_pos key of
        Inl e \<Rightarrow> Inl e
      | Inr (Found pb payload_bytes) \<Rightarrow> (case decode_payload pb payload_bytes of Inl e \<Rightarrow> Inl e | Inr p \<Rightarrow> Inr (Some p))
      | Inr NotFound \<Rightarrow> Inr None)"

section \<open>Type bytes\<close>

lemma type_byte_nibbles:
  "drop_bit 4 (type_byte t low) = node_code t" "type_byte t low AND 0x0F = low AND 0x0F"
proof -
  have m: "(0x0F :: u8) = mask 4" by (simp add: mask_eq_exp_minus_1)
  have c: "take_bit 4 (node_code t) = node_code t" by (cases t) simp_all
  show "drop_bit 4 (type_byte t low) = node_code t"
    unfolding type_byte_def m by (subst (2) c [symmetric]) (rule bit_eqI, auto simp: bit_simps)
  show "type_byte t low AND 0x0F = low AND 0x0F"
    unfolding type_byte_def m by (rule bit_eqI, auto simp: bit_simps)
qed

lemma from_type_byte_type [simp]: "from_type_byte (type_byte t low) = Inr t"
  unfolding from_type_byte_def type_byte_nibbles by (cases t) simp_all

section \<open>Pointers\<close>

lemma write_be_unsigned_bytes: "write_be_unsigned d n = be_bytes n (of_nat d :: 64 word)"
  by (simp add: write_be_unsigned_def be_bytes_def mult.commute)

lemma length_write_be_unsigned [simp]: "length (write_be_unsigned d n) = n"
  by (simp add: write_be_unsigned_bytes)

lemma read_unsigned_be_written:
  assumes "n \<le> 8" "d < 2 ^ (8 * n)"
  shows "read_unsigned_be (pre @ write_be_unsigned d n @ post) (length pre) n = Inr d"
proof -
  have d64: "d < 2 ^ 64" using assms(2) power_increasing [of "8 * n" 64 "2 :: nat"] assms(1) by simp
  have "foldl (\<lambda>v b. push_bit 8 v OR ucast b) 0 (be_bytes n (of_nat d :: 64 word)) = take_bit (8 * n) (of_nat d :: 64 word)"
    using of_be_be_bytes [of 0 n "of_nat d :: 64 word"] by (simp add: of_be_bytes_def)
  moreover have "unat (take_bit (8 * n) (of_nat d :: 64 word)) = d"
    using assms(2) d64 by (simp add: unsigned_take_bit_eq unsigned_of_nat take_bit_nat_eq_self)
  ultimately show ?thesis by (simp add: read_unsigned_be_def write_be_unsigned_bytes)
qed

lemma read_each_map: "(\<And>i. i \<in> set is \<Longrightarrow> f i = Inr (g i)) \<Longrightarrow> read_each f is = Inr (map g is)"
  by (induction "is") simp_all

lemma concat_nth_split:
  assumes "i < length ds" "\<And>d. d \<in> set ds \<Longrightarrow> length (f d) = n"
  obtains pre post where "concat (map f ds) = pre @ f (ds ! i) @ post" "length pre = i * n"
proof
  show "concat (map f ds) = concat (map f (take i ds)) @ f (ds ! i) @ concat (map f (drop (Suc i) ds))"
    using id_take_nth_drop [OF assms(1)] by (metis concat.simps(2) concat_append list.simps(9) map_append)
  have "length (concat (map f xs)) = length xs * n" if "set xs \<subseteq> set ds" for xs
    using that assms(2) by (induction xs) auto
  then show "length (concat (map f (take i ds))) = i * n" using assms(1) by (simp add: set_take_subset)
qed

lemma read_pointers:
  assumes "n \<le> 8" "\<And>d. d \<in> set ds \<Longrightarrow> d < 2 ^ (8 * n)"
  shows "read_each (\<lambda>i. read_unsigned_be (pre @ concat (map (\<lambda>d. write_be_unsigned d n) ds) @ post) (length pre + i * n) n)
    [0..<length ds] = Inr ds"
proof -
  have "read_unsigned_be (pre @ concat (map (\<lambda>d. write_be_unsigned d n) ds) @ post) (length pre + i * n) n = Inr (ds ! i)"
    if i: "i < length ds" for i
  proof -
    obtain a b where ab: "concat (map (\<lambda>d. write_be_unsigned d n) ds) = a @ write_be_unsigned (ds ! i) n @ b" "length a = i * n"
      using concat_nth_split [of i ds "\<lambda>d. write_be_unsigned d n" n] i by auto
    show ?thesis
      using read_unsigned_be_written [of n "ds ! i" "pre @ a" "b @ post"] assms i ab by simp
  qed
  then have "read_each (\<lambda>i. read_unsigned_be (pre @ concat (map (\<lambda>d. write_be_unsigned d n) ds) @ post) (length pre + i * n) n)
      [0..<length ds] = Inr (map ((!) ds) [0..<length ds])"
    by (intro read_each_map) simp
  then show ?thesis by (simp add: map_nth)
qed

lemma length_12bit [simp]: "length (write_12bit_pointers ds) = (3 * length ds + 1) div 2"
  by (induction ds rule: write_12bit_pointers.induct) (simp_all add: Let_def)

lemma pack_12bits:
  fixes a b :: u16
  assumes "take_bit 12 a = a" "take_bit 12 b = b"
  shows "(push_bit 4 (ucast (ucast (drop_bit 4 a) :: u8)) OR drop_bit 4 (ucast (ucast (push_bit 4 a OR drop_bit 8 b) :: u8))) AND 0xFFF = a"
    and "(push_bit 8 (ucast (ucast (push_bit 4 a OR drop_bit 8 b) :: u8) AND 0x0F) OR ucast (ucast b :: u8)) AND 0xFFF = b"
proof -
  have m: "(0xFFF :: u16) = mask 12" "(0x0F :: u16) = mask 4" by (simp_all add: mask_eq_exp_minus_1)
  have a: "n < 12" if "bit a n" for n using assms(1) that by (metis bit_take_bit_iff)
  have b: "n < 12" if "bit b n" for n using assms(2) that by (metis bit_take_bit_iff)
  show "(push_bit 4 (ucast (ucast (drop_bit 4 a) :: u8)) OR drop_bit 4 (ucast (ucast (push_bit 4 a OR drop_bit 8 b) :: u8))) AND 0xFFF = a"
    unfolding m by (rule bit_word_eqI) (auto simp: bit_simps not_less dest: a b)
  show "(push_bit 8 (ucast (ucast (push_bit 4 a OR drop_bit 8 b) :: u8) AND 0x0F) OR ucast (ucast b :: u8)) AND 0xFFF = b"
    unfolding m by (rule bit_word_eqI) (auto simp: bit_simps not_less dest: b)
qed

lemma read_12bits_shift: "read_12bits data base (Suc (Suc j)) = read_12bits data (base + 3) j"
proof -
  have "base + (3 * Suc (Suc j)) div 2 = base + 3 + (3 * j) div 2" "Suc (Suc j) mod 2 = j mod 2" by simp_all
  then show ?thesis unfolding read_12bits_def by presburger
qed

lemma read_12bits_written:
  assumes "\<And>d. d \<in> set ds \<Longrightarrow> d < 2 ^ 12" "i < length ds"
  shows "read_12bits (pre @ write_12bit_pointers ds @ post) (length pre) i = Inr (of_nat (ds ! i))"
  using assms
proof (induction ds arbitrary: pre i rule: write_12bit_pointers.induct)
  case (1 x y ds)
  let ?a = "of_nat x :: u16" let ?b = "of_nat y :: u16"
  let ?three = "[ucast (drop_bit 4 ?a), ucast (push_bit 4 ?a OR drop_bit 8 ?b), ucast ?b] :: bytes"
  have ab: "take_bit 12 ?a = ?a" "take_bit 12 ?b = ?b"
    using 1(2) [of x] 1(2) [of y] by (simp_all add: take_bit_of_nat take_bit_nat_eq_self)
  consider "i = 0" | "i = 1" | j where "i = Suc (Suc j)" by (cases i; cases "i - 1") auto
  then show ?case
  proof cases
    case 1
    then show ?thesis using pack_12bits(1) [OF ab] by (simp add: read_12bits_def Let_def nth_append)
  next
    case 2
    then show ?thesis using pack_12bits(2) [OF ab] by (simp add: read_12bits_def Let_def nth_append)
  next
    case (3 j)
    have "read_12bits ((pre @ ?three) @ write_12bit_pointers ds @ post) (length (pre @ ?three)) j = Inr (of_nat (ds ! j))"
      using 1(1) [of ?a ?b j "pre @ ?three"] 1(2,3) 3 by simp
    then show ?thesis using 3 read_12bits_shift [of "pre @ write_12bit_pointers (x # y # ds) @ post" "length pre" j]
      by (simp add: Let_def numeral_3_eq_3)
  qed
next
  case (2 x)
  let ?a = "of_nat x :: u16"
  have ab: "take_bit 12 ?a = ?a" "take_bit 12 (0 :: u16) = 0"
    using 2(1) [of x] by (simp_all add: take_bit_of_nat take_bit_nat_eq_self)
  show ?case using 2(2) pack_12bits(1) [OF ab] by (simp add: read_12bits_def Let_def nth_append)
qed simp

lemma read_12bit_pointers:
  assumes "\<And>d. d \<in> set ds \<Longrightarrow> d < 2 ^ 12"
  shows "read_each (\<lambda>i. map_sum id unat (read_12bits (pre @ write_12bit_pointers ds @ post) (length pre) i)) [0..<length ds] = Inr ds"
proof -
  have "map_sum id unat (read_12bits (pre @ write_12bit_pointers ds @ post) (length pre) i) = Inr (ds ! i)" if "i < length ds" for i
    using read_12bits_written [OF assms that] assms [of "ds ! i"] that by (simp add: unsigned_of_nat take_bit_nat_eq_self)
  then have "read_each (\<lambda>i. map_sum id unat (read_12bits (pre @ write_12bit_pointers ds @ post) (length pre) i)) [0..<length ds]
      = Inr (map ((!) ds) [0..<length ds])"
    by (intro read_each_map) simp
  then show ?thesis by (simp add: map_nth)
qed

section \<open>Payloads\<close>

definition payload_fits :: "trie_payload \<Rightarrow> bool" where
  "payload_fits p \<longleftrightarrow> is_i64 (tp_position p) \<and> (tp_hash p = None \<longrightarrow> length (encode_payload p) < 8)"

lemma signed_bytes_be: "n \<le> 8 \<Longrightarrow> signed_bytes n val = be_bytes n (word_of_int val :: 64 word)"
proof -
  assume "n \<le> 8"
  have "ucast (signed_drop_bit (i * 8) w) = (ucast (drop_bit (8 * i) w) :: u8)" if "i < n" for i and w :: "64 word"
    using that \<open>n \<le> 8\<close> by (intro bit_word_eqI) (auto simp: bit_simps min_def mult.commute)
  then show ?thesis by (simp add: signed_bytes_def be_bytes_def)
qed

lemma leading_zeros_pos: "\<not> bit v 63 \<Longrightarrow> 1 \<le> leading_zeros v"
  by (simp add: leading_zeros_def numeral_eq_Suc)

lemma byte_sign: "(b :: u8) AND 0x80 \<noteq> 0 \<longleftrightarrow> bit b 7"
  using and_exp_eq_0_iff_not_bit [of b 7] by simp

lemma signed_len_spec:
  assumes "is_i64 val" "val \<noteq> 0"
  shows "1 \<le> signed_len val \<and> signed_len val \<le> 8
    \<and> (\<forall>j. 8 * signed_len val - 1 \<le> j \<longrightarrow> j < 64 \<longrightarrow> bit (word_of_int val :: 64 word) j = (val < 0))
    \<and> (0 < val \<longrightarrow> signed_len val = div_ceil (64 - leading_zeros (word_of_int val) + 1) 8)"
proof -
  let ?v = "word_of_int val :: 64 word"
  let ?a = "if val < 0 then NOT ?v else ?v"
  let ?lz = "leading_zeros ?a" let ?n = "div_ceil (64 - leading_zeros ?a + 1) 8"
  have sign: "bit ?v 63 \<longleftrightarrow> val < 0"
  proof -
    have "signed_take_bit 63 val = val" using assms(1) by (simp add: is_i64_def machine_consts signed_take_bit_int_eq_self)
    then have "bit val 63 \<longleftrightarrow> val < 0" using signed_take_bit_negative_iff [of 63 val] by simp
    then show ?thesis by (simp add: bit_simps)
  qed
  have "1 \<le> ?lz" using sign by (intro leading_zeros_pos) (auto simp: bit_simps)
  then have n: "1 \<le> ?n" "?n \<le> 8" "64 - ?lz + 1 \<le> 8 * ?n" by (simp_all add: div_ceil_def)
  have bits: "bit ?v j = (val < 0)" if "8 * ?n - 1 \<le> j" "j < 64" for j
  proof -
    have "64 - ?lz \<le> j" using that(1) n(1,3) by linarith
    then have "\<not> bit ?a j" by (rule leading_zeros_bit)
    then show ?thesis using that(2) by (auto simp: bit_simps split: if_splits)
  qed
  let ?top = "ucast (signed_drop_bit ((?n - 1) * 8) ?v) :: u8"
  have "bit ?top 7 = bit ?v (8 * ?n - 1)"
    using n by (auto simp: bit_simps min_def algebra_simps)
  then have "signed_len val = ?n"
    using bits [of "8 * ?n - 1"] n byte_sign [of ?top] unfolding signed_len_def Let_def by auto
  then show ?thesis using n bits by auto
qed

lemma sign_extend_bytes:
  assumes "1 \<le> n" "n \<le> 8" "\<And>j. 8 * n - 1 \<le> j \<Longrightarrow> j < 64 \<Longrightarrow> bit (word_of_int val :: 64 word) j = (val < 0)" "is_i64 val"
  shows "sign_extend (signed_bytes n val) = val"
proof -
  let ?v = "word_of_int val :: 64 word"
  obtain m where m: "n = Suc m" using assms(1) by (cases n) auto
  let ?bs = "be_bytes n ?v"
  have "bit (?bs ! 0) 7 = bit ?v (8 * n - 1)" using m assms(2) by (simp add: bit_simps add.commute)
  then have neg: "?bs ! 0 AND 0x80 \<noteq> 0 \<longleftrightarrow> val < 0" using assms(1-3) byte_sign by auto
  have "of_be_bytes (if val < 0 then - 1 else 0) ?bs = ?v"
  proof (rule bit_word_eqI)
    fix j assume j: "j < LENGTH(64)"
    show "bit (of_be_bytes (if val < 0 then - 1 else 0) ?bs :: 64 word) j = bit ?v j"
      using assms(3) [of j] j unfolding of_be_be_bytes by (cases "j < 8 * n") (auto simp: bit_simps)
  qed
  then have "foldl (\<lambda>v b. push_bit 8 v OR ucast b) (if ?bs ! 0 AND 0x80 \<noteq> 0 then - 1 else 0) ?bs = ?v"
    unfolding neg of_be_bytes_def .
  moreover have "?bs \<noteq> []" using m by simp
  ultimately show ?thesis using assms(2,4) sint_of_i64 by (simp add: sign_extend_def signed_bytes_be)
qed

definition payload_len :: "i64 \<Rightarrow> usize" where
  "payload_len val = (if val = 0 then 1 else signed_len val)"

lemma payload_len_spec:
  assumes "is_i64 val"
  shows "1 \<le> payload_len val" "payload_len val \<le> 8" "sign_extend (signed_bytes (payload_len val) val) = val"
proof -
  have "1 \<le> payload_len val \<and> payload_len val \<le> 8
      \<and> (\<forall>j. 8 * payload_len val - 1 \<le> j \<longrightarrow> j < 64 \<longrightarrow> bit (word_of_int val :: 64 word) j = (val < 0))"
    using signed_len_spec [OF assms] by (cases "val = 0") (simp_all add: payload_len_def)
  then show "1 \<le> payload_len val" "payload_len val \<le> 8" "sign_extend (signed_bytes (payload_len val) val) = val"
    using sign_extend_bytes assms by auto
qed

lemma encode_payload_len:
  "encode_payload p = (case tp_hash p of Some h \<Rightarrow> [h] | None \<Rightarrow> []) @ signed_bytes (payload_len (tp_position p)) (tp_position p)"
  by (simp add: encode_payload_def payload_len_def Let_def)

lemma length_signed_bytes [simp]: "length (signed_bytes n val) = n"
  by (simp add: signed_bytes_def)

lemma leading_zeros_ge:
  assumes "n \<le> 64" "\<And>j. n \<le> j \<Longrightarrow> j < 64 \<Longrightarrow> \<not> bit v j"
  shows "64 - n \<le> leading_zeros v"
proof -
  have "rev [0..<64] = rev [n..<64] @ rev [0..<n]" using upt_add_eq_append [of 0 n "64 - n"] assms(1) by (simp flip: rev_append)
  moreover have "takeWhile (\<lambda>i. \<not> bit v i) (rev [n..<64] @ rev [0..<n]) = rev [n..<64] @ takeWhile (\<lambda>i. \<not> bit v i) (rev [0..<n])"
    by (rule takeWhile_append2) (use assms(2) in auto)
  ultimately show ?thesis unfolding leading_zeros_def by simp
qed

text \<open>A payload without a hash byte fits when it is at most seven bytes long, for instance an offset below \<open>2^55\<close>.\<close>

lemma offset_fits:
  assumes "0 \<le> val" "val < 2 ^ 55"
  shows "payload_fits \<lparr>tp_hash = None, tp_position = val\<rparr>"
proof -
  have i: "is_i64 val" using assms by (simp add: is_i64_def machine_consts)
  have "payload_len val \<le> 7"
  proof (cases "val = 0")
    case False
    have "\<not> bit (word_of_int val :: 64 word) j" if "55 \<le> j" for j
    proof -
      have "val < 2 ^ j" using assms(2) power_increasing [OF that, of "2 :: int"] by linarith
      then have "\<not> bit val j" using assms(1) by (simp add: bit_iff_odd)
      then show ?thesis by (simp add: bit_simps)
    qed
    then have "64 - 55 \<le> leading_zeros (word_of_int val)" by (intro leading_zeros_ge) simp_all
    then show ?thesis using signed_len_spec [OF i False] assms(1) False by (simp add: payload_len_def div_ceil_def)
  qed (simp add: payload_len_def)
  then show ?thesis using i by (simp add: payload_fits_def encode_payload_len)
qed

lemma payload_nibble_spec:
  assumes "payload_fits p" "payload_nibble (Some p) = (pb, bs)"
  shows "pb \<noteq> 0" "pb AND 0x0F = pb" "payload_size pb = length bs" "length bs \<le> 9" "bs = encode_payload p"
    "decode_payload pb bs = Inr (tp_hash p, tp_position p)"
proof -
  note len = payload_len_spec [of "tp_position p"]
  have i: "is_i64 (tp_position p)" using assms(1) by (simp add: payload_fits_def)
  let ?n = "payload_len (tp_position p)"
  have m: "(0x0F :: u8) = mask 4" by (simp add: mask_eq_exp_minus_1)
  have bs: "bs = encode_payload p" using assms(2) by (simp add: payload_nibble_def Let_def)
  then show "bs = encode_payload p" .
  have "\<exists>k. pb = of_nat k \<and> 1 \<le> k \<and> k \<le> 15 \<and> (if tp_hash p = None then k = ?n \<and> k < 8 else k = ?n + 7)"
  proof (cases "tp_hash p")
    case None
    then show ?thesis using assms len [OF i] by (auto simp: payload_fits_def payload_nibble_def Let_def encode_payload_len)
  next
    case (Some h)
    then show ?thesis using assms(2) len [OF i]
      by (intro exI [of _ "?n + 7"]) (auto simp: payload_nibble_def Let_def encode_payload_len algebra_simps)
  qed
  then obtain k where k: "pb = of_nat k" "1 \<le> k" "k \<le> 15" "if tp_hash p = None then k = ?n \<and> k < 8 else k = ?n + 7" by blast
  have u: "unat pb = k" using k by (simp add: unsigned_of_nat take_bit_nat_eq_self)
  show "pb \<noteq> 0" using u k(2) by (metis not_one_le_zero unat_0)
  show "pb AND 0x0F = pb"
    unfolding m take_bit_eq_mask [symmetric] using k(3) by (simp add: k(1) take_bit_of_nat take_bit_nat_eq_self)
  show "length bs \<le> 9" using bs len [OF i] by (simp add: encode_payload_len split: option.splits)
  have lt: "pb < 8 \<longleftrightarrow> tp_hash p = None" using u k(4) len(1) [OF i] by (simp add: word_less_nat_alt split: if_splits)
  have sub: "tp_hash p \<noteq> None \<Longrightarrow> unat (pb - 7) = ?n"
    using u k(3,4) lt by (simp add: unat_sub word_le_nat_alt)
  show "payload_size pb = length bs"
    using \<open>pb \<noteq> 0\<close> lt u sub k(4) bs by (auto simp: payload_size_def encode_payload_len split: option.splits)
  show "decode_payload pb bs = Inr (tp_hash p, tp_position p)"
    using \<open>pb \<noteq> 0\<close> lt u sub k(4) bs len(3) [OF i]
    by (cases "tp_hash p") (auto simp: decode_payload_def encode_payload_len Let_def)
qed

section \<open>Encoded nodes decode\<close>

definition stored :: "trie_payload option \<Rightarrow> lookup_result" where
  "stored payload = (case payload of None \<Rightarrow> NotFound | Some p \<Rightarrow> Found (fst (payload_nibble (Some p))) (encode_payload p))"

definition decodes_as :: "bytes \<Rightarrow> (u8 \<Rightarrow> u64 option) \<Rightarrow> trie_payload option \<Rightarrow> bool" where
  "decodes_as bs step payload \<longleftrightarrow> bs \<noteq> [] \<and> length bs \<le> MAX_NODE_READ
     \<and> (\<forall>rest. \<exists>h. read_node_header (bs @ rest) = Inr h \<and> (\<forall>c. find_transition h c = step c)
          \<and> extract_payload (bs @ rest) h = Inr (stored payload)
          \<and> payload_position h + payload_size (payload_bits h) = length bs)"

lemma nibble_cases:
  assumes "\<And>p. payload = Some p \<Longrightarrow> payload_fits p" "payload_nibble payload = (pb, pbs)"
  shows "pb AND 0x0F = pb" "length pbs \<le> 9" "pb = 0 \<longleftrightarrow> payload = None" "pb = 0 \<Longrightarrow> pbs = []"
    and "payload_bits h = pb \<Longrightarrow> payload_position h = length pre \<Longrightarrow> extract_payload (pre @ pbs @ rest) h = Inr (stored payload)"
proof -
  have "pb AND 0x0F = pb \<and> length pbs \<le> 9 \<and> (pb = 0 \<longleftrightarrow> payload = None) \<and> (pb = 0 \<longrightarrow> pbs = [])
    \<and> (payload_bits h = pb \<longrightarrow> payload_position h = length pre \<longrightarrow> extract_payload (pre @ pbs @ rest) h = Inr (stored payload))"
  proof (cases payload)
    case None
    then show ?thesis using assms(2) by (simp add: payload_nibble_def extract_payload_def stored_def)
  next
    case (Some p)
    note sp = payload_nibble_spec [OF assms(1) [OF Some], of pb pbs]
    then show ?thesis using assms(2) Some by (simp add: extract_payload_def stored_def)
  qed
  then show "pb AND 0x0F = pb" "length pbs \<le> 9" "pb = 0 \<longleftrightarrow> payload = None" "pb = 0 \<Longrightarrow> pbs = []"
    "payload_bits h = pb \<Longrightarrow> payload_position h = length pre \<Longrightarrow> extract_payload (pre @ pbs @ rest) h = Inr (stored payload)"
    by simp_all
qed

lemma read_sparse_written:
  assumes "length cs \<le> 255" "length ds = length cs" "n \<le> 8" "\<And>d. d \<in> set ds \<Longrightarrow> d < 2 ^ (8 * n)"
  shows "read_sparse_header (tb # of_nat (length cs) # cs @ concat (map (\<lambda>d. write_be_unsigned d n) ds) @ tail) t pb n
    = Inr \<lparr>nh_type = t, payload_bits = pb, nh_transitions = cs, nh_pointers = ds, payload_position = 2 + length cs + length cs * n\<rparr>"
proof -
  let ?pre = "tb # of_nat (length cs) # cs"
  have cc: "unat (of_nat (length cs) :: u8) = length cs" using assms(1) by (simp add: unsigned_of_nat take_bit_nat_eq_self)
  have len: "length (concat (map (\<lambda>d. write_be_unsigned d n) ds)) = length cs * n"
    using assms(2) by (simp add: length_concat comp_def sum_list_triv)
  show ?thesis
    using read_pointers [where ds = ds, OF assms(3,4), where pre = ?pre and post = tail] cc len assms(2)
    by (simp add: read_sparse_header_def Let_def)
qed

lemma div_ceil_2 [simp]: "div_ceil (n * 5) 2 = n + (3 * n + 1) div 2" "div_ceil (n * 3) 2 = (3 * n + 1) div 2"
  by (simp_all add: div_ceil_def)

lemma read_sparse12_written:
  assumes "length cs \<le> 255" "length ds = length cs" "\<And>d. d \<in> set ds \<Longrightarrow> d < 2 ^ 12"
  shows "read_sparse12_header (tb # of_nat (length cs) # cs @ write_12bit_pointers ds @ tail) t pb
    = Inr \<lparr>nh_type = t, payload_bits = pb, nh_transitions = cs, nh_pointers = ds,
        payload_position = 2 + length cs + (3 * length cs + 1) div 2\<rparr>"
proof -
  let ?pre = "tb # of_nat (length cs) # cs"
  have cc: "unat (of_nat (length cs) :: u8) = length cs" using assms(1) by (simp add: unsigned_of_nat take_bit_nat_eq_self)
  show ?thesis
    using read_12bit_pointers [where ds = ds, OF assms(3), where pre = ?pre and post = tail] cc assms(2)
    by (simp add: read_sparse12_header_def Let_def)
qed

lemma read_dense_written:
  assumes "length ds = 256" "n \<le> 8" "\<And>d. d \<in> set ds \<Longrightarrow> d < 2 ^ (8 * n)"
  shows "read_dense_header (tb # s # 255 # concat (map (\<lambda>d. write_be_unsigned d n) ds) @ tail) t pb n
    = Inr \<lparr>nh_type = t, payload_bits = pb, nh_transitions = map (\<lambda>i. s + of_nat i) [0..<256], nh_pointers = ds,
        payload_position = 3 + 256 * n\<rparr>"
proof -
  have len: "length (concat (map (\<lambda>d. write_be_unsigned d n) ds)) = 256 * n"
    using assms(1) by (simp add: length_concat comp_def sum_list_triv)
  show ?thesis
    using read_pointers [where ds = ds, OF assms(2,3), where pre = "[tb, s, 255]" and post = tail] len assms(1)
    by (simp add: read_dense_header_def Let_def numeral_3_eq_3 del: upt_conv_Cons upt_rec_numeral)
qed

lemma read_dense12_written:
  assumes "length ds = 256" "\<And>d. d \<in> set ds \<Longrightarrow> d < 2 ^ 12"
  shows "read_dense12_header (tb # s # 255 # write_12bit_pointers ds @ tail) t pb
    = Inr \<lparr>nh_type = t, payload_bits = pb, nh_transitions = map (\<lambda>i. s + of_nat i) [0..<256], nh_pointers = ds,
        payload_position = 3 + (3 * 256 + 1) div 2\<rparr>"
  using read_12bit_pointers [where ds = ds, OF assms(2), where pre = "[tb, s, 255]" and post = tail] assms(1)
  by (simp add: read_dense12_header_def Let_def numeral_3_eq_3 div_ceil_def del: upt_conv_Cons upt_rec_numeral)

definition distances :: "(u8 \<times> u64) list \<Rightarrow> u64 \<Rightarrow> u64 list" where
  "distances children pos = map (\<lambda>(_, child_pos). pos - child_pos) children"

definition child_steps :: "(u8 \<times> u64) list \<Rightarrow> u64 \<Rightarrow> u8 \<Rightarrow> u64 option" where
  "child_steps children pos c = map_option (\<lambda>p. pos - p) (map_of children c)"

lemma length_distances [simp]: "length (distances children pos) = length children"
  by (simp add: distances_def)

lemma map_of_zip_distances: "map_of (zip (map fst children) (distances children pos)) c = child_steps children pos c"
  by (induction children) (auto simp: distances_def child_steps_def)

lemma foldl_max_bound: "d \<in> set ds \<Longrightarrow> d \<le> foldl max a ds" "a \<le> foldl max a (ds :: 'a::linorder list)"
proof -
  have "a \<le> foldl max a ds \<and> (d \<in> set ds \<longrightarrow> d \<le> foldl max a ds)" for a
  proof (induction ds arbitrary: a)
    case (Cons x ds)
    from Cons [of "max a x"] show ?case by (auto simp: max_def split: if_splits)
  qed simp
  then show "d \<in> set ds \<Longrightarrow> d \<le> foldl max a ds" "a \<le> foldl max a ds" by blast+
qed

lemma read_node_header_type:
  "read_node_header (type_byte t low # data) =
     (case t of
        PayloadOnly \<Rightarrow> Inr \<lparr>nh_type = t, payload_bits = low AND 0x0F, nh_transitions = [], nh_pointers = [], payload_position = 1\<rparr>
      | SingleNopayload4 \<Rightarrow> if length data < 1 then Inl InvalidData
          else Inr (single_header t 0 (data ! 0) (unat (low AND 0x0F)) 2)
      | Single8 \<Rightarrow> if length data < 2 then Inl InvalidData else Inr (single_header t (low AND 0x0F) (data ! 0) (unat (data ! 1)) 3)
      | SingleNopayload12 \<Rightarrow> if length data < 2 then Inl InvalidData
          else Inr (single_header t 0 (data ! 1) (unat (push_bit 8 (ucast (low AND 0x0F)) OR ucast (data ! 0) :: 64 word)) 3)
      | Single16 \<Rightarrow> if length data < 3 then Inl InvalidData
          else (case read_unsigned_be (type_byte t low # data) 2 2 of Inl e \<Rightarrow> Inl e
                | Inr ptr \<Rightarrow> Inr (single_header t (low AND 0x0F) (data ! 0) ptr 4))
      | Sparse8 \<Rightarrow> read_sparse_header (type_byte t low # data) t (low AND 0x0F) 1
      | Sparse12 \<Rightarrow> read_sparse12_header (type_byte t low # data) t (low AND 0x0F)
      | Sparse16 \<Rightarrow> read_sparse_header (type_byte t low # data) t (low AND 0x0F) 2
      | Sparse24 \<Rightarrow> read_sparse_header (type_byte t low # data) t (low AND 0x0F) 3
      | Sparse40 \<Rightarrow> read_sparse_header (type_byte t low # data) t (low AND 0x0F) 5
      | Dense12 \<Rightarrow> read_dense12_header (type_byte t low # data) t (low AND 0x0F)
      | Dense16 \<Rightarrow> read_dense_header (type_byte t low # data) t (low AND 0x0F) 2
      | Dense24 \<Rightarrow> read_dense_header (type_byte t low # data) t (low AND 0x0F) 3
      | Dense32 \<Rightarrow> read_dense_header (type_byte t low # data) t (low AND 0x0F) 4
      | Dense40 \<Rightarrow> read_dense_header (type_byte t low # data) t (low AND 0x0F) 5
      | LongDense \<Rightarrow> read_dense_header (type_byte t low # data) t (low AND 0x0F) 8)"
  by (cases t) (simp_all add: read_node_header_def Let_def type_byte_nibbles(2) numeral_2_eq_2 numeral_3_eq_3 numeral_eq_Suc split: sum.split)

lemma nibble_size:
  assumes "\<And>p. payload = Some p \<Longrightarrow> payload_fits p" "payload_nibble payload = (pb, pbs)"
  shows "payload_size pb = length pbs"
  using assms payload_nibble_spec(3) by (cases payload) (auto simp: payload_nibble_def payload_size_def)

lemma decodes_asI:
  assumes "\<And>rest. read_node_header (node @ pbs @ rest) = Inr (h rest)" "\<And>rest c. find_transition (h rest) c = step c"
    and "\<And>rest. payload_bits (h rest) = pb" "\<And>rest. payload_position (h rest) = length node" "node \<noteq> []" "length node \<le> 2060"
    and "\<And>p. payload = Some p \<Longrightarrow> payload_fits p" "payload_nibble payload = (pb, pbs)"
  shows "decodes_as (node @ pbs) step payload"
  unfolding decodes_as_def
proof (intro conjI allI)
  show "length (node @ pbs) \<le> MAX_NODE_READ"
    using assms(6) nibble_cases(2) [OF assms(7,8)] by (simp add: MAX_NODE_READ_def)
  fix rest
  have "extract_payload (node @ pbs @ rest) (h rest) = Inr (stored payload)"
    using nibble_cases(5) [OF assms(7,8)] assms(3,4) by blast
  then show "\<exists>h. read_node_header ((node @ pbs) @ rest) = Inr h \<and> (\<forall>c. find_transition h c = step c)
      \<and> extract_payload ((node @ pbs) @ rest) h = Inr (stored payload)
      \<and> payload_position h + payload_size (payload_bits h) = length (node @ pbs)"
    using assms(1-4) nibble_size [OF assms(7,8)] by auto
qed (use assms(5) in simp)

lemma sparse_decodes:
  assumes enc: "encode_sparse_node children pos pb pbs = Inr bs" and small: "length children \<le> 255" and ne: "children \<noteq> []"
    and pay: "\<And>p. payload = Some p \<Longrightarrow> payload_fits p" "payload_nibble payload = (pb, pbs)"
  shows "decodes_as bs (child_steps children pos) payload"
proof -
  let ?ds = "distances children pos" let ?m = "foldl max 0 (distances children pos)"
  note pb = nibble_cases(1) [OF pay]
  have le: "d \<in> set ?ds \<Longrightarrow> d \<le> ?m" for d by (rule foldl_max_bound(1))
  have fixed: "decodes_as ([type_byte t pb, of_nat (length children)] @ map fst children
      @ concat (map (\<lambda>d. write_be_unsigned d n) ?ds) @ pbs) (child_steps children pos) payload"
    if "is_sparse t" "n \<le> 8" "?m < 2 ^ (8 * n)" "n \<le> 5"
      "\<And>data. read_node_header (type_byte t pb # data) = read_sparse_header (type_byte t pb # data) t pb n" for t n
  proof -
    let ?node = "type_byte t pb # of_nat (length children) # map fst children @ concat (map (\<lambda>d. write_be_unsigned d n) ?ds)"
    let ?h = "\<lparr>nh_type = t, payload_bits = pb, nh_transitions = map fst children, nh_pointers = ?ds,
      payload_position = 2 + length children + length children * n\<rparr>"
    have lt: "d < 2 ^ (8 * n)" if "d \<in> set ?ds" for d using le [OF that] \<open>?m < 2 ^ (8 * n)\<close> by (rule le_less_trans)
    have "decodes_as (?node @ pbs) (child_steps children pos) payload"
    proof (rule decodes_asI [where h = "\<lambda>_. ?h", OF _ _ _ _ _ _ pay])
      show "read_node_header (?node @ pbs @ rest) = Inr ?h" for rest
        using read_sparse_written [where ds = ?ds and cs = "map fst children" and tb = "type_byte t pb" and tail = "pbs @ rest"
            and t = t and pb = pb, OF _ _ that(2) lt] small
        by (simp add: that(5))
      show "find_transition ?h c = child_steps children pos c" for c
        using that(1) ne by (auto simp: find_transition_def is_single_def is_sparse_def map_of_zip_distances)
      have "length (concat (map (\<lambda>d. write_be_unsigned d n) ?ds)) = length children * n"
        by (simp add: length_concat comp_def sum_list_triv)
      then show "payload_position ?h = length ?node" "length ?node \<le> 2060"
        using small that(4) mult_le_mono [OF small that(4)] by simp_all
    qed simp_all
    then show ?thesis by simp
  qed
  have packed: "decodes_as ([type_byte Sparse12 pb, of_nat (length children)] @ map fst children
      @ write_12bit_pointers ?ds @ pbs) (child_steps children pos) payload" if "?m < 2 ^ 12"
  proof -
    let ?node = "type_byte Sparse12 pb # of_nat (length children) # map fst children @ write_12bit_pointers ?ds"
    let ?h = "\<lparr>nh_type = Sparse12, payload_bits = pb, nh_transitions = map fst children, nh_pointers = ?ds,
      payload_position = 2 + length children + (3 * length children + 1) div 2\<rparr>"
    have lt: "d < 2 ^ 12" if "d \<in> set ?ds" for d using le [OF that] \<open>?m < 2 ^ 12\<close> by (rule le_less_trans)
    have "decodes_as (?node @ pbs) (child_steps children pos) payload"
    proof (rule decodes_asI [where h = "\<lambda>_. ?h", OF _ _ _ _ _ _ pay])
      show "read_node_header (?node @ pbs @ rest) = Inr ?h" for rest
        using read_sparse12_written [where ds = ?ds and cs = "map fst children" and tb = "type_byte Sparse12 pb" and tail = "pbs @ rest"
            and t = Sparse12 and pb = pb, OF _ _ lt] small pb
        by (simp add: read_node_header_type)
      show "find_transition ?h c = child_steps children pos c" for c
        using ne by (auto simp: find_transition_def is_single_def is_sparse_def map_of_zip_distances)
    qed (use small in simp_all)
    then show ?thesis by simp
  qed
  show ?thesis
    using enc small pb fixed [of Sparse8 1] packed fixed [of Sparse16 2] fixed [of Sparse24 3] fixed [of Sparse40 5]
    by (auto simp: encode_sparse_node_def Let_def distances_def [symmetric] is_sparse_def read_node_header_type split: if_splits)
qed

lemma u8_lt: "unat (c :: u8) < 256"
  using unsigned_less [of c] by simp

lemma u8_le: "(c :: u8) \<le> 255"
  using u8_lt [of c] by (simp add: word_le_nat_alt)

lemma all_bytes:
  assumes "distinct (cs :: u8 list)" "length cs > 255"
  shows "set cs = UNIV" "length cs = 256"
proof -
  have c: "card (UNIV :: u8 set) = 256" by (simp add: card_word)
  have len: "card (set cs) = length cs" by (rule distinct_card [OF assms(1)])
  then show 256: "length cs = 256" using card_mono [of "UNIV :: u8 set" "set cs"] c assms(2) by simp
  show "set cs = UNIV" by (rule card_subset_eq) (use 256 len c in simp_all)
qed

lemma foldl_min_bound: "d \<in> set ds \<Longrightarrow> foldl min a ds \<le> d" "foldl min a (ds :: 'a::linorder list) \<le> a"
proof -
  have "foldl min a ds \<le> a \<and> (d \<in> set ds \<longrightarrow> foldl min a ds \<le> d)" for a
  proof (induction ds arbitrary: a)
    case (Cons x ds)
    from Cons [of "min a x"] show ?case by (auto simp: min_def split: if_splits)
  qed simp
  then show "d \<in> set ds \<Longrightarrow> foldl min a ds \<le> d" "foldl min a ds \<le> a" by blast+
qed

definition dense_fill :: "(u8 \<times> u64) list \<Rightarrow> u64 list \<Rightarrow> u64 list \<Rightarrow> u64 list" where
  "dense_fill children ds l = fold (\<lambda>((transition, _), distance) dense. dense[unat transition := distance]) (zip children ds) l"

lemma dense_fill_nth:
  assumes "length ds = length children" "distinct (map fst children)" "length l = 256"
  shows "length (dense_fill children ds l) = 256 \<and> dense_fill children ds l ! unat c
    = (case map_of (zip (map fst children) ds) c of Some d \<Rightarrow> d | None \<Rightarrow> l ! unat c)"
  using assms
proof (induction ds children arbitrary: l rule: list_induct2)
  case (Cons d ds ch children)
  obtain t p where ch: "ch = (t, p)" by fastforce
  have "map_of (zip (map fst children) ds) t = None"
    using Cons.prems(1) Cons.hyps ch by (simp add: map_of_zip_is_None)
  then show ?case
    using Cons.IH [of "l[unat t := d]"] Cons.prems u8_lt ch
    by (cases "c = t") (auto simp: dense_fill_def nth_list_update dest: word_unat_eq_iff [THEN iffD2] split: option.splits)
qed (simp add: dense_fill_def)

definition dense_slots :: "(u8 \<times> u64) list \<Rightarrow> u64 \<Rightarrow> u64 list" where
  "dense_slots children pos = dense_fill children (distances children pos) (replicate 256 0)"

lemma dense_slots_nth:
  assumes "distinct (map fst children)"
  shows "length (dense_slots children pos) = 256"
    and "dense_slots children pos ! unat c = (case child_steps children pos c of Some d \<Rightarrow> d | None \<Rightarrow> 0)"
  using dense_fill_nth [of "distances children pos" children "replicate 256 0" c] assms u8_lt [of c]
  by (simp_all add: dense_slots_def map_of_zip_distances  split: option.splits)

definition every_byte :: bytes where
  "every_byte = map (\<lambda>i. 0 + of_nat i) [0..<256]"

lemma every_byte_ends: "every_byte \<noteq> []" "every_byte ! 0 = 0" "last every_byte = 255"
  by (simp_all add: every_byte_def last_conv_nth del: upt_conv_Cons upt_rec_numeral)

lemma find_dense:
  assumes "is_dense t" and nth: "\<And>c. ds ! unat c = (case step c of Some d \<Rightarrow> d | None \<Rightarrow> 0)"
    and steps: "\<And>c. \<exists>d. step c = Some d \<and> 0 < d"
  shows "find_transition \<lparr>nh_type = t, payload_bits = pb, nh_transitions = every_byte, nh_pointers = ds, payload_position = k\<rparr> c = step c"
proof -
  have le: "\<not> c > 255" using u8_le [of c] by (simp add: not_less)
  obtain d where "step c = Some d" "0 < d" using steps by blast
  then show ?thesis
    using nth [of c] le assms(1)
    by (cases t) (simp_all add: find_transition_def every_byte_ends is_single_def is_sparse_def is_dense_def)
qed

lemma dense_span:
  fixes children :: "(u8 \<times> u64) list"
  assumes "length children > 255" "distinct (map fst children)"
  shows "foldl min (fst (hd children)) (map fst (tl children)) = 0" "foldl max (fst (hd children)) (map fst (tl children)) = 255"
    "children \<noteq> []" "\<exists>p. map_of children c = Some p"
proof -
  have all: "set (map fst children) = UNIV" using all_bytes(1) [OF assms(2)] assms(1) by simp
  show ne: "children \<noteq> []" using assms(1) by auto
  let ?min = "foldl min (fst (hd children)) (map fst (tl children))" let ?max = "foldl max (fst (hd children)) (map fst (tl children))"
  have hd_tl: "x = fst (hd children) \<or> x \<in> set (map fst (tl children))" for x
  proof -
    have "x \<in> set (map fst children)" using all by simp
    then show ?thesis using ne by (cases children) auto
  qed
  have "?min \<le> 0" using hd_tl [of 0] foldl_min_bound(2) [of "0" "map fst (tl children)"] foldl_min_bound(1) [of 0 "map fst (tl children)"]
    by (elim disjE) simp_all
  then show "?min = 0" by simp
  have "255 \<le> ?max" using hd_tl [of 255] foldl_max_bound(2) [of "255" "map fst (tl children)"] foldl_max_bound(1) [of 255 "map fst (tl children)"]
    by (elim disjE) simp_all
  then show "?max = 255" using u8_le by (rule antisym [rotated])
  have "c \<in> fst ` set children" using all by auto
  then show "\<exists>p. map_of children c = Some p" by (metis map_of_eq_None_iff not_Some_eq)
qed

lemma dense_decodes:
  assumes enc: "encode_dense_node children (distances children pos) pb pbs = Inr bs" and big: "length children > 255"
    and dist: "distinct (map fst children)" and below: "\<And>c p. (c, p) \<in> set children \<Longrightarrow> p < pos" and pos: "pos < 2 ^ 64"
    and pay: "\<And>p. payload = Some p \<Longrightarrow> payload_fits p" "payload_nibble payload = (pb, pbs)"
  shows "decodes_as bs (child_steps children pos) payload"
proof -
  note pb = nibble_cases(1) [OF pay]
  note span = dense_span [OF big dist] and nth = dense_slots_nth [OF dist, where pos = pos]
  let ?ds = "dense_slots children pos" let ?m = "foldl max 0 ?ds"
  have steps: "\<exists>d. child_steps children pos c = Some d \<and> 0 < d \<and> d \<le> pos" for c
  proof -
    obtain p where p: "map_of children c = Some p" using span(4) by blast
    then have "p < pos" using below map_of_SomeD by metis
    then show ?thesis using p by (simp add: child_steps_def)
  qed
  then have pos_steps: "\<exists>d. child_steps children pos c = Some d \<and> 0 < d" for c by blast
  note find = find_dense [OF _ nth(2) pos_steps]
  have le: "d \<in> set ?ds \<Longrightarrow> d \<le> ?m" for d by (rule foldl_max_bound(1))
  have le64: "d < 2 ^ (8 * 8)" if d: "d \<in> set ?ds" for d
  proof -
    obtain i where i: "i < length ?ds" "d = ?ds ! i" using d unfolding in_set_conv_nth by blast
    have "unat (of_nat i :: u8) = i" using i(1) nth(1) by (simp add: unat_of_nat)
    then have "d = ?ds ! unat (of_nat i :: u8)" using i(2) by simp
    then show ?thesis using nth(2) [of "of_nat i"] steps [of "of_nat i"] pos by auto
  qed
  have fixed: "decodes_as ([type_byte t pb, 0, 255] @ concat (map (\<lambda>d. write_be_unsigned d n) ?ds) @ pbs) (child_steps children pos) payload"
    if t: "is_dense t" "n \<le> 8" "\<forall>d\<in>set ?ds. d < 2 ^ (8 * n)"
      "\<And>data. read_node_header (type_byte t pb # data) = read_dense_header (type_byte t pb # data) t pb n" for t n
  proof -
    let ?node = "type_byte t pb # 0 # 255 # concat (map (\<lambda>d. write_be_unsigned d n) ?ds)"
    let ?h = "\<lparr>nh_type = t, payload_bits = pb, nh_transitions = every_byte, nh_pointers = ?ds, payload_position = 3 + 256 * n\<rparr>"
    have "decodes_as (?node @ pbs) (child_steps children pos) payload"
    proof (rule decodes_asI [where h = "\<lambda>_. ?h", OF _ _ _ _ _ _ pay])
      show "find_transition ?h c = child_steps children pos c" for c by (rule find [OF t(1)])
      show "read_node_header (?node @ pbs @ rest) = Inr ?h" for rest
        using read_dense_written [where ds = ?ds and tb = "type_byte t pb" and tail = "pbs @ rest" and t = t and pb = pb and s = 0,
            OF nth(1) t(2) bspec [OF t(3)]]
        by (simp add: t(4) every_byte_def)
      have "length (concat (map (\<lambda>d. write_be_unsigned d n) ?ds)) = 256 * n"
        using nth(1) by (simp add: length_concat comp_def sum_list_triv)
      then show "payload_position ?h = length ?node" "length ?node \<le> 2060" using t(2) by simp_all
    qed simp_all
    then show ?thesis by simp
  qed
  have packed: "decodes_as ([type_byte Dense12 pb, 0, 255] @ write_12bit_pointers ?ds @ pbs) (child_steps children pos) payload"
    if t: "\<forall>d\<in>set ?ds. d < 2 ^ 12"
  proof -
    let ?node = "type_byte Dense12 pb # 0 # 255 # write_12bit_pointers ?ds"
    let ?h = "\<lparr>nh_type = Dense12, payload_bits = pb, nh_transitions = every_byte, nh_pointers = ?ds,
      payload_position = 3 + (3 * 256 + 1) div 2\<rparr>"
    have "decodes_as (?node @ pbs) (child_steps children pos) payload"
    proof (rule decodes_asI [where h = "\<lambda>_. ?h", OF _ _ _ _ _ _ pay])
      show "find_transition ?h c = child_steps children pos c" for c by (rule find) (simp add: is_dense_def)
      show "read_node_header (?node @ pbs @ rest) = Inr ?h" for rest
        using read_dense12_written [where ds = ?ds and tb = "type_byte Dense12 pb" and tail = "pbs @ rest" and t = Dense12 and pb = pb
            and s = 0, OF nth(1) bspec [OF t]] pb
        by (simp add: read_node_header_type every_byte_def)
    qed (simp_all add: nth(1))
    then show ?thesis by simp
  qed
  have bound: "\<forall>d\<in>set ?ds. d < l" if "?m \<le> k" "k < l" for k l
    using le that by (meson le_less_trans)
  have slots: "fold (\<lambda>((transition, _), distance) dense. dense[unat transition - unat (0 :: u8) := distance])
      (zip children (distances children pos)) (replicate (unat (255 :: u8) - unat (0 :: u8) + 1) 0) = ?ds"
    by (simp add: dense_slots_def dense_fill_def)
  have shape: "(Inr bs :: codec_error + bytes) = (let (t, n) =
                 (if ?m \<le> 0xFFF then (Dense12, 0) else if ?m \<le> 0xFFFF then (Dense16, 2)
                  else if ?m \<le> 0xFFFFFF then (Dense24, 3) else if ?m \<le> 0xFFFFFFFF then (Dense32, 4)
                  else if ?m \<le> 0xFFFFFFFFFF then (Dense40, 5) else (LongDense, 8))
      in Inr ([type_byte t pb, 0, of_nat (unat (255 :: u8) - unat (0 :: u8) + 1 - 1)] @ (if t = Dense12 then write_12bit_pointers ?ds
                   else concat (map (\<lambda>d. write_be_unsigned d n) ?ds)) @ pbs))"
    using enc unfolding encode_dense_node_def Let_def span(1,2) slots if_not_P [OF span(3)] by (rule sym)
  show ?thesis
    using shape pb packed bound [of "0xFFF" "2 ^ 12"] fixed [of Dense16 2] bound [of "0xFFFF" "2 ^ (8 * 2)"]
      fixed [of Dense24 3] bound [of "0xFFFFFF" "2 ^ (8 * 3)"] fixed [of Dense32 4] bound [of "0xFFFFFFFF" "2 ^ (8 * 4)"]
      fixed [of Dense40 5] bound [of "0xFFFFFFFFFF" "2 ^ (8 * 5)"] fixed [of LongDense 8] le64
    by (simp add: is_dense_def read_node_header_type split: if_splits)
qed

lemma low_nibble: "d \<le> 0x0F \<Longrightarrow> unat (of_nat d AND 0x0F :: u8) = d"
proof -
  assume d: "d \<le> 0x0F"
  have m: "(0x0F :: u8) = mask 4" by (simp add: mask_eq_exp_minus_1)
  show ?thesis
    using d by (simp add: m take_bit_eq_mask [symmetric] unsigned_take_bit_eq unsigned_of_nat take_bit_take_bit take_bit_nat_eq_self)
qed

lemma packed_12:
  assumes "d \<le> 0xFFF"
  shows "unat (push_bit 8 (ucast ((ucast (drop_bit 8 (of_nat d :: 64 word)) :: u8) AND 0x0F)) OR ucast (of_nat d :: u8) :: 64 word) = d"
proof -
  have m: "(0x0F :: u8) = mask 4" by (simp add: mask_eq_exp_minus_1)
  have lt: "d < 2 ^ 12" using assms by simp
  have hi: "\<not> bit d n" if "12 \<le> n" for n
  proof -
    have "d < 2 ^ n" using lt power_increasing [OF that, of "2 :: nat"] by linarith
    then show ?thesis by (metis bit_take_bit_iff less_irrefl take_bit_nat_eq_self)
  qed
  have "push_bit 8 (ucast ((ucast (drop_bit 8 (of_nat d :: 64 word)) :: u8) AND 0x0F)) OR ucast (of_nat d :: u8) = (of_nat d :: 64 word)"
  proof (rule bit_word_eqI)
    fix n assume "n < LENGTH(64)"
    show "bit (push_bit 8 (ucast ((ucast (drop_bit 8 (of_nat d :: 64 word)) :: u8) AND 0x0F)) OR ucast (of_nat d :: u8) :: 64 word) n
      = bit (of_nat d :: 64 word) n"
      using hi [of n] \<open>n < LENGTH(64)\<close> unfolding m by (cases "12 \<le> n") (auto simp: bit_simps)
  qed
  moreover have "unat (of_nat d :: 64 word) = d" using lt by (simp add: unsigned_of_nat take_bit_nat_eq_self)
  ultimately show ?thesis by simp
qed

lemma find_single:
  assumes "is_single t" "cp < pos"
  shows "find_transition (single_header t pb tr (pos - cp) k) c = child_steps [(tr, cp)] pos c"
  using assms by (auto simp: find_transition_def single_header_def child_steps_def)

lemma single_decodes:
  assumes enc: "encode_single_node tr pos cp pb pbs [(tr, cp)] = Inr bs" and below: "cp < pos"
    and pay: "\<And>p. payload = Some p \<Longrightarrow> payload_fits p" "payload_nibble payload = (pb, pbs)"
  shows "decodes_as bs (child_steps [(tr, cp)] pos) payload"
proof -
  define d where d: "d = pos - cp"
  note pb = nibble_cases(1,4) [OF pay]
  note enc = enc [unfolded encode_single_node_def Let_def, folded d]
  have intro: "decodes_as (node @ pbs) (child_steps [(tr, cp)] pos) payload"
    if "is_single t" "length node = k" "0 < k" "k \<le> 2060" "\<And>rest. read_node_header (node @ pbs @ rest) = Inr (single_header t pb tr d k)" for node t k
    by (rule decodes_asI [where h = "\<lambda>_. single_header t pb tr d k", OF that(5) find_single [OF that(1) below, folded d] _ _ _ _ pay])
      (use that(2-4) in \<open>auto simp: single_header_def\<close>)
  consider (nopayload4) "pb = 0" "d \<le> 0x0F" | (one) "d \<le> 0xFF" "bs = [type_byte Single8 pb, tr, of_nat d] @ pbs"
    | (nopayload12) "pb = 0" "\<not> d \<le> 0x0F" "\<not> d \<le> 0xFF" "d \<le> 0xFFF"
    | (two) "d \<le> 0xFFFF" "bs = [type_byte Single16 pb, tr, ucast (drop_bit 8 (of_nat d :: 64 word)), of_nat d] @ pbs"
    | (sparse) "encode_sparse_node [(tr, cp)] pos pb pbs = Inr bs"
    using enc by (auto simp: split: if_splits)
  then show ?thesis
  proof cases
    case nopayload4
    then have "bs = [type_byte SingleNopayload4 (of_nat d), tr] @ pbs" using enc pb by simp
    then show ?thesis
      using intro [of SingleNopayload4 "[type_byte SingleNopayload4 (of_nat d), tr]" 2] nopayload4 low_nibble
      by (simp add: read_node_header_type is_single_def)
  next
    case one
    then show ?thesis
      using intro [of Single8 "[type_byte Single8 pb, tr, of_nat d]" 3] pb
      by (simp add: read_node_header_type is_single_def unsigned_of_nat take_bit_nat_eq_self)
  next
    case nopayload12
    then have "bs = [type_byte SingleNopayload12 (ucast (drop_bit 8 (of_nat d :: 64 word))), of_nat d, tr] @ pbs"
      using enc pb by simp
    then show ?thesis
      using intro [of SingleNopayload12 "[type_byte SingleNopayload12 (ucast (drop_bit 8 (of_nat d :: 64 word))), of_nat d, tr]" 3]
        nopayload12 packed_12 by (simp add: read_node_header_type is_single_def)
  next
    case two
    have "(ucast (of_nat d :: 64 word) :: u8) = of_nat d" by (rule bit_word_eqI) (simp add: bit_simps)
    then have "write_be_unsigned d 2 = [ucast (drop_bit 8 (of_nat d :: 64 word)), of_nat d]"
      by (simp add: write_be_unsigned_def numeral_2_eq_2)
    then have "read_unsigned_be ([type_byte Single16 pb, tr, ucast (drop_bit 8 (of_nat d :: 64 word)), of_nat d] @ post) 2 2 = Inr d" for post
      using read_unsigned_be_written [of 2 d "[type_byte Single16 pb, tr]" post] two(1) by (simp add: numeral_2_eq_2 [symmetric])
    then show ?thesis
      using intro [of Single16 "[type_byte Single16 pb, tr, ucast (drop_bit 8 (of_nat d :: 64 word)), of_nat d]" 4] pb two(2)
      by (simp add: read_node_header_type is_single_def)
  next
    case sparse
    then show ?thesis by (rule sparse_decodes) (use pay in simp_all)
  qed
qed

text \<open>Whatever node the encoder writes, the walker reads back: the transitions with the distances to the
  children, and the payload.\<close>

lemma encode_node_decodes:
  assumes enc: "encode_node payload children pos = Inr bs" and dist: "distinct (map fst children)"
    and below: "\<And>c p. (c, p) \<in> set children \<Longrightarrow> p < pos" and pos: "pos < 2 ^ 64" and fits: "\<And>p. payload = Some p \<Longrightarrow> payload_fits p"
  shows "decodes_as bs (child_steps children pos) payload"
proof -
  obtain pb pbs where nib: "payload_nibble payload = (pb, pbs)" by fastforce
  consider (leaf) "children = []" "bs = [type_byte PayloadOnly pb] @ pbs"
    | (single) tr cp where "children = [(tr, cp)]" "encode_single_node tr pos cp pb pbs [(tr, cp)] = Inr bs"
    | (several) "children \<noteq> []" "encode_sparse_node children pos pb pbs = Inr bs"
    using enc nib by (auto simp: encode_node_def split: list.splits prod.splits)
  then show ?thesis
  proof cases
    case leaf
    let ?h = "\<lparr>nh_type = PayloadOnly, payload_bits = pb, nh_transitions = [], nh_pointers = [], payload_position = 1\<rparr>"
    show ?thesis unfolding leaf(2)
    proof (rule decodes_asI [where h = "\<lambda>_. ?h", OF _ _ _ _ _ _ fits nib])
      show "read_node_header ([type_byte PayloadOnly pb] @ pbs @ rest) = Inr ?h" for rest
        using nibble_cases(1) [OF fits nib] by (simp add: read_node_header_type)
      show "find_transition ?h c = child_steps children pos c" for c using leaf(1) by (simp add: find_transition_def child_steps_def)
    qed simp_all
  next
    case single
    then show ?thesis using single_decodes [OF single(2) _ fits nib] below by simp
  next
    case several
    show ?thesis
    proof (cases "length children \<le> 255")
      case True
      then show ?thesis by (rule sparse_decodes [OF several(2) _ several(1) fits nib])
    next
      case False
      then have "encode_dense_node children (distances children pos) pb pbs = Inr bs"
        using several(2) by (simp add: encode_sparse_node_def Let_def distances_def)
      then show ?thesis using dense_decodes [OF _ _ dist below pos fits nib] False by simp
    qed
  qed
qed

section \<open>Lookup in an encoded trie\<close>

text \<open>\<open>trie_at org data pos m\<close>: the node at \<open>pos\<close> is the root of a trie that stores the map \<open>m\<close> from keys to payloads,
  with every node inside one page, counted from \<open>org\<close>, and every child before its parent.\<close>

inductive trie_at :: "usize \<Rightarrow> bytes \<Rightarrow> u64 \<Rightarrow> (bytes \<Rightarrow> trie_payload option) \<Rightarrow> bool" for org data where
  "trie_at org data pos m"
  if "decodes_as bs (child_steps children pos) (m [])" "pos + length bs \<le> length data" "take (length bs) (drop pos data) = bs"
    "org \<le> pos" "(pos - org) mod PAGE_SIZE + length bs \<le> PAGE_SIZE" "\<forall>c. (\<exists>s. m (c # s) \<noteq> None) \<longleftrightarrow> map_of children c \<noteq> None"
    "\<forall>c p. map_of children c = Some p \<longrightarrow> p < pos \<and> trie_at org data p (\<lambda>s. m (c # s))"

lemma trie_at_append: "trie_at org data pos m \<Longrightarrow> trie_at org (data @ more_bytes) pos m"
proof (induction rule: trie_at.induct)
  case (1 bs children pos m)
  show ?case by (rule trie_at.intros [of bs children pos m]) (use 1 in auto)
qed

text \<open>A trie holds no absolute position: it may stand anywhere in a file.\<close>

lemma trie_at_shift: "trie_at org data pos m \<Longrightarrow> trie_at (length base + org) (base @ data) (length base + pos) m"
proof (induction rule: trie_at.induct)
  case (1 bs children pos m)
  let ?cs = "map (\<lambda>(c, p). (c, length base + p)) children"
  have mo: "map_of ?cs c = map_option ((+) (length base)) (map_of children c)" for c
    by (induction children) auto
  show ?case
  proof (rule trie_at.intros [of bs ?cs])
    have "child_steps ?cs (length base + pos) = child_steps children pos"
      by (rule ext) (simp add: child_steps_def mo option.map_comp comp_def)
    then show "decodes_as bs (child_steps ?cs (length base + pos)) (m [])" using 1 by simp
  qed (use 1 in \<open>auto simp: mo\<close>)
qed

text \<open>The payload the walk for a key ends at: that of the longest prefix of the key that some stored key extends.\<close>

fun walk :: "(bytes \<Rightarrow> trie_payload option) \<Rightarrow> bytes \<Rightarrow> trie_payload option" where
  "walk m [] = m []"
| "walk m (c # key) = (if \<exists>s. m (c # s) \<noteq> None then walk (\<lambda>s. m (c # s)) key else m [])"

lemma walk_stored: "m key = Some p \<Longrightarrow> walk m key = Some p"
  by (induction m key rule: walk.induct) auto

lemma walk_prefix:
  assumes "prefix q key" "\<And>q'. prefix q' key \<Longrightarrow> (\<exists>s. m (q' @ s) \<noteq> None) \<longleftrightarrow> prefix q' q"
  shows "walk m key = m q"
  using assms
proof (induction m key arbitrary: q rule: walk.induct)
  case (2 m c key)
  show ?case
  proof (cases "\<exists>s. m (c # s) \<noteq> None")
    case True
    then have "prefix [c] q" using 2(3) [of "[c]"] by simp
    then obtain q1 where q: "q = c # q1" by (auto simp: prefix_def)
    have "walk (\<lambda>s. m (c # s)) key = m (c # q1)"
    proof (rule 2(1) [OF True])
      show "prefix q1 key" using 2(2) q by simp
      show "(\<exists>s. m (c # q' @ s) \<noteq> None) \<longleftrightarrow> prefix q' q1" if "prefix q' key" for q' using 2(3) [of "c # q'"] that q by simp
    qed
    then show ?thesis using True q by simp
  next
    case False
    then have "\<not> prefix [c] q" using 2(3) [of "[c]"] by simp
    then have "q = []" using 2(2) by (cases q) auto
    then show ?thesis using False by simp
  qed
qed simp

text \<open>The nodes a lookup reads, with their positions.\<close>

fun visits :: "reader \<Rightarrow> u64 \<Rightarrow> u64 \<Rightarrow> bytes \<Rightarrow> (u64 \<times> node_header) list" where
  "visits read_at data_len pos key =
     (case read_exact_at read_at (min MAX_NODE_READ (data_len - pos)) pos of
        Inl e \<Rightarrow> []
      | Inr buf \<Rightarrow>
          (case read_node_header buf of
             Inl e \<Rightarrow> []
           | Inr header \<Rightarrow> (pos, header) #
               (case key of
                  [] \<Rightarrow> []
                | target # key \<Rightarrow>
                    (case find_transition header target of None \<Rightarrow> [] | Some distance \<Rightarrow> visits read_at data_len (pos - distance) key))))"

declare visits.simps [simp del]

context positioned_reader
begin

lemma read_node:
  assumes "decodes_as bs step payload" "pos + length bs \<le> length data" "take (length bs) (drop pos data) = bs"
  obtains buf h where "pos < length data" "read_exact_at read_at (min MAX_NODE_READ (length data - pos)) pos = Inr buf"
    "read_node_header buf = Inr h" "\<And>c. find_transition h c = step c" "extract_payload buf h = Inr (stored payload)"
    "payload_position h + payload_size (payload_bits h) = length bs"
proof -
  let ?n = "min MAX_NODE_READ (length data - pos)"
  have ne: "bs \<noteq> []" "length bs \<le> ?n" using assms(1,2) by (auto simp: decodes_as_def)
  define rest where "rest = drop (length bs) (take ?n (drop pos data))"
  have "take (length bs) (take ?n (drop pos data)) = bs" unfolding take_take using assms(3) ne(2) by (simp add: min.absorb1)
  then have buf: "take ?n (drop pos data) = bs @ rest"
    unfolding rest_def using append_take_drop_id [of "length bs" "take ?n (drop pos data)"] by simp
  obtain h where "read_node_header (bs @ rest) = Inr h" "\<forall>c. find_transition h c = step c"
    "extract_payload (bs @ rest) h = Inr (stored payload)" "payload_position h + payload_size (payload_bits h) = length bs"
    using assms(1) unfolding decodes_as_def by blast
  moreover have "?n = 0 \<or> pos + ?n \<le> length data" by arith
  then have "read_exact_at read_at ?n pos = Inr (bs @ rest)" unfolding read_exact buf by (rule if_P)
  moreover have "pos < length data" using ne assms(2) by (cases bs) auto
  ultimately show thesis using that [of "bs @ rest" h] by simp
qed

lemma lookup_trie_at: "trie_at org data pos m \<Longrightarrow> lookup_from read_at (length data) pos key = Inr (stored (walk m key))"
proof (induction key arbitrary: pos m)
  case Nil
  then show ?case
  proof (cases rule: trie_at.cases)
    case (1 bs children)
    show ?thesis by (rule read_node [OF 1(1-3)]) (simp add: lookup_from.simps)
  qed
next
  case (Cons c key)
  from Cons.prems show ?case
  proof (cases rule: trie_at.cases)
    case (1 bs children)
    obtain buf h where rd: "pos < length data" "read_exact_at read_at (min MAX_NODE_READ (length data - pos)) pos = Inr buf"
      "read_node_header buf = Inr h" "\<And>c. find_transition h c = child_steps children pos c" "extract_payload buf h = Inr (stored (m []))"
      by (rule read_node [OF 1(1-3)]) (rule that)
    show ?thesis
    proof (cases "map_of children c")
      case None
      then show ?thesis using rd 1(6) by (simp add: lookup_from.simps [of read_at "length data" pos] child_steps_def)
    next
      case (Some p)
      then have "p < pos" "trie_at org data p (\<lambda>s. m (c # s))" "\<exists>s. m (c # s) \<noteq> None" using 1(6,7) by auto
      then show ?thesis
        using rd Some Cons.IH by (simp add: lookup_from.simps [of read_at "length data" pos] child_steps_def)
    qed
  qed
qed

lemma visits_in_page:
  "trie_at org data pos m \<Longrightarrow> (at, h) \<in> set (visits read_at (length data) pos key)
    \<Longrightarrow> (at - org) mod PAGE_SIZE + payload_position h + payload_size (payload_bits h) \<le> PAGE_SIZE"
proof (induction key arbitrary: pos m)
  case Nil
  from Nil(1) show ?case
  proof (cases rule: trie_at.cases)
    case (1 bs children)
    show ?thesis by (rule read_node [OF 1(1-3)]) (use Nil(2) 1(5) in \<open>auto simp: visits.simps\<close>)
  qed
next
  case (Cons c key)
  from Cons.prems(1) show ?case
  proof (cases rule: trie_at.cases)
    case (1 bs children)
    obtain buf k where rd: "read_exact_at read_at (min MAX_NODE_READ (length data - pos)) pos = Inr buf"
      "read_node_header buf = Inr k" "\<And>c. find_transition k c = child_steps children pos c"
      "payload_position k + payload_size (payload_bits k) = length bs"
      by (rule read_node [OF 1(1-3)]) (rule that)
    consider "at = pos" "h = k" | p where "map_of children c = Some p" "(at, h) \<in> set (visits read_at (length data) (pos - (pos - p)) key)"
      using Cons.prems(2) rd
      by (cases "map_of children c") (auto simp: visits.simps [of read_at "length data" pos] child_steps_def)
    then show ?thesis
    proof cases
      case 2
      then have "p < pos" "trie_at org data p (\<lambda>s. m (c # s))" using 1(7) by auto
      then show ?thesis using Cons.IH [of p "\<lambda>s. m (c # s)"] 2(2) by simp
    qed (use 1(5) rd(4) in simp)
  qed
qed

end

end
