(* ===== verification/Trie_Builder.thy ===== *)
theory Trie_Builder
  imports Trie_Walker
begin

text \<open>
  The bottom-up, page-aware trie builder (crate \<open>ferrosa-sstable\<close>: \<open>trie/builder.rs\<close>), for the sink
  \<open>Vec<u8>\<close>, whose \<open>append\<close> never fails.  \<open>stack\<close> lists the open branches from the deepest one to the root.
  The reused scratch buffers of the encoder hold nothing between calls and are left out; \<open>reserve\<close> changes
  no content, so only \<open>key_capacity\<close> remains of it.  A failed operation yields the error alone: every caller
  abandons the builder then.
\<close>

section \<open>Definitions\<close>

record branch_node =
  bn_transition :: u8
  children_start :: usize
  bn_payload :: "trie_payload option"

record trie_builder =
  sink :: bytes
  stack :: "branch_node list"
  bn_children :: "(u8 \<times> u64) list"
  key_capacity :: usize
  prev_key :: bytes
  write_pos :: usize
  last_node_pos :: u64
  has_keys :: bool

definition with_sink :: "bytes \<Rightarrow> trie_builder" where
  "with_sink out = \<lparr>sink = out, stack = [], bn_children = [], key_capacity = 64, prev_key = [], write_pos = 0,
     last_node_pos = 0, has_keys = False\<rparr>"

definition common_prefix_len :: "bytes \<Rightarrow> bytes \<Rightarrow> usize" where
  "common_prefix_len a b = length (takeWhile (\<lambda>(x, y). x = y) (zip a b))"

definition write_node :: "trie_builder \<Rightarrow> branch_node \<Rightarrow> codec_error + trie_builder \<times> u64" where
  "write_node b node =
     (let children = drop (children_start node) (bn_children b)
      in case encode_node (bn_payload node) children (write_pos b) of
           Inl e \<Rightarrow> Inl e
         | Inr encoded \<Rightarrow>
             let current_page_offset = write_pos b mod PAGE_SIZE
             in if current_page_offset \<noteq> 0 \<and> current_page_offset + length encoded > PAGE_SIZE
                then let pad = PAGE_SIZE - current_page_offset;
                         b1 = b\<lparr>sink := sink b @ replicate pad 0, write_pos := write_pos b + pad\<rparr>
                     in case encode_node (bn_payload node) children (write_pos b1) of
                          Inl e \<Rightarrow> Inl e
                        | Inr encoded \<Rightarrow>
                            Inr (b1\<lparr>sink := sink b1 @ encoded, write_pos := write_pos b1 + length encoded\<rparr>, write_pos b1)
                else Inr (b\<lparr>sink := sink b @ encoded, write_pos := write_pos b + length encoded\<rparr>, write_pos b))"

lemma write_node_stack: "write_node b node = Inr (b1, pos) \<Longrightarrow> stack b1 = stack b"
  by (auto simp: write_node_def Let_def split: sum.splits if_splits)

function complete_branches :: "trie_builder \<Rightarrow> usize \<Rightarrow> codec_error + trie_builder" where
  "complete_branches b keep_depth =
     (if length (stack b) > keep_depth
      then let node = hd (stack b)
           in case write_node (b\<lparr>stack := tl (stack b)\<rparr>) node of
                Inl e \<Rightarrow> Inl e
              | Inr (b1, pos) \<Rightarrow>
                  let b2 = b1\<lparr>bn_children := take (children_start node) (bn_children b1)\<rparr>
                  in complete_branches
                       (if stack b2 \<noteq> [] then b2\<lparr>bn_children := bn_children b2 @ [(bn_transition node, pos)]\<rparr>
                        else b2\<lparr>last_node_pos := pos\<rparr>) keep_depth
      else Inr b)"
  by pat_completeness auto
termination
  by (relation "measure (\<lambda>(b, _). length (stack b))") (auto dest!: write_node_stack)

declare complete_branches.simps [simp del]

definition push_branches :: "bytes \<Rightarrow> trie_builder \<Rightarrow> trie_builder" where
  "push_branches key b =
     fold (\<lambda>c b. b\<lparr>stack := \<lparr>bn_transition = c, children_start = length (bn_children b), bn_payload = None\<rparr> # stack b\<rparr>) key b"

definition set_leaf :: "trie_payload \<Rightarrow> trie_builder \<Rightarrow> trie_builder" where
  "set_leaf payload b =
     (case stack b of [] \<Rightarrow> b | leaf # rest \<Rightarrow> b\<lparr>stack := leaf\<lparr>bn_payload := Some payload\<rparr> # rest\<rparr>)"

definition add :: "trie_builder \<Rightarrow> bytes \<Rightarrow> trie_payload \<Rightarrow> codec_error + trie_builder" where
  "add b key payload =
     (if has_keys b \<and> key \<le> prev_key b then Inl InvalidData
      else let b = (if length key > key_capacity b then b\<lparr>key_capacity := length key\<rparr> else b);
               prefix_len = (if has_keys b then common_prefix_len (prev_key b) key else 0)
           in case (if \<not> has_keys b then Inr (push_branches [0] b) else complete_branches b (prefix_len + 1)) of
                Inl e \<Rightarrow> Inl e
              | Inr b \<Rightarrow>
                  Inr ((set_leaf payload (push_branches (drop prefix_len key) b))\<lparr>prev_key := key, has_keys := True\<rparr>))"

definition finish_trie :: "trie_builder \<Rightarrow> codec_error + trie_builder \<times> u64" where
  "finish_trie b =
     (case (if has_keys b then complete_branches b 0 else Inr b) of
        Inl e \<Rightarrow> Inl e
      | Inr b \<Rightarrow> Inr (b\<lparr>prev_key := [], write_pos := 0, last_node_pos := 0, has_keys := False\<rparr>, last_node_pos b))"

definition finish_into :: "trie_builder \<Rightarrow> codec_error + bytes \<times> u64" where
  "finish_into b = (case finish_trie b of Inl e \<Rightarrow> Inl e | Inr (b, root) \<Rightarrow> Inr (sink b, root))"

text \<open>Adding keys one after the other, as the callers of the builder do.\<close>

fun add_all :: "trie_builder \<Rightarrow> (bytes \<times> trie_payload) list \<Rightarrow> codec_error + trie_builder" where
  "add_all b [] = Inr b"
| "add_all b ((key, payload) # entries) = (case add b key payload of Inl e \<Rightarrow> Inl e | Inr b \<Rightarrow> add_all b entries)"

section \<open>Writing one node\<close>

definition NODE_COST :: nat where "NODE_COST = 6656"

lemma foldl_max_le: "a \<le> m \<Longrightarrow> \<forall>d\<in>set ds. d \<le> m \<Longrightarrow> foldl max a ds \<le> (m :: nat)"
  by (induction ds arbitrary: a) auto

lemma encode_node_total:
  assumes "pos < 2 ^ 40"
  shows "\<exists>bs. encode_node payload children pos = Inr bs"
proof -
  have "foldl max 0 (map (\<lambda>(_, p). pos - p) children) \<le> pos" by (rule foldl_max_le) auto
  then have m: "foldl max 0 (map (\<lambda>(_, p). pos - p) children) \<le> 0xFFFFFFFFFF" using assms by simp
  have sparse: "\<exists>bs. encode_sparse_node children pos pb pbs = Inr bs" if "children \<noteq> []" for pb pbs
    using m that by (auto simp: encode_sparse_node_def encode_dense_node_def Let_def)
  show ?thesis
    using sparse by (auto simp: encode_node_def encode_single_node_def Let_def split: list.split prod.split)
qed

lemma write_node_spec:
  assumes below: "\<And>c p. (c, p) \<in> set (drop (children_start n) (bn_children b)) \<Longrightarrow> p < write_pos b"
    and dist: "distinct (map fst (drop (children_start n) (bn_children b)))"
    and fits: "\<And>p. bn_payload n = Some p \<Longrightarrow> payload_fits p" and room: "write_pos b + NODE_COST \<le> 2 ^ 40"
  obtains pad bs pos where "write_node b n = Inr (b\<lparr>sink := sink b @ pad @ bs, write_pos := pos + length bs\<rparr>, pos)"
    "pos = write_pos b + length pad" "pos + length bs \<le> write_pos b + NODE_COST" "pos mod PAGE_SIZE + length bs \<le> PAGE_SIZE"
    "decodes_as bs (child_steps (drop (children_start n) (bn_children b)) pos) (bn_payload n)"
proof -
  let ?children = "drop (children_start n) (bn_children b)" let ?off = "write_pos b mod PAGE_SIZE"
  have enc: "\<exists>bs. encode_node (bn_payload n) ?children pos = Inr bs
      \<and> decodes_as bs (child_steps ?children pos) (bn_payload n) \<and> length bs \<le> 2560"
    if "write_pos b \<le> pos" "pos \<le> write_pos b + PAGE_SIZE" for pos
  proof -
    have lt: "pos < 2 ^ 40" using that(2) room by (simp add: PAGE_SIZE_def NODE_COST_def)
    then obtain bs where bs: "encode_node (bn_payload n) ?children pos = Inr bs" using encode_node_total by blast
    have "decodes_as bs (child_steps ?children pos) (bn_payload n)"
    proof (rule encode_node_decodes [OF bs dist _ _ fits])
      show "p < pos" if "(c, p) \<in> set ?children" for c p using below [OF that] \<open>write_pos b \<le> pos\<close> by simp
      show "pos < 2 ^ 64" using lt by simp
    qed
    then show ?thesis using bs by (auto simp: decodes_as_def MAX_NODE_READ_def)
  qed
  obtain bs where bs: "encode_node (bn_payload n) ?children (write_pos b) = Inr bs"
      "decodes_as bs (child_steps ?children (write_pos b)) (bn_payload n)" "length bs \<le> 2560"
    using enc [of "write_pos b"] by auto
  show thesis
  proof (cases "?off \<noteq> 0 \<and> ?off + length bs > PAGE_SIZE")
    case True
    let ?pad = "PAGE_SIZE - ?off"
    have off: "?off < PAGE_SIZE" by (simp add: PAGE_SIZE_def)
    have aligned: "(write_pos b + ?pad) mod PAGE_SIZE = 0"
    proof -
      have "write_pos b + ?pad = PAGE_SIZE * (write_pos b div PAGE_SIZE + 1)"
        using off mult_div_mod_eq [of PAGE_SIZE "write_pos b"] unfolding distrib_left by linarith
      then show ?thesis by simp
    qed
    obtain cs where cs: "encode_node (bn_payload n) ?children (write_pos b + ?pad) = Inr cs"
        "decodes_as cs (child_steps ?children (write_pos b + ?pad)) (bn_payload n)" "length cs \<le> 2560"
      using enc [of "write_pos b + ?pad"] by auto
    show thesis
    proof (rule that [where pad = "replicate ?pad 0" and bs = cs and pos = "write_pos b + ?pad"])
      show "write_node b n = Inr (b\<lparr>sink := sink b @ replicate ?pad 0 @ cs, write_pos := write_pos b + ?pad + length cs\<rparr>, write_pos b + ?pad)"
        using bs(1) cs(1) True by (simp add: write_node_def Let_def)
    qed (use cs aligned in \<open>simp_all add: PAGE_SIZE_def NODE_COST_def\<close>)
  next
    case False
    then have "?off + length bs \<le> PAGE_SIZE" using bs(3) by (auto simp: PAGE_SIZE_def)
    moreover have "write_node b n = Inr (b\<lparr>sink := sink b @ bs, write_pos := write_pos b + length bs\<rparr>, write_pos b)"
      using bs(1) False by (auto simp: write_node_def Let_def)
    ultimately show thesis using that [where pad = "[]" and bs = bs and pos = "write_pos b"] bs by (simp add: NODE_COST_def)
  qed
qed

section \<open>The open branches\<close>

text \<open>
  \<open>branch_ok\<close>: a branch at \<open>path\<close> holds the payload of that key and, except for the transition \<open>skip\<close> into the
  branch above it on the stack, a finished child for every transition some stored key takes.  \<open>frontier\<close>: every
  open branch is \<open>branch_ok\<close> for its slice of the children arena; the path is given from the deepest byte up.
\<close>

definition branch_ok :: "bytes \<Rightarrow> (bytes \<Rightarrow> trie_payload option) \<Rightarrow> bytes \<Rightarrow> u8 option \<Rightarrow> (u8 \<times> u64) list \<Rightarrow> trie_payload option \<Rightarrow> bool" where
  "branch_ok data m path skip cs payload \<longleftrightarrow> payload = m path \<and> distinct (map fst cs)
     \<and> (\<forall>c. c \<in> fst ` set cs \<longleftrightarrow> (\<exists>s. m (path @ c # s) \<noteq> None) \<and> skip \<noteq> Some c)
     \<and> (\<forall>c p. (c, p) \<in> set cs \<longrightarrow> p < length data \<and> trie_at 0 data p (\<lambda>s. m (path @ c # s)))"

fun frontier :: "bytes \<Rightarrow> (bytes \<Rightarrow> trie_payload option) \<Rightarrow> (u8 \<times> u64) list \<Rightarrow> branch_node list \<Rightarrow> bytes \<Rightarrow> u8 option \<Rightarrow> bool" where
  "frontier data m chs [] rk skip \<longleftrightarrow> False"
| "frontier data m chs (n # ns) rk skip \<longleftrightarrow> children_start n \<le> length chs
     \<and> branch_ok data m (rev rk) skip (drop (children_start n) chs) (bn_payload n)
     \<and> (case rk of [] \<Rightarrow> ns = [] \<and> children_start n = 0
        | c # rk' \<Rightarrow> bn_transition n = c \<and> frontier data m (take (children_start n) chs) ns rk' (Some c))"

lemma frontier_length: "frontier data m chs ns rk skip \<Longrightarrow> length ns = Suc (length rk)"
  by (induction data m chs ns rk skip rule: frontier.induct) (auto split: list.splits)

lemma branch_ok_append: "branch_ok data m path skip cs payload \<Longrightarrow> branch_ok (data @ more_bytes) m path skip cs payload"
  by (auto simp: branch_ok_def trie_at_append trans_less_add1)

lemma frontier_append: "frontier data m chs ns rk skip \<Longrightarrow> frontier (data @ more_bytes) m chs ns rk skip"
  by (induction data m chs ns rk skip rule: frontier.induct) (auto simp: branch_ok_append split: list.splits)

lemma frontier_push:
  assumes "frontier data m chs ns rk None" "\<And>s. m (rev rk @ c # s) = None"
  shows "frontier data m chs (\<lparr>bn_transition = c, children_start = length chs, bn_payload = None\<rparr> # ns) (c # rk) None"
proof -
  have "frontier data m chs ns rk (Some c)"
    using assms by (cases ns) (auto simp: branch_ok_def)
  moreover have "branch_ok data m (rev (c # rk)) None [] None" using assms(2) by (simp add: branch_ok_def)
  ultimately show ?thesis by simp
qed

lemma branch_ok_update:
  assumes ok: "branch_ok data m path (Some c) cs payload" and same: "\<And>k. \<not> prefix (path @ [c]) k \<Longrightarrow> m' k = m k"
  shows "branch_ok data m' path (Some c) cs payload"
proof -
  have "m' path = m path" by (rule same) auto
  moreover have "m' (path @ d # s) = m (path @ d # s)" if "d \<noteq> c" for d s by (rule same) (use that in simp)
  moreover have "d \<noteq> c" if "(d, p) \<in> set cs" for d p
  proof -
    have "d \<in> fst ` set cs" using that by force
    then show ?thesis using ok by (auto simp: branch_ok_def)
  qed
  ultimately show ?thesis using ok unfolding branch_ok_def by auto
qed

lemma frontier_update:
  "frontier data m chs ns rk (Some c) \<Longrightarrow> (\<And>k. \<not> prefix (rev rk @ [c]) k \<Longrightarrow> m' k = m k) \<Longrightarrow> frontier data m' chs ns rk (Some c)"
proof (induction ns arbitrary: chs rk c)
  case (Cons n ns)
  have ok: "branch_ok data m' (rev rk) (Some c) (drop (children_start n) chs) (bn_payload n)"
    by (rule branch_ok_update [OF _ Cons.prems(2)]) (use Cons.prems(1) in simp_all)
  show ?case
  proof (cases rk)
    case Nil
    then show ?thesis using Cons.prems(1) ok by simp
  next
    case rk: (Cons d rk')
    have "frontier data m' (take (children_start n) chs) ns rk' (Some d)"
    proof (rule Cons.IH)
      show "frontier data m (take (children_start n) chs) ns rk' (Some d)" using Cons.prems(1) rk by simp
      show "m' k = m k" if "\<not> prefix (rev rk' @ [d]) k" for k
      proof (rule Cons.prems(2))
        show "\<not> prefix (rev rk @ [c]) k" using that rk by (metis append_prefixD rev.simps(2))
      qed
    qed
    then show ?thesis using Cons.prems(1) rk ok by simp
  qed
qed simp

lemma frontier_leaf:
  assumes fr: "frontier data m chs (n # ns) rk None"
  shows "frontier data (m(rev rk \<mapsto> p)) chs (n\<lparr>bn_payload := Some p\<rparr> # ns) rk None"
proof -
  let ?m = "m(rev rk \<mapsto> p)"
  have "branch_ok data m (rev rk) None (drop (children_start n) chs) (bn_payload n)" using fr by simp
  then have "branch_ok data ?m (rev rk) None (drop (children_start n) chs) (Some p)" by (simp add: branch_ok_def)
  moreover have "frontier data ?m (take (children_start n) chs) ns rk' (Some c)" if "rk = c # rk'" for c rk'
    by (rule frontier_update [of data m]) (use fr that in auto)
  ultimately show ?thesis using fr by (cases rk) simp_all
qed

text \<open>\<open>building base m b rk n\<close>: the sink holds \<open>base\<close> and then the finished nodes, the open branches are those of
  the reversed path \<open>rk\<close>, and closing all of them keeps the trie within \<open>n\<close> bytes.\<close>

definition building :: "bytes \<Rightarrow> (bytes \<Rightarrow> trie_payload option) \<Rightarrow> trie_builder \<Rightarrow> bytes \<Rightarrow> nat \<Rightarrow> bool" where
  "building base m b rk n \<longleftrightarrow>
     (\<exists>data. sink b = base @ data \<and> write_pos b = length data \<and> frontier data m (bn_children b) (stack b) rk None)
     \<and> (\<exists>s. m (rev rk @ s) \<noteq> None) \<and> (\<forall>p\<in>ran m. payload_fits p) \<and> write_pos b + NODE_COST * length (stack b) \<le> n \<and> n \<le> 2 ^ 40"

lemma building_length: "building base m b rk n \<Longrightarrow> length (stack b) = Suc (length rk)"
  by (auto simp: building_def dest: frontier_length)

text \<open>Closing the deepest branch.\<close>

lemma close_branch:
  assumes bd: "building base m b rk n" and st: "stack b = nd # ns"
  obtains b1 pos data where "write_node (b\<lparr>stack := ns\<rparr>) nd = Inr (b1, pos)" "b1 = b\<lparr>stack := ns, sink := sink b1, write_pos := write_pos b1\<rparr>"
    "sink b1 = base @ data" "write_pos b1 = length data" "pos < length data" "trie_at 0 data pos (\<lambda>s. m (rev rk @ s))"
    "write_pos b1 + NODE_COST * length ns \<le> n"
    "\<And>c rk'. rk = c # rk' \<Longrightarrow> bn_transition nd = c \<and> frontier data m (take (children_start nd) (bn_children b)) ns rk' (Some c)"
    "rk = [] \<Longrightarrow> ns = [] \<and> children_start nd = 0"
proof -
  obtain data where data: "sink b = base @ data" "write_pos b = length data" "frontier data m (bn_children b) (nd # ns) rk None"
    and fits: "\<forall>p\<in>ran m. payload_fits p" and n: "write_pos b + NODE_COST * length (stack b) \<le> n" "n \<le> 2 ^ 40"
    using bd st by (auto simp: building_def)
  let ?cs = "drop (children_start nd) (bn_children b)"
  have ok: "branch_ok data m (rev rk) None ?cs (bn_payload nd)" using data(3) by simp
  have below: "p < write_pos (b\<lparr>stack := ns\<rparr>)" if "(c, p) \<in> set (drop (children_start nd) (bn_children (b\<lparr>stack := ns\<rparr>)))" for c p
    using that ok data(2) by (auto simp: branch_ok_def)
  have dist: "distinct (map fst (drop (children_start nd) (bn_children (b\<lparr>stack := ns\<rparr>))))" using ok by (simp add: branch_ok_def)
  have pay: "payload_fits p" if "bn_payload nd = Some p" for p
  proof -
    have "m (rev rk) = Some p" using that ok by (simp add: branch_ok_def)
    then show ?thesis using fits by (auto intro: ranI)
  qed
  have room: "write_pos (b\<lparr>stack := ns\<rparr>) + NODE_COST \<le> 2 ^ 40" using n st by simp
  obtain pad bs pos where wn: "write_node (b\<lparr>stack := ns\<rparr>) nd =
        Inr (b\<lparr>stack := ns\<rparr>\<lparr>sink := sink (b\<lparr>stack := ns\<rparr>) @ pad @ bs, write_pos := pos + length bs\<rparr>, pos)"
      "pos = write_pos (b\<lparr>stack := ns\<rparr>) + length pad" "pos + length bs \<le> write_pos (b\<lparr>stack := ns\<rparr>) + NODE_COST"
      "pos mod PAGE_SIZE + length bs \<le> PAGE_SIZE"
      "decodes_as bs (child_steps (drop (children_start nd) (bn_children (b\<lparr>stack := ns\<rparr>))) pos) (bn_payload nd)"
    by (rule write_node_spec [of nd "b\<lparr>stack := ns\<rparr>"], erule below, rule dist, erule pay, rule room) (rule that)
  let ?data = "data @ pad @ bs"
  have ne: "bs \<noteq> []" using wn(5) by (simp add: decodes_as_def)
  have ok2: "branch_ok ?data m (rev rk) None ?cs (bn_payload nd)" by (rule branch_ok_append [OF ok])
  have trie: "trie_at 0 ?data pos (\<lambda>s. m (rev rk @ s))"
  proof (rule trie_at.intros [of bs ?cs])
    show "0 \<le> pos" by simp
    show "decodes_as bs (child_steps ?cs pos) (m (rev rk @ []))" using wn(5) ok by (simp add: branch_ok_def)
    show "pos + length bs \<le> length ?data" "take (length bs) (drop pos ?data) = bs" using wn(2) data(2) by simp_all
    show "(pos - 0) mod PAGE_SIZE + length bs \<le> PAGE_SIZE" using wn(4) by simp
    show "\<forall>c. (\<exists>s. m (rev rk @ c # s) \<noteq> None) \<longleftrightarrow> map_of ?cs c \<noteq> None"
      using ok unfolding branch_ok_def by (simp add: map_of_eq_None_iff)
    show "\<forall>c p. map_of ?cs c = Some p \<longrightarrow> p < pos \<and> trie_at 0 ?data p (\<lambda>s. m (rev rk @ c # s))"
    proof (intro allI impI)
      fix c p assume "map_of ?cs c = Some p"
      then have "(c, p) \<in> set ?cs" by (rule map_of_SomeD)
      then have "p < length data" "trie_at 0 ?data p (\<lambda>s. m (rev rk @ c # s))" using ok ok2 by (simp_all add: branch_ok_def)
      then show "p < pos \<and> trie_at 0 ?data p (\<lambda>s. m (rev rk @ c # s))" using wn(2) data(2) by simp
    qed
  qed
  show thesis
  proof (rule that [OF wn(1), of ?data])
    show "bn_transition nd = c \<and> frontier ?data m (take (children_start nd) (bn_children b)) ns rk' (Some c)" if "rk = c # rk'" for c rk'
      using data(3) that frontier_append by simp
  qed (use wn(2,3) data trie ne n st in \<open>auto\<close>)
qed

lemma complete_step:
  assumes "stack b = nd # ns" "keep \<le> length ns" "write_node (b\<lparr>stack := ns\<rparr>) nd = Inr (b1, pos)" "stack b1 = ns" "bn_children b1 = bn_children b"
  shows "complete_branches b keep = complete_branches
    (if ns \<noteq> [] then b1\<lparr>bn_children := take (children_start nd) (bn_children b) @ [(bn_transition nd, pos)]\<rparr>
     else b1\<lparr>bn_children := take (children_start nd) (bn_children b), last_node_pos := pos\<rparr>) keep"
  using assms by (subst complete_branches.simps) (simp add: Let_def)

definition same_key :: "trie_builder \<Rightarrow> trie_builder \<Rightarrow> bool" where
  "same_key b b1 \<longleftrightarrow> prev_key b1 = prev_key b \<and> has_keys b1 = has_keys b \<and> key_capacity b1 = key_capacity b"

lemma close_inner:
  assumes bd: "building base m b (c # rk) n" and keep: "keep \<le> Suc (length rk)"
  obtains b1 where "complete_branches b keep = complete_branches b1 keep" "building base m b1 rk n" "same_key b b1"
proof -
  obtain nd ns where st: "stack b = nd # ns" using building_length [OF bd] by (cases "stack b") auto
  obtain b1 pos data where cb: "write_node (b\<lparr>stack := ns\<rparr>) nd = Inr (b1, pos)" "b1 = b\<lparr>stack := ns, sink := sink b1, write_pos := write_pos b1\<rparr>"
    "sink b1 = base @ data" "write_pos b1 = length data" "pos < length data" "trie_at 0 data pos (\<lambda>s. m (rev (c # rk) @ s))"
    "write_pos b1 + NODE_COST * length ns \<le> n"
    "\<And>d rk'. c # rk = d # rk' \<Longrightarrow> bn_transition nd = d \<and> frontier data m (take (children_start nd) (bn_children b)) ns rk' (Some d)"
    by (rule close_branch [OF bd st]) (rule that)
  let ?chs = "take (children_start nd) (bn_children b)"
  let ?b2 = "b1\<lparr>bn_children := ?chs @ [(c, pos)]\<rparr>"
  have tr: "bn_transition nd = c" and fr: "frontier data m ?chs ns rk (Some c)" using cb(8) by auto
  obtain n0 ns0 where ns: "ns = n0 # ns0" using fr by (cases ns) auto
  have len: "length ns = Suc (length rk)" using building_length [OF bd] st by simp
  have same: "bn_children b1 = bn_children b" "stack b1 = ns" using arg_cong [OF cb(2), of bn_children] arg_cong [OF cb(2), of stack] by simp_all
  have ext: "\<exists>s. m (rev rk @ c # s) \<noteq> None" using bd by (simp add: building_def)
  have start: "children_start n0 \<le> length ?chs" "branch_ok data m (rev rk) (Some c) (drop (children_start n0) ?chs) (bn_payload n0)"
    using fr ns by simp_all
  have "branch_ok data m (rev rk) None (drop (children_start n0) ?chs @ [(c, pos)]) (bn_payload n0)"
    using start(2) ext cb(5,6) unfolding branch_ok_def by auto
  then have "frontier data m (?chs @ [(c, pos)]) ns rk None"
    using fr ns start(1) by (auto split: list.splits)
  then have "building base m ?b2 rk n"
    using bd cb(3,4,7) same ext by (auto simp: building_def)
  moreover have "complete_branches b keep = complete_branches ?b2 keep"
    using complete_step [OF st _ cb(1) same(2,1)] keep len ns tr by simp
  moreover have "same_key b ?b2" using cb(2) by (metis (no_types, lifting) same_key_def trie_builder.select_convs trie_builder.surjective trie_builder.update_convs)
  ultimately show thesis using that by blast
qed

lemma complete_keep:
  assumes "building base m b rk n" "k \<le> length rk"
  shows "\<exists>b1. complete_branches b (Suc k) = Inr b1 \<and> building base m b1 (drop (length rk - k) rk) n \<and> same_key b b1"
  using assms
proof (induction rk arbitrary: b)
  case Nil
  then show ?case using building_length [OF Nil(1)] by (simp add: complete_branches.simps same_key_def)
next
  case (Cons c rk)
  show ?case
  proof (cases "k = length (c # rk)")
    case True
    then show ?thesis using Cons.prems building_length [OF Cons.prems(1)] by (simp add: complete_branches.simps same_key_def)
  next
    case False
    then have k: "k \<le> length rk" using Cons.prems(2) by simp
    obtain b1 where b1: "complete_branches b (Suc k) = complete_branches b1 (Suc k)" "building base m b1 rk n" "same_key b b1"
      by (rule close_inner [OF Cons.prems(1), of "Suc k"]) (use k in simp_all)
    from Cons.IH [OF b1(2) k] show ?thesis using b1(1,3) k by (auto simp: same_key_def Suc_diff_le)
  qed
qed

lemma complete_all:
  assumes "building base m b rk n"
  shows "\<exists>b1 data. complete_branches b 0 = Inr b1 \<and> stack b1 = [] \<and> bn_children b1 = [] \<and> sink b1 = base @ data
    \<and> last_node_pos b1 < length data \<and> trie_at 0 data (last_node_pos b1) m \<and> length data \<le> n"
  using assms
proof (induction rk arbitrary: b)
  case Nil
  obtain nd where st: "stack b = [nd]" using building_length [OF Nil] by (cases "stack b") auto
  obtain b1 pos data where cb: "write_node (b\<lparr>stack := []\<rparr>) nd = Inr (b1, pos)" "b1 = b\<lparr>stack := [], sink := sink b1, write_pos := write_pos b1\<rparr>"
    "sink b1 = base @ data" "write_pos b1 = length data" "pos < length data" "trie_at 0 data pos (\<lambda>s. m (rev [] @ s))"
    "write_pos b1 + NODE_COST * length ([] :: branch_node list) \<le> n"
    "([] :: bytes) = [] \<Longrightarrow> ([] :: branch_node list) = [] \<and> children_start nd = 0"
    by (rule close_branch [OF Nil st]) (rule that)
  have same: "bn_children b1 = bn_children b" "stack b1 = []" using arg_cong [OF cb(2), of bn_children] arg_cong [OF cb(2), of stack] by simp_all
  show ?case
    using complete_step [OF st _ cb(1) same(2,1), of 0] cb(3-8) same by (simp add: complete_branches.simps)
next
  case (Cons c rk)
  obtain b1 where "complete_branches b 0 = complete_branches b1 0" "building base m b1 rk n"
    by (rule close_inner [OF Cons.prems, of 0]) simp_all
  then show ?case using Cons.IH by simp
qed

section \<open>Adding keys\<close>

lemma key_order:
  assumes "prev < key"
  shows "common_prefix_len prev key < length key" "common_prefix_len prev key \<le> length prev"
    "take (common_prefix_len prev key) prev = take (common_prefix_len prev key) key"
    "k \<le> prev \<Longrightarrow> \<not> prefix (take (Suc (common_prefix_len prev key)) key) k"
proof -
  have "common_prefix_len prev key < length key \<and> common_prefix_len prev key \<le> length prev
    \<and> take (common_prefix_len prev key) prev = take (common_prefix_len prev key) key
    \<and> (k \<le> prev \<longrightarrow> \<not> prefix (take (Suc (common_prefix_len prev key)) key) k)"
    using assms
  proof (induction prev arbitrary: key k)
    case Nil
    then show ?case by (cases key) (auto simp: common_prefix_len_def)
  next
    case (Cons a prev)
    obtain c key' where key: "key = c # key'" using Cons.prems by (cases key) auto
    show ?case
    proof (cases "a = c")
      case True
      then have "prev < key'" using Cons.prems key by simp
      moreover have "common_prefix_len (a # prev) key = Suc (common_prefix_len prev key')" using True key by (simp add: common_prefix_len_def)
      ultimately show ?thesis using Cons.IH [of key' "tl k"] key True by (cases k) auto
    next
      case False
      then have "a < c" using Cons.prems key by simp
      then show ?thesis using key False by (cases k) (auto simp: common_prefix_len_def)
    qed
  qed
  then show "common_prefix_len prev key < length key" "common_prefix_len prev key \<le> length prev"
    "take (common_prefix_len prev key) prev = take (common_prefix_len prev key) key"
    "k \<le> prev \<Longrightarrow> \<not> prefix (take (Suc (common_prefix_len prev key)) key) k" by simp_all
qed

lemma push_branches_spec:
  assumes "frontier data m (bn_children b) (stack b) rk None" "xs \<noteq> [] \<Longrightarrow> (\<And>s. m (rev rk @ hd xs # s) = None)"
  shows "\<exists>ns. push_branches xs b = b\<lparr>stack := ns\<rparr> \<and> frontier data m (bn_children b) ns (rev xs @ rk) None
    \<and> length ns = length xs + length (stack b)"
  using assms
proof (induction xs arbitrary: b rk)
  case Nil
  show ?case by (rule exI [of _ "stack b"]) (use Nil in \<open>simp add: push_branches_def\<close>)
next
  case (Cons c xs)
  let ?b = "b\<lparr>stack := \<lparr>bn_transition = c, children_start = length (bn_children b), bn_payload = None\<rparr> # stack b\<rparr>"
  have "\<exists>ns. push_branches xs ?b = ?b\<lparr>stack := ns\<rparr> \<and> frontier data m (bn_children ?b) ns (rev xs @ c # rk) None
    \<and> length ns = length xs + length (stack ?b)"
  proof (rule Cons.IH)
    show "frontier data m (bn_children ?b) (stack ?b) (c # rk) None"
      using frontier_push [OF Cons.prems(1)] Cons.prems(2) by simp
    show "m (rev (c # rk) @ hd xs # s) = None" for s using Cons.prems(2) by simp
  qed
  then show ?case by (simp add: push_branches_def)
qed

text \<open>The state between two calls: \<open>m\<close> maps the keys added so far to their payloads.\<close>

definition builder_inv :: "bytes \<Rightarrow> (bytes \<Rightarrow> trie_payload option) \<Rightarrow> trie_builder \<Rightarrow> nat \<Rightarrow> bool" where
  "builder_inv base m b n \<longleftrightarrow>
     (if has_keys b
      then building base m b (rev (prev_key b)) n \<and> prev_key b \<in> dom m \<and> (\<forall>k\<in>dom m. k \<le> prev_key b)
      else stack b = [] \<and> bn_children b = [] \<and> sink b = base \<and> write_pos b = 0 \<and> last_node_pos b = 0 \<and> m = Map.empty)"

lemma extend_path:
  assumes fr: "sink b = base @ data" "write_pos b = length data" "frontier data m (bn_children b) (stack b) (rev (take l key)) None"
    and l: "l \<le> length key" and free: "l < length key \<longrightarrow> (\<forall>k\<in>dom m. \<not> prefix (take (Suc l) key) k)"
    and fits: "\<forall>p\<in>ran m. payload_fits p" "payload_fits p"
    and n: "write_pos b + NODE_COST * (length key - l + length (stack b)) \<le> n" "n \<le> 2 ^ 40"
  shows "building base (m(key \<mapsto> p)) (set_leaf p (push_branches (drop l key) b)) (rev key) n"
proof -
  have "\<exists>ns. push_branches (drop l key) b = b\<lparr>stack := ns\<rparr> \<and> frontier data m (bn_children b) ns (rev (drop l key) @ rev (take l key)) None
    \<and> length ns = length (drop l key) + length (stack b)"
  proof (rule push_branches_spec [OF fr(3)])
    fix s assume "drop l key \<noteq> []"
    then have lt: "l < length key" by simp
    then have "take (Suc l) key = take l key @ [hd (drop l key)]" by (simp add: take_Suc_conv_app_nth hd_drop_conv_nth)
    then have "prefix (take (Suc l) key) (take l key @ hd (drop l key) # s)" by simp
    then have "take l key @ hd (drop l key) # s \<notin> dom m" using free lt by blast
    then show "m (rev (rev (take l key)) @ hd (drop l key) # s) = None" by (simp add: domIff)
  qed
  then obtain ns where ns: "push_branches (drop l key) b = b\<lparr>stack := ns\<rparr>" "frontier data m (bn_children b) ns (rev key) None"
      "length ns = length key - l + length (stack b)"
    by (auto simp: rev_append [symmetric] simp del: rev_append)
  obtain nd rest where nd: "ns = nd # rest" using ns(2) by (cases ns) auto
  have "frontier data (m(key \<mapsto> p)) (bn_children b) (nd\<lparr>bn_payload := Some p\<rparr> # rest) (rev key) None"
    using frontier_leaf [of data m "bn_children b" nd rest "rev key" p] ns(2) nd by simp
  moreover have "\<forall>q\<in>ran (m(key \<mapsto> p)). payload_fits q" using fits by (auto simp: ran_def)
  moreover have "length rest + 1 = length key - l + length (stack b)" using ns(3) nd by simp
  ultimately show ?thesis
    using fr(1,2) n ns(1) nd unfolding building_def by (auto simp: set_leaf_def intro!: exI [of _ "[]"])
qed

lemma add_spec:
  assumes inv: "builder_inv base m b n" and order: "has_keys b \<Longrightarrow> prev_key b < key" and fits: "payload_fits p"
    and room: "n + NODE_COST * Suc (length key) \<le> 2 ^ 40"
  shows "\<exists>b1. add b key p = Inr b1 \<and> builder_inv base (m(key \<mapsto> p)) b1 (n + NODE_COST * Suc (length key)) \<and> prev_key b1 = key \<and> has_keys b1"
proof -
  define c where c: "c = (if length key > key_capacity b then b\<lparr>key_capacity := length key\<rparr> else b)"
  define l where l: "l = (if has_keys b then common_prefix_len (prev_key b) key else 0)"
  let ?n = "n + NODE_COST * Suc (length key)"
  have same: "sink c = sink b" "write_pos c = write_pos b" "stack c = stack b" "bn_children c = bn_children b"
    "has_keys c = has_keys b" "prev_key c = prev_key b" by (simp_all add: c)
  obtain b0 data where b0: "(if \<not> has_keys b then Inr (push_branches [0] c) else complete_branches c (l + 1)) = Inr b0"
    and len: "l \<le> length key"
    and fr: "sink b0 = base @ data" "write_pos b0 = length data" "frontier data m (bn_children b0) (stack b0) (rev (take l key)) None"
    and free: "l < length key \<longrightarrow> (\<forall>k\<in>dom m. \<not> prefix (take (Suc l) key) k)"
    and size: "write_pos b0 + NODE_COST * (length key - l + length (stack b0)) \<le> ?n" and rn: "\<forall>p\<in>ran m. payload_fits p"
  proof (cases "has_keys b")
    case False
    then have st: "stack b = []" "bn_children b = []" "sink b = base" "write_pos b = 0" "m = Map.empty"
      using inv by (simp_all add: builder_inv_def)
    let ?b0 = "push_branches [0] c"
    have "stack ?b0 = [\<lparr>bn_transition = 0, children_start = 0, bn_payload = None\<rparr>]" "sink ?b0 = base" "write_pos ?b0 = 0" "bn_children ?b0 = []"
      using st same by (simp_all add: push_branches_def)
    then show thesis
      by (intro that [of ?b0 "[]"]) (use False st in \<open>simp_all add: branch_ok_def NODE_COST_def l\<close>)
  next
    case True
    let ?l = "common_prefix_len (prev_key b) key"
    note ko = key_order [OF order [OF True]]
    have bd: "building base m c (rev (prev_key b)) n" and le: "\<forall>k\<in>dom m. k \<le> prev_key b"
      using inv True same by (simp_all add: builder_inv_def building_def)
    obtain b0 where b0: "complete_branches c (Suc ?l) = Inr b0" "building base m b0 (drop (length (rev (prev_key b)) - ?l) (rev (prev_key b))) n"
      using complete_keep [OF bd, of ?l] ko(2) by auto
    have path: "drop (length (rev (prev_key b)) - ?l) (rev (prev_key b)) = rev (take ?l key)"
      using ko(3) by (simp add: rev_take [symmetric])
    obtain data where d: "sink b0 = base @ data" "write_pos b0 = length data" "frontier data m (bn_children b0) (stack b0) (rev (take ?l key)) None"
      and sz: "write_pos b0 + NODE_COST * length (stack b0) \<le> n" and rn: "\<forall>p\<in>ran m. payload_fits p"
      using b0(2) path by (auto simp: building_def)
    have "write_pos b0 + NODE_COST * (length key - ?l + length (stack b0)) \<le> ?n"
    proof -
      have "NODE_COST * (length key - ?l) \<le> NODE_COST * Suc (length key)" by (rule mult_le_mono2) simp
      then show ?thesis using sz by (simp add: distrib_left)
    qed
    then show thesis
      by (intro that [of b0 data]) (use True b0(1) ko(1,4) le d rn in \<open>auto simp: l\<close>)
  qed
  let ?b1 = "set_leaf p (push_branches (drop l key) b0)"
  have "building base (m(key \<mapsto> p)) ?b1 (rev key) ?n"
    by (rule extend_path [OF fr len free rn fits size room])
  moreover have "k \<le> key" if "k \<in> dom m" for k
  proof (cases "has_keys b")
    case True
    then have "k \<le> prev_key b" using inv that by (simp add: builder_inv_def)
    then show ?thesis using order [OF True] by simp
  next
    case False
    then show ?thesis using inv that by (simp add: builder_inv_def)
  qed
  ultimately have "builder_inv base (m(key \<mapsto> p)) (?b1\<lparr>prev_key := key, has_keys := True\<rparr>) ?n"
    by (auto simp: builder_inv_def building_def)
  moreover have "add b key p = Inr (?b1\<lparr>prev_key := key, has_keys := True\<rparr>)"
  proof -
    have "\<not> (has_keys b \<and> key \<le> prev_key b)" using order by auto
    then show ?thesis unfolding add_def Let_def c [symmetric] same l [symmetric] b0 by simp
  qed
  ultimately show ?thesis by (intro exI [of _ "?b1\<lparr>prev_key := key, has_keys := True\<rparr>"]) simp
qed

definition trie_budget :: "(bytes \<times> trie_payload) list \<Rightarrow> nat" where
  "trie_budget entries = NODE_COST * sum_list (map (\<lambda>(key, _). Suc (length key)) entries)"

lemma add_all_spec:
  assumes "builder_inv base m b n" "sorted_wrt (<) (map fst entries)" "has_keys b \<Longrightarrow> \<forall>k\<in>fst ` set entries. prev_key b < k"
    "\<forall>(k, p)\<in>set entries. payload_fits p" "n + trie_budget entries \<le> 2 ^ 40"
  shows "\<exists>b1. add_all b entries = Inr b1 \<and> builder_inv base (m ++ map_of entries) b1 (n + trie_budget entries)
    \<and> (has_keys b \<or> entries \<noteq> [] \<longrightarrow> has_keys b1)"
  using assms
proof (induction entries arbitrary: m b n)
  case Nil
  then show ?case by (simp add: trie_budget_def)
next
  case (Cons e entries)
  obtain key p where e: "e = (key, p)" by fastforce
  have bud: "trie_budget (e # entries) = NODE_COST * Suc (length key) + trie_budget entries" by (simp add: trie_budget_def e distrib_left)
  obtain b1 where b1: "add b key p = Inr b1" "builder_inv base (m(key \<mapsto> p)) b1 (n + NODE_COST * Suc (length key))" "prev_key b1 = key" "has_keys b1"
    using add_spec [OF Cons.prems(1), of key p] Cons.prems(3-5) bud e by auto
  have "\<exists>b2. add_all b (e # entries) = Inr b2 \<and> builder_inv base (m(key \<mapsto> p) ++ map_of entries) b2 (n + NODE_COST * Suc (length key) + trie_budget entries)
    \<and> (has_keys b1 \<or> entries \<noteq> [] \<longrightarrow> has_keys b2)"
    unfolding e add_all.simps b1(1) sum.case by (rule Cons.IH [OF b1(2)]) (use Cons.prems(2,4,5) bud e b1(3) in \<open>auto\<close>)
  moreover have "m(key \<mapsto> p) ++ map_of entries = m ++ map_of (e # entries)"
  proof -
    have "key \<notin> dom (map_of entries)" using Cons.prems(2) e by (auto simp: dom_map_of_conv_image_fst)
    then show ?thesis by (simp add: e map_add_upd_left)
  qed
  ultimately show ?case using b1(4) unfolding bud add.assoc by metis
qed

text \<open>Building a trie, from the empty builder to the finished bytes.\<close>

definition build_trie :: "bytes \<Rightarrow> (bytes \<times> trie_payload) list \<Rightarrow> codec_error + bytes \<times> u64" where
  "build_trie base entries = (case add_all (with_sink base) entries of Inl e \<Rightarrow> Inl e | Inr b \<Rightarrow> finish_into b)"

text \<open>A builder with no open branch: a new one, and one whose trie is finished.\<close>

definition fresh :: "trie_builder \<Rightarrow> bool" where
  "fresh b \<longleftrightarrow> \<not> has_keys b \<and> stack b = [] \<and> bn_children b = [] \<and> write_pos b = 0 \<and> last_node_pos b = 0"

definition trie_input :: "(bytes \<times> trie_payload) list \<Rightarrow> bool" where
  "trie_input entries \<longleftrightarrow> sorted_wrt (<) (map fst entries) \<and> entries \<noteq> [] \<and> (\<forall>(k, p)\<in>set entries. payload_fits p) \<and> trie_budget entries \<le> 2 ^ 40"

lemma trie_round:
  assumes "fresh b" "trie_input entries"
  shows "\<exists>b1 b2 data root. add_all b entries = Inr b1 \<and> finish_trie b1 = Inr (b2, root) \<and> fresh b2 \<and> sink b2 = sink b @ data
    \<and> trie_at 0 data root (map_of entries) \<and> root < length data \<and> length data \<le> trie_budget entries"
proof -
  have "builder_inv (sink b) Map.empty b 0" using assms(1) by (simp add: builder_inv_def fresh_def)
  then obtain b1 where b1: "add_all b entries = Inr b1" "builder_inv (sink b) (map_of entries) b1 (trie_budget entries)" "has_keys b1"
    using add_all_spec [of "sink b" Map.empty b 0 entries] assms by (auto simp: fresh_def trie_input_def)
  then have "building (sink b) (map_of entries) b1 (rev (prev_key b1)) (trie_budget entries)" by (simp add: builder_inv_def)
  from complete_all [OF this] b1(1,3) show ?thesis by (auto simp: finish_trie_def fresh_def)
qed

lemma build_trie_spec:
  assumes "trie_input entries"
  shows "\<exists>data root. build_trie base entries = Inr (base @ data, root) \<and> trie_at 0 data root (map_of entries)"
proof -
  have "fresh (with_sink base)" "sink (with_sink base) = base" by (simp_all add: fresh_def with_sink_def)
  with trie_round [OF this(1) assms] show ?thesis by (auto simp: build_trie_def finish_into_def)
qed

text \<open>The answer of the index: the payload stored for the longest prefix of the key that some stored key extends.\<close>

definition trie_answer :: "(bytes \<times> trie_payload) list \<Rightarrow> bytes \<Rightarrow> trie_payload option" where
  "trie_answer entries key = map_of entries (last (filter (\<lambda>q. list_ex (\<lambda>(k, _). prefix q k) entries) (prefixes key)))"

lemma last_filter_prefixes:
  assumes "P []" "\<And>q r. prefix q r \<Longrightarrow> P r \<Longrightarrow> P q"
  shows "prefix (last (filter P (prefixes key))) key \<and> (\<forall>q. prefix q key \<longrightarrow> P q = prefix q (last (filter P (prefixes key))))"
proof (induction key rule: rev_induct)
  case (snoc c key)
  let ?l = "last (filter P (prefixes key))"
  have IH: "prefix ?l key" "P q = prefix q ?l" if "prefix q key" for q
    using conjunct1 [OF snoc] spec [OF conjunct2 [OF snoc], of q] that by simp_all
  show ?case
  proof (cases "P (key @ [c])")
    case True
    then have l: "last (filter P (prefixes (key @ [c]))) = key @ [c]" by (simp add: prefixes_snoc)
    show ?thesis unfolding l using assms(2) [OF _ True] by (intro conjI allI impI iffI) (assumption | rule prefix_order.order_refl)+
  next
    case False
    then have l: "last (filter P (prefixes (key @ [c]))) = ?l" by (simp add: prefixes_snoc)
    have le: "prefix ?l key" by (rule IH(1)) (rule prefix_order.order_refl)
    then have "\<not> prefix (key @ [c]) ?l" using prefix_length_le [OF le] prefix_length_le [of "key @ [c]" ?l] by auto
    then have "P q = prefix q ?l" if "prefix q (key @ [c])" for q
      using that False IH(2) [of q] by (cases "q = key @ [c]") simp_all
    then show ?thesis unfolding l using prefix_prefix [OF le] by (intro conjI allI impI) assumption
  qed
qed (use assms(1) in simp)

lemma walk_answer:
  assumes "entries \<noteq> []"
  shows "walk (map_of entries) key = trie_answer entries key"
proof -
  let ?P = "\<lambda>q. list_ex (\<lambda>(k, _). prefix q k) entries"
  let ?l = "last (filter ?P (prefixes key))"
  have P: "?P q \<longleftrightarrow> (\<exists>s. map_of entries (q @ s) \<noteq> None)" for q
  proof
    assume "?P q"
    then obtain k p where "(k, p) \<in> set entries" "prefix q k" by (auto simp: list_ex_iff)
    then obtain s where "k = q @ s" "k \<in> fst ` set entries" by (force simp: prefix_def)
    then show "\<exists>s. map_of entries (q @ s) \<noteq> None" by (auto simp: map_of_eq_None_iff)
  next
    assume "\<exists>s. map_of entries (q @ s) \<noteq> None"
    then obtain s p where "map_of entries (q @ s) = Some p" by auto
    then have "(q @ s, p) \<in> set entries" by (rule map_of_SomeD)
    then show "?P q" unfolding list_ex_iff by (rule bexI [rotated]) simp
  qed
  have e: "?P []" using assms by (cases entries) auto
  have mono: "?P q" if "prefix q r" "?P r" for q r
    using that(2) prefix_order.trans [OF that(1)] by (auto simp: list_ex_iff)
  note l = last_filter_prefixes [of ?P, OF e mono]
  show ?thesis unfolding trie_answer_def
  proof (rule walk_prefix)
    show "prefix ?l key" by (rule conjunct1 [OF l])
    show "(\<exists>s. map_of entries (q @ s) \<noteq> None) = prefix q ?l" if "prefix q key" for q
      unfolding P [symmetric] by (rule mp [OF spec [OF conjunct2 [OF l]] that])
  qed
qed

lemma lookup_trie:
  assumes "trie_at 0 data root (map_of entries)" "entries \<noteq> []"
  shows "lookup (slice_read_at (base @ data @ rest)) (Inr (length (base @ data @ rest))) (length base + root) key
    = Inr (stored (trie_answer entries key))"
  using slice_reader.lookup_trie_at [OF trie_at_append [OF trie_at_shift [OF assms(1), of base], of rest]] walk_answer [OF assms(2)]
  by (simp add: lookup_def)

lemma stored_answer:
  assumes "trie_answer entries key = Some p" "\<forall>(k, p)\<in>set entries. payload_fits p"
  shows "\<exists>pb bs. stored (trie_answer entries key) = Found pb bs \<and> decode_payload pb bs = Inr (tp_hash p, tp_position p)"
proof -
  have "payload_fits p" using assms by (auto simp: trie_answer_def dest!: map_of_SomeD)
  from payload_nibble_spec(5,6) [OF this surjective_pairing] show ?thesis using assms(1) by (simp add: stored_def)
qed

lemma lookup_payload_trie:
  assumes "trie_at 0 data root (map_of entries)" "entries \<noteq> []" "\<forall>(k, p)\<in>set entries. payload_fits p"
  shows "lookup_payload (slice_read_at (data @ rest)) (Inr (length (data @ rest))) root key
    = Inr (map_option (\<lambda>p. (tp_hash p, tp_position p)) (trie_answer entries key))"
proof (cases "trie_answer entries key")
  case None
  then show ?thesis using lookup_trie [OF assms(1,2), of "[]" rest key] by (simp add: lookup_payload_def stored_def)
next
  case (Some p)
  with stored_answer [OF Some assms(3)] lookup_trie [OF assms(1,2), of "[]" rest key] show ?thesis
    by (auto simp: lookup_payload_def)
qed

lemma answer_stored: "sorted_wrt (<) (map fst entries) \<Longrightarrow> (k, p) \<in> set entries \<Longrightarrow> trie_answer entries k = Some p"
proof -
  assume s: "sorted_wrt (<) (map fst entries)" and m: "(k, p) \<in> set entries"
  have "distinct (map fst entries)" using s by (simp add: strict_sorted_iff)
  then have "map_of entries k = Some p" using m by (rule map_of_is_SomeI)
  then show ?thesis using walk_stored [of "map_of entries" k p] walk_answer [of entries k] m by (cases entries) auto
qed

section \<open>Properties\<close>

text \<open>C2: Building a trie from keys in strictly increasing order, as long as the keys amount to less than about
  1.6 * 10^8 branches, never fails, and the bytes it appends to the sink answer every lookup: the stored payload
  for a stored key, and for any other key the payload of its longest prefix that a stored key extends.  Bytes that
  follow the trie in the file (the footer of an index) do not matter.\<close>

theorem trie_lookup_spec:
  assumes "sorted_wrt (<) (map fst entries)" "entries \<noteq> []" "\<forall>(k, p)\<in>set entries. payload_fits p" "trie_budget entries \<le> 2 ^ 40"
  shows "\<exists>data root. build_trie base entries = Inr (base @ data, root)
    \<and> (\<forall>rest key. lookup_payload (slice_read_at (data @ rest)) (Inr (length (data @ rest))) root key
         = Inr (map_option (\<lambda>p. (tp_hash p, tp_position p)) (trie_answer entries key)))
    \<and> (\<forall>k p. (k, p) \<in> set entries \<longrightarrow>
         lookup_payload (slice_read_at data) (Inr (length data)) root k = Inr (Some (tp_hash p, tp_position p)))"
proof -
  obtain data root where b: "build_trie base entries = Inr (base @ data, root)" "trie_at 0 data root (map_of entries)"
    using build_trie_spec [of entries] assms unfolding trie_input_def by blast
  note lk = lookup_payload_trie [OF b(2) assms(2,3)]
  show ?thesis
  proof (intro exI conjI allI impI)
    show "lookup_payload (slice_read_at data) (Inr (length data)) root k = Inr (Some (tp_hash p, tp_position p))" if "(k, p) \<in> set entries" for k p
      using lk [of "[]" k] answer_stored [OF assms(1) that] by simp
  qed (rule b(1) lk)+
qed

definition sample_entries :: "(bytes \<times> trie_payload) list" where
  "sample_entries = [([1, 2], \<lparr>tp_hash = None, tp_position = 5\<rparr>), ([1, 3], \<lparr>tp_hash = Some 9, tp_position = 300\<rparr>), ([4], \<lparr>tp_hash = Some 7, tp_position = - 1\<rparr>)]"

lemma sample_fits: "sorted_wrt (<) (map fst sample_entries)" "sample_entries \<noteq> []"
  "\<forall>(k, p)\<in>set sample_entries. payload_fits p" "trie_budget sample_entries \<le> 2 ^ 40"
proof -
  show "\<forall>(k, p)\<in>set sample_entries. payload_fits p"
  proof -
    have "length (encode_payload \<lparr>tp_hash = None, tp_position = 5\<rparr>) = 1" by code_simp
    then show ?thesis by (simp add: sample_entries_def payload_fits_def is_i64_def machine_consts)
  qed
qed (simp_all add: sample_entries_def trie_budget_def NODE_COST_def)

theorem trie_lookup_spec_witness:
  "\<exists>data root. build_trie [0, 0] sample_entries = Inr ([0, 0] @ data, root)
    \<and> lookup_payload (slice_read_at data) (Inr (length data)) root [1, 3] = Inr (Some (Some 9, 300))
    \<and> lookup_payload (slice_read_at data) (Inr (length data)) root [1, 5] = Inr None"
proof -
  obtain data root where b: "build_trie [0, 0] sample_entries = Inr ([0, 0] @ data, root)"
    and lk: "\<And>rest key. lookup_payload (slice_read_at (data @ rest)) (Inr (length (data @ rest))) root key
         = Inr (map_option (\<lambda>p. (tp_hash p, tp_position p)) (trie_answer sample_entries key))"
    and st: "\<And>k p. (k, p) \<in> set sample_entries \<Longrightarrow>
         lookup_payload (slice_read_at data) (Inr (length data)) root k = Inr (Some (tp_hash p, tp_position p))"
    using trie_lookup_spec [OF sample_fits, of "[0, 0]"] by blast
  have "trie_answer sample_entries [1, 5] = None" by code_simp
  then have "lookup_payload (slice_read_at data) (Inr (length data)) root [1, 5] = Inr None" using lk [of "[]" "[1, 5]"] by simp
  moreover have "lookup_payload (slice_read_at data) (Inr (length data)) root [1, 3] = Inr (Some (Some 9, 300))"
    using st [of "[1, 3]" "\<lparr>tp_hash = Some 9, tp_position = 300\<rparr>"] by (simp add: sample_entries_def)
  ultimately show ?thesis using b by blast
qed

text \<open>C26: In a finished trie no lookup meets a node that crosses a page: every node read lies, with its payload,
  inside one page of 4096 bytes of the trie.\<close>

theorem trie_pages:
  assumes "sorted_wrt (<) (map fst entries)" "entries \<noteq> []" "\<forall>(k, p)\<in>set entries. payload_fits p" "trie_budget entries \<le> 2 ^ 40"
  shows "\<exists>data root. build_trie base entries = Inr (base @ data, root)
    \<and> (\<forall>key. list_all (\<lambda>(pos, h). pos mod PAGE_SIZE + payload_position h + payload_size (payload_bits h) \<le> PAGE_SIZE)
         (visits (slice_read_at data) (length data) root key))"
proof -
  obtain data root where b: "build_trie base entries = Inr (base @ data, root)" "trie_at 0 data root (map_of entries)"
    using build_trie_spec [of entries] assms unfolding trie_input_def by blast
  then show ?thesis using slice_reader.visits_in_page [OF b(2)] by (auto simp: list_all_iff)
qed

theorem trie_pages_witness:
  "\<exists>data root. build_trie [] sample_entries = Inr (data, root)
    \<and> list_all (\<lambda>(pos, h). pos mod PAGE_SIZE + payload_position h + payload_size (payload_bits h) \<le> PAGE_SIZE)
         (visits (slice_read_at data) (length data) root [1, 3])"
  using trie_pages [OF sample_fits, of "[]"] by auto

end
