(* ===== verification/Partition_Index.thy ===== *)
theory Partition_Index
  imports Trie_Builder Byte_Comparable Bloom
begin

unbundle bit_operations_syntax

text \<open>
  The partition index of an SSTable (crate \<open>ferrosa-sstable\<close>): the part of \<open>writer.rs\<close> that registers a
  partition in the Bloom filter and in the trie of \<open>Partitions.db\<close> and that finishes this file, and its reader
  \<open>partition_index.rs\<close>.  \<open>index_writer\<close> has the fields of the writer these steps use; \<open>data_pos\<close> and
  \<open>row_index_pos\<close> are what the serialisation of the partition returned.
\<close>

section \<open>Definitions\<close>

definition FOOTER_SIZE :: u64 where "FOOTER_SIZE = 24"

datatype partition_lookup = RowIndex u64 | DataDirect u64 | PartitionNotFound

record partition_index =
  pi_root_pos :: u64
  pi_key_count :: u64
  smallest_key :: bytes
  largest_key :: bytes

definition read_short_length_prefixed :: "reader \<Rightarrow> u64 \<Rightarrow> codec_error + bytes \<times> u64" where
  "read_short_length_prefixed read_at pos =
     (case read_exact_at read_at 2 pos of
        Inl e \<Rightarrow> Inl e
      | Inr len_buf \<Rightarrow>
          let len = unat (of_be_bytes 0 len_buf :: u16); pos = pos + 2
          in case read_exact_at read_at len pos of Inl e \<Rightarrow> Inl e | Inr data \<Rightarrow> Inr (data, pos + len))"

definition partition_index_open :: "reader \<Rightarrow> codec_error + u64 \<Rightarrow> codec_error + partition_index" where
  "partition_index_open read_at len =
     (case len of
        Inl e \<Rightarrow> Inl e
      | Inr file_len \<Rightarrow>
          if file_len < FOOTER_SIZE then Inl InvalidFormat
          else case read_exact_at read_at 24 (file_len - FOOTER_SIZE) of
                 Inl e \<Rightarrow> Inl e
               | Inr footer_buf \<Rightarrow>
                   let key_bounds_offset = of_be_bytes 0 (take 8 footer_buf) :: 64 word;
                       key_count = of_be_bytes 0 (take 8 (drop 8 footer_buf)) :: 64 word;
                       root_pos = of_be_bytes 0 (take 8 (drop 16 footer_buf)) :: 64 word
                   in case read_short_length_prefixed read_at (unat key_bounds_offset) of
                        Inl e \<Rightarrow> Inl e
                      | Inr (smallest, bounds_pos) \<Rightarrow>
                          (case read_short_length_prefixed read_at bounds_pos of
                             Inl e \<Rightarrow> Inl e
                           | Inr (largest, _) \<Rightarrow>
                               Inr \<lparr>pi_root_pos = unat root_pos, pi_key_count = unat key_count,
                                 smallest_key = smallest, largest_key = largest\<rparr>))"

definition hash_byte :: "i64 \<Rightarrow> u8" where
  "hash_byte h2 = ucast (word_of_int h2 AND 0xFF :: 64 word)"

definition partition_index_lookup :: "reader \<Rightarrow> codec_error + u64 \<Rightarrow> partition_index \<Rightarrow> decorated_key \<Rightarrow> codec_error + partition_lookup" where
  "partition_index_lookup read_at len index key =
     (case lookup read_at len (pi_root_pos index) (encode key) of
        Inl e \<Rightarrow> Inl e
      | Inr NotFound \<Rightarrow> Inr PartitionNotFound
      | Inr (Found payload_pb payload_bytes) \<Rightarrow>
          (case decode_payload payload_pb payload_bytes of
             Inl e \<Rightarrow> Inl e
           | Inr (hash_opt, idxpos) \<Rightarrow>
               if (case hash_opt of Some hash \<Rightarrow> hash \<noteq> hash_byte (snd (filter_hash key)) | None \<Rightarrow> False)
               then Inr PartitionNotFound
               else if idxpos < 0 then Inr (DataDirect (unat (NOT (word_of_int idxpos) :: 64 word)))
               else Inr (RowIndex (unat (word_of_int idxpos :: 64 word)))))"

record index_writer =
  trie_of :: trie_builder
  bloom :: bloom_filter
  first_index_key :: "bytes option"
  last_index_key :: "bytes option"
  partition_count :: u64

definition index_writer_new :: "bloom_filter \<Rightarrow> index_writer" where
  "index_writer_new bf = \<lparr>trie_of = with_sink [], bloom = bf, first_index_key = None, last_index_key = None, partition_count = 0\<rparr>"

definition add_partition :: "index_writer \<Rightarrow> decorated_key \<Rightarrow> i64 \<Rightarrow> u64 option \<Rightarrow> codec_error + index_writer" where
  "add_partition w key data_pos row_index_pos =
     (let (h1, h2) = filter_hash key;
          encoded = encode key;
          idxpos = (case row_index_pos of None \<Rightarrow> sint (NOT (word_of_int data_pos) :: 64 word) | Some pos \<Rightarrow> sint (of_nat pos :: 64 word))
      in case add (trie_of w) encoded \<lparr>tp_hash = Some (hash_byte h2), tp_position = idxpos\<rparr> of
           Inl e \<Rightarrow> Inl e
         | Inr tb \<Rightarrow>
             Inr (w\<lparr>trie_of := tb, bloom := bloom_add (bloom w) h1 h2,
               first_index_key := (if first_index_key w = None then Some encoded else first_index_key w),
               last_index_key := Some encoded, partition_count := partition_count w + 1\<rparr>))"

fun add_partitions :: "index_writer \<Rightarrow> (decorated_key \<times> i64 \<times> u64 option) list \<Rightarrow> codec_error + index_writer" where
  "add_partitions w [] = Inr w"
| "add_partitions w ((key, data_pos, row_index_pos) # parts) =
     (case add_partition w key data_pos row_index_pos of Inl e \<Rightarrow> Inl e | Inr w \<Rightarrow> add_partitions w parts)"

definition build_partitions_db :: "trie_builder \<Rightarrow> bytes \<Rightarrow> bytes \<Rightarrow> u64 \<Rightarrow> codec_error + bytes" where
  "build_partitions_db tb first_key last_key n =
     (case finish_into tb of
        Inl e \<Rightarrow> Inl e
      | Inr (buf, root_pos) \<Rightarrow>
          let key_bounds_offset = length buf
          in Inr (buf @ be_bytes 2 (of_nat (length first_key) :: u16) @ first_key
               @ be_bytes 2 (of_nat (length last_key) :: u16) @ last_key
               @ be_bytes 8 (of_nat key_bounds_offset :: 64 word) @ be_bytes 8 (of_nat n :: 64 word)
               @ be_bytes 8 (of_nat root_pos :: 64 word)))"

text \<open>The two components of \<open>finish\<close> that hold the partition keys: \<open>Partitions.db\<close> and \<open>Filter.db\<close>.\<close>

definition finish_index :: "index_writer \<Rightarrow> codec_error + bytes \<times> bytes" where
  "finish_index w =
     (case build_partitions_db (trie_of w) (case first_index_key w of Some k \<Rightarrow> k | None \<Rightarrow> [])
             (case last_index_key w of Some k \<Rightarrow> k | None \<Rightarrow> []) (partition_count w) of
        Inl e \<Rightarrow> Inl e
      | Inr partitions \<Rightarrow> Inr (partitions, bloom_write (bloom w)))"

section \<open>Reading what the writer laid out\<close>

lemma read_short_written:
  assumes "length k < 2 ^ 16"
  shows "read_short_length_prefixed (slice_read_at (pre @ be_bytes 2 (of_nat (length k) :: u16) @ k @ post)) (length pre) = Inr (k, length pre + 2 + length k)"
proof -
  have u: "unat (of_nat (length k) :: u16) = length k" using assms by (simp add: unsigned_of_nat take_bit_nat_eq_self)
  have "read_exact_at (slice_read_at (pre @ be_bytes 2 (of_nat (length k) :: u16) @ k @ post)) 2 (length pre) = Inr (be_bytes 2 (of_nat (length k) :: u16))"
    by (rule read_slice) simp_all
  moreover have "read_exact_at (slice_read_at ((pre @ be_bytes 2 (of_nat (length k) :: u16)) @ k @ post)) (length k) (length pre + 2) = Inr k"
    by (rule read_slice) simp_all
  ultimately show ?thesis by (simp add: read_short_length_prefixed_def Let_def of_be_be_bytes_full u del: be_bytes_simps)
qed

text \<open>The file \<open>Partitions.db\<close> around a trie.\<close>

lemma open_partitions_db:
  fixes data first_key last_key :: bytes and n root :: nat
  defines "file \<equiv> data @ be_bytes 2 (of_nat (length first_key) :: u16) @ first_key
      @ be_bytes 2 (of_nat (length last_key) :: u16) @ last_key
      @ be_bytes 8 (of_nat (length data) :: 64 word) @ be_bytes 8 (of_nat n :: 64 word) @ be_bytes 8 (of_nat root :: 64 word)"
  assumes "length first_key < 2 ^ 16" "length last_key < 2 ^ 16" "length data < 2 ^ 64" "n < 2 ^ 64" "root < 2 ^ 64"
  shows "partition_index_open (slice_read_at file) (Inr (length file))
    = Inr \<lparr>pi_root_pos = root, pi_key_count = n, smallest_key = first_key, largest_key = last_key\<rparr>"
proof -
  let ?f = "be_bytes 8 (of_nat (length data) :: 64 word) @ be_bytes 8 (of_nat n :: 64 word) @ be_bytes 8 (of_nat root :: 64 word)"
  let ?body = "data @ be_bytes 2 (of_nat (length first_key) :: u16) @ first_key @ be_bytes 2 (of_nat (length last_key) :: u16) @ last_key"
  have layout: "file = ?body @ ?f @ []" by (simp add: file_def)
  have len: "length file = length ?body + 24" by (simp add: layout)
  have "read_exact_at (slice_read_at (?body @ ?f @ [])) 24 (length file - 24) = Inr ?f" by (rule read_slice) (simp_all add: len)
  then have foot: "read_exact_at (slice_read_at file) 24 (length file - FOOTER_SIZE) = Inr ?f" by (simp only: layout [symmetric] FOOTER_SIZE_def)
  have u: "unat (of_nat k :: 64 word) = k" if "k < 2 ^ 64" for k using that by (simp add: unsigned_of_nat take_bit_nat_eq_self)
  have w: "of_be_bytes 0 (take 8 ?f) = (of_nat (length data) :: 64 word)" "of_be_bytes 0 (take 8 (drop 8 ?f)) = (of_nat n :: 64 word)"
    "of_be_bytes 0 (take 8 (drop 16 ?f)) = (of_nat root :: 64 word)"
    by (simp_all add: of_be_be_bytes_full del: be_bytes_simps)
  have small: "read_short_length_prefixed (slice_read_at file) (length data) = Inr (first_key, length data + 2 + length first_key)"
    using read_short_written [OF assms(2), of data "be_bytes 2 (of_nat (length last_key) :: u16) @ last_key @ ?f"] by (simp add: file_def)
  have large: "read_short_length_prefixed (slice_read_at file) (length data + 2 + length first_key)
      = Inr (last_key, length data + 2 + length first_key + 2 + length last_key)"
    using read_short_written [OF assms(3), of "data @ be_bytes 2 (of_nat (length first_key) :: u16) @ first_key" ?f] by (simp add: file_def add.assoc)
  show ?thesis
    using foot small large u assms(4-6) len unfolding partition_index_open_def sum.case w Let_def
    by (simp add: FOOTER_SIZE_def of_be_be_bytes_full del: be_bytes_simps)
qed

section \<open>Writing all partitions\<close>

definition idx_payload :: "decorated_key \<Rightarrow> i64 \<Rightarrow> u64 option \<Rightarrow> trie_payload" where
  "idx_payload key data_pos row_index_pos = \<lparr>tp_hash = Some (hash_byte (snd (filter_hash key))),
     tp_position = (case row_index_pos of None \<Rightarrow> sint (NOT (word_of_int data_pos) :: 64 word) | Some pos \<Rightarrow> sint (of_nat pos :: 64 word))\<rparr>"

definition index_entries :: "(decorated_key \<times> i64 \<times> u64 option) list \<Rightarrow> (bytes \<times> trie_payload) list" where
  "index_entries parts = map (\<lambda>(key, data_pos, row_index_pos). (encode key, idx_payload key data_pos row_index_pos)) parts"

lemma add_partitions_spec:
  "add_all (trie_of w) (index_entries parts) = Inr tb \<Longrightarrow> add_partitions w parts =
     Inr (w\<lparr>trie_of := tb, bloom := foldl (\<lambda>bf (h1, h2). bloom_add bf h1 h2) (bloom w) (map (\<lambda>(key, _). filter_hash key) parts),
       first_index_key := (if parts = [] \<or> first_index_key w \<noteq> None then first_index_key w else Some (encode (fst (hd parts)))),
       last_index_key := (if parts = [] then last_index_key w else Some (encode (fst (last parts)))),
       partition_count := partition_count w + length parts\<rparr>)"
proof (induction parts arbitrary: w)
  case Nil
  then show ?case by (simp add: index_entries_def)
next
  case (Cons part parts)
  obtain key d r where part: "part = (key, d, r)" by (cases part) auto
  obtain h1 h2 where h: "filter_hash key = (h1, h2)" by fastforce
  obtain t1 where t1: "add (trie_of w) (encode key) (idx_payload key d r) = Inr t1" "add_all t1 (index_entries parts) = Inr tb"
    using Cons.prems by (auto simp: part index_entries_def split: sum.splits)
  let ?w = "w\<lparr>trie_of := t1, bloom := bloom_add (bloom w) h1 h2,
      first_index_key := (if first_index_key w = None then Some (encode key) else first_index_key w),
      last_index_key := Some (encode key), partition_count := partition_count w + 1\<rparr>"
  have "add_partition w key d r = Inr ?w"
    using t1(1) by (simp add: add_partition_def idx_payload_def h Let_def split del: if_split)
  then show ?case using Cons.IH [of ?w] t1(2) by (simp add: part h)
qed

text \<open>What the index can hold: partitions in strictly increasing decorated-key order, no key a continuation by a zero
  byte of one that ends in a zero byte, positions and encoded keys that fit their fields.\<close>

definition partition_input :: "(decorated_key \<times> i64 \<times> u64 option) list \<Rightarrow> bool" where
  "partition_input parts \<longleftrightarrow> parts \<noteq> []
     \<and> sorted_wrt (\<lambda>(a, _) (b, _). decorated_key_cmp a b = Less \<and> \<not> zero_extension (dk_key a) (dk_key b)) parts
     \<and> list_all (\<lambda>(key, data_pos, row_index_pos). is_i64 (dk_token key) \<and> 0 \<le> data_pos \<and> data_pos \<le> i64_MAX
         \<and> (case row_index_pos of None \<Rightarrow> True | Some pos \<Rightarrow> int pos \<le> i64_MAX) \<and> length (encode key) < 2 ^ 16) parts
     \<and> trie_budget (index_entries parts) \<le> 2 ^ 40"

lemma index_entries_input:
  assumes "partition_input parts"
  shows "trie_input (index_entries parts)"
proof -
  have each: "is_i64 (dk_token (fst x))" if "x \<in> set parts" for x
    using assms that by (cases x) (auto simp: partition_input_def list_all_iff)
  have "sorted_wrt (\<lambda>x y. encode (fst x) < encode (fst y)) parts"
  proof (rule sorted_wrt_mono_rel)
    show "sorted_wrt (\<lambda>(a, _) (b, _). decorated_key_cmp a b = Less \<and> \<not> zero_extension (dk_key a) (dk_key b)) parts"
      using assms by (simp add: partition_input_def)
    fix x y assume xy: "x \<in> set parts" "y \<in> set parts"
      "(\<lambda>(a, _) (b, _). decorated_key_cmp a b = Less \<and> \<not> zero_extension (dk_key a) (dk_key b)) x y"
    show "encode (fst x) < encode (fst y)"
      by (rule encode_order [OF each [OF xy(1)] each [OF xy(2)]]) (use xy(3) in \<open>auto split: prod.splits\<close>)
  qed
  then have "sorted_wrt (<) (map fst (index_entries parts))"
    by (simp add: index_entries_def sorted_wrt_map case_prod_unfold)
  moreover have "payload_fits (idx_payload key d r)" for key d r
  proof -
    have "is_i64 (sint w)" for w :: "64 word"
      using sint_greater_eq [of w] sint_lt [of w] by (simp add: is_i64_def machine_consts)
    then show ?thesis by (simp add: payload_fits_def idx_payload_def split: option.split)
  qed
  ultimately show ?thesis using assms by (auto simp: trie_input_def index_entries_def partition_input_def)
qed

lemma data_direct:
  assumes "0 \<le> d" "d \<le> i64_MAX"
  shows "sint (NOT (word_of_int d) :: 64 word) < 0" "unat (NOT (word_of_int (sint (NOT (word_of_int d) :: 64 word))) :: 64 word) = nat d"
proof -
  have "sint (NOT (word_of_int d) :: 64 word) = sint (word_of_int (- d - 1) :: 64 word)" by (simp add: not_eq_complement)
  also have "\<dots> = - d - 1" by (rule sint_of_i64) (use assms in \<open>simp add: is_i64_def machine_consts\<close>)
  finally show "sint (NOT (word_of_int d) :: 64 word) < 0" using assms(1) by simp
  have "unat (word_of_int d :: 64 word) = nat d" using assms by (simp add: unat_eq_nat_uint uint_word_of_int machine_consts)
  then show "unat (NOT (word_of_int (sint (NOT (word_of_int d) :: 64 word))) :: 64 word) = nat d" by simp
qed

lemma row_index_position:
  assumes "int pos \<le> i64_MAX"
  shows "\<not> sint (of_nat pos :: 64 word) < 0" "unat (word_of_int (sint (of_nat pos :: 64 word)) :: 64 word) = pos"
proof -
  have "sint (word_of_int (int pos) :: 64 word) = int pos" by (rule sint_of_i64) (use assms in \<open>simp add: is_i64_def machine_consts\<close>)
  then show "\<not> sint (of_nat pos :: 64 word) < 0" by simp
  show "unat (word_of_int (sint (of_nat pos :: 64 word)) :: 64 word) = pos"
    using assms by (simp add: unsigned_of_nat take_bit_nat_eq_self machine_consts)
qed

lemma partition_index_lookup_written:
  assumes "partition_input parts"
  shows "\<exists>w partitions filter_db index. add_partitions (index_writer_new bf) parts = Inr w \<and> finish_index w = Inr (partitions, filter_db)
    \<and> partition_index_open (slice_read_at partitions) (Inr (length partitions)) = Inr index
    \<and> pi_key_count index = length parts \<and> smallest_key index = encode (fst (hd parts)) \<and> largest_key index = encode (fst (last parts))
    \<and> (\<forall>key data_pos row_index_pos. (key, data_pos, row_index_pos) \<in> set parts \<longrightarrow>
         partition_index_lookup (slice_read_at partitions) (Inr (length partitions)) index key
           = Inr (case row_index_pos of Some pos \<Rightarrow> RowIndex pos | None \<Rightarrow> DataDirect (nat data_pos))
         \<and> bloom_is_present (bloom w) (fst (filter_hash key)) (snd (filter_hash key)))"
proof -
  let ?es = "index_entries parts" let ?w0 = "index_writer_new bf"
  have inp: "trie_input ?es" by (rule index_entries_input [OF assms])
  have fresh: "fresh (trie_of ?w0)" "sink (trie_of ?w0) = []" by (simp_all add: index_writer_new_def fresh_def with_sink_def)
  obtain tb b2 data root where tb: "add_all (trie_of ?w0) ?es = Inr tb" "finish_trie tb = Inr (b2, root)" "sink b2 = data"
      "trie_at 0 data root (map_of ?es)" "root < length data" "length data \<le> trie_budget ?es"
    using trie_round [OF fresh(1) inp] fresh(2) by auto
  let ?first = "encode (fst (hd parts))" let ?last = "encode (fst (last parts))"
  let ?bounds = "be_bytes 2 (of_nat (length ?first) :: u16) @ ?first @ be_bytes 2 (of_nat (length ?last) :: u16) @ ?last
    @ be_bytes 8 (of_nat (length data) :: 64 word) @ be_bytes 8 (of_nat (length parts) :: 64 word) @ be_bytes 8 (of_nat root :: 64 word)"
  let ?file = "data @ ?bounds"
  let ?index = "\<lparr>pi_root_pos = root, pi_key_count = length parts, smallest_key = ?first, largest_key = ?last\<rparr>"
  let ?bf = "foldl (\<lambda>bf (h1, h2). bloom_add bf h1 h2) bf (map (\<lambda>(key, _). filter_hash key) parts)"
  have ne: "parts \<noteq> []" using assms by (simp add: partition_input_def)
  obtain w where w: "add_partitions ?w0 parts = Inr w" "trie_of w = tb" "bloom w = ?bf" "first_index_key w = Some ?first"
      "last_index_key w = Some ?last" "partition_count w = length parts"
    using add_partitions_spec [OF tb(1)] ne
    by (intro that [of "\<lparr>trie_of = tb, bloom = ?bf, first_index_key = Some ?first, last_index_key = Some ?last, partition_count = length parts\<rparr>"])
      (simp_all add: index_writer_new_def)
  have done1: "finish_index w = Inr (?file, bloom_write ?bf)"
    using tb(2,3) w by (simp add: finish_index_def build_partitions_db_def finish_into_def Let_def del: be_bytes_simps)
  have each: "0 \<le> d" "d \<le> i64_MAX" "length (encode key) < 2 ^ 16" "r = Some pos \<Longrightarrow> int pos \<le> i64_MAX" if "(key, d, r) \<in> set parts" for key d r pos
    using assms that by (auto simp: partition_input_def list_all_iff)
  have short: "length ?first < 2 ^ 16" "length ?last < 2 ^ 16"
    using each(3) [of "fst (hd parts)" "fst (snd (hd parts))" "snd (snd (hd parts))"]
      each(3) [of "fst (last parts)" "fst (snd (last parts))" "snd (snd (last parts))"] ne by simp_all
  have "length parts \<le> trie_budget ?es"
  proof -
    have "length es \<le> trie_budget es" for es by (induction es) (auto simp: trie_budget_def NODE_COST_def)
    from this [of ?es] show ?thesis by (simp add: index_entries_def)
  qed
  then have size: "length data < 2 ^ 64" "length parts < 2 ^ 64" "root < 2 ^ 64"
    using tb(5,6) assms by (simp_all add: partition_input_def)
  have opened: "partition_index_open (slice_read_at ?file) (Inr (length ?file)) = Inr ?index"
    by (rule open_partitions_db [OF short size])
  have found: "partition_index_lookup (slice_read_at ?file) (Inr (length ?file)) ?index key
      = Inr (case r of Some pos \<Rightarrow> RowIndex pos | None \<Rightarrow> DataDirect (nat d))" if mem: "(key, d, r) \<in> set parts" for key d r
  proof -
    have "(encode key, idx_payload key d r) \<in> set ?es" using mem by (force simp: index_entries_def)
    then have ans: "trie_answer ?es (encode key) = Some (idx_payload key d r)"
      using answer_stored inp by (simp add: trie_input_def)
    obtain pb bs where pb: "stored (trie_answer ?es (encode key)) = Found pb bs"
        "decode_payload pb bs = Inr (tp_hash (idx_payload key d r), tp_position (idx_payload key d r))"
      using stored_answer [OF ans] inp by (auto simp: trie_input_def)
    have "lookup (slice_read_at ?file) (Inr (length ?file)) root (encode key) = Inr (Found pb bs)"
      using lookup_trie [OF tb(4), of "[]" ?bounds "encode key"] inp pb(1) by (simp add: trie_input_def del: be_bytes_simps)
    then show ?thesis
      using pb(2) each [OF mem] data_direct [of d] row_index_position
      by (cases r) (simp_all add: partition_index_lookup_def idx_payload_def del: be_bytes_simps)
  qed
  have present: "bloom_is_present ?bf (fst (filter_hash key)) (snd (filter_hash key))" if "(key, d, r) \<in> set parts" for key d r
    by (rule bloom_adds_present) (use that in force)
  show ?thesis
    using w(1,3) done1 opened found present by (intro exI [of _ w] exI [of _ ?file] exI [of _ "bloom_write ?bf"] exI [of _ ?index]) auto
qed

section \<open>Properties\<close>


definition sample_parts :: "(decorated_key \<times> i64 \<times> u64 option) list" where
  "sample_parts = [(\<lparr>dk_token = - 5, dk_key = [1, 0]\<rparr>, 0, None), (\<lparr>dk_token = 7, dk_key = [2]\<rparr>, 40, Some 9)]"

lemma sample_parts_input: "partition_input sample_parts"
proof -
  have len: "length (encode \<lparr>dk_token = - 5, dk_key = [1, 0]\<rparr>) < 20" "length (encode \<lparr>dk_token = 7, dk_key = [2]\<rparr>) < 20" by code_simp+
  then have "length (encode \<lparr>dk_token = - 5, dk_key = [1, 0]\<rparr>) < 2 ^ 16" "length (encode \<lparr>dk_token = 7, dk_key = [2]\<rparr>) < 2 ^ 16" by simp_all
  then show ?thesis
    using len by (simp add: partition_input_def sample_parts_def is_i64_def machine_consts decorated_key_cmp_def cmp_def zero_extension_def
        trie_budget_def index_entries_def NODE_COST_def)
qed


end
