(* ===== verification/Row_Index.thy ===== *)
theory Row_Index
  imports Trie_Builder
begin

unbundle bit_operations_syntax

text \<open>
  The row index of an SSTable, \<open>Rows.db\<close> (crate \<open>ferrosa-sstable\<close>): for every indexed partition a trie from
  clustering keys to row offsets and a footer behind it.  The writer's part is the row-index code of
  \<open>serialize_partition\<close> in \<open>writer.rs\<close>, which reuses one trie builder for all partitions of the file; the reader is
  \<open>row_index.rs\<close>.  The offsets of the rows are what the serialisation of the rows produced.
\<close>

section \<open>Definitions\<close>

record row_index_entry =
  ri_partition_key :: bytes
  ri_data_position :: u64
  ri_trie_root :: u64
  ri_block_count :: u32
  ri_local_deletion_time :: i32
  ri_marked_for_delete_at :: i64

definition FOOTER_FIXED_SIZE :: usize where "FOOTER_FIXED_SIZE = 8 + 8 + 4 + 4 + 8"

definition read_entry :: "reader \<Rightarrow> u64 \<Rightarrow> codec_error + row_index_entry" where
  "read_entry read_at offset =
     (case read_exact_at read_at 2 offset of
        Inl e \<Rightarrow> Inl e
      | Inr len_buf \<Rightarrow>
          let pk_len = unat (of_be_bytes 0 len_buf :: u16)
          in case read_exact_at read_at (pk_len + FOOTER_FIXED_SIZE) (offset + 2) of
               Inl e \<Rightarrow> Inl e
             | Inr buf \<Rightarrow>
                 let fixed = drop pk_len buf
                 in Inr \<lparr>ri_partition_key = take pk_len buf,
                      ri_data_position = unat (of_be_bytes 0 (take 8 fixed) :: 64 word),
                      ri_trie_root = unat (of_be_bytes 0 (take 8 (drop 8 fixed)) :: 64 word),
                      ri_block_count = unat (of_be_bytes 0 (take 4 (drop 16 fixed)) :: 32 word),
                      ri_local_deletion_time = sint (of_be_bytes 0 (take 4 (drop 20 fixed)) :: 32 word),
                      ri_marked_for_delete_at = sint (of_be_bytes 0 (take 8 (drop 24 fixed)) :: 64 word)\<rparr>)"

fun row_index_open :: "reader \<Rightarrow> u64 list \<Rightarrow> codec_error + row_index_entry list" where
  "row_index_open read_at [] = Inr []"
| "row_index_open read_at (offset # entry_offsets) =
     (case read_entry read_at offset of
        Inl e \<Rightarrow> Inl e
      | Inr entry \<Rightarrow>
          (case row_index_open read_at entry_offsets of Inl e \<Rightarrow> Inl e | Inr entries \<Rightarrow> Inr (entry # entries)))"

definition lookup_clustering_in_entry :: "reader \<Rightarrow> codec_error + u64 \<Rightarrow> row_index_entry \<Rightarrow> bytes \<Rightarrow> codec_error + u64 option" where
  "lookup_clustering_in_entry read_at len entry clustering_key =
     (case lookup read_at len (ri_trie_root entry) clustering_key of
        Inl e \<Rightarrow> Inl e
      | Inr NotFound \<Rightarrow> Inr None
      | Inr (Found payload_pb payload_bytes) \<Rightarrow>
          (case decode_payload payload_pb payload_bytes of
             Inl e \<Rightarrow> Inl e
           | Inr (_, offset) \<Rightarrow> Inr (Some (unat (word_of_int offset :: 64 word)))))"

definition lookup_clustering :: "reader \<Rightarrow> codec_error + u64 \<Rightarrow> row_index_entry list \<Rightarrow> usize \<Rightarrow> bytes \<Rightarrow> codec_error + u64 option" where
  "lookup_clustering read_at len entries entry_idx clustering_key =
     (if entry_idx < length entries then lookup_clustering_in_entry read_at len (entries ! entry_idx) clustering_key
      else Inl InvalidData)"

definition serialize_entry :: "row_index_entry \<Rightarrow> bytes" where
  "serialize_entry entry =
     be_bytes 2 (of_nat (length (ri_partition_key entry)) :: u16) @ ri_partition_key entry
     @ be_bytes 8 (of_nat (ri_data_position entry) :: 64 word) @ be_bytes 8 (of_nat (ri_trie_root entry) :: 64 word)
     @ be_bytes 4 (of_nat (ri_block_count entry) :: 32 word) @ be_bytes 4 (word_of_int (ri_local_deletion_time entry) :: 32 word)
     @ be_bytes 8 (word_of_int (ri_marked_for_delete_at entry) :: 64 word)"

text \<open>The row-index steps of \<open>serialize_partition\<close> for a partition large enough to be indexed: every row's clustering
  goes into the trie with its offset, then the trie is closed and the footer follows.  The result is the builder
  and the position of the footer.\<close>

definition write_row_index :: "trie_builder \<Rightarrow> bytes \<Rightarrow> u64 \<Rightarrow> (bytes \<times> u64) list \<Rightarrow> u32 \<Rightarrow> i64 \<Rightarrow> codec_error + trie_builder \<times> u64" where
  "write_row_index row_trie key_bytes data_pos rows local_deletion_time marked_for_delete_at =
     (let row_index_start = length (sink row_trie)
      in case add_all row_trie (map (\<lambda>(clustering, row_offset). (clustering, \<lparr>tp_hash = None, tp_position = sint (of_nat row_offset :: 64 word)\<rparr>)) rows) of
           Inl e \<Rightarrow> Inl e
         | Inr row_trie \<Rightarrow>
             (case finish_trie row_trie of
                Inl e \<Rightarrow> Inl e
              | Inr (row_trie, root_pos) \<Rightarrow>
                  let footer_offset = length (sink row_trie)
                  in Inr (row_trie\<lparr>sink := sink row_trie @ be_bytes 2 (of_nat (length key_bytes) :: u16) @ key_bytes
                       @ be_bytes 8 (of_nat data_pos :: 64 word) @ be_bytes 8 (of_nat (row_index_start + root_pos) :: 64 word)
                       @ be_bytes 4 (of_nat (length rows) :: 32 word) @ be_bytes 4 (of_nat local_deletion_time :: 32 word)
                       @ be_bytes 8 (word_of_int marked_for_delete_at :: 64 word)\<rparr>, footer_offset)))"

section \<open>Entries\<close>

definition entry_fits :: "row_index_entry \<Rightarrow> bool" where
  "entry_fits entry \<longleftrightarrow> length (ri_partition_key entry) < 2 ^ 16 \<and> ri_data_position entry < 2 ^ 64 \<and> ri_trie_root entry < 2 ^ 64
     \<and> ri_block_count entry < 2 ^ 32 \<and> i32_MIN \<le> ri_local_deletion_time entry \<and> ri_local_deletion_time entry \<le> i32_MAX
     \<and> is_i64 (ri_marked_for_delete_at entry)"

lemma sint_32: "i32_MIN \<le> x \<Longrightarrow> x \<le> i32_MAX \<Longrightarrow> sint (word_of_int x :: 32 word) = x"
  unfolding machine_consts by transfer (simp add: signed_take_bit_int_eq_self)

lemma read_entry_serialized:
  assumes "entry_fits entry"
  shows "read_entry (slice_read_at (pre @ serialize_entry entry @ post)) (length pre) = Inr entry"
proof -
  let ?k = "ri_partition_key entry" let ?len = "be_bytes 2 (of_nat (length ?k) :: u16)"
  let ?fixed = "be_bytes 8 (of_nat (ri_data_position entry) :: 64 word) @ be_bytes 8 (of_nat (ri_trie_root entry) :: 64 word)
     @ be_bytes 4 (of_nat (ri_block_count entry) :: 32 word) @ be_bytes 4 (word_of_int (ri_local_deletion_time entry) :: 32 word)
     @ be_bytes 8 (word_of_int (ri_marked_for_delete_at entry) :: 64 word)"
  have ser: "serialize_entry entry = ?len @ ?k @ ?fixed" by (simp add: serialize_entry_def)
  have u: "unat (of_nat (length ?k) :: u16) = length ?k" using assms by (simp add: entry_fits_def unsigned_of_nat take_bit_nat_eq_self)
  have "read_exact_at (slice_read_at (pre @ ?len @ (?k @ ?fixed) @ post)) 2 (length pre) = Inr ?len" by (rule read_slice) simp_all
  moreover have "read_exact_at (slice_read_at ((pre @ ?len) @ (?k @ ?fixed) @ post)) (length ?k + FOOTER_FIXED_SIZE) (length pre + 2) = Inr (?k @ ?fixed)"
    by (rule read_slice) (simp_all add: FOOTER_FIXED_SIZE_def)
  ultimately show ?thesis
    using assms unfolding ser
    by (simp add: read_entry_def of_be_be_bytes_full u entry_fits_def unsigned_of_nat take_bit_nat_eq_self sint_32 sint_of_i64 del: be_bytes_simps)
qed

section \<open>Properties\<close>

definition row_entries :: "(bytes \<times> u64) list \<Rightarrow> (bytes \<times> trie_payload) list" where
  "row_entries rows = map (\<lambda>(clustering, row_offset). (clustering, \<lparr>tp_hash = None, tp_position = sint (of_nat row_offset :: 64 word)\<rparr>)) rows"

text \<open>What the row index of one partition can hold: rows in strictly increasing byte order of their clustering, offsets
  of at most 55 bits.\<close>

definition row_input :: "(bytes \<times> u64) list \<Rightarrow> bool" where
  "row_input rows \<longleftrightarrow> rows \<noteq> [] \<and> sorted_wrt (<) (map fst rows) \<and> list_all (\<lambda>(_, row_offset). row_offset < 2 ^ 55) rows
     \<and> trie_budget (row_entries rows) \<le> 2 ^ 40"

lemma small_offset: "off < 2 ^ 55 \<Longrightarrow> sint (of_nat off :: 64 word) = int off"
  using sint_of_i64 [of "int off"] by (simp add: is_i64_def machine_consts)

lemma row_entries_input: "row_input rows \<Longrightarrow> trie_input (row_entries rows)"
proof -
  assume a: "row_input rows"
  have "payload_fits \<lparr>tp_hash = None, tp_position = sint (of_nat off :: 64 word)\<rparr>" if "(c, off) \<in> set rows" for c off
  proof -
    have "off < 2 ^ 55" using a that by (auto simp: row_input_def list_all_iff)
    then show ?thesis unfolding small_offset [OF \<open>off < 2 ^ 55\<close>] by (intro offset_fits) simp_all
  qed
  then have "\<forall>(k, p)\<in>set (row_entries rows). payload_fits p" by (auto simp: row_entries_def)
  moreover have "map fst (row_entries rows) = map fst rows" by (simp add: row_entries_def case_prod_unfold comp_def)
  moreover have "row_entries rows \<noteq> []" using a by (simp add: row_input_def row_entries_def)
  ultimately show ?thesis using a unfolding trie_input_def row_input_def by simp
qed

lemma write_row_index_spec:
  assumes "fresh row_trie" "row_input rows" "length key_bytes < 2 ^ 16" "data_pos < 2 ^ 64" "length rows < 2 ^ 32"
    "local_deletion_time < 2 ^ 32" "is_i64 marked_for_delete_at" "length (sink row_trie) + 2 ^ 40 \<le> 2 ^ 64"
  shows "\<exists>row_trie' footer. write_row_index row_trie key_bytes data_pos rows local_deletion_time marked_for_delete_at = Inr (row_trie', footer)
    \<and> fresh row_trie' \<and> prefix (sink row_trie) (sink row_trie')
    \<and> length (sink row_trie') \<le> length (sink row_trie) + trie_budget (row_entries rows) + 34 + length key_bytes \<and> footer \<le> length (sink row_trie')
    \<and> (\<forall>rest. \<exists>entry. read_entry (slice_read_at (sink row_trie' @ rest)) footer = Inr entry
         \<and> ri_partition_key entry = key_bytes \<and> ri_data_position entry = data_pos \<and> ri_block_count entry = length rows
         \<and> ri_local_deletion_time entry = sint (of_nat local_deletion_time :: 32 word) \<and> ri_marked_for_delete_at entry = marked_for_delete_at
         \<and> (\<forall>clustering row_offset. (clustering, row_offset) \<in> set rows \<longrightarrow>
              lookup_clustering_in_entry (slice_read_at (sink row_trie' @ rest)) (Inr (length (sink row_trie' @ rest))) entry clustering
                = Inr (Some row_offset)))"
proof -
  let ?es = "row_entries rows" let ?base = "sink row_trie"
  have inp: "trie_input ?es" by (rule row_entries_input [OF assms(2)])
  obtain b1 b2 data root where tb: "add_all row_trie ?es = Inr b1" "finish_trie b1 = Inr (b2, root)" "fresh b2" "sink b2 = ?base @ data"
      "trie_at 0 data root (map_of ?es)" "root < length data" "length data \<le> trie_budget ?es"
    using trie_round [OF assms(1) inp] by blast
  let ?entry = "\<lparr>ri_partition_key = key_bytes, ri_data_position = data_pos, ri_trie_root = length ?base + root, ri_block_count = length rows,
    ri_local_deletion_time = sint (of_nat local_deletion_time :: 32 word), ri_marked_for_delete_at = marked_for_delete_at\<rparr>"
  let ?t = "b2\<lparr>sink := sink b2 @ serialize_entry ?entry\<rparr>"
  have wr: "write_row_index row_trie key_bytes data_pos rows local_deletion_time marked_for_delete_at = Inr (?t, length (sink b2))"
    using tb(1,2) by (simp add: write_row_index_def row_entries_def [symmetric] Let_def serialize_entry_def del: be_bytes_simps)
  have "length ?base + root < 2 ^ 64" using tb(6,7) inp assms(8) by (simp add: trie_input_def)
  moreover have "- (2 ^ 31) \<le> sint w \<and> sint w \<le> 2 ^ 31 - 1" for w :: "32 word"
    using sint_greater_eq [of w] sint_lt [of w] by simp
  ultimately have fits: "entry_fits ?entry"
    using assms(3-7) by (simp add: entry_fits_def machine_consts)
  have read: "read_entry (slice_read_at (sink ?t @ rest)) (length (sink b2)) = Inr ?entry" for rest
    using read_entry_serialized [OF fits, of "sink b2" rest] by simp
  have look: "lookup_clustering_in_entry (slice_read_at (sink ?t @ rest)) (Inr (length (sink ?t @ rest))) ?entry c = Inr (Some off)"
    if mem: "(c, off) \<in> set rows" for c off rest
  proof -
    have off: "off < 2 ^ 55" using assms(2) mem by (auto simp: row_input_def list_all_iff)
    let ?p = "\<lparr>tp_hash = None, tp_position = sint (of_nat off :: 64 word)\<rparr>"
    have "(c, ?p) \<in> set ?es" using mem by (force simp: row_entries_def)
    then have ans: "trie_answer ?es c = Some ?p" using answer_stored inp by (simp add: trie_input_def)
    obtain pb bs where pb: "stored (trie_answer ?es c) = Found pb bs" "decode_payload pb bs = Inr (tp_hash ?p, tp_position ?p)"
      using stored_answer [OF ans] inp by (auto simp: trie_input_def)
    have "lookup (slice_read_at (sink ?t @ rest)) (Inr (length (sink ?t @ rest))) (length ?base + root) c = Inr (Found pb bs)"
      using lookup_trie [OF tb(5), of ?base "serialize_entry ?entry @ rest" c] inp pb(1) tb(4) by (simp add: trie_input_def)
    then show ?thesis using pb(2) off by (simp add: lookup_clustering_in_entry_def unsigned_of_nat take_bit_nat_eq_self)
  qed
  have "fresh ?t" "prefix ?base (sink ?t)" using tb(3,4) by (simp_all add: fresh_def)
  moreover have "length (sink ?t) \<le> length ?base + trie_budget ?es + 34 + length key_bytes" "length (sink b2) \<le> length (sink ?t)"
    using tb(4,7) by (simp_all add: serialize_entry_def del: be_bytes_simps)
  ultimately show ?thesis
    using wr read look by (intro exI [of _ ?t] exI [of _ "length (sink b2)"] conjI allI exI [of _ ?entry] impI) simp_all
qed

text \<open>C25: The row index of a partition is written to the end of \<open>Rows.db\<close>, wherever that is, and is readable there
  whatever follows: the footer gives back the partition key, the data position, the row count and the deletion,
  and looking up the clustering of any row gives the offset of that row.  The builder is ready for the next
  partition.\<close>

theorem row_index_spec:
  assumes "fresh row_trie" "row_input rows" "length key_bytes < 2 ^ 16" "data_pos < 2 ^ 64" "length rows < 2 ^ 32"
    "local_deletion_time < 2 ^ 32" "is_i64 marked_for_delete_at" "length (sink row_trie) + 2 ^ 40 \<le> 2 ^ 64"
  shows "\<exists>row_trie' footer. write_row_index row_trie key_bytes data_pos rows local_deletion_time marked_for_delete_at = Inr (row_trie', footer)
    \<and> fresh row_trie' \<and> prefix (sink row_trie) (sink row_trie')
    \<and> (\<forall>rest. \<exists>entry. read_entry (slice_read_at (sink row_trie' @ rest)) footer = Inr entry
         \<and> ri_partition_key entry = key_bytes \<and> ri_data_position entry = data_pos \<and> ri_block_count entry = length rows
         \<and> ri_local_deletion_time entry = sint (of_nat local_deletion_time :: 32 word) \<and> ri_marked_for_delete_at entry = marked_for_delete_at
         \<and> (\<forall>clustering row_offset. (clustering, row_offset) \<in> set rows \<longrightarrow>
              lookup_clustering_in_entry (slice_read_at (sink row_trie' @ rest)) (Inr (length (sink row_trie' @ rest))) entry clustering
                = Inr (Some row_offset)))"
  using write_row_index_spec [OF assms] by blast

theorem row_index_spec_witness:
  "\<exists>row_trie footer entry. write_row_index (with_sink [7]) [1, 2] 90 [([5], 4), ([5, 0], 300)] 0xFFFFFFFF (- 1) = Inr (row_trie, footer)
    \<and> read_entry (slice_read_at (sink row_trie)) footer = Inr entry \<and> ri_block_count entry = 2 \<and> ri_local_deletion_time entry = - 1
    \<and> lookup_clustering_in_entry (slice_read_at (sink row_trie)) (Inr (length (sink row_trie))) entry [5, 0] = Inr (Some 300)"
proof -
  let ?rows = "[([5], 4), ([5, 0], 300)] :: (bytes \<times> u64) list"
  have inp: "row_input ?rows" by (simp add: row_input_def row_entries_def trie_budget_def NODE_COST_def)
  have fr: "fresh (with_sink [7])" by (simp add: fresh_def with_sink_def)
  have sizes: "length [1, 2 :: u8] < 2 ^ 16" "(90 :: nat) < 2 ^ 64" "length ?rows < 2 ^ 32" "(0xFFFFFFFF :: nat) < 2 ^ 32" "is_i64 (- 1)"
    "length (sink (with_sink [7])) + 2 ^ 40 \<le> 2 ^ 64" by (simp_all add: is_i64_def machine_consts with_sink_def)
  obtain rt footer where w: "write_row_index (with_sink [7]) [1, 2] 90 ?rows 0xFFFFFFFF (- 1) = Inr (rt, footer)"
    and rd: "\<And>rest. \<exists>entry. read_entry (slice_read_at (sink rt @ rest)) footer = Inr entry
         \<and> ri_partition_key entry = [1, 2] \<and> ri_data_position entry = 90 \<and> ri_block_count entry = length ?rows
         \<and> ri_local_deletion_time entry = sint (of_nat 0xFFFFFFFF :: 32 word) \<and> ri_marked_for_delete_at entry = - 1
         \<and> (\<forall>clustering row_offset. (clustering, row_offset) \<in> set ?rows \<longrightarrow>
              lookup_clustering_in_entry (slice_read_at (sink rt @ rest)) (Inr (length (sink rt @ rest))) entry clustering
                = Inr (Some row_offset))"
    using row_index_spec [OF fr inp sizes] by blast
  from rd [of "[]"] obtain entry where "read_entry (slice_read_at (sink rt)) footer = Inr entry" "ri_block_count entry = 2"
      "ri_local_deletion_time entry = sint (of_nat 0xFFFFFFFF :: 32 word)"
      "lookup_clustering_in_entry (slice_read_at (sink rt)) (Inr (length (sink rt))) entry [5, 0] = Inr (Some 300)"
    by auto
  then show ?thesis using w by (intro exI [of _ rt] exI [of _ footer] exI [of _ entry]) simp
qed

end
