(* ===== verification/Sstable_Index.thy ===== *)
theory Sstable_Index
  imports Partition_Index Row_Index
begin

text \<open>
  The two indexes of an SSTable together (crate \<open>ferrosa-sstable\<close>, \<open>writer.rs\<close>): \<open>add_partition\<close> first serialises
  the partition, which writes its row index when it has enough rows, and then registers the partition with the
  position of that row index, or else of its data.
\<close>

section \<open>Definitions\<close>

record indexed_partition =
  ip_key :: decorated_key
  ip_data_pos :: u64
  ip_rows :: "(bytes \<times> u64) list"
  ip_local_deletion_time :: u32
  ip_marked_for_delete_at :: i64

record sstable_indexes =
  row_trie :: trie_builder
  partitions_of :: index_writer

definition build_row_index :: "bool \<Rightarrow> usize \<Rightarrow> indexed_partition \<Rightarrow> bool" where
  "build_row_index has_clustering row_index_min_rows p \<longleftrightarrow> has_clustering \<and> length (ip_rows p) \<ge> row_index_min_rows"

definition serialize_row_index :: "bool \<Rightarrow> usize \<Rightarrow> trie_builder \<Rightarrow> indexed_partition \<Rightarrow> codec_error + trie_builder \<times> u64 option" where
  "serialize_row_index has_clustering row_index_min_rows rt p =
     (if build_row_index has_clustering row_index_min_rows p
      then case write_row_index rt (dk_key (ip_key p)) (ip_data_pos p) (ip_rows p) (ip_local_deletion_time p) (ip_marked_for_delete_at p) of
             Inl e \<Rightarrow> Inl e
           | Inr (rt, footer_offset) \<Rightarrow> Inr (rt, Some footer_offset)
      else Inr (rt, None))"

definition index_partition :: "bool \<Rightarrow> usize \<Rightarrow> sstable_indexes \<Rightarrow> indexed_partition \<Rightarrow> codec_error + sstable_indexes" where
  "index_partition has_clustering row_index_min_rows s p =
     (case serialize_row_index has_clustering row_index_min_rows (row_trie s) p of
        Inl e \<Rightarrow> Inl e
      | Inr (rt, row_index_pos) \<Rightarrow>
          (case add_partition (partitions_of s) (ip_key p) (int (ip_data_pos p)) row_index_pos of
             Inl e \<Rightarrow> Inl e
           | Inr w \<Rightarrow> Inr \<lparr>row_trie = rt, partitions_of = w\<rparr>))"

fun index_all :: "bool \<Rightarrow> usize \<Rightarrow> sstable_indexes \<Rightarrow> indexed_partition list \<Rightarrow> codec_error + sstable_indexes" where
  "index_all has_clustering row_index_min_rows s [] = Inr s"
| "index_all has_clustering row_index_min_rows s (p # ps) =
     (case index_partition has_clustering row_index_min_rows s p of
        Inl e \<Rightarrow> Inl e
      | Inr s \<Rightarrow> index_all has_clustering row_index_min_rows s ps)"

section \<open>The row indexes of all partitions\<close>

text \<open>\<open>row_index_at rows_db footer p\<close>: the entry at \<open>footer\<close> is the row index of the partition, and finds its rows,
  whatever is appended to \<open>rows_db\<close>.\<close>

definition row_index_at :: "bytes \<Rightarrow> u64 \<Rightarrow> indexed_partition \<Rightarrow> bool" where
  "row_index_at rows_db footer p \<longleftrightarrow>
     (\<forall>rest. \<exists>entry. read_entry (slice_read_at (rows_db @ rest)) footer = Inr entry
        \<and> ri_partition_key entry = dk_key (ip_key p) \<and> ri_data_position entry = ip_data_pos p \<and> ri_block_count entry = length (ip_rows p)
        \<and> (\<forall>clustering row_offset. (clustering, row_offset) \<in> set (ip_rows p) \<longrightarrow>
             lookup_clustering_in_entry (slice_read_at (rows_db @ rest)) (Inr (length (rows_db @ rest))) entry clustering
               = Inr (Some row_offset)))"

lemma row_index_at_append: "row_index_at rows_db footer p \<Longrightarrow> prefix rows_db rows_db' \<Longrightarrow> row_index_at rows_db' footer p"
  unfolding row_index_at_def prefix_def by (metis append.assoc)

definition row_budget :: "indexed_partition \<Rightarrow> nat" where
  "row_budget p = trie_budget (row_entries (ip_rows p)) + 34 + length (dk_key (ip_key p))"

definition rows_fit :: "bool \<Rightarrow> usize \<Rightarrow> indexed_partition \<Rightarrow> bool" where
  "rows_fit has_clustering row_index_min_rows p \<longleftrightarrow>
     (build_row_index has_clustering row_index_min_rows p \<longrightarrow>
        row_input (ip_rows p) \<and> length (dk_key (ip_key p)) < 2 ^ 16 \<and> length (ip_rows p) < 2 ^ 32
        \<and> ip_local_deletion_time p < 2 ^ 32 \<and> is_i64 (ip_marked_for_delete_at p)) \<and> ip_data_pos p < 2 ^ 63"

text \<open>The row indexes of a sequence of partitions: the positions they get, and that each can be read in the end.\<close>

fun row_positions :: "bool \<Rightarrow> usize \<Rightarrow> trie_builder \<Rightarrow> indexed_partition list \<Rightarrow> codec_error + trie_builder \<times> u64 option list" where
  "row_positions hc mr rt [] = Inr (rt, [])"
| "row_positions hc mr rt (p # ps) =
     (case serialize_row_index hc mr rt p of
        Inl e \<Rightarrow> Inl e
      | Inr (rt, r) \<Rightarrow> (case row_positions hc mr rt ps of Inl e \<Rightarrow> Inl e | Inr (rt, rs) \<Rightarrow> Inr (rt, r # rs)))"

definition position_ok :: "bool \<Rightarrow> usize \<Rightarrow> bytes \<Rightarrow> indexed_partition \<Rightarrow> u64 option \<Rightarrow> bool" where
  "position_ok hc mr rows_db p r \<longleftrightarrow>
     (if build_row_index hc mr p then \<exists>footer. r = Some footer \<and> footer \<le> length rows_db \<and> row_index_at rows_db footer p else r = None)"

lemma position_ok_append: "position_ok hc mr rows_db p r \<Longrightarrow> prefix rows_db rows_db' \<Longrightarrow> position_ok hc mr rows_db' p r"
  using row_index_at_append [of rows_db _ p rows_db'] prefix_length_le [of rows_db rows_db'] unfolding position_ok_def
  by (auto split: if_splits)

lemma serialize_row_index_spec:
  assumes "fresh rt" "rows_fit hc mr p" "length (sink rt) + row_budget p \<le> 2 ^ 63"
  shows "\<exists>rt1 r. serialize_row_index hc mr rt p = Inr (rt1, r) \<and> fresh rt1 \<and> prefix (sink rt) (sink rt1)
    \<and> length (sink rt1) \<le> length (sink rt) + row_budget p \<and> position_ok hc mr (sink rt1) p r"
proof (cases "build_row_index hc mr p")
  case True
  then have f: "row_input (ip_rows p)" "length (dk_key (ip_key p)) < 2 ^ 16" "length (ip_rows p) < 2 ^ 32"
      "ip_local_deletion_time p < 2 ^ 32" "is_i64 (ip_marked_for_delete_at p)" "ip_data_pos p < 2 ^ 64"
    using assms(2) by (simp_all add: rows_fit_def)
  have room: "length (sink rt) + 2 ^ 40 \<le> 2 ^ 64" using assms(3) by simp
  obtain rt1 footer where w: "write_row_index rt (dk_key (ip_key p)) (ip_data_pos p) (ip_rows p) (ip_local_deletion_time p) (ip_marked_for_delete_at p)
        = Inr (rt1, footer)" "fresh rt1" "prefix (sink rt) (sink rt1)"
      "length (sink rt1) \<le> length (sink rt) + trie_budget (row_entries (ip_rows p)) + 34 + length (dk_key (ip_key p))" "footer \<le> length (sink rt1)"
      "row_index_at (sink rt1) footer p"
    using write_row_index_spec [OF assms(1) f(1,2,6,3,4,5) room] unfolding row_index_at_def by blast
  then show ?thesis using True by (simp add: serialize_row_index_def position_ok_def row_budget_def)
qed (use assms(1) in \<open>simp add: serialize_row_index_def position_ok_def\<close>)

lemma row_positions_spec:
  assumes "fresh rt" "list_all (rows_fit hc mr) ps" "length (sink rt) + sum_list (map row_budget ps) \<le> 2 ^ 63"
  shows "\<exists>rt1 rs. row_positions hc mr rt ps = Inr (rt1, rs) \<and> prefix (sink rt) (sink rt1)
    \<and> length (sink rt1) \<le> length (sink rt) + sum_list (map row_budget ps) \<and> list_all2 (position_ok hc mr (sink rt1)) ps rs"
  using assms
proof (induction ps arbitrary: rt)
  case (Cons p ps)
  obtain rt1 r where 1: "serialize_row_index hc mr rt p = Inr (rt1, r)" "fresh rt1" "prefix (sink rt) (sink rt1)"
      "length (sink rt1) \<le> length (sink rt) + row_budget p" "position_ok hc mr (sink rt1) p r"
    using serialize_row_index_spec [OF Cons.prems(1), of hc mr p] Cons.prems(2,3) by auto
  obtain rt2 rs where 2: "row_positions hc mr rt1 ps = Inr (rt2, rs)" "prefix (sink rt1) (sink rt2)"
      "length (sink rt2) \<le> length (sink rt1) + sum_list (map row_budget ps)" "list_all2 (position_ok hc mr (sink rt2)) ps rs"
    using Cons.IH [OF 1(2)] Cons.prems(2,3) 1(4) by auto
  have "position_ok hc mr (sink rt2) p r" by (rule position_ok_append [OF 1(5) 2(2)])
  then show ?case using 1 2 by (auto intro: prefix_order.trans)
qed simp

definition located :: "indexed_partition list \<Rightarrow> u64 option list \<Rightarrow> (decorated_key \<times> i64 \<times> u64 option) list" where
  "located ps rs = map (\<lambda>(p, r). (ip_key p, int (ip_data_pos p), r)) (zip ps rs)"

lemma index_all_located:
  "row_positions hc mr (row_trie s) ps = Inr (rt, rs) \<Longrightarrow> add_partitions (partitions_of s) (located ps rs) = Inr w
    \<Longrightarrow> index_all hc mr s ps = Inr \<lparr>row_trie = rt, partitions_of = w\<rparr>"
proof (induction ps arbitrary: s rs)
  case (Cons p ps)
  obtain rt1 r rs1 where 1: "serialize_row_index hc mr (row_trie s) p = Inr (rt1, r)" "row_positions hc mr rt1 ps = Inr (rt, rs1)" "rs = r # rs1"
    using Cons.prems(1) by (auto split: sum.splits)
  obtain w1 where 2: "add_partition (partitions_of s) (ip_key p) (int (ip_data_pos p)) r = Inr w1" "add_partitions w1 (located ps rs1) = Inr w"
    using Cons.prems(2) 1(3) by (auto simp: located_def split: sum.splits)
  have "index_partition hc mr s p = Inr \<lparr>row_trie = rt1, partitions_of = w1\<rparr>" using 1(1) 2(1) by (simp add: index_partition_def)
  then show ?case using Cons.IH [of "\<lparr>row_trie = rt1, partitions_of = w1\<rparr>" rs1] 1(2) 2(2) by simp
qed (simp add: located_def)

text \<open>What the indexes of an SSTable can hold.\<close>

definition sstable_input :: "bool \<Rightarrow> usize \<Rightarrow> indexed_partition list \<Rightarrow> bool" where
  "sstable_input hc mr ps \<longleftrightarrow> partition_input (map (\<lambda>p. (ip_key p, int (ip_data_pos p), None)) ps)
     \<and> list_all (rows_fit hc mr) ps \<and> sum_list (map row_budget ps) < 2 ^ 63"

lemma partition_input_keys:
  "partition_input parts \<longleftrightarrow> parts \<noteq> []
     \<and> sorted_wrt (\<lambda>a b. decorated_key_cmp a b = Less \<and> \<not> zero_extension (dk_key a) (dk_key b)) (map fst parts)
     \<and> list_all (\<lambda>key. is_i64 (dk_token key) \<and> length (encode key) < 2 ^ 16) (map fst parts)
     \<and> list_all (\<lambda>(data_pos, row_index_pos). 0 \<le> data_pos \<and> data_pos \<le> i64_MAX
         \<and> (case row_index_pos of None \<Rightarrow> True | Some pos \<Rightarrow> int pos \<le> i64_MAX)) (map snd parts)
     \<and> NODE_COST * sum_list (map (\<lambda>key. Suc (length (encode key))) (map fst parts)) \<le> 2 ^ 40"
proof -
  have "trie_budget (index_entries parts) = NODE_COST * sum_list (map (\<lambda>key. Suc (length (encode key))) (map fst parts))"
    by (induction parts) (auto simp: trie_budget_def index_entries_def)
  moreover have "sorted_wrt (\<lambda>(a, _) (b, _). decorated_key_cmp a b = Less \<and> \<not> zero_extension (dk_key a) (dk_key b)) parts
      = sorted_wrt (\<lambda>a b. decorated_key_cmp a b = Less \<and> \<not> zero_extension (dk_key a) (dk_key b)) (map fst parts)"
    by (simp add: sorted_wrt_map case_prod_unfold)
  ultimately show ?thesis unfolding partition_input_def by (auto simp: list_all_iff)
qed

lemma located_keys: "length ps = length rs \<Longrightarrow> map fst (located ps rs) = map ip_key ps"
  by (induction ps rs rule: list_induct2) (simp_all add: located_def)

lemma located_input:
  assumes "sstable_input hc mr ps" "list_all2 (position_ok hc mr rows_db) ps rs" "length rows_db < 2 ^ 63"
  shows "partition_input (located ps rs)"
proof -
  let ?ps = "map (\<lambda>p. (ip_key p, int (ip_data_pos p), None :: u64 option)) ps"
  have len: "length ps = length rs" using assms(2) by (rule list_all2_lengthD)
  have inp: "partition_input ?ps" and fit: "list_all (rows_fit hc mr) ps" using assms(1) by (simp_all add: sstable_input_def)
  have keys: "map fst ?ps = map ip_key ps" by simp
  have big: "int d \<le> i64_MAX" if "d < 2 ^ 63" for d using that by (simp add: machine_consts)
  have "list_all (\<lambda>(data_pos, row_index_pos). 0 \<le> data_pos \<and> data_pos \<le> i64_MAX
         \<and> (case row_index_pos of None \<Rightarrow> True | Some pos \<Rightarrow> int pos \<le> i64_MAX)) (map snd (located ps rs))"
    using assms(2) fit
  proof (induction ps rs rule: list_all2_induct)
    case (Cons p ps r rs)
    from Cons.hyps(1) assms(3) have "case r of None \<Rightarrow> True | Some pos \<Rightarrow> int pos \<le> i64_MAX"
      by (auto simp: position_ok_def machine_consts split: if_splits)
    then show ?case using Cons big by (auto simp: located_def rows_fit_def)
  qed (simp add: located_def)
  moreover have "located ps rs \<noteq> []" using inp len by (auto simp: partition_input_def located_def zip_eq_Nil_iff)
  ultimately show ?thesis using inp unfolding partition_input_keys located_keys [OF len] keys by blast
qed

section \<open>Point reads\<close>

text \<open>\<open>point_read_ok\<close>: the Bloom filter admits the partition, and the partition index leads to its row index, which
  finds each of its rows, or else to its data.\<close>

definition point_read_ok :: "bool \<Rightarrow> usize \<Rightarrow> bloom_filter \<Rightarrow> bytes \<Rightarrow> partition_index \<Rightarrow> bytes \<Rightarrow> indexed_partition \<Rightarrow> bool" where
  "point_read_ok hc mr bf partitions index rows_db p \<longleftrightarrow>
     bloom_is_present bf (fst (filter_hash (ip_key p))) (snd (filter_hash (ip_key p)))
     \<and> (if build_row_index hc mr p
        then \<exists>footer entry. partition_index_lookup (slice_read_at partitions) (Inr (length partitions)) index (ip_key p) = Inr (RowIndex footer)
          \<and> read_entry (slice_read_at rows_db) footer = Inr entry
          \<and> ri_partition_key entry = dk_key (ip_key p) \<and> ri_data_position entry = ip_data_pos p
          \<and> list_all (\<lambda>(clustering, row_offset).
               lookup_clustering_in_entry (slice_read_at rows_db) (Inr (length rows_db)) entry clustering = Inr (Some row_offset)) (ip_rows p)
        else partition_index_lookup (slice_read_at partitions) (Inr (length partitions)) index (ip_key p) = Inr (DataDirect (ip_data_pos p)))"

lemma point_read_okI:
  assumes "position_ok hc mr rows_db p r" "bloom_is_present bf (fst (filter_hash (ip_key p))) (snd (filter_hash (ip_key p)))"
    "partition_index_lookup (slice_read_at partitions) (Inr (length partitions)) index (ip_key p)
       = Inr (case r of Some pos \<Rightarrow> RowIndex pos | None \<Rightarrow> DataDirect (ip_data_pos p))"
  shows "point_read_ok hc mr bf partitions index rows_db p"
proof (cases "build_row_index hc mr p")
  case True
  then obtain footer where f: "r = Some footer" "row_index_at rows_db footer p" using assms(1) by (auto simp: position_ok_def)
  obtain entry where "read_entry (slice_read_at rows_db) footer = Inr entry" "ri_partition_key entry = dk_key (ip_key p)"
      "ri_data_position entry = ip_data_pos p"
      "\<forall>clustering row_offset. (clustering, row_offset) \<in> set (ip_rows p) \<longrightarrow>
         lookup_clustering_in_entry (slice_read_at rows_db) (Inr (length rows_db)) entry clustering = Inr (Some row_offset)"
    using f(2) [unfolded row_index_at_def, THEN spec, of "[]"] by auto
  then show ?thesis using assms(2,3) f(1) True unfolding point_read_ok_def by (auto simp: list_all_iff)
qed (use assms in \<open>simp add: position_ok_def point_read_ok_def\<close>)

end
