(* ===== verification/Cql_Type.thy ===== *)
theory Cql_Type
  imports Ascii
begin

text \<open>
  CQL types and their names (crates \<open>ferrosa-common\<close>: \<open>cql_type/mod.rs\<close>, \<open>cql_type/names.rs\<close>, and
  \<open>ferrosa-row-bridge\<close>: the type-name parser of \<open>codec.rs\<close>).

  \<^item> \<open>cql_type\<close> has the variants of \<open>CqlType\<close>; \<open>cql_type_entry\<close> is the registry of names and marshal classes.
  \<^item> \<open>display_name\<close> prints a type; \<open>parse_type\<close> is the recursive-descent parser, whose position is the
    remaining input.  The schema that resolves user-defined types is a lookup function.

  Type names are ASCII strings.  The lemmas show that the registry is a bijection and that the parser inverts
  the printer.
\<close>

section \<open>Types\<close>

datatype cql_type =
  TAscii | TBigint | TBlob | TBoolean | TCounter | TDecimal | TDouble | TFloat | TInt | TTimestamp | TUuid
| TVarchar | TVarint | TTimeuuid | TInet | TDate | TTime | TSmallint | TTinyint | TDuration
| TList cql_type
| TMap cql_type cql_type
| TSet cql_type
| TTuple "cql_type list"
| TUdt string string "(string \<times> cql_type) list"
| TVector cql_type usize
| TJsonb

fun type_id :: "cql_type \<Rightarrow> u16" where
  "type_id TAscii = 0x0001"
| "type_id TBigint = 0x0002"
| "type_id TBlob = 0x0003"
| "type_id TBoolean = 0x0004"
| "type_id TCounter = 0x0005"
| "type_id TDecimal = 0x0006"
| "type_id TDouble = 0x0007"
| "type_id TFloat = 0x0008"
| "type_id TInt = 0x0009"
| "type_id TTimestamp = 0x000B"
| "type_id TUuid = 0x000C"
| "type_id TVarchar = 0x000D"
| "type_id TVarint = 0x000E"
| "type_id TTimeuuid = 0x000F"
| "type_id TInet = 0x0010"
| "type_id TDate = 0x0011"
| "type_id TTime = 0x0012"
| "type_id TSmallint = 0x0013"
| "type_id TTinyint = 0x0014"
| "type_id TDuration = 0x0015"
| "type_id (TList _) = 0x0020"
| "type_id (TMap _ _) = 0x0021"
| "type_id (TSet _) = 0x0022"
| "type_id (TUdt _ _ _) = 0x0030"
| "type_id (TTuple _) = 0x0031"
| "type_id TJsonb = 0x0000"
| "type_id (TVector _ _) = 0x0000"

section \<open>The registry of names\<close>

record scalar_info =
  si_name :: string
  si_aliases :: "string list"
  si_marshal :: string

datatype cql_entry = ScalarEntry scalar_info | CompositeEntry string

definition marshal_prefix :: string where
  "marshal_prefix = ''org.apache.cassandra.db.marshal.''"

definition JSONB_MARSHAL_CLASS :: string where
  "JSONB_MARSHAL_CLASS = marshal_prefix @ ''JsonbType''"

definition info :: "string \<Rightarrow> string list \<Rightarrow> string \<Rightarrow> cql_entry" where
  "info n al mc = ScalarEntry \<lparr>si_name = n, si_aliases = al, si_marshal = mc\<rparr>"

definition SCALAR_TYPES :: "cql_type list" where
  "SCALAR_TYPES = [TAscii, TBigint, TBlob, TBoolean, TCounter, TDecimal, TDouble, TFloat, TInt, TTimestamp, TUuid,
     TVarchar, TVarint, TTimeuuid, TInet, TDate, TTime, TSmallint, TTinyint, TDuration, TJsonb]"

fun cql_type_entry :: "cql_type \<Rightarrow> cql_entry" where
  "cql_type_entry TAscii = info ''ascii'' [] (marshal_prefix @ ''AsciiType'')"
| "cql_type_entry TBigint = info ''bigint'' [] (marshal_prefix @ ''LongType'')"
| "cql_type_entry TBlob = info ''blob'' [] (marshal_prefix @ ''BytesType'')"
| "cql_type_entry TBoolean = info ''boolean'' [] (marshal_prefix @ ''BooleanType'')"
| "cql_type_entry TCounter = info ''counter'' [] (marshal_prefix @ ''CounterColumnType'')"
| "cql_type_entry TDecimal = info ''decimal'' [] (marshal_prefix @ ''DecimalType'')"
| "cql_type_entry TDouble = info ''double'' [] (marshal_prefix @ ''DoubleType'')"
| "cql_type_entry TFloat = info ''float'' [] (marshal_prefix @ ''FloatType'')"
| "cql_type_entry TInt = info ''int'' [] (marshal_prefix @ ''Int32Type'')"
| "cql_type_entry TTimestamp = info ''timestamp'' [] (marshal_prefix @ ''TimestampType'')"
| "cql_type_entry TUuid = info ''uuid'' [] (marshal_prefix @ ''UUIDType'')"
| "cql_type_entry TVarchar = info ''text'' [''varchar''] (marshal_prefix @ ''UTF8Type'')"
| "cql_type_entry TVarint = info ''varint'' [] (marshal_prefix @ ''IntegerType'')"
| "cql_type_entry TTimeuuid = info ''timeuuid'' [] (marshal_prefix @ ''TimeUUIDType'')"
| "cql_type_entry TInet = info ''inet'' [] (marshal_prefix @ ''InetAddressType'')"
| "cql_type_entry TDate = info ''date'' [] (marshal_prefix @ ''SimpleDateType'')"
| "cql_type_entry TTime = info ''time'' [] (marshal_prefix @ ''TimeType'')"
| "cql_type_entry TSmallint = info ''smallint'' [] (marshal_prefix @ ''ShortType'')"
| "cql_type_entry TTinyint = info ''tinyint'' [] (marshal_prefix @ ''ByteType'')"
| "cql_type_entry TDuration = info ''duration'' [] (marshal_prefix @ ''DurationType'')"
| "cql_type_entry TJsonb = info ''jsonb'' [] JSONB_MARSHAL_CLASS"
| "cql_type_entry (TList _) = CompositeEntry ''list''"
| "cql_type_entry (TMap _ _) = CompositeEntry ''map''"
| "cql_type_entry (TSet _) = CompositeEntry ''set''"
| "cql_type_entry (TTuple _) = CompositeEntry ''tuple''"
| "cql_type_entry (TVector _ _) = CompositeEntry ''vector''"
| "cql_type_entry (TUdt _ _ _) = CompositeEntry ''udt''"

definition cql_scalar_info :: "cql_type \<Rightarrow> scalar_info option" where
  "cql_scalar_info t = (case cql_type_entry t of ScalarEntry i \<Rightarrow> Some i | CompositeEntry _ \<Rightarrow> None)"

definition scalar_name :: "cql_type \<Rightarrow> string option" where
  "scalar_name t = map_option si_name (cql_scalar_info t)"

definition scalar_aliases :: "cql_type \<Rightarrow> string list" where
  "scalar_aliases t = (case cql_scalar_info t of None \<Rightarrow> [] | Some i \<Rightarrow> si_aliases i)"

definition scalar_marshal_class :: "cql_type \<Rightarrow> string option" where
  "scalar_marshal_class t = map_option si_marshal (cql_scalar_info t)"

definition scalar_from_name :: "string \<Rightarrow> cql_type option" where
  "scalar_from_name n = find (\<lambda>t. case cql_scalar_info t of None \<Rightarrow> False
     | Some i \<Rightarrow> si_name i = n \<or> List.member (si_aliases i) n) SCALAR_TYPES"

definition scalar_from_name_ci :: "string \<Rightarrow> cql_type option" where
  "scalar_from_name_ci n = find (\<lambda>t. case cql_scalar_info t of None \<Rightarrow> False
     | Some i \<Rightarrow> eq_ignore_ascii_case (si_name i) n \<or> list_ex (\<lambda>a. eq_ignore_ascii_case a n) (si_aliases i)) SCALAR_TYPES"

definition custom_class_type :: "string \<Rightarrow> string + cql_type" where
  "custom_class_type c = (if c = JSONB_MARSHAL_CLASS then Inr TJsonb else Inl c)"

datatype jsonb_nesting_error = SetElement | MapKey | VectorElement

fun check_jsonb_nesting :: "cql_type \<Rightarrow> jsonb_nesting_error + unit" where
  "check_jsonb_nesting (TSet t) = (if t = TJsonb then Inl SetElement else check_jsonb_nesting t)"
| "check_jsonb_nesting (TMap k v) = (if k = TJsonb then Inl MapKey
     else and_then (check_jsonb_nesting k) (\<lambda>_. check_jsonb_nesting v))"
| "check_jsonb_nesting (TVector t _) = (if t = TJsonb then Inl VectorElement else check_jsonb_nesting t)"
| "check_jsonb_nesting (TList t) = check_jsonb_nesting t"
| "check_jsonb_nesting (TTuple ts) = and_then (try_map check_jsonb_nesting ts) (\<lambda>_. Inr ())"
| "check_jsonb_nesting (TUdt _ _ fs) = and_then (try_map (\<lambda>f. check_jsonb_nesting (snd f)) fs) (\<lambda>_. Inr ())"
| "check_jsonb_nesting _ = Inr ()"

definition kind_name :: "cql_type \<Rightarrow> string" where
  "kind_name t = (case cql_type_entry t of ScalarEntry i \<Rightarrow> si_name i | CompositeEntry kind \<Rightarrow> kind)"

fun display_name :: "cql_type \<Rightarrow> string" where
  "display_name (TList t) = ''list<'' @ display_name t @ ''>''"
| "display_name (TSet t) = ''set<'' @ display_name t @ ''>''"
| "display_name (TMap k v) = ''map<'' @ display_name k @ '', '' @ display_name v @ ''>''"
| "display_name (TTuple ts) = ''tuple<'' @ join_with '', '' (map display_name ts) @ ''>''"
| "display_name (TVector t dim) = ''vector<'' @ display_name t @ '', '' @ usize_to_string dim @ ''>''"
| "display_name (TUdt ks n _) = ks @ ''.'' @ n"
| "display_name t = kind_name t"

section \<open>The type-name parser\<close>

text \<open>The errors of the row bridge, without their messages: \<open>Invalid\<close>, the refusal of a stored jsonb cell, and
  \<open>Panic\<close> for an arithmetic or allocation panic.\<close>

datatype jsonb_fault = CorruptJsonb usize | UnknownEnvelope u8 usize
datatype row_bridge_error = Invalid | JsonbRefused jsonb_fault | Panic

type_synonym user_type = "string \<times> string \<times> (string \<times> cql_type) list"
type_synonym schema_ctx = "(string \<times> (string \<Rightarrow> string \<Rightarrow> user_type option)) option"

definition skip_whitespace :: "string \<Rightarrow> string" where
  "skip_whitespace s = dropWhile is_ascii_whitespace s"

definition peek :: "string \<Rightarrow> char option" where
  "peek s = (case s of [] \<Rightarrow> None | c # _ \<Rightarrow> Some c)"

definition consume :: "char \<Rightarrow> string \<Rightarrow> row_bridge_error + string" where
  "consume ch s = (let s = skip_whitespace s in if peek s = Some ch then Inr (tl s) else Inl Invalid)"

definition ident_char :: "char \<Rightarrow> bool" where
  "ident_char c \<longleftrightarrow> is_ascii_alphanumeric c \<or> c = CHR ''_''"

definition read_ident :: "string \<Rightarrow> row_bridge_error + string \<times> string" where
  "read_ident s = (let s = skip_whitespace s in
     if takeWhile ident_char s = [] then Inl Invalid else Inr (takeWhile ident_char s, dropWhile ident_char s))"

definition udt_type :: "user_type option \<Rightarrow> row_bridge_error + cql_type" where
  "udt_type u = (case u of None \<Rightarrow> Inl Invalid | Some (ks, n, fs) \<Rightarrow> Inr (TUdt ks n fs))"

text \<open>The last arm of \<open>parse_type\<close>: a user-defined type, qualified by its keyspace or in the current one.\<close>

definition parse_udt :: "schema_ctx \<Rightarrow> string \<Rightarrow> string \<Rightarrow> row_bridge_error + cql_type \<times> string" where
  "parse_udt ctx lower s = (case ctx of
     None \<Rightarrow> Inl Invalid
   | Some (keyspace, get_type) \<Rightarrow>
       if peek s = Some (CHR ''.'') then
         and_then (read_ident (tl s)) (\<lambda>(type_name, s).
         and_then (udt_type (get_type lower (to_ascii_lowercase type_name))) (\<lambda>t. Inr (t, s)))
       else and_then (udt_type (get_type keyspace lower)) (\<lambda>t. Inr (t, s)))"

function parse_type :: "schema_ctx \<Rightarrow> string \<Rightarrow> row_bridge_error + cql_type \<times> string"
  and parse_more_types :: "schema_ctx \<Rightarrow> string \<Rightarrow> row_bridge_error + cql_type list \<times> string"
where
  "parse_type ctx s =
     and_then (read_ident s) (\<lambda>(ident, s).
     let lower = to_ascii_lowercase ident in
     case scalar_from_name lower of
       Some scalar \<Rightarrow> Inr (scalar, s)
     | None \<Rightarrow>
         if lower = ''list'' then
           and_then (consume (CHR ''<'') (skip_whitespace s)) (\<lambda>s.
           and_then (parse_type ctx s) (\<lambda>(elem, s).
           and_then (consume (CHR ''>'') (skip_whitespace s)) (\<lambda>s. Inr (TList elem, s))))
         else if lower = ''set'' then
           and_then (consume (CHR ''<'') (skip_whitespace s)) (\<lambda>s.
           and_then (parse_type ctx s) (\<lambda>(elem, s).
           and_then (consume (CHR ''>'') (skip_whitespace s)) (\<lambda>s. Inr (TSet elem, s))))
         else if lower = ''map'' then
           and_then (consume (CHR ''<'') (skip_whitespace s)) (\<lambda>s.
           and_then (parse_type ctx s) (\<lambda>(key, s).
           and_then (consume (CHR '','') (skip_whitespace s)) (\<lambda>s.
           and_then (parse_type ctx s) (\<lambda>(val, s).
           and_then (consume (CHR ''>'') (skip_whitespace s)) (\<lambda>s. Inr (TMap key val, s))))))
         else if lower = ''tuple'' then
           and_then (consume (CHR ''<'') (skip_whitespace s)) (\<lambda>s.
           and_then (parse_type ctx s) (\<lambda>(t, s).
           and_then (parse_more_types ctx s) (\<lambda>(ts, s).
           and_then (consume (CHR ''>'') s) (\<lambda>s. Inr (TTuple (t # ts), s)))))
         else if lower = ''vector'' then
           and_then (consume (CHR ''<'') (skip_whitespace s)) (\<lambda>s.
           and_then (parse_type ctx s) (\<lambda>(elem, s).
           and_then (consume (CHR '','') (skip_whitespace s)) (\<lambda>s.
           and_then (read_ident (skip_whitespace s)) (\<lambda>(dim_str, s).
           and_then (ok_or Invalid (parse_usize dim_str)) (\<lambda>dim.
           and_then (consume (CHR ''>'') (skip_whitespace s)) (\<lambda>s. Inr (TVector elem dim, s)))))))
         else if lower = ''frozen'' then
           and_then (consume (CHR ''<'') (skip_whitespace s)) (\<lambda>s.
           and_then (parse_type ctx s) (\<lambda>(inner, s).
           and_then (consume (CHR ''>'') (skip_whitespace s)) (\<lambda>s. Inr (inner, s))))
         else parse_udt ctx lower s)"
| "parse_more_types ctx s =
     (let s = skip_whitespace s in
      if peek s = Some (CHR '','') then
        and_then (parse_type ctx (tl s)) (\<lambda>(t, s).
        and_then (parse_more_types ctx s) (\<lambda>(ts, s). Inr (t # ts, s)))
      else Inr ([], s))"
  by pat_completeness auto

text \<open>Every successful step of the parser consumes input.\<close>

lemma skip_whitespace_length: "length (skip_whitespace s) \<le> length s"
  by (simp add: skip_whitespace_def length_dropWhile_le)

lemma consume_length: "consume ch s = Inr r \<Longrightarrow> length r < length s"
  using skip_whitespace_length [of s]
  by (auto simp: consume_def Let_def peek_def split: if_splits list.splits)

lemma read_ident_length: "read_ident s = Inr (i, r) \<Longrightarrow> length r < length s"
proof -
  assume "read_ident s = Inr (i, r)"
  then have "takeWhile ident_char (skip_whitespace s) \<noteq> []" "r = dropWhile ident_char (skip_whitespace s)"
    by (auto simp: read_ident_def Let_def split: if_splits)
  moreover have "length (takeWhile ident_char (skip_whitespace s)) + length (dropWhile ident_char (skip_whitespace s))
      = length (skip_whitespace s)"
    by (metis length_append takeWhile_dropWhile_id)
  ultimately show ?thesis using skip_whitespace_length [of s] by (cases "takeWhile ident_char (skip_whitespace s)") auto
qed

lemma parse_udt_length: "parse_udt ctx lower s = Inr (t, r) \<Longrightarrow> length r \<le> length s"
  using read_ident_length [of "tl s"]
  by (auto simp: parse_udt_def and_then_Inr_iff split: option.splits if_splits)

lemma consume_skip_length: "consume ch (skip_whitespace s) = Inr r \<Longrightarrow> length r < length s"
  using consume_length [of ch "skip_whitespace s" r] skip_whitespace_length [of s] by simp

lemma read_ident_skip_length: "read_ident (skip_whitespace s) = Inr (i, r) \<Longrightarrow> length r < length s"
  using read_ident_length [of "skip_whitespace s" i r] skip_whitespace_length [of s] by simp

lemma peek_skip_length: "peek (skip_whitespace s) = Some c \<Longrightarrow> length (tl (skip_whitespace s)) < length s"
  using skip_whitespace_length [of s] by (cases "skip_whitespace s") (auto simp: peek_def)

lemma parse_types_shorter:
  "parse_type_parse_more_types_dom (Inl (ctx, s)) \<Longrightarrow> parse_type ctx s = Inr (t, r) \<Longrightarrow> length r < length s"
  "parse_type_parse_more_types_dom (Inr (ctx, s)) \<Longrightarrow> parse_more_types ctx s = Inr (ts, r) \<Longrightarrow> length r \<le> length s"
proof (induction ctx s and ctx s arbitrary: t r and ts r rule: parse_type_parse_more_types.pinduct)
  case (1 ctx s)
  obtain ident s1 where i: "read_ident s = Inr (ident, s1)"
    using "1.prems" by (cases "read_ident s") (auto simp: parse_type.psimps [OF "1.hyps"])
  have l: "length s1 < length s" by (rule read_ident_length [OF i])
  let ?lower = "to_ascii_lowercase ident"
  note eq = "1.prems" [unfolded parse_type.psimps [OF "1.hyps"] i and_then_simps prod.case Let_def]
  show ?case
  proof (cases "scalar_from_name ?lower")
    case (Some sc)
    then show ?thesis using eq l by simp
  next
    case None
    note IH = "1.IH" [OF i refl refl None]
    consider "?lower = ''list''" | "?lower = ''set''" | "?lower = ''map''" | "?lower = ''tuple''" | "?lower = ''vector''"
      | "?lower = ''frozen''" | "?lower \<notin> {''list'', ''set'', ''map'', ''tuple'', ''vector'', ''frozen''}" by blast
    then show ?thesis
    proof cases
      case 1
      with eq None obtain s2 u s3 where c: "consume (CHR ''<'') (skip_whitespace s1) = Inr s2"
          and p: "parse_type ctx s2 = Inr (u, s3)" and d: "consume (CHR ''>'') (skip_whitespace s3) = Inr r"
        by (auto simp: and_then_Inr_iff)
      have "length s3 < length s2" by (rule IH(1)) (simp_all add: 1 c p)
      then show ?thesis using consume_skip_length [OF c] consume_skip_length [OF d] l by linarith
    next
      case 2
      with eq None obtain s2 u s3 where c: "consume (CHR ''<'') (skip_whitespace s1) = Inr s2"
          and p: "parse_type ctx s2 = Inr (u, s3)" and d: "consume (CHR ''>'') (skip_whitespace s3) = Inr r"
        by (auto simp: and_then_Inr_iff)
      have "length s3 < length s2" by (rule IH(2)) (simp_all add: 2 c p)
      then show ?thesis using consume_skip_length [OF c] consume_skip_length [OF d] l by linarith
    next
      case 3
      with eq None obtain s2 u s3 s4 v s5 where c: "consume (CHR ''<'') (skip_whitespace s1) = Inr s2"
          and p: "parse_type ctx s2 = Inr (u, s3)" and d: "consume (CHR '','') (skip_whitespace s3) = Inr s4"
          and q: "parse_type ctx s4 = Inr (v, s5)" and e: "consume (CHR ''>'') (skip_whitespace s5) = Inr r"
        by (auto simp: and_then_Inr_iff)
      have "length s3 < length s2" by (rule IH(3)) (simp_all add: 3 c p)
      moreover have "length s5 < length s4" by (rule IH(4) [OF _ _ 3 c p refl d q]) (simp_all add: 3)
      ultimately show ?thesis
        using consume_skip_length [OF c] consume_skip_length [OF d] consume_skip_length [OF e] l by linarith
    next
      case 4
      with eq None obtain s2 u s3 us s4 where c: "consume (CHR ''<'') (skip_whitespace s1) = Inr s2"
          and p: "parse_type ctx s2 = Inr (u, s3)" and q: "parse_more_types ctx s3 = Inr (us, s4)"
          and d: "consume (CHR ''>'') s4 = Inr r"
        by (auto simp: and_then_Inr_iff)
      have "length s3 < length s2" by (rule IH(5)) (simp_all add: 4 c p)
      moreover have "length s4 \<le> length s3" by (rule IH(6) [OF _ _ _ 4 c p refl q]) (simp_all add: 4)
      ultimately show ?thesis using consume_skip_length [OF c] consume_length [OF d] l by linarith
    next
      case 5
      with eq None obtain s2 u s3 s4 n s5 where c: "consume (CHR ''<'') (skip_whitespace s1) = Inr s2"
          and p: "parse_type ctx s2 = Inr (u, s3)" and d: "consume (CHR '','') (skip_whitespace s3) = Inr s4"
          and q: "read_ident (skip_whitespace s4) = Inr (n, s5)" and e: "consume (CHR ''>'') (skip_whitespace s5) = Inr r"
        by (auto simp: and_then_Inr_iff)
      have "length s3 < length s2" by (rule IH(7)) (simp_all add: 5 c p)
      then show ?thesis using consume_skip_length [OF c] consume_skip_length [OF d] read_ident_skip_length [OF q]
          consume_skip_length [OF e] l by linarith
    next
      case 6
      with eq None obtain s2 u s3 where c: "consume (CHR ''<'') (skip_whitespace s1) = Inr s2"
          and p: "parse_type ctx s2 = Inr (u, s3)" and d: "consume (CHR ''>'') (skip_whitespace s3) = Inr r"
        by (auto simp: and_then_Inr_iff)
      have "length s3 < length s2" by (rule IH(8)) (simp_all add: 6 c p)
      then show ?thesis using consume_skip_length [OF c] consume_skip_length [OF d] l by linarith
    next
      case 7
      then show ?thesis using eq None l parse_udt_length [of ctx ?lower s1 t r] by auto
    qed
  qed
next
  case (2 ctx s)
  show ?case
  proof (cases "peek (skip_whitespace s) = Some (CHR '','')")
    case True
    then have "length (tl (skip_whitespace s)) < length s" by (rule peek_skip_length)
    moreover obtain t s1 ts' where "parse_type ctx (tl (skip_whitespace s)) = Inr (t, s1)"
        "parse_more_types ctx s1 = Inr (ts', r)"
      using "2.prems" True by (auto simp: parse_more_types.psimps [OF "2.hyps"] and_then_Inr_iff Let_def)
    ultimately show ?thesis using "2.IH" True by fastforce
  next
    case False
    then show ?thesis using "2.prems" skip_whitespace_length [of s]
      by (auto simp: parse_more_types.psimps [OF "2.hyps"] Let_def)
  qed
qed

termination parse_type
proof (relation "measure (case_sum (\<lambda>(_, s). length s) (\<lambda>(_, s). length s))", goal_cases)
  case 1
  then show ?case by simp
next
  case (2 ctx s x ident s1 lower s2)
  then show ?case using read_ident_length [of s ident s1] consume_skip_length [of "CHR ''<''" s1 s2] by auto
next
  case (3 ctx s x ident s1 lower s2)
  then show ?case using read_ident_length [of s ident s1] consume_skip_length [of "CHR ''<''" s1 s2] by auto
next
  case (4 ctx s x ident s1 lower s2)
  then show ?case using read_ident_length [of s ident s1] consume_skip_length [of "CHR ''<''" s1 s2] by auto
next
  case (5 ctx s x ident s1 lower s2 y u s3 s4)
  then show ?case
    using read_ident_length [of s ident s1] consume_skip_length [of "CHR ''<''" s1 s2] parse_types_shorter(1) [of ctx s2 u s3]
      consume_skip_length [of "CHR '',''" s3 s4] by auto
next
  case (6 ctx s x ident s1 lower s2)
  then show ?case using read_ident_length [of s ident s1] consume_skip_length [of "CHR ''<''" s1 s2] by auto
next
  case (7 ctx s x ident s1 lower s2 y u s3)
  then show ?case
    using read_ident_length [of s ident s1] consume_skip_length [of "CHR ''<''" s1 s2] parse_types_shorter(1) [of ctx s2 u s3]
    by auto
next
  case (8 ctx s x ident s1 lower s2)
  then show ?case using read_ident_length [of s ident s1] consume_skip_length [of "CHR ''<''" s1 s2] by auto
next
  case (9 ctx s x ident s1 lower s2)
  then show ?case using read_ident_length [of s ident s1] consume_skip_length [of "CHR ''<''" s1 s2] by auto
next
  case (10 ctx s s1)
  then show ?case using peek_skip_length [of s] by simp
next
  case (11 ctx s s1 y u s2)
  then show ?case using peek_skip_length [of s] parse_types_shorter(1) [of ctx "tl s1" u s2] by fastforce
qed

declare parse_type.simps [simp del] parse_more_types.simps [simp del]

definition reject_forbidden_jsonb :: "cql_type \<Rightarrow> row_bridge_error + unit" where
  "reject_forbidden_jsonb t = (case check_jsonb_nesting t of Inl _ \<Rightarrow> Inl Invalid | Inr _ \<Rightarrow> Inr ())"

definition parse_cql_type_with :: "schema_ctx \<Rightarrow> string \<Rightarrow> row_bridge_error + cql_type" where
  "parse_cql_type_with ctx s =
     and_then (parse_type ctx (trim s)) (\<lambda>(result, remaining).
     if trim remaining \<noteq> [] then Inl Invalid
     else and_then (reject_forbidden_jsonb result) (\<lambda>_. Inr result))"

definition parse_cql_type :: "string \<Rightarrow> row_bridge_error + cql_type" where
  "parse_cql_type s = parse_cql_type_with None s"

definition parse_cql_type_in_keyspace ::
  "string \<Rightarrow> string \<Rightarrow> (string \<Rightarrow> string \<Rightarrow> user_type option) \<Rightarrow> row_bridge_error + cql_type" where
  "parse_cql_type_in_keyspace s keyspace get_type = parse_cql_type_with (Some (keyspace, get_type)) s"

section \<open>Names of scalar types\<close>

definition TYPE_KEYWORDS :: "string list" where
  "TYPE_KEYWORDS = [''list'', ''set'', ''map'', ''tuple'', ''vector'', ''frozen'']"

text \<open>The names the parsers resolve themselves are not scalar names.\<close>

lemmas registry_defs = scalar_from_name_def SCALAR_TYPES_def cql_scalar_info_def info_def

lemma keyword_not_scalar [simp]:
  "scalar_from_name ''list'' = None" "scalar_from_name ''set'' = None" "scalar_from_name ''map'' = None"
  "scalar_from_name ''tuple'' = None" "scalar_from_name ''vector'' = None" "scalar_from_name ''frozen'' = None"
  by (simp_all add: registry_defs)

lemma scalar_from_kind_name: "t \<in> set SCALAR_TYPES \<Longrightarrow> scalar_from_name (kind_name t) = Some t"
  by (auto simp: SCALAR_TYPES_def kind_name_def) (simp_all add: registry_defs)

lemma scalar_type_cases:
  obtains "t \<in> set SCALAR_TYPES" "display_name t = kind_name t"
  | u where "t = TList u" | u where "t = TSet u" | k v where "t = TMap k v" | ts where "t = TTuple ts"
  | u d where "t = TVector u d" | ks n fs where "t = TUdt ks n fs"
  by (cases t) (simp_all add: SCALAR_TYPES_def)

lemma kind_name_ident:
  assumes "t \<in> set SCALAR_TYPES"
  shows "kind_name t \<noteq> [] \<and> list_all ident_char (kind_name t) \<and> to_ascii_lowercase (kind_name t) = kind_name t"
  using assms by (auto simp: SCALAR_TYPES_def kind_name_def info_def ident_char_def ascii_defs to_ascii_lowercase_def)

section \<open>Parsing a printed name\<close>

text \<open>A user-defined type is printed as its qualified name, which the parser resolves when the schema holds the type
  under lower-case names and the keyspace is not itself the name of a scalar or of a type constructor.\<close>

definition udt_resolves :: "schema_ctx \<Rightarrow> string \<Rightarrow> string \<Rightarrow> (string \<times> cql_type) list \<Rightarrow> bool" where
  "udt_resolves ctx ks n fs \<longleftrightarrow>
     (case ctx of None \<Rightarrow> False | Some (_, get_type) \<Rightarrow> get_type ks n = Some (ks, n, fs))
     \<and> ks \<noteq> [] \<and> list_all ident_char ks \<and> to_ascii_lowercase ks = ks
     \<and> n \<noteq> [] \<and> list_all ident_char n \<and> to_ascii_lowercase n = n
     \<and> scalar_from_name ks = None \<and> ks \<notin> set TYPE_KEYWORDS"

fun display_wf :: "schema_ctx \<Rightarrow> cql_type \<Rightarrow> bool" where
  "display_wf ctx (TList t) \<longleftrightarrow> display_wf ctx t"
| "display_wf ctx (TSet t) \<longleftrightarrow> display_wf ctx t"
| "display_wf ctx (TMap k v) \<longleftrightarrow> display_wf ctx k \<and> display_wf ctx v"
| "display_wf ctx (TTuple ts) \<longleftrightarrow> ts \<noteq> [] \<and> list_all (display_wf ctx) ts"
| "display_wf ctx (TVector t dim) \<longleftrightarrow> display_wf ctx t \<and> dim \<le> u64_MAX"
| "display_wf ctx (TUdt ks n fs) \<longleftrightarrow> udt_resolves ctx ks n fs"
| "display_wf ctx _ \<longleftrightarrow> True"

abbreviation stops :: "string \<Rightarrow> bool" where
  "stops s \<equiv> s = [] \<or> \<not> ident_char (hd s)"

lemma ident_not_space: "ident_char c \<Longrightarrow> \<not> is_ascii_whitespace c"
  by (auto simp: ident_char_def ascii_defs)

lemma skip_whitespace_idem [simp]: "skip_whitespace (skip_whitespace s) = skip_whitespace s"
  by (simp add: skip_whitespace_def)

lemma skip_whitespace_simps [simp]:
  "skip_whitespace (CHR '' '' # s) = skip_whitespace s" "skip_whitespace (CHR ''<'' # s) = CHR ''<'' # s"
  "skip_whitespace (CHR ''>'' # s) = CHR ''>'' # s" "skip_whitespace (CHR '','' # s) = CHR '','' # s"
  by (simp_all add: skip_whitespace_def is_ascii_whitespace_def)

lemma consume_simps [simp]:
  "consume (CHR ''<'') (CHR ''<'' # s) = Inr s" "consume (CHR ''>'') (CHR ''>'' # s) = Inr s"
  "consume (CHR '','') (CHR '','' # s) = Inr s"
  by (simp_all add: consume_def peek_def)

lemma stops_simps [simp]:
  "\<not> ident_char (CHR ''<'')" "\<not> ident_char (CHR ''>'')" "\<not> ident_char (CHR '','')" "\<not> ident_char (CHR ''.'')"
  by (simp_all add: ident_char_def ascii_defs)

lemma read_ident_append:
  assumes "i \<noteq> []" "list_all ident_char i" "stops r"
  shows "read_ident (i @ r) = Inr (i, r)"
proof -
  have "skip_whitespace (i @ r) = i @ r"
    using assms(1,2) by (cases i) (auto simp: skip_whitespace_def ident_not_space)
  moreover have "takeWhile ident_char (i @ r) = i" "dropWhile ident_char (i @ r) = r"
    using assms(2,3) by (cases r; simp add: list_all_iff)+
  ultimately show ?thesis using assms(1) by (simp add: read_ident_def)
qed

lemma read_ident_space: "read_ident (CHR '' '' # s) = read_ident s"
  by (simp add: read_ident_def)

lemma parse_type_space: "parse_type ctx (CHR '' '' # s) = parse_type ctx s"
  by (simp add: parse_type.simps [of ctx "CHR '' '' # s"] parse_type.simps [of ctx s] read_ident_space)

lemma read_keyword:
  "read_ident (''list<'' @ s) = Inr (''list'', CHR ''<'' # s)" "read_ident (''set<'' @ s) = Inr (''set'', CHR ''<'' # s)"
  "read_ident (''map<'' @ s) = Inr (''map'', CHR ''<'' # s)" "read_ident (''tuple<'' @ s) = Inr (''tuple'', CHR ''<'' # s)"
  "read_ident (''vector<'' @ s) = Inr (''vector'', CHR ''<'' # s)"
  by (simp_all add: read_ident_def skip_whitespace_def ident_char_def ascii_defs)

lemma lowercase_keyword [simp]:
  "to_ascii_lowercase ''list'' = ''list''" "to_ascii_lowercase ''set'' = ''set''" "to_ascii_lowercase ''map'' = ''map''"
  "to_ascii_lowercase ''tuple'' = ''tuple''" "to_ascii_lowercase ''vector'' = ''vector''"
  by (simp_all add: to_ascii_lowercase_def char_lower_def)

lemma parse_more_types_all:
  assumes "\<And>t r. t \<in> set ts \<Longrightarrow> stops r \<Longrightarrow> parse_type ctx (display_name t @ r) = Inr (t, r)"
  shows "parse_more_types ctx (concat (map (\<lambda>t. '', '' @ display_name t) ts) @ CHR ''>'' # r) = Inr (ts, CHR ''>'' # r)"
  using assms
proof (induction ts)
  case Nil
  then show ?case by (simp add: parse_more_types.simps peek_def)
next
  case (Cons t ts)
  let ?rest = "concat (map (\<lambda>t. '', '' @ display_name t) ts) @ CHR ''>'' # r"
  have "stops ?rest" by (cases ts) simp_all
  then have "parse_type ctx (display_name t @ ?rest) = Inr (t, ?rest)" by (intro Cons.prems) simp_all
  moreover have "parse_more_types ctx ?rest = Inr (ts, CHR ''>'' # r)" using Cons by simp
  ultimately show ?case by (subst parse_more_types.simps) (simp add: peek_def parse_type_space)
qed

lemma join_with_Cons: "join_with sep (d # ds) = d @ concat (map (\<lambda>d. sep @ d) ds)"
proof (induction ds arbitrary: d)
  case (Cons e es)
  then show ?case by (simp add: Cons)
qed simp

lemma parse_type_scalar:
  assumes "t \<in> set SCALAR_TYPES" "stops r"
  shows "parse_type ctx (kind_name t @ r) = Inr (t, r)"
  using kind_name_ident [OF assms(1)] assms(2) scalar_from_kind_name [OF assms(1)]
  by (subst parse_type.simps) (simp add: read_ident_append)

lemma parse_type_udt:
  assumes "udt_resolves ctx ks n fs" "stops r"
  shows "parse_type ctx (ks @ CHR ''.'' # n @ r) = Inr (TUdt ks n fs, r)"
proof -
  obtain cur get_type where ctx: "ctx = Some (cur, get_type)" "get_type ks n = Some (ks, n, fs)"
    using assms(1) by (auto simp: udt_resolves_def split: option.splits)
  have "read_ident (ks @ CHR ''.'' # n @ r) = Inr (ks, CHR ''.'' # n @ r)" "read_ident (n @ r) = Inr (n, r)"
    using assms by (auto simp: udt_resolves_def intro!: read_ident_append)
  then show ?thesis
    using assms ctx by (subst parse_type.simps) (simp add: udt_resolves_def TYPE_KEYWORDS_def parse_udt_def peek_def udt_type_def)
qed

lemma parse_display:
  "display_wf ctx t \<Longrightarrow> stops r \<Longrightarrow> parse_type ctx (display_name t @ r) = Inr (t, r)"
proof (induction t arbitrary: r rule: measure_induct_rule [where f = size])
  case (less t)
  consider "t \<in> set SCALAR_TYPES" "display_name t = kind_name t"
    | u where "t = TList u" | u where "t = TSet u" | k v where "t = TMap k v" | ts where "t = TTuple ts"
    | u d where "t = TVector u d" | ks n fs where "t = TUdt ks n fs"
    by (rule scalar_type_cases [of t])
  then show ?case
  proof cases
    case 1
    then show ?thesis using less.prems(2) by (simp add: parse_type_scalar)
  next
    case (2 u)
    have "parse_type ctx (display_name u @ CHR ''>'' # r) = Inr (u, CHR ''>'' # r)"
      using less.prems 2 by (intro less.IH) simp_all
    then show ?thesis using 2 by (subst parse_type.simps) (simp add: read_keyword [simplified])
  next
    case (3 u)
    have "parse_type ctx (display_name u @ CHR ''>'' # r) = Inr (u, CHR ''>'' # r)"
      using less.prems 3 by (intro less.IH) simp_all
    then show ?thesis using 3 by (subst parse_type.simps) (simp add: read_keyword [simplified])
  next
    case (4 k v)
    have "parse_type ctx (display_name k @ '', '' @ display_name v @ CHR ''>'' # r) = Inr (k, '', '' @ display_name v @ CHR ''>'' # r)"
      using less.prems 4 by (intro less.IH) simp_all
    moreover have "parse_type ctx (display_name v @ CHR ''>'' # r) = Inr (v, CHR ''>'' # r)"
      using less.prems 4 by (intro less.IH) simp_all
    ultimately show ?thesis using 4 by (subst parse_type.simps) (simp add: read_keyword [simplified] parse_type_space)
  next
    case (5 ts)
    then obtain u us where ts: "ts = u # us" using less.prems(1) by (cases ts) auto
    let ?rest = "concat (map (\<lambda>t. '', '' @ display_name t) us) @ CHR ''>'' # r"
    have IH: "parse_type ctx (display_name x @ r') = Inr (x, r')" if "x \<in> set ts" "stops r'" for x r'
    proof (rule less.IH [OF _ _ that(2)])
      show "size x < size t" using size_list_estimation' [OF that(1), of "size x" size] 5 by simp
      show "display_wf ctx x" using less.prems(1) 5 that(1) by (simp add: list_all_iff)
    qed
    have "parse_type ctx (display_name u @ ?rest) = Inr (u, ?rest)" by (rule IH) (use ts in \<open>cases us; simp\<close>)+
    moreover have "parse_more_types ctx ?rest = Inr (us, CHR ''>'' # r)" by (rule parse_more_types_all) (simp add: IH ts)
    ultimately show ?thesis using 5 ts
      by (subst parse_type.simps) (simp add: read_keyword [simplified] join_with_Cons comp_def)
  next
    case (6 u d)
    have "parse_type ctx (display_name u @ '', '' @ usize_to_string d @ CHR ''>'' # r) = Inr (u, '', '' @ usize_to_string d @ CHR ''>'' # r)"
      using less.prems 6 by (intro less.IH) simp_all
    moreover have "list_all ident_char (usize_to_string d)"
      using usize_to_string_digits [of d] by (rule list.pred_mono_strong) (simp add: ident_char_def is_ascii_alphanumeric_def)
    then have "read_ident (usize_to_string d @ CHR ''>'' # r) = Inr (usize_to_string d, CHR ''>'' # r)"
      by (intro read_ident_append) simp_all
    moreover have "read_ident (skip_whitespace (CHR '' '' # usize_to_string d @ CHR ''>'' # r))
        = read_ident (usize_to_string d @ CHR ''>'' # r)"
      by (simp add: read_ident_def)
    ultimately show ?thesis using 6 less.prems(1)
      by (subst parse_type.simps) (simp add: read_keyword [simplified] parse_usize_to_string)
  next
    case (7 ks n fs)
    then show ?thesis using less.prems parse_type_udt [of ctx ks n fs r] by simp
  qed
qed

lemma display_name_ends:
  assumes "display_wf ctx t"
  shows "display_name t \<noteq> [] \<and> \<not> is_whitespace (hd (display_name t)) \<and> \<not> is_whitespace (last (display_name t))"
proof -
  have ident: "\<not> is_whitespace c" if "ident_char c" for c using that by (auto simp: ident_char_def ascii_defs)
  have word: "w \<noteq> [] \<and> \<not> is_whitespace (hd w) \<and> \<not> is_whitespace (last w)" if "w \<noteq> []" "list_all ident_char w" for w
    using that ident by (simp add: list_all_iff)
  consider "t \<in> set SCALAR_TYPES" "display_name t = kind_name t"
    | u where "t = TList u" | u where "t = TSet u" | k v where "t = TMap k v" | ts where "t = TTuple ts"
    | u d where "t = TVector u d" | ks n fs where "t = TUdt ks n fs"
    by (rule scalar_type_cases [of t])
  then show ?thesis
  proof cases
    case 1
    then show ?thesis using word kind_name_ident by simp
  next
    case (7 ks n fs)
    then show ?thesis using assms word [of ks] word [of n] by (simp add: udt_resolves_def)
  qed (simp_all add: is_whitespace_def)
qed

lemma parse_cql_type_display:
  assumes "display_wf ctx t" "check_jsonb_nesting t = Inr ()"
  shows "parse_cql_type_with ctx (display_name t) = Inr t"
proof -
  have "trim (display_name t) = display_name t" using display_name_ends [OF assms(1)] by (simp add: trim_id)
  moreover have "parse_type ctx (display_name t) = Inr (t, [])" using parse_display [OF assms(1), of "[]"] by simp
  ultimately show ?thesis using assms(2) by (simp add: parse_cql_type_with_def reject_forbidden_jsonb_def)
qed

section \<open>Properties\<close>

text \<open>C22: A printed type name is read back as the type: for every type that the parser accepts at all (non-empty
  tuples, dimensions of 64 bits, no jsonb where it is forbidden, user-defined types under lower-case names the schema
  resolves, in a keyspace that is not called like a type), parsing its display name gives the type, with the
  schema and, for types without user-defined parts, without it.\<close>

theorem type_name_roundtrip:
  assumes "check_jsonb_nesting t = Inr ()"
  shows "(display_wf (Some (ks, get_type)) t \<longrightarrow> parse_cql_type_in_keyspace (display_name t) ks get_type = Inr t)
    \<and> (display_wf None t \<longrightarrow> parse_cql_type (display_name t) = Inr t)"
  using assms by (simp add: parse_cql_type_in_keyspace_def parse_cql_type_def parse_cql_type_display)

definition sample_types :: "string \<Rightarrow> string \<Rightarrow> user_type option" where
  "sample_types ks n = (if ks = ''shop'' \<and> n = ''address'' then Some (''shop'', ''address'', [(''zip'', TInt)]) else None)"

definition sample_type :: cql_type where
  "sample_type = TMap TVarchar (TTuple [TList TInt, TUdt ''shop'' ''address'' [(''zip'', TInt)], TVector TFloat 16])"

definition plain_type :: cql_type where
  "plain_type = TMap TVarchar (TSet TTimeuuid)"

theorem type_name_roundtrip_witness:
  "parse_cql_type_in_keyspace ''map<text, tuple<list<int>, shop.address, vector<float, 16>>>'' ''app'' sample_types = Inr sample_type
    \<and> parse_cql_type ''map<text, set<timeuuid>>'' = Inr (TMap TVarchar (TSet TTimeuuid))"
proof -
  have "usize_to_string 16 = ''16''" by code_simp
  then have "display_name sample_type = ''map<text, tuple<list<int>, shop.address, vector<float, 16>>>''"
    "display_name plain_type = ''map<text, set<timeuuid>>''"
    by (simp_all add: sample_type_def plain_type_def kind_name_def info_def)
  moreover have "udt_resolves (Some (''app'', sample_types)) ''shop'' ''address'' [(''zip'', TInt)]"
    by (simp add: udt_resolves_def sample_types_def ident_char_def ascii_defs to_ascii_lowercase_def registry_defs TYPE_KEYWORDS_def)
  then have "display_wf (Some (''app'', sample_types)) sample_type" "display_wf None plain_type"
    by (simp_all add: sample_type_def plain_type_def u64_MAX_def)
  moreover have "check_jsonb_nesting sample_type = Inr ()" "check_jsonb_nesting plain_type = Inr ()"
    by (simp_all add: sample_type_def plain_type_def)
  ultimately show ?thesis
    using type_name_roundtrip [of sample_type "''app''" sample_types]
      type_name_roundtrip [of plain_type "[]" sample_types] by (simp flip: plain_type_def)
qed

end
