(* ===== verification/Cql_Value.thy ===== *)
theory Cql_Value
  imports Cql_Type Varint "HOL-Library.Char_ord"
begin

unbundle bit_operations_syntax

text \<open>
  CQL values and their wire format (crates \<open>ferrosa-common\<close>: \<open>cql_type/mod.rs\<close>, and \<open>ferrosa-row-bridge\<close>: the value
  codec of \<open>codec.rs\<close>).

  A text is the list of its UTF-8 bytes, a UUID the list of its 16 bytes, a floating-point number its bits.  A
  jsonb value is the list of its bytes.  \<open>value_deps\<close> collects what the codec uses of other code: the conversion
  of \<open>num_bigint::BigInt\<close> to and from two's complement bytes, and the validator and the order of jsonb cells.
  The loops over a byte position are functions of that position.

  The lemmas show that decoding inverts encoding for every well-typed value, whatever its nesting, and that the order
  of values is total.
\<close>

section \<open>Values\<close>

datatype ip_addr = V4 bytes | V6 bytes

datatype cql_value =
  VNull
| VAscii bytes
| VBigint i64
| VBlob bytes
| VBoolean bool
| VCounter i64
| VDecimal i32 int
| VDouble "64 word"
| VFloat "32 word"
| VInt i32
| VTimestamp i64
| VUuid bytes
| VText bytes
| VVarint int
| VTimeuuid bytes
| VInet ip_addr
| VDate "32 word"
| VTime i64
| VSmallint int
| VTinyint int
| VDuration i32 i32 i64
| VList "cql_value list"
| VSet "cql_value list"
| VMap "(cql_value \<times> cql_value) list"
| VTuple "cql_value option list"
| VVector "32 word list"
| VUdt "(string \<times> cql_value option) list"
| VJsonb bytes

datatype jsonb_error = UnknownEnvelopeByte u8 | OtherJsonbError

record value_deps =
  to_signed_bytes_be :: "int \<Rightarrow> bytes"
  from_signed_bytes_be :: "bytes \<Rightarrow> int"
  jsonb_validate :: "bytes \<Rightarrow> jsonb_error option"
  jsonb_cmp :: "bytes \<Rightarrow> bytes \<Rightarrow> ordering"

section \<open>Encoding\<close>

definition be_i64 :: "i64 \<Rightarrow> bytes" where "be_i64 n = be_bytes 8 (word_of_int n :: 64 word)"
definition be_i32 :: "i32 \<Rightarrow> bytes" where "be_i32 n = be_bytes 4 (word_of_int n :: 32 word)"

text \<open>\<open>(bytes.len() as i32).to_be_bytes()\<close> followed by the bytes, and the null of a tuple or UDT field.\<close>

definition len_prefixed :: "bytes \<Rightarrow> bytes" where
  "len_prefixed bs = be_bytes 4 (of_nat (length bs) :: 32 word) @ bs"

definition opt_prefixed :: "bytes option \<Rightarrow> bytes" where
  "opt_prefixed e = (case e of Some bs \<Rightarrow> len_prefixed bs | None \<Rightarrow> be_i32 (- 1))"

definition encode_vint :: "i64 \<Rightarrow> bytes" where
  "encode_vint v = (case write_signed_vint (replicate 9 0) v of Some (buf, n) \<Rightarrow> take n buf | None \<Rightarrow> [])"

primrec encode_value :: "value_deps \<Rightarrow> cql_value \<Rightarrow> bytes" where
  "encode_value X (VAscii s) = s"
| "encode_value X (VText s) = s"
| "encode_value X (VBigint n) = be_i64 n"
| "encode_value X (VCounter n) = be_i64 n"
| "encode_value X (VTimestamp n) = be_i64 n"
| "encode_value X (VBlob b) = b"
| "encode_value X (VBoolean b) = [if b then 1 else 0]"
| "encode_value X (VDecimal scale unscaled) = be_i32 scale @ to_signed_bytes_be X unscaled"
| "encode_value X (VDouble bits) = be_bytes 8 bits"
| "encode_value X (VFloat bits) = be_bytes 4 bits"
| "encode_value X (VInt n) = be_i32 n"
| "encode_value X (VUuid u) = u"
| "encode_value X (VTimeuuid u) = u"
| "encode_value X (VVarint n) = to_signed_bytes_be X n"
| "encode_value X (VInet ip) = (case ip of V4 octets \<Rightarrow> octets | V6 octets \<Rightarrow> octets)"
| "encode_value X (VDate d) = be_bytes 4 d"
| "encode_value X (VTime t) = be_i64 t"
| "encode_value X (VSmallint n) = be_bytes 2 (word_of_int n :: u16)"
| "encode_value X (VTinyint n) = be_bytes 1 (word_of_int n :: u8)"
| "encode_value X (VDuration months days nanos) = encode_vint months @ encode_vint days @ encode_vint nanos"
| "encode_value X (VList items) =
     be_bytes 4 (of_nat (length items) :: 32 word) @ concat (map len_prefixed (map (encode_value X) items))"
| "encode_value X (VSet items) =
     be_bytes 4 (of_nat (length items) :: 32 word) @ concat (map len_prefixed (map (encode_value X) items))"
| "encode_value X (VMap entries) =
     be_bytes 4 (of_nat (length entries) :: 32 word)
     @ concat (map (\<lambda>(ek, ev). len_prefixed ek @ len_prefixed ev) (map (map_prod (encode_value X) (encode_value X)) entries))"
| "encode_value X (VTuple elements) = concat (map opt_prefixed (map (map_option (encode_value X)) elements))"
| "encode_value X (VVector bits) = concat (map (be_bytes 4) bits)"
| "encode_value X (VUdt fs) =
     concat (map (\<lambda>(_, e). opt_prefixed e) (map (map_prod id (map_option (encode_value X))) fs))"
| "encode_value X (VJsonb j) = j"
| "encode_value X VNull = []"

section \<open>Decoding\<close>

text \<open>\<open>std::str::from_utf8\<close> accepts the well-formed UTF-8 sequences.\<close>

abbreviation continuation :: "u8 \<Rightarrow> bool" where
  "continuation b \<equiv> 0x80 \<le> b \<and> b \<le> 0xBF"

fun utf8_valid :: "bytes \<Rightarrow> bool" where
  "utf8_valid [] \<longleftrightarrow> True"
| "utf8_valid (b # bs) \<longleftrightarrow>
     (if b \<le> 0x7F then utf8_valid bs
      else if 0xC2 \<le> b \<and> b \<le> 0xDF then (case bs of c1 # r \<Rightarrow> continuation c1 \<and> utf8_valid r | _ \<Rightarrow> False)
      else if 0xE0 \<le> b \<and> b \<le> 0xEF then
        (case bs of c1 # c2 # r \<Rightarrow> continuation c1 \<and> continuation c2 \<and> (b = 0xE0 \<longrightarrow> 0xA0 \<le> c1)
            \<and> (b = 0xED \<longrightarrow> c1 \<le> 0x9F) \<and> utf8_valid r
         | _ \<Rightarrow> False)
      else if 0xF0 \<le> b \<and> b \<le> 0xF4 then
        (case bs of c1 # c2 # c3 # r \<Rightarrow> continuation c1 \<and> continuation c2 \<and> continuation c3 \<and> (b = 0xF0 \<longrightarrow> 0x90 \<le> c1)
            \<and> (b = 0xF4 \<longrightarrow> c1 \<le> 0x8F) \<and> utf8_valid r
         | _ \<Rightarrow> False)
      else False)"

definition from_utf8 :: "(bytes \<Rightarrow> cql_value) \<Rightarrow> bytes \<Rightarrow> row_bridge_error + cql_value" where
  "from_utf8 f bs = (if utf8_valid bs then Inr (f bs) else Inl Invalid)"

definition be_array :: "usize \<Rightarrow> bytes \<Rightarrow> row_bridge_error + 'a::len word" where
  "be_array n bs = (if length bs = n then Inr (of_be_bytes 0 bs) else Inl Invalid)"

definition read_i32 :: "bytes \<Rightarrow> usize \<Rightarrow> i32" where
  "read_i32 bs pos = sint (of_be_bytes 0 (take 4 (drop pos bs)) :: 32 word)"

definition as_i32 :: "i64 \<Rightarrow> i32" where
  "as_i32 n = sint (word_of_int n :: 32 word)"

definition decode_vint :: "bytes \<Rightarrow> usize \<Rightarrow> row_bridge_error + i64 \<times> usize" where
  "decode_vint data offset =
     (if offset > length data then Inl Invalid
      else case read_signed_vint (drop offset data) of
        Inl _ \<Rightarrow> Inl Invalid
      | Inr (v, consumed) \<Rightarrow> Inr (v, offset + consumed))"

definition read_collection_header :: "bytes \<Rightarrow> row_bridge_error + usize \<times> usize" where
  "read_collection_header bs =
     (if length bs < 4 then Inl Invalid
      else
        let n = read_i32 bs 0; remaining = length bs - 4 in
        if n < 0 then Inl Invalid else if nat n > remaining div 4 then Inl Invalid else Inr (nat n, 4))"

text \<open>\<open>dec\<close> is \<open>decode_value\<close> at the element type.\<close>

definition read_collection_element ::
  "(bytes \<Rightarrow> row_bridge_error + cql_value) \<Rightarrow> bytes \<Rightarrow> usize \<Rightarrow> row_bridge_error + cql_value \<times> usize" where
  "read_collection_element dec bs pos =
     (if pos + 4 > length bs then Inl Invalid
      else
        let n = read_i32 bs pos in
        if n < 0 then Inr (VNull, pos + 4)
        else
          let stop = pos + 4 + nat n in
          if stop > length bs then Inl Invalid
          else and_then (dec (take (nat n) (drop (pos + 4) bs))) (\<lambda>v. Inr (v, stop)))"

definition read_collection_entry ::
  "(bytes \<Rightarrow> row_bridge_error + cql_value) \<Rightarrow> (bytes \<Rightarrow> row_bridge_error + cql_value) \<Rightarrow> bytes \<Rightarrow> usize
     \<Rightarrow> row_bridge_error + (cql_value \<times> cql_value) \<times> usize" where
  "read_collection_entry dec_key dec_val bs pos =
     and_then (read_collection_element dec_key bs pos) (\<lambda>(k, kpos).
     and_then (read_collection_element dec_val bs kpos) (\<lambda>(v, vpos). Inr ((k, v), vpos)))"

text \<open>The loop \<open>for _ in 0..count\<close> of the collection arms.\<close>

fun read_times :: "(bytes \<Rightarrow> usize \<Rightarrow> 'e + 'a \<times> usize) \<Rightarrow> nat \<Rightarrow> bytes \<Rightarrow> usize \<Rightarrow> 'e + 'a list" where
  "read_times rd 0 bs pos = Inr []"
| "read_times rd (Suc n) bs pos =
     and_then (rd bs pos) (\<lambda>(v, next_pos). and_then (read_times rd n bs next_pos) (\<lambda>vs. Inr (v # vs)))"

text \<open>The loops over the element types of a tuple and over the fields of a user-defined type.\<close>

definition read_nullable :: "(bytes \<Rightarrow> row_bridge_error + cql_value) \<Rightarrow> bytes \<Rightarrow> usize \<Rightarrow> row_bridge_error + cql_value option \<times> usize" where
  "read_nullable dec bs pos =
     (if pos + 4 > length bs then Inl Invalid
      else
        let n = read_i32 bs pos; pos = pos + 4 in
        if n < 0 then Inr (None, pos)
        else
          let stop = pos + nat n in
          if stop > length bs then Inl Invalid
          else and_then (dec (take (nat n) (drop pos bs))) (\<lambda>v. Inr (Some v, stop)))"

fun decode_tuple :: "(bytes \<Rightarrow> row_bridge_error + cql_value) list \<Rightarrow> bytes \<Rightarrow> usize \<Rightarrow> row_bridge_error + cql_value option list" where
  "decode_tuple [] bs pos = Inr []"
| "decode_tuple (d # ds) bs pos =
     and_then (read_nullable d bs pos) (\<lambda>(e, pos). and_then (decode_tuple ds bs pos) (\<lambda>es. Inr (e # es)))"

fun decode_udt :: "(string \<times> (bytes \<Rightarrow> row_bridge_error + cql_value)) list \<Rightarrow> bytes \<Rightarrow> usize
    \<Rightarrow> row_bridge_error + (string \<times> cql_value option) list" where
  "decode_udt [] bs pos = Inr []"
| "decode_udt ((field_name, d) # ds) bs pos =
     (if pos \<ge> length bs then and_then (decode_udt ds bs pos) (\<lambda>fs. Inr ((field_name, None) # fs))
      else and_then (read_nullable d bs pos) (\<lambda>(e, pos).
           and_then (decode_udt ds bs pos) (\<lambda>fs. Inr ((field_name, e) # fs))))"

fun split_words :: "nat \<Rightarrow> bytes \<Rightarrow> 32 word list" where
  "split_words 0 bs = []"
| "split_words (Suc n) bs = of_be_bytes 0 (take 4 bs) # split_words n (drop 4 bs)"

definition decode_jsonb :: "value_deps \<Rightarrow> bytes \<Rightarrow> row_bridge_error + cql_value" where
  "decode_jsonb X bs =
     (case jsonb_validate X bs of
        None \<Rightarrow> Inr (VJsonb bs)
      | Some (UnknownEnvelopeByte b) \<Rightarrow> Inl (JsonbRefused (UnknownEnvelope b (length bs)))
      | Some OtherJsonbError \<Rightarrow> Inl (JsonbRefused (CorruptJsonb (length bs))))"

primrec decode_value :: "value_deps \<Rightarrow> cql_type \<Rightarrow> bytes \<Rightarrow> row_bridge_error + cql_value" where
  "decode_value X TAscii = from_utf8 VAscii"
| "decode_value X TVarchar = from_utf8 VText"
| "decode_value X TBigint = (\<lambda>bs. and_then (be_array 8 bs) (\<lambda>w. Inr (VBigint (sint (w :: 64 word)))))"
| "decode_value X TCounter = (\<lambda>bs. and_then (be_array 8 bs) (\<lambda>w. Inr (VCounter (sint (w :: 64 word)))))"
| "decode_value X TBlob = (\<lambda>bs. Inr (VBlob bs))"
| "decode_value X TBoolean = (\<lambda>bs. if length bs \<noteq> 1 then Inl Invalid else Inr (VBoolean (hd bs \<noteq> 0)))"
| "decode_value X TDouble = (\<lambda>bs. and_then (be_array 8 bs) (\<lambda>w. Inr (VDouble w)))"
| "decode_value X TFloat = (\<lambda>bs. and_then (be_array 4 bs) (\<lambda>w. Inr (VFloat w)))"
| "decode_value X TInt = (\<lambda>bs. and_then (be_array 4 bs) (\<lambda>w. Inr (VInt (sint (w :: 32 word)))))"
| "decode_value X TTimestamp = (\<lambda>bs. and_then (be_array 8 bs) (\<lambda>w. Inr (VTimestamp (sint (w :: 64 word)))))"
| "decode_value X TUuid = (\<lambda>bs. if length bs \<noteq> 16 then Inl Invalid else Inr (VUuid bs))"
| "decode_value X TTimeuuid = (\<lambda>bs. if length bs \<noteq> 16 then Inl Invalid else Inr (VTimeuuid bs))"
| "decode_value X TInet = (\<lambda>bs. if length bs = 4 then Inr (VInet (V4 bs)) else if length bs = 16 then Inr (VInet (V6 bs)) else Inl Invalid)"
| "decode_value X TDate = (\<lambda>bs. and_then (be_array 4 bs) (\<lambda>w. Inr (VDate w)))"
| "decode_value X TTime = (\<lambda>bs. and_then (be_array 8 bs) (\<lambda>w. Inr (VTime (sint (w :: 64 word)))))"
| "decode_value X TSmallint = (\<lambda>bs. and_then (be_array 2 bs) (\<lambda>w. Inr (VSmallint (sint (w :: u16)))))"
| "decode_value X TTinyint = (\<lambda>bs. if length bs \<noteq> 1 then Inl Invalid else Inr (VTinyint (sint (hd bs))))"
| "decode_value X TDuration = (\<lambda>bs.
     and_then (decode_vint bs 0) (\<lambda>(months, offset).
     and_then (decode_vint bs offset) (\<lambda>(days, offset).
     and_then (decode_vint bs offset) (\<lambda>(nanos, offset).
     if offset \<noteq> length bs then Inl Invalid else Inr (VDuration (as_i32 months) (as_i32 days) nanos)))))"
| "decode_value X TVarint = (\<lambda>bs. Inr (VVarint (from_signed_bytes_be X bs)))"
| "decode_value X TDecimal = (\<lambda>bs. if length bs < 4 then Inl Invalid
     else Inr (VDecimal (read_i32 bs 0) (from_signed_bytes_be X (drop 4 bs))))"
| "decode_value X (TList elem_type) = (\<lambda>bs.
     and_then (read_collection_header bs) (\<lambda>(n, pos).
     and_then (read_times (read_collection_element (decode_value X elem_type)) n bs pos) (\<lambda>items. Inr (VList items))))"
| "decode_value X (TSet elem_type) = (\<lambda>bs.
     and_then (read_collection_header bs) (\<lambda>(n, pos).
     and_then (read_times (read_collection_element (decode_value X elem_type)) n bs pos) (\<lambda>items. Inr (VSet items))))"
| "decode_value X (TMap key_type val_type) = (\<lambda>bs.
     and_then (read_collection_header bs) (\<lambda>(n, pos).
     and_then (read_times (read_collection_entry (decode_value X key_type) (decode_value X val_type)) n bs pos)
       (\<lambda>entries. Inr (VMap entries))))"
| "decode_value X (TTuple elem_types) = (\<lambda>bs.
     and_then (decode_tuple (map (decode_value X) elem_types) bs 0) (\<lambda>es. Inr (VTuple es)))"
| "decode_value X (TVector elem_type dim) = (\<lambda>bs.
     let expected = dim * 4 mod 2 ^ 64 in
     if length bs \<noteq> expected then Inl Invalid else if expected \<noteq> dim * 4 then Inl Panic else Inr (VVector (split_words dim bs)))"
| "decode_value X (TUdt ks n fs) = (\<lambda>bs.
     and_then (decode_udt (map (map_prod id (decode_value X)) fs) bs 0) (\<lambda>fs. Inr (VUdt fs)))"
| "decode_value X TJsonb = decode_jsonb X"

text \<open>The variant that keeps the buffer of a uniquely owned scalar.\<close>

definition decode_value_owned :: "value_deps \<Rightarrow> cql_type \<Rightarrow> bytes \<Rightarrow> row_bridge_error + cql_value" where
  "decode_value_owned X t bs =
     (case t of TAscii \<Rightarrow> from_utf8 VAscii bs | TVarchar \<Rightarrow> from_utf8 VText bs | TBlob \<Rightarrow> Inr (VBlob bs) | _ \<Rightarrow> decode_value X t bs)"

section \<open>Typing\<close>

text \<open>The values of a type, as far as they can be encoded: integers within their width, texts in UTF-8, collections and
  elements whose sizes fit the 32-bit length fields, no nulls inside collections.\<close>

definition is_i32 :: "int \<Rightarrow> bool" where
  "is_i32 n \<longleftrightarrow> i32_MIN \<le> n \<and> n \<le> i32_MAX"

definition encodable :: "value_deps \<Rightarrow> (cql_value \<Rightarrow> bool) \<Rightarrow> cql_value \<Rightarrow> bool" where
  "encodable X p v \<longleftrightarrow> p v \<and> length (encode_value X v) < 2 ^ 31"

primrec has_type :: "value_deps \<Rightarrow> cql_type \<Rightarrow> cql_value \<Rightarrow> bool" where
  "has_type X TAscii = (\<lambda>v. case v of VAscii s \<Rightarrow> utf8_valid s | _ \<Rightarrow> False)"
| "has_type X TVarchar = (\<lambda>v. case v of VText s \<Rightarrow> utf8_valid s | _ \<Rightarrow> False)"
| "has_type X TBigint = (\<lambda>v. case v of VBigint n \<Rightarrow> is_i64 n | _ \<Rightarrow> False)"
| "has_type X TCounter = (\<lambda>v. case v of VCounter n \<Rightarrow> is_i64 n | _ \<Rightarrow> False)"
| "has_type X TBlob = (\<lambda>v. case v of VBlob _ \<Rightarrow> True | _ \<Rightarrow> False)"
| "has_type X TBoolean = (\<lambda>v. case v of VBoolean _ \<Rightarrow> True | _ \<Rightarrow> False)"
| "has_type X TDouble = (\<lambda>v. case v of VDouble _ \<Rightarrow> True | _ \<Rightarrow> False)"
| "has_type X TFloat = (\<lambda>v. case v of VFloat _ \<Rightarrow> True | _ \<Rightarrow> False)"
| "has_type X TInt = (\<lambda>v. case v of VInt n \<Rightarrow> is_i32 n | _ \<Rightarrow> False)"
| "has_type X TTimestamp = (\<lambda>v. case v of VTimestamp n \<Rightarrow> is_i64 n | _ \<Rightarrow> False)"
| "has_type X TUuid = (\<lambda>v. case v of VUuid u \<Rightarrow> length u = 16 | _ \<Rightarrow> False)"
| "has_type X TTimeuuid = (\<lambda>v. case v of VTimeuuid u \<Rightarrow> length u = 16 | _ \<Rightarrow> False)"
| "has_type X TInet = (\<lambda>v. case v of VInet (V4 os) \<Rightarrow> length os = 4 | VInet (V6 os) \<Rightarrow> length os = 16 | _ \<Rightarrow> False)"
| "has_type X TDate = (\<lambda>v. case v of VDate _ \<Rightarrow> True | _ \<Rightarrow> False)"
| "has_type X TTime = (\<lambda>v. case v of VTime n \<Rightarrow> is_i64 n | _ \<Rightarrow> False)"
| "has_type X TSmallint = (\<lambda>v. case v of VSmallint n \<Rightarrow> - (2 ^ 15) \<le> n \<and> n < 2 ^ 15 | _ \<Rightarrow> False)"
| "has_type X TTinyint = (\<lambda>v. case v of VTinyint n \<Rightarrow> - (2 ^ 7) \<le> n \<and> n < 2 ^ 7 | _ \<Rightarrow> False)"
| "has_type X TDuration = (\<lambda>v. case v of VDuration m d n \<Rightarrow> is_i32 m \<and> is_i32 d \<and> is_i64 n | _ \<Rightarrow> False)"
| "has_type X TVarint = (\<lambda>v. case v of VVarint _ \<Rightarrow> True | _ \<Rightarrow> False)"
| "has_type X TDecimal = (\<lambda>v. case v of VDecimal scale _ \<Rightarrow> is_i32 scale | _ \<Rightarrow> False)"
| "has_type X (TList t) = (\<lambda>v. case v of VList vs \<Rightarrow> length vs < 2 ^ 31 \<and> list_all (encodable X (has_type X t)) vs | _ \<Rightarrow> False)"
| "has_type X (TSet t) = (\<lambda>v. case v of VSet vs \<Rightarrow> length vs < 2 ^ 31 \<and> list_all (encodable X (has_type X t)) vs | _ \<Rightarrow> False)"
| "has_type X (TMap k t) = (\<lambda>v. case v of VMap es \<Rightarrow> length es < 2 ^ 31
     \<and> list_all (\<lambda>(a, b). encodable X (has_type X k) a \<and> encodable X (has_type X t) b) es | _ \<Rightarrow> False)"
| "has_type X (TTuple ts) = (\<lambda>v. case v of VTuple es \<Rightarrow>
     list_all2 (\<lambda>p e. pred_option (encodable X p) e) (map (has_type X) ts) es | _ \<Rightarrow> False)"
| "has_type X (TVector t dim) = (\<lambda>v. case v of VVector bits \<Rightarrow> length bits = dim \<and> dim * 4 < 2 ^ 64 | _ \<Rightarrow> False)"
| "has_type X (TUdt ks n fs) = (\<lambda>v. case v of VUdt es \<Rightarrow>
     list_all2 (\<lambda>(name, p) (name', e). name' = name \<and> pred_option (encodable X p) e) (map (map_prod id (has_type X)) fs) es
   | _ \<Rightarrow> False)"
| "has_type X TJsonb = (\<lambda>v. case v of VJsonb j \<Rightarrow> jsonb_validate X j = None | _ \<Rightarrow> False)"

text \<open>What the codec relies on of \<open>BigInt\<close>: reading two's complement bytes back gives the number.\<close>

definition bigint_law :: "value_deps \<Rightarrow> bool" where
  "bigint_law X \<longleftrightarrow> (\<forall>n. from_signed_bytes_be X (to_signed_bytes_be X n) = n)"

section \<open>Decoding an encoding\<close>

lemma sint_word_of_int_id:
  assumes "- (2 ^ (LENGTH('a) - 1)) \<le> n" "n < 2 ^ (LENGTH('a) - 1)"
  shows "sint (word_of_int n :: 'a::len word) = n"
  using assms by transfer (simp add: signed_take_bit_int_eq_self)

lemma sint_i32: "is_i32 n \<Longrightarrow> sint (word_of_int n :: 32 word) = n"
  by (rule sint_word_of_int_id) (simp_all add: is_i32_def machine_consts)

lemma sint_of_length: "n < 2 ^ 31 \<Longrightarrow> sint (of_nat n :: 32 word) = int n"
  using sint_word_of_int_id [where 'a = 32, of "int n"] by simp

lemma of_be_be_4: "of_be_bytes 0 (be_bytes 4 w) = (w :: 32 word)"
  by (rule of_be_be_bytes_full) simp

lemma be_array_be_bytes: "LENGTH('a) \<le> 8 * n \<Longrightarrow> be_array n (be_bytes n w) = Inr (w :: 'a::len word)"
  by (simp add: be_array_def of_be_be_bytes_full)

lemma read_i32_at: "pos = length pre \<Longrightarrow> read_i32 (pre @ be_bytes 4 (w :: 32 word) @ post) pos = sint w"
  by (simp add: read_i32_def of_be_be_4)

lemma length_len_prefixed: "length (len_prefixed bs) = 4 + length bs"
  by (simp add: len_prefixed_def)

lemma read_element:
  assumes "length bs < 2 ^ 31" "pos = length pre"
  shows "read_collection_element dec (pre @ len_prefixed bs @ post) pos
    = and_then (dec bs) (\<lambda>v. Inr (v, pos + length (len_prefixed bs)))"
proof -
  have "read_i32 (pre @ len_prefixed bs @ post) pos = int (length bs)"
    unfolding len_prefixed_def append_assoc read_i32_at [OF assms(2)] by (rule sint_of_length [OF assms(1)])
  moreover have "take (length bs) (drop (pos + 4) (pre @ len_prefixed bs @ post)) = bs"
    using assms(2) by (simp add: len_prefixed_def)
  ultimately show ?thesis
    using assms(2) by (simp add: read_collection_element_def length_len_prefixed Let_def add.assoc del: drop_append take_append)
qed

lemma read_nullable_prefixed:
  assumes "pred_option (\<lambda>bs. length bs < 2 ^ 31) e" "pos = length pre"
  shows "read_nullable dec (pre @ opt_prefixed e @ post) pos
    = (case e of None \<Rightarrow> Inr (None, pos + length (opt_prefixed e))
       | Some bs \<Rightarrow> and_then (dec bs) (\<lambda>v. Inr (Some v, pos + length (opt_prefixed e))))"
proof (cases e)
  case None
  have "read_i32 (pre @ be_i32 (- 1) @ post) pos = - 1"
    unfolding be_i32_def read_i32_at [OF assms(2)] by simp
  then show ?thesis using assms(2) by (simp add: None opt_prefixed_def read_nullable_def be_i32_def)
next
  case (Some bs)
  then have l: "length bs < 2 ^ 31" using assms(1) by simp
  have "read_i32 (pre @ len_prefixed bs @ post) pos = int (length bs)"
    unfolding len_prefixed_def append_assoc read_i32_at [OF assms(2)] by (rule sint_of_length [OF l])
  moreover have "take (length bs) (drop (pos + 4) (pre @ len_prefixed bs @ post)) = bs"
    using assms(2) by (simp add: len_prefixed_def)
  ultimately show ?thesis
    using assms(2) by (simp add: Some opt_prefixed_def read_nullable_def length_len_prefixed Let_def add.assoc del: drop_append take_append)
qed

lemma read_times_concat:
  assumes "\<And>v pre post. v \<in> set vs \<Longrightarrow> rd (pre @ enc v @ post) (length pre) = Inr (v, length pre + length (enc v))"
  shows "read_times rd (length vs) (pre @ concat (map enc vs) @ post) (length pre) = Inr vs"
  using assms
proof (induction vs arbitrary: pre)
  case (Cons v vs)
  have "rd (pre @ enc v @ concat (map enc vs) @ post) (length pre) = Inr (v, length pre + length (enc v))"
    by (rule Cons.prems) simp
  moreover have "read_times rd (length vs) ((pre @ enc v) @ concat (map enc vs) @ post) (length (pre @ enc v)) = Inr vs"
    by (rule Cons.IH) (simp add: Cons.prems)
  ultimately show ?case by simp
qed simp

lemma header_be:
  assumes "n < 2 ^ 31" "4 * n \<le> length rest"
  shows "read_collection_header (be_bytes 4 (of_nat n :: 32 word) @ rest) = Inr (n, 4)"
proof -
  have "read_i32 (be_bytes 4 (of_nat n :: 32 word) @ rest) 0 = int n"
    using read_i32_at [of 0 "[]" "of_nat n" rest] sint_of_length [OF assms(1)] by simp
  then show ?thesis using assms(2) by (simp add: read_collection_header_def Let_def)
qed

definition round_trips :: "value_deps \<Rightarrow> (bytes \<Rightarrow> row_bridge_error + cql_value) \<Rightarrow> cql_value \<Rightarrow> bool" where
  "round_trips X d v \<longleftrightarrow> d (encode_value X v) = Inr v \<and> length (encode_value X v) < 2 ^ 31"

lemma read_nullable_encoded:
  assumes "pred_option (round_trips X d) e" "pos = length pre"
  shows "read_nullable d (pre @ opt_prefixed (map_option (encode_value X) e) @ post) pos
    = Inr (e, pos + length (opt_prefixed (map_option (encode_value X) e)))"
  using assms read_nullable_prefixed [of "map_option (encode_value X) e" pos pre d post]
  by (cases e) (simp_all add: round_trips_def)

lemma decode_tuple_concat:
  assumes "list_all2 (\<lambda>d e. pred_option (round_trips X d) e) ds es"
  shows "decode_tuple ds (pre @ concat (map opt_prefixed (map (map_option (encode_value X)) es)) @ post) (length pre) = Inr es"
  using assms
proof (induction ds es arbitrary: pre)
  case (Cons d ds e es)
  let ?e = "opt_prefixed (map_option (encode_value X) e)"
  let ?rest = "concat (map opt_prefixed (map (map_option (encode_value X)) es)) @ post"
  have "read_nullable d (pre @ ?e @ ?rest) (length pre) = Inr (e, length pre + length ?e)"
    by (rule read_nullable_encoded) (simp_all add: Cons.hyps(1))
  moreover have "decode_tuple ds ((pre @ ?e) @ ?rest) (length (pre @ ?e)) = Inr es" by (rule Cons.IH)
  ultimately show ?case by simp
qed simp

lemma opt_prefixed_nonempty [simp]: "opt_prefixed e \<noteq> []"
proof -
  have "0 < length (opt_prefixed e)" by (cases e) (simp_all add: opt_prefixed_def be_i32_def len_prefixed_def del: length_greater_0_conv)
  then show ?thesis by simp
qed

lemma encode_udt: "encode_value X (VUdt fs) = concat (map (\<lambda>f. opt_prefixed (map_option (encode_value X) (snd f))) fs)"
  by (simp add: comp_def case_prod_beta)

lemma decode_udt_concat:
  assumes "list_all2 (\<lambda>(name, d) (name', e). name' = name \<and> pred_option (round_trips X d) e) ds fs"
  shows "decode_udt ds (pre @ concat (map (\<lambda>f. opt_prefixed (map_option (encode_value X) (snd f))) fs) @ post) (length pre) = Inr fs"
  using assms
proof (induction ds fs arbitrary: pre)
  case (Cons d ds f fs)
  obtain name dec e where d: "d = (name, dec)" and f: "f = (name, e)" and rt: "pred_option (round_trips X dec) e"
    using Cons.hyps(1) by (auto split: prod.splits)
  let ?e = "opt_prefixed (map_option (encode_value X) e)"
  let ?rest = "concat (map (\<lambda>f. opt_prefixed (map_option (encode_value X) (snd f))) fs) @ post"
  have "read_nullable dec (pre @ ?e @ ?rest) (length pre) = Inr (e, length pre + length ?e)"
    by (rule read_nullable_encoded) (simp_all add: rt)
  moreover have "decode_udt ds ((pre @ ?e) @ ?rest) (length (pre @ ?e)) = Inr fs" by (rule Cons.IH)
  ultimately show ?case by (simp add: d f)
qed simp

lemma split_words_concat: "split_words (length ws) (concat (map (be_bytes 4) ws)) = ws"
  by (induction ws) (simp_all add: of_be_be_4)

lemma length_concat_be_4: "length (concat (map (be_bytes 4) ws)) = length ws * 4"
  by (induction ws) simp_all

lemma decode_encode_vint:
  assumes "is_i64 v" "pos = length pre"
  shows "decode_vint (pre @ encode_vint v @ post) pos = Inr (v, pos + length (encode_vint v))"
proof -
  let ?w = "zigzag (word_of_int v)"
  obtain e where e: "unsigned_vint_size ?w = Suc e" using vint_size_range [of ?w] by (cases "unsigned_vint_size ?w") auto
  have "Suc e \<le> 9" using vint_size_range [of ?w] e by simp
  then have enc: "encode_vint v = vint_first e ?w # be_bytes e ?w"
    using write_unsigned_vint_eq [OF e, of "replicate 9 0"] by (simp add: encode_vint_def write_signed_vint_def)
  have "read_signed_vint (encode_vint v @ post) = Inr (v, length (encode_vint v))"
    using read_vint_encoded [OF e, of post] sint_of_i64 [OF assms(1)]
    by (simp add: enc read_signed_vint_def unzigzag_zigzag)
  then show ?thesis using assms(2) by (simp add: decode_vint_def)
qed

lemma is_i64_of_i32: "is_i32 n \<Longrightarrow> is_i64 n"
  by (simp add: is_i32_def is_i64_def machine_consts)

lemma decode_duration:
  assumes "is_i32 m" "is_i32 d" "is_i64 n"
  shows "decode_value X TDuration (encode_value X (VDuration m d n)) = Inr (VDuration m d n)"
proof -
  have "decode_vint (encode_vint m @ encode_vint d @ encode_vint n) 0 = Inr (m, length (encode_vint m))"
    using decode_encode_vint [OF is_i64_of_i32 [OF assms(1)], of 0 "[]"] by simp
  moreover have "decode_vint (encode_vint m @ encode_vint d @ encode_vint n) (length (encode_vint m))
      = Inr (d, length (encode_vint m) + length (encode_vint d))"
    by (rule decode_encode_vint [OF is_i64_of_i32 [OF assms(2)]]) simp
  moreover have "decode_vint (encode_vint m @ encode_vint d @ encode_vint n) (length (encode_vint m) + length (encode_vint d))
      = Inr (n, length (encode_vint m) + length (encode_vint d) + length (encode_vint n))"
    using decode_encode_vint [OF assms(3), of _ "encode_vint m @ encode_vint d" "[]"] by simp
  ultimately show ?thesis using assms by (simp add: as_i32_def sint_i32)
qed

lemma length_concat_ge: "(\<And>v. v \<in> set vs \<Longrightarrow> k \<le> length (f v)) \<Longrightarrow> k * length vs \<le> length (concat (map f vs))"
proof (induction vs)
  case (Cons v vs)
  then have "k \<le> length (f v)" "k * length vs \<le> length (concat (map f vs))" by simp_all
  then show ?case by simp
qed simp

lemma decode_items:
  assumes "length vs < 2 ^ 31" "list_all (round_trips X d) vs"
  shows "and_then (read_collection_header (be_bytes 4 (of_nat (length vs) :: 32 word) @ concat (map len_prefixed (map (encode_value X) vs)) @ junk))
      (\<lambda>(n, pos). read_times (read_collection_element d) n
         (be_bytes 4 (of_nat (length vs) :: 32 word) @ concat (map len_prefixed (map (encode_value X) vs)) @ junk) pos) = Inr vs"
proof -
  let ?enc = "\<lambda>v. len_prefixed (encode_value X v)"
  have "4 * length vs \<le> length (concat (map ?enc vs))" by (rule length_concat_ge) (simp add: length_len_prefixed)
  then have "4 * length vs \<le> length (concat (map ?enc vs) @ junk)" unfolding length_append by linarith
  then have "read_collection_header (be_bytes 4 (of_nat (length vs) :: 32 word) @ concat (map ?enc vs) @ junk) = Inr (length vs, 4)"
    using assms(1) by (rule header_be [rotated])
  moreover have "read_times (read_collection_element d) (length vs)
      (be_bytes 4 (of_nat (length vs) :: 32 word) @ concat (map ?enc vs) @ junk) (length (be_bytes 4 (of_nat (length vs) :: 32 word))) = Inr vs"
  proof (rule read_times_concat)
    fix v pre post assume "v \<in> set vs"
    then have "d (encode_value X v) = Inr v" "length (encode_value X v) < 2 ^ 31"
      using assms(2) by (auto simp: list_all_iff round_trips_def)
    then show "read_collection_element d (pre @ ?enc v @ post) (length pre) = Inr (v, length pre + length (?enc v))"
      using read_element [of "encode_value X v" "length pre" pre d post] by simp
  qed
  ultimately show ?thesis by (simp add: comp_def)
qed

lemma decode_entries:
  assumes "length es < 2 ^ 31" "list_all (\<lambda>(k, v). round_trips X dk k \<and> round_trips X dv v) es"
  shows "and_then (read_collection_header (encode_value X (VMap es)))
      (\<lambda>(n, pos). read_times (read_collection_entry dk dv) n (encode_value X (VMap es)) pos) = Inr es"
proof -
  let ?enc = "\<lambda>(k, v). len_prefixed (encode_value X k) @ len_prefixed (encode_value X v)"
  have enc: "encode_value X (VMap es) = be_bytes 4 (of_nat (length es) :: 32 word) @ concat (map ?enc es)"
    by (auto simp: comp_def case_prod_beta intro!: arg_cong [where f = concat])
  have "4 * length es \<le> length (concat (map ?enc es))"
    by (rule length_concat_ge) (auto simp: length_len_prefixed split: prod.splits)
  then have "read_collection_header (encode_value X (VMap es)) = Inr (length es, 4)"
    unfolding enc using assms(1) by (rule header_be [rotated])
  moreover have "read_times (read_collection_entry dk dv) (length es)
      (be_bytes 4 (of_nat (length es) :: 32 word) @ concat (map ?enc es) @ []) (length (be_bytes 4 (of_nat (length es) :: 32 word))) = Inr es"
  proof (rule read_times_concat)
    fix e pre post assume "e \<in> set es"
    moreover obtain k v where e: "e = (k, v)" by fastforce
    ultimately have k: "dk (encode_value X k) = Inr k" "length (encode_value X k) < 2 ^ 31"
      and v: "dv (encode_value X v) = Inr v" "length (encode_value X v) < 2 ^ 31"
      using assms(2) by (auto simp: list_all_iff round_trips_def)
    let ?k = "len_prefixed (encode_value X k)" and ?v = "len_prefixed (encode_value X v)"
    have "read_collection_element dk (pre @ ?k @ ?v @ post) (length pre) = Inr (k, length pre + length ?k)"
      using read_element [OF k(2) refl, of dk pre "?v @ post"] k(1) by simp
    moreover have "read_collection_element dv (pre @ ?k @ ?v @ post) (length pre + length ?k) = Inr (v, length pre + length ?k + length ?v)"
      using read_element [OF v(2) refl, of dv "pre @ ?k" post] v(1) by simp
    ultimately show "read_collection_entry dk dv (pre @ ?enc e @ post) (length pre) = Inr (e, length pre + length (?enc e))"
      by (simp add: e read_collection_entry_def add.assoc)
  qed
  ultimately show ?thesis unfolding enc by simp
qed

text \<open>The round trip, by induction on the type.\<close>

lemma encodable_round_trips:
  "(\<And>v. p v \<Longrightarrow> d (encode_value X v) = Inr v) \<Longrightarrow> encodable X p v \<Longrightarrow> round_trips X d v"
  by (simp add: encodable_def round_trips_def)

lemma has_type_iff:
  "has_type X TAscii v \<longleftrightarrow> (\<exists>s. v = VAscii s \<and> utf8_valid s)" "has_type X TVarchar v \<longleftrightarrow> (\<exists>s. v = VText s \<and> utf8_valid s)"
  "has_type X TBigint v \<longleftrightarrow> (\<exists>n. v = VBigint n \<and> is_i64 n)" "has_type X TCounter v \<longleftrightarrow> (\<exists>n. v = VCounter n \<and> is_i64 n)"
  "has_type X TBlob v \<longleftrightarrow> (\<exists>b. v = VBlob b)" "has_type X TBoolean v \<longleftrightarrow> (\<exists>b. v = VBoolean b)"
  "has_type X TDouble v \<longleftrightarrow> (\<exists>d. v = VDouble d)" "has_type X TFloat v \<longleftrightarrow> (\<exists>w. v = VFloat w)"
  "has_type X TInt v \<longleftrightarrow> (\<exists>n. v = VInt n \<and> is_i32 n)" "has_type X TTimestamp v \<longleftrightarrow> (\<exists>n. v = VTimestamp n \<and> is_i64 n)"
  "has_type X TUuid v \<longleftrightarrow> (\<exists>u. v = VUuid u \<and> length u = 16)" "has_type X TTimeuuid v \<longleftrightarrow> (\<exists>u. v = VTimeuuid u \<and> length u = 16)"
  "has_type X TDate v \<longleftrightarrow> (\<exists>w. v = VDate w)" "has_type X TTime v \<longleftrightarrow> (\<exists>n. v = VTime n \<and> is_i64 n)"
  "has_type X TSmallint v \<longleftrightarrow> (\<exists>n. v = VSmallint n \<and> - (2 ^ 15) \<le> n \<and> n < 2 ^ 15)"
  "has_type X TTinyint v \<longleftrightarrow> (\<exists>n. v = VTinyint n \<and> - (2 ^ 7) \<le> n \<and> n < 2 ^ 7)"
  "has_type X TDuration v \<longleftrightarrow> (\<exists>m d n. v = VDuration m d n \<and> is_i32 m \<and> is_i32 d \<and> is_i64 n)"
  "has_type X TVarint v \<longleftrightarrow> (\<exists>n. v = VVarint n)" "has_type X TDecimal v \<longleftrightarrow> (\<exists>scale u. v = VDecimal scale u \<and> is_i32 scale)"
  "has_type X TJsonb v \<longleftrightarrow> (\<exists>j. v = VJsonb j \<and> jsonb_validate X j = None)"
  "has_type X TInet v \<longleftrightarrow> (\<exists>os. v = VInet (V4 os) \<and> length os = 4) \<or> (\<exists>os. v = VInet (V6 os) \<and> length os = 16)"
  by (cases v; simp split: ip_addr.split)+

lemma decode_encode_scalar:
  assumes "bigint_law X" "t \<in> set SCALAR_TYPES" "has_type X t v"
  shows "decode_value X t (encode_value X v) = Inr v"
proof -
  have ints: "decode_value X TBigint (encode_value X (VBigint n)) = Inr (VBigint n)"
    "decode_value X TCounter (encode_value X (VCounter n)) = Inr (VCounter n)"
    "decode_value X TTimestamp (encode_value X (VTimestamp n)) = Inr (VTimestamp n)"
    "decode_value X TTime (encode_value X (VTime n)) = Inr (VTime n)" if "is_i64 n" for n
    using that by (simp_all add: be_i64_def be_array_be_bytes sint_of_i64)
  have int: "decode_value X TInt (encode_value X (VInt n)) = Inr (VInt n)" if "is_i32 n" for n
    using that by (simp add: be_i32_def be_array_be_bytes sint_i32)
  have small: "decode_value X TSmallint (encode_value X (VSmallint n)) = Inr (VSmallint n)" if "- (2 ^ 15) \<le> n" "n < 2 ^ 15" for n
    using that sint_word_of_int_id [where 'a = 16, of n] by (simp add: be_array_be_bytes del: be_bytes_simps)
  have tiny: "decode_value X TTinyint (encode_value X (VTinyint n)) = Inr (VTinyint n)" if "- (2 ^ 7) \<le> n" "n < 2 ^ 7" for n
    using that sint_word_of_int_id [where 'a = 8, of n] by simp
  have dec: "decode_value X TDecimal (encode_value X (VDecimal scale u)) = Inr (VDecimal scale u)" if "is_i32 scale" for scale u
    using that assms(1) read_i32_at [of 0 "[]" "word_of_int scale" "to_signed_bytes_be X u"]
    by (simp add: be_i32_def sint_i32 bigint_law_def)
  have rest: "decode_value X TDouble (encode_value X (VDouble d)) = Inr (VDouble d)"
    "decode_value X TFloat (encode_value X (VFloat w)) = Inr (VFloat w)"
    "decode_value X TDate (encode_value X (VDate w)) = Inr (VDate w)"
    "decode_value X TVarint (encode_value X (VVarint n)) = Inr (VVarint n)" for d w n
    using assms(1) by (simp_all add: be_array_be_bytes bigint_law_def)
  have "decode_value X TBoolean (encode_value X (VBoolean b)) = Inr (VBoolean b)" for b by simp
  moreover have "decode_value X TInet (encode_value X (VInet (V4 os))) = Inr (VInet (V4 os))" if "length os = 4" for os
    using that by simp
  moreover have "decode_value X TInet (encode_value X (VInet (V6 os))) = Inr (VInet (V6 os))" if "length os = 16" for os
    using that by simp
  moreover have "decode_value X TAscii (encode_value X (VAscii s)) = Inr (VAscii s)"
    "decode_value X TVarchar (encode_value X (VText s)) = Inr (VText s)" if "utf8_valid s" for s
    using that by (simp_all add: from_utf8_def)
  moreover have "decode_value X TUuid (encode_value X (VUuid u)) = Inr (VUuid u)"
    "decode_value X TTimeuuid (encode_value X (VTimeuuid u)) = Inr (VTimeuuid u)" if "length u = 16" for u
    using that by simp_all
  moreover have "decode_value X TBlob (encode_value X (VBlob u)) = Inr (VBlob u)" for u by simp
  moreover have "decode_value X TJsonb (encode_value X (VJsonb j)) = Inr (VJsonb j)" if "jsonb_validate X j = None" for j
    using that by (simp add: decode_jsonb_def)
  ultimately show ?thesis
    using assms(2,3) decode_duration [of _ _ _ X] ints int small tiny dec rest
    unfolding SCALAR_TYPES_def
    by (auto simp: has_type_iff simp del: decode_value.simps encode_value.simps has_type.simps)
qed

lemma has_type_composite:
  "has_type X (TList t) v \<longleftrightarrow> (\<exists>vs. v = VList vs \<and> length vs < 2 ^ 31 \<and> list_all (encodable X (has_type X t)) vs)"
  "has_type X (TSet t) v \<longleftrightarrow> (\<exists>vs. v = VSet vs \<and> length vs < 2 ^ 31 \<and> list_all (encodable X (has_type X t)) vs)"
  "has_type X (TMap k t) v \<longleftrightarrow> (\<exists>es. v = VMap es \<and> length es < 2 ^ 31
     \<and> list_all (\<lambda>(a, b). encodable X (has_type X k) a \<and> encodable X (has_type X t) b) es)"
  "has_type X (TTuple ts) v \<longleftrightarrow> (\<exists>es. v = VTuple es \<and> list_all2 (\<lambda>t e. pred_option (encodable X (has_type X t)) e) ts es)"
  "has_type X (TUdt ks n fs) v \<longleftrightarrow> (\<exists>es. v = VUdt es
     \<and> list_all2 (\<lambda>(name, t) (name', e). name' = name \<and> pred_option (encodable X (has_type X t)) e) fs es)"
  "has_type X (TVector t dim) v \<longleftrightarrow> (\<exists>bits. v = VVector bits \<and> length bits = dim \<and> dim * 4 < 2 ^ 64)"
  by (cases v; simp add: list.rel_map case_prod_beta' map_prod_def)+

lemma decode_collections:
  assumes "length vs < 2 ^ 31" "list_all (round_trips X (decode_value X t)) vs"
  shows "decode_value X (TList t) (encode_value X (VList vs) @ junk) = Inr (VList vs)"
    and "decode_value X (TSet t) (encode_value X (VSet vs) @ junk) = Inr (VSet vs)"
  using decode_items [OF assms, of junk] by (auto simp: and_then_Inr_iff split: prod.splits)

lemma decode_encode:
  assumes "bigint_law X"
  shows "has_type X t v \<Longrightarrow> decode_value X t (encode_value X v) = Inr v"
proof (induction t arbitrary: v)
  case (TList t)
  then obtain vs where v: "v = VList vs" "length vs < 2 ^ 31" and a: "list_all (encodable X (has_type X t)) vs"
    unfolding has_type_composite by blast
  from a have "list_all (round_trips X (decode_value X t)) vs"
    by (rule list.pred_mono_strong) (rule encodable_round_trips [OF TList.IH])
  then show ?case unfolding v(1) using v(2) decode_collections [of vs X t "[]"] by simp
next
  case (TSet t)
  then obtain vs where v: "v = VSet vs" "length vs < 2 ^ 31" and a: "list_all (encodable X (has_type X t)) vs"
    unfolding has_type_composite by blast
  from a have "list_all (round_trips X (decode_value X t)) vs"
    by (rule list.pred_mono_strong) (rule encodable_round_trips [OF TSet.IH])
  then show ?case unfolding v(1) using v(2) decode_collections [of vs X t "[]"] by simp
next
  case (TMap k t)
  then obtain es where v: "v = VMap es" "length es < 2 ^ 31"
      and a: "list_all (\<lambda>(a, b). encodable X (has_type X k) a \<and> encodable X (has_type X t) b) es"
    unfolding has_type_composite by blast
  from a have "list_all (\<lambda>(a, b). round_trips X (decode_value X k) a \<and> round_trips X (decode_value X t) b) es"
    by (rule list.pred_mono_strong)
      (auto intro: encodable_round_trips [OF TMap.IH(1)] encodable_round_trips [OF TMap.IH(2)])
  from decode_entries [OF v(2) this] show ?case
    unfolding v(1) decode_value.simps and_then_Inr_iff by (auto split: prod.splits simp del: encode_value.simps)
next
  case (TTuple ts)
  then obtain es where v: "v = VTuple es" and a: "list_all2 (\<lambda>t e. pred_option (encodable X (has_type X t)) e) ts es"
    unfolding has_type_composite by blast
  have "list_all2 (\<lambda>t e. pred_option (round_trips X (decode_value X t)) e) ts es"
    using a
  proof (rule list.rel_mono_strong)
    fix t e assume "t \<in> set ts" "pred_option (encodable X (has_type X t)) e"
    then show "pred_option (round_trips X (decode_value X t)) e"
      using encodable_round_trips [OF TTuple.IH] by (cases e) simp_all
  qed
  then have "list_all2 (\<lambda>d e. pred_option (round_trips X d) e) (map (decode_value X) ts) es" by (simp add: list.rel_map)
  from decode_tuple_concat [OF this, of "[]" "[]"] show ?case by (simp add: v)
next
  case (TUdt ks n fs)
  then obtain es where v: "v = VUdt es"
      and a: "list_all2 (\<lambda>(name, t) (name', e). name' = name \<and> pred_option (encodable X (has_type X t)) e) fs es"
    unfolding has_type_composite by blast
  have "list_all2 (\<lambda>(name, t) (name', e). name' = name \<and> pred_option (round_trips X (decode_value X t)) e) fs es"
    using a
  proof (rule list.rel_mono_strong)
    fix f g assume f: "f \<in> set fs"
      and "(case f of (name, t) \<Rightarrow> \<lambda>(name', e). name' = name \<and> pred_option (encodable X (has_type X t)) e) g"
    then obtain name t e where g: "f = (name, t)" "g = (name, e)" "pred_option (encodable X (has_type X t)) e"
      by (auto split: prod.splits)
    have "decode_value X t (encode_value X u) = Inr u" if "has_type X t u" for u
      using TUdt.IH [OF f _ that] g(1) by simp
    then show "(case f of (name, t) \<Rightarrow> \<lambda>(name', e). name' = name \<and> pred_option (round_trips X (decode_value X t)) e) g"
      using g encodable_round_trips [of "has_type X t" "decode_value X t"] by (cases e) simp_all
  qed
  then have "list_all2 (\<lambda>(name, d) (name', e). name' = name \<and> pred_option (round_trips X d) e) (map (map_prod id (decode_value X)) fs) es"
    by (simp add: list.rel_map case_prod_beta' map_prod_def)
  from decode_udt_concat [OF this, of "[]" "[]"] show ?case by (simp add: v encode_udt del: encode_value.simps)
next
  case (TVector t dim)
  then obtain bits where "v = VVector bits" "length bits = dim" "dim * 4 < 2 ^ 64" unfolding has_type_composite by blast
  then show ?case using length_concat_be_4 [of bits] split_words_concat [of bits] by simp
qed (rule decode_encode_scalar [OF assms]; simp add: SCALAR_TYPES_def)+

lemma decode_value_owned_eq: "decode_value_owned X t bs = decode_value X t bs"
  by (cases t) (simp_all add: decode_value_owned_def)

section \<open>Properties\<close>

text \<open>C13: The value codec round trips: for every type and every value of the type, however nested, whose lengths fit
  their 32-bit fields, decoding the encoding gives the value back, also in the variant that keeps an owned
  buffer.\<close>

theorem value_roundtrip:
  assumes "bigint_law X" "has_type X t v"
  shows "decode_value X t (encode_value X v) = Inr v \<and> decode_value_owned X t (encode_value X v) = Inr v"
  using decode_encode [OF assms] by (simp add: decode_value_owned_eq)

text \<open>A concrete \<open>BigInt\<close>: shortest two's complement, most significant byte first.\<close>

function twos_complement :: "int \<Rightarrow> bytes" where
  "twos_complement n = (if - 128 \<le> n \<and> n < 128 then [word_of_int n] else twos_complement (n div 256) @ [word_of_int n])"
  by pat_completeness auto
termination by (relation "measure (\<lambda>n. nat \<bar>n\<bar>)") auto

declare twos_complement.simps [simp del]

definition of_twos_complement :: "bytes \<Rightarrow> int" where
  "of_twos_complement bs = (case bs of [] \<Rightarrow> 0 | b # r \<Rightarrow> foldl (\<lambda>acc b. acc * 256 + uint b) (sint b) r)"

lemma twos_complement_nonempty: "twos_complement n \<noteq> []"
  by (subst twos_complement.simps) simp

lemma of_twos_complement_inverse: "of_twos_complement (twos_complement n) = n"
proof (induction n rule: twos_complement.induct)
  case (1 n)
  show ?case
  proof (cases "- 128 \<le> n \<and> n < 128")
    case True
    then show ?thesis using sint_word_of_int_id [where 'a = 8, of n] by (subst twos_complement.simps) (simp add: of_twos_complement_def)
  next
    case False
    obtain b r where br: "twos_complement (n div 256) = b # r" using twos_complement_nonempty by (cases "twos_complement (n div 256)") auto
    have "foldl (\<lambda>acc b. acc * 256 + uint b) (sint b) r = n div 256" using "1.IH" False br by (simp add: of_twos_complement_def)
    moreover have "twos_complement n = twos_complement (n div 256) @ [word_of_int n]"
      using False by (subst twos_complement.simps) auto
    ultimately show ?thesis using br by (simp add: of_twos_complement_def uint_word_of_int)
  qed
qed

definition sample_deps :: value_deps where
  "sample_deps = \<lparr>to_signed_bytes_be = twos_complement, from_signed_bytes_be = of_twos_complement,
     jsonb_validate = (\<lambda>_. Some OtherJsonbError), jsonb_cmp = (\<lambda>_ _. Equal)\<rparr>"

lemma sample_deps_law: "bigint_law sample_deps"
  by (simp add: bigint_law_def sample_deps_def of_twos_complement_inverse)

definition sample_value :: cql_value where
  "sample_value = VMap [(VText [0x61], VTuple [Some (VInt (- 1)), None]), (VText [], VTuple [None, Some (VList [VVarint 300])])]"

theorem value_roundtrip_witness:
  "decode_value sample_deps (TMap TVarchar (TTuple [TInt, TList TVarint])) (encode_value sample_deps sample_value) = Inr sample_value
    \<and> decode_value_owned sample_deps (TMap TVarchar (TTuple [TInt, TList TVarint])) (encode_value sample_deps sample_value) = Inr sample_value"
proof (rule value_roundtrip [OF sample_deps_law])
  have "twos_complement 300 = [1, 44]" by (simp add: twos_complement.simps)
  then show "has_type sample_deps (TMap TVarchar (TTuple [TInt, TList TVarint])) sample_value"
    by (simp add: sample_value_def encodable_def is_i32_def machine_consts be_i32_def len_prefixed_def opt_prefixed_def sample_deps_def)
qed

text \<open>Nulls inside a collection do not survive: the encoder writes the null element of a list as an element of length
  zero, which is read back as an empty text, and which makes a list of numbers undecodable.\<close>

theorem null_element_not_encoded:
  "decode_value X (TList TVarchar) (encode_value X (VList [VNull])) = Inr (VList [VText []])
    \<and> decode_value X (TList TInt) (encode_value X (VList [VNull])) = Inl Invalid
    \<and> decode_value X (TList TInt) (be_i32 1 @ be_i32 (- 1)) = Inr (VList [VNull])"
proof -
  have enc: "encode_value X (VList [VNull]) = be_bytes 4 (of_nat 1 :: 32 word) @ len_prefixed []" by simp
  have dec: "decode_value X (TList t) (encode_value X (VList [VNull])) = and_then (decode_value X t []) (\<lambda>v. Inr (VList [v]))" for t
    using header_be [of 1 "len_prefixed []"] read_element [of "[]" 4 "be_bytes 4 (1 :: 32 word)" "decode_value X t" "[]"]
    unfolding enc by (cases "decode_value X t []") (simp_all add: length_len_prefixed)
  have "decode_value X (TList TVarchar) (encode_value X (VList [VNull])) = Inr (VList [VText []])"
    "decode_value X (TList TInt) (encode_value X (VList [VNull])) = Inl Invalid"
    unfolding dec by (simp_all add: from_utf8_def be_array_def)
  moreover have "be_i32 1 @ be_i32 (- 1) = be_bytes 4 (of_nat 1 :: 32 word) @ be_bytes 4 (- 1 :: 32 word)" by (simp add: be_i32_def)
  moreover have "read_i32 (be_bytes 4 (1 :: 32 word) @ be_bytes 4 (- 1 :: 32 word)) 4 = - 1"
    using read_i32_at [of 4 "be_bytes 4 (1 :: 32 word)" "- 1" "[]"] by simp
  ultimately show ?thesis
    using header_be [of 1 "be_bytes 4 (- 1 :: 32 word)"] by (simp add: read_collection_element_def)
qed

text \<open>Collections accept trailing bytes: what follows the counted elements is ignored.\<close>

theorem collection_trailing_bytes:
  assumes "bigint_law X" "has_type X (TList t) v"
  shows "decode_value X (TList t) (encode_value X v @ junk) = Inr v"
proof -
  obtain vs where v: "v = VList vs" "length vs < 2 ^ 31" and a: "list_all (encodable X (has_type X t)) vs"
    using assms(2) unfolding has_type_composite by blast
  from a have "list_all (round_trips X (decode_value X t)) vs"
    by (rule list.pred_mono_strong) (rule encodable_round_trips [OF decode_encode [OF assms(1)]])
  then show ?thesis unfolding v(1) using v(2) by (intro decode_collections)
qed

end
