(* ===== verification/Cql_Order.thy ===== *)
theory Cql_Order
  imports Cql_Value
begin

unbundle bit_operations_syntax

text \<open>
  The total order of CQL values (crate \<open>ferrosa-common\<close>, \<open>cql_type/mod.rs\<close>: \<open>Ord for CqlValue\<close>), by which a read sorts
  the elements of a set and the keys of a map.  The lemmas show that it is a total order on values that contain no
  inet address, which is compared by its text, and no jsonb, whose order is a parameter.
\<close>

section \<open>Order of values\<close>

text \<open>\<open>IpAddr::to_string\<close>: dotted decimals, or hexadecimal groups with the first longest run of zero groups
  compressed, or the embedded address of an IPv4-mapped one.\<close>

fun hex_string :: "nat \<Rightarrow> string" where
  "hex_string n = (if n < 10 then [char_of (48 + n)] else if n < 16 then [char_of (87 + n)]
     else hex_string (n div 16) @ hex_string (n mod 16))"

declare hex_string.simps [simp del]

definition ipv4_to_string :: "bytes \<Rightarrow> string" where
  "ipv4_to_string os = join_with ''.'' (map (\<lambda>b. usize_to_string (unat b)) os)"

fun ipv6_segments :: "bytes \<Rightarrow> nat list" where
  "ipv6_segments (a # b # r) = (unat a * 256 + unat b) # ipv6_segments r"
| "ipv6_segments _ = []"

text \<open>The state of the scan is the longest and the current run of zeros, each as start and length.\<close>

fun longest_zeros :: "nat list \<Rightarrow> nat \<Rightarrow> nat \<times> nat \<Rightarrow> nat \<times> nat \<Rightarrow> nat \<times> nat" where
  "longest_zeros [] i longest current = longest"
| "longest_zeros (g # gs) i longest current =
     (if g = 0 then
        let current = (if snd current = 0 then i else fst current, snd current + 1) in
        longest_zeros gs (i + 1) (if snd current > snd longest then current else longest) current
      else longest_zeros gs (i + 1) longest (0, 0))"

definition ipv6_to_string :: "bytes \<Rightarrow> string" where
  "ipv6_to_string os =
     (if take 12 os = replicate 10 0 @ [0xFF, 0xFF] then ''::ffff:'' @ ipv4_to_string (drop 12 os)
      else
        let segs = ipv6_segments os; (start, n) = longest_zeros segs 0 (0, 0) (0, 0);
            groups = (\<lambda>gs. join_with '':'' (map hex_string gs)) in
        if n > 1 then groups (take start segs) @ ''::'' @ groups (drop (start + n) segs) else groups segs)"

fun ip_to_string :: "ip_addr \<Rightarrow> string" where
  "ip_to_string (V4 os) = ipv4_to_string os"
| "ip_to_string (V6 os) = ipv6_to_string os"

text \<open>\<open>total_cmp\<close> of a floating-point number compares the bits as signed integers, with all but the sign flipped
  in negative numbers.\<close>

definition total_key :: "'a::len word \<Rightarrow> int" where
  "total_key w = sint (w XOR drop_bit 1 (signed_drop_bit (LENGTH('a) - 1) w))"

primrec discriminant_index :: "cql_value \<Rightarrow> nat" where
  "discriminant_index VNull = 0"
| "discriminant_index (VAscii _) = 1"
| "discriminant_index (VBigint _) = 2"
| "discriminant_index (VBlob _) = 3"
| "discriminant_index (VBoolean _) = 4"
| "discriminant_index (VCounter _) = 5"
| "discriminant_index (VDecimal _ _) = 6"
| "discriminant_index (VDouble _) = 7"
| "discriminant_index (VFloat _) = 8"
| "discriminant_index (VInt _) = 9"
| "discriminant_index (VTimestamp _) = 10"
| "discriminant_index (VUuid _) = 11"
| "discriminant_index (VText _) = 12"
| "discriminant_index (VVarint _) = 13"
| "discriminant_index (VTimeuuid _) = 14"
| "discriminant_index (VInet _) = 15"
| "discriminant_index (VDate _) = 16"
| "discriminant_index (VTime _) = 17"
| "discriminant_index (VSmallint _) = 18"
| "discriminant_index (VTinyint _) = 19"
| "discriminant_index (VDuration _ _ _) = 20"
| "discriminant_index (VList _) = 21"
| "discriminant_index (VSet _) = 22"
| "discriminant_index (VMap _) = 23"
| "discriminant_index (VTuple _) = 24"
| "discriminant_index (VVector _) = 25"
| "discriminant_index (VUdt _) = 26"
| "discriminant_index (VJsonb _) = 27"

text \<open>\<open>Ord\<close> of vectors, options and pairs, where the first argument is given by the comparisons with its parts.\<close>

fun lex_cmp :: "('b \<Rightarrow> ordering) list \<Rightarrow> 'b list \<Rightarrow> ordering" where
  "lex_cmp [] [] = Equal"
| "lex_cmp [] (b # bs) = Less"
| "lex_cmp (c # cs) [] = Greater"
| "lex_cmp (c # cs) (b # bs) = then_with (c b) (lex_cmp cs bs)"

fun opt_cmp :: "('b \<Rightarrow> ordering) option \<Rightarrow> 'b option \<Rightarrow> ordering" where
  "opt_cmp None None = Equal"
| "opt_cmp None (Some b) = Less"
| "opt_cmp (Some c) None = Greater"
| "opt_cmp (Some c) (Some b) = c b"

definition pair_cmp :: "('a \<Rightarrow> ordering) \<times> ('b \<Rightarrow> ordering) \<Rightarrow> 'a \<times> 'b \<Rightarrow> ordering" where
  "pair_cmp cs bs = then_with (fst cs (fst bs)) (snd cs (snd bs))"

fun vector_cmp :: "32 word list \<Rightarrow> 32 word list \<Rightarrow> ordering" where
  "vector_cmp (a # as) (b # bs) =
     (if cmp (total_key a) (total_key b) \<noteq> Equal then cmp (total_key a) (total_key b) else vector_cmp as bs)"
| "vector_cmp as bs = cmp (length as) (length bs)"

primrec cql_cmp :: "value_deps \<Rightarrow> cql_value \<Rightarrow> cql_value \<Rightarrow> ordering" where
  "cql_cmp X VNull = (\<lambda>w. case w of VNull \<Rightarrow> Equal | _ \<Rightarrow> cmp 0 (discriminant_index w))"
| "cql_cmp X (VAscii a) = (\<lambda>w. case w of VAscii b \<Rightarrow> cmp a b | _ \<Rightarrow> cmp 1 (discriminant_index w))"
| "cql_cmp X (VText a) = (\<lambda>w. case w of VText b \<Rightarrow> cmp a b | _ \<Rightarrow> cmp 12 (discriminant_index w))"
| "cql_cmp X (VBigint a) = (\<lambda>w. case w of VBigint b \<Rightarrow> cmp a b | _ \<Rightarrow> cmp 2 (discriminant_index w))"
| "cql_cmp X (VCounter a) = (\<lambda>w. case w of VCounter b \<Rightarrow> cmp a b | _ \<Rightarrow> cmp 5 (discriminant_index w))"
| "cql_cmp X (VTimestamp a) = (\<lambda>w. case w of VTimestamp b \<Rightarrow> cmp a b | _ \<Rightarrow> cmp 10 (discriminant_index w))"
| "cql_cmp X (VTime a) = (\<lambda>w. case w of VTime b \<Rightarrow> cmp a b | _ \<Rightarrow> cmp 17 (discriminant_index w))"
| "cql_cmp X (VDuration ma da na) = (\<lambda>w. case w of
     VDuration mb db nb \<Rightarrow> then_with (then_with (cmp ma mb) (cmp da db)) (cmp na nb) | _ \<Rightarrow> cmp 20 (discriminant_index w))"
| "cql_cmp X (VInt a) = (\<lambda>w. case w of VInt b \<Rightarrow> cmp a b | _ \<Rightarrow> cmp 9 (discriminant_index w))"
| "cql_cmp X (VSmallint a) = (\<lambda>w. case w of VSmallint b \<Rightarrow> cmp a b | _ \<Rightarrow> cmp 18 (discriminant_index w))"
| "cql_cmp X (VTinyint a) = (\<lambda>w. case w of VTinyint b \<Rightarrow> cmp a b | _ \<Rightarrow> cmp 19 (discriminant_index w))"
| "cql_cmp X (VBoolean a) = (\<lambda>w. case w of VBoolean b \<Rightarrow> cmp a b | _ \<Rightarrow> cmp 4 (discriminant_index w))"
| "cql_cmp X (VFloat a) = (\<lambda>w. case w of VFloat b \<Rightarrow> cmp (total_key a) (total_key b) | _ \<Rightarrow> cmp 8 (discriminant_index w))"
| "cql_cmp X (VDouble a) = (\<lambda>w. case w of VDouble b \<Rightarrow> cmp (total_key a) (total_key b) | _ \<Rightarrow> cmp 7 (discriminant_index w))"
| "cql_cmp X (VBlob a) = (\<lambda>w. case w of VBlob b \<Rightarrow> cmp a b | _ \<Rightarrow> cmp 3 (discriminant_index w))"
| "cql_cmp X (VUuid a) = (\<lambda>w. case w of VUuid b \<Rightarrow> cmp a b | _ \<Rightarrow> cmp 11 (discriminant_index w))"
| "cql_cmp X (VTimeuuid a) = (\<lambda>w. case w of VTimeuuid b \<Rightarrow> cmp a b | _ \<Rightarrow> cmp 14 (discriminant_index w))"
| "cql_cmp X (VInet a) = (\<lambda>w. case w of VInet b \<Rightarrow> cmp (ip_to_string a) (ip_to_string b) | _ \<Rightarrow> cmp 15 (discriminant_index w))"
| "cql_cmp X (VDate a) = (\<lambda>w. case w of VDate b \<Rightarrow> cmp a b | _ \<Rightarrow> cmp 16 (discriminant_index w))"
| "cql_cmp X (VVarint a) = (\<lambda>w. case w of VVarint b \<Rightarrow> cmp a b | _ \<Rightarrow> cmp 13 (discriminant_index w))"
| "cql_cmp X (VDecimal sa ua) = (\<lambda>w. case w of
     VDecimal sb ub \<Rightarrow> then_with (cmp sa sb) (cmp ua ub) | _ \<Rightarrow> cmp 6 (discriminant_index w))"
| "cql_cmp X (VList as) = (\<lambda>w. case w of VList bs \<Rightarrow> lex_cmp (map (cql_cmp X) as) bs | _ \<Rightarrow> cmp 21 (discriminant_index w))"
| "cql_cmp X (VSet as) = (\<lambda>w. case w of VSet bs \<Rightarrow> lex_cmp (map (cql_cmp X) as) bs | _ \<Rightarrow> cmp 22 (discriminant_index w))"
| "cql_cmp X (VMap as) = (\<lambda>w. case w of
     VMap bs \<Rightarrow> lex_cmp (map pair_cmp (map (map_prod (cql_cmp X) (cql_cmp X)) as)) bs | _ \<Rightarrow> cmp 23 (discriminant_index w))"
| "cql_cmp X (VTuple as) = (\<lambda>w. case w of
     VTuple bs \<Rightarrow> lex_cmp (map opt_cmp (map (map_option (cql_cmp X)) as)) bs | _ \<Rightarrow> cmp 24 (discriminant_index w))"
| "cql_cmp X (VVector as) = (\<lambda>w. case w of VVector bs \<Rightarrow> vector_cmp as bs | _ \<Rightarrow> cmp 25 (discriminant_index w))"
| "cql_cmp X (VUdt as) = (\<lambda>w. case w of
     VUdt bs \<Rightarrow> lex_cmp (map (\<lambda>(n, e). pair_cmp (cmp n, opt_cmp e)) (map (map_prod id (map_option (cql_cmp X))) as)) bs
   | _ \<Rightarrow> cmp 26 (discriminant_index w))"
| "cql_cmp X (VJsonb a) = (\<lambda>w. case w of VJsonb b \<Rightarrow> jsonb_cmp X a b | _ \<Rightarrow> cmp 27 (discriminant_index w))"

section \<open>Laws\<close>

lemma then_with_iff:
  "then_with r s = Equal \<longleftrightarrow> r = Equal \<and> s = Equal"
  "then_with r s = Less \<longleftrightarrow> r = Less \<or> r = Equal \<and> s = Less"
  "then_with r s = Greater \<longleftrightarrow> r = Greater \<or> r = Equal \<and> s = Greater"
  by (cases r; simp)+

definition opposite :: "ordering \<Rightarrow> ordering \<Rightarrow> bool" where
  "opposite r s \<longleftrightarrow> (r = Equal \<longleftrightarrow> s = Equal) \<and> (r = Less \<longleftrightarrow> s = Greater) \<and> (r = Greater \<longleftrightarrow> s = Less)"

lemma opposite_simps [simp]:
  "opposite (cmp a b) (cmp b a)" "opposite Equal Equal" "opposite Less Greater" "opposite Greater Less"
  by (auto simp: opposite_def)

lemma opposite_then_with: "opposite r s \<Longrightarrow> opposite r' s' \<Longrightarrow> opposite (then_with r r') (then_with s s')"
  by (cases r; cases s) (simp_all add: opposite_def)

text \<open>The three laws of an order, for one left argument.\<close>

definition eq_law :: "('a \<Rightarrow> 'a \<Rightarrow> ordering) \<Rightarrow> 'a \<Rightarrow> 'a \<Rightarrow> bool" where
  "eq_law c a b \<longleftrightarrow> (c a b = Equal \<longleftrightarrow> a = b)"

definition opp_law :: "('a \<Rightarrow> 'a \<Rightarrow> ordering) \<Rightarrow> 'a \<Rightarrow> 'a \<Rightarrow> bool" where
  "opp_law c a b \<longleftrightarrow> opposite (c a b) (c b a)"

definition less_law :: "('a \<Rightarrow> 'a \<Rightarrow> ordering) \<Rightarrow> 'a \<Rightarrow> 'a \<Rightarrow> 'a \<Rightarrow> bool" where
  "less_law c a b d \<longleftrightarrow> (c a b = Less \<longrightarrow> c b d = Less \<longrightarrow> c a d = Less)"

lemmas order_laws = eq_law_def opp_law_def less_law_def

lemma lex_cmp_eq:
  assumes "\<And>a b. a \<in> set as \<Longrightarrow> b \<in> set bs \<Longrightarrow> eq_law c a b"
  shows "eq_law (\<lambda>as bs. lex_cmp (map c as) bs) as bs"
  using assms by (induction as bs rule: list_induct2') (auto simp: eq_law_def then_with_iff)

lemma lex_cmp_opp:
  assumes "\<And>a b. a \<in> set as \<Longrightarrow> b \<in> set bs \<Longrightarrow> opp_law c a b"
  shows "opp_law (\<lambda>as bs. lex_cmp (map c as) bs) as bs"
  using assms by (induction as bs rule: list_induct2') (auto simp: opp_law_def intro!: opposite_then_with)

lemma lex_cmp_less:
  assumes "\<And>a b d. a \<in> set as \<Longrightarrow> b \<in> set bs \<Longrightarrow> d \<in> set ds \<Longrightarrow> less_law c a b d \<and> eq_law c a b \<and> eq_law c b d \<and> eq_law c a d"
  shows "less_law (\<lambda>as bs. lex_cmp (map c as) bs) as bs ds"
  using assms
proof (induction as bs arbitrary: ds rule: list_induct2')
  case (4 a as b bs)
  show ?case
  proof (cases ds)
    case (Cons d ds')
    have "less_law (\<lambda>as bs. lex_cmp (map c as) bs) as bs ds'" by (rule "4.IH") (rule "4.prems"; simp add: Cons)
    moreover have "less_law c a b d" "eq_law c a b" "eq_law c b d" "eq_law c a d" using 4(2) [of a b d] Cons by simp_all
    ultimately show ?thesis by (auto simp: Cons less_law_def eq_law_def then_with_iff)
  qed (simp add: less_law_def)
next
  case (2 a as)
  then show ?case by (simp add: less_law_def)
next
  case (3 b bs)
  then show ?case by (cases ds) (simp_all add: less_law_def)
qed (simp add: less_law_def)

lemma bit_total_mask: "bit (drop_bit 1 (signed_drop_bit (LENGTH('a) - 1) w)) i \<longleftrightarrow> bit w (LENGTH('a) - 1) \<and> Suc i < LENGTH('a)"
  for w :: "'a::len word"
proof -
  obtain m where m: "LENGTH('a) = Suc m" using len_gt_0 [where 'a = 'a] by (cases "LENGTH('a)") simp_all
  show ?thesis by (auto simp: bit_drop_bit_eq bit_signed_drop_bit_iff m dest: bit_imp_le_length)
qed

lemma total_key_inject [simp]: "total_key v = total_key w \<longleftrightarrow> v = (w :: 'a::len word)"
proof
  assume "total_key v = total_key w"
  then have eq: "v XOR drop_bit 1 (signed_drop_bit (LENGTH('a) - 1) v) = w XOR drop_bit 1 (signed_drop_bit (LENGTH('a) - 1) w)"
    unfolding total_key_def by (simp add: signed_word_eqI)
  have bits: "bit v i \<noteq> (bit v (LENGTH('a) - 1) \<and> Suc i < LENGTH('a)) \<longleftrightarrow> bit w i \<noteq> (bit w (LENGTH('a) - 1) \<and> Suc i < LENGTH('a))" for i
    using arg_cong [OF eq, of "\<lambda>x. bit x i"] by (simp only: bit_xor_iff bit_total_mask)
  have "bit v (LENGTH('a) - 1) = bit w (LENGTH('a) - 1)" using bits [of "LENGTH('a) - 1"] by simp
  then show "v = w" using bits by (intro bit_word_eqI) metis
qed simp

lemma vector_cmp_lex: "vector_cmp as bs = lex_cmp (map (\<lambda>a b. cmp (total_key a) (total_key b)) as) bs"
proof (induction as arbitrary: bs)
  case Nil
  show ?case by (cases bs) (simp_all add: cmp_def)
next
  case (Cons a as)
  then show ?case by (cases bs) (auto simp: cmp_def)
qed


lemma vector_cmp_laws: "eq_law vector_cmp as bs" "opp_law vector_cmp as bs" "less_law vector_cmp as bs ds"
proof -
  let ?c = "\<lambda>a b :: 32 word. cmp (total_key a) (total_key b)"
  have v: "vector_cmp = (\<lambda>as bs. lex_cmp (map ?c as) bs)" by (simp add: fun_eq_iff vector_cmp_lex)
  show "eq_law vector_cmp as bs" unfolding v by (rule lex_cmp_eq) (simp add: eq_law_def)
  show "opp_law vector_cmp as bs" unfolding v by (rule lex_cmp_opp) (simp add: opp_law_def)
  show "less_law vector_cmp as bs ds" unfolding v by (rule lex_cmp_less) (auto simp: less_law_def eq_law_def)
qed

text \<open>Values whose order depends on neither of the two.\<close>

primrec plain :: "cql_value \<Rightarrow> bool" where
  "plain VNull \<longleftrightarrow> True"
| "plain (VAscii _) \<longleftrightarrow> True"
| "plain (VBigint _) \<longleftrightarrow> True"
| "plain (VBlob _) \<longleftrightarrow> True"
| "plain (VBoolean _) \<longleftrightarrow> True"
| "plain (VCounter _) \<longleftrightarrow> True"
| "plain (VDecimal _ _) \<longleftrightarrow> True"
| "plain (VDouble _) \<longleftrightarrow> True"
| "plain (VFloat _) \<longleftrightarrow> True"
| "plain (VInt _) \<longleftrightarrow> True"
| "plain (VTimestamp _) \<longleftrightarrow> True"
| "plain (VUuid _) \<longleftrightarrow> True"
| "plain (VText _) \<longleftrightarrow> True"
| "plain (VVarint _) \<longleftrightarrow> True"
| "plain (VTimeuuid _) \<longleftrightarrow> True"
| "plain (VInet _) \<longleftrightarrow> False"
| "plain (VDate _) \<longleftrightarrow> True"
| "plain (VTime _) \<longleftrightarrow> True"
| "plain (VSmallint _) \<longleftrightarrow> True"
| "plain (VTinyint _) \<longleftrightarrow> True"
| "plain (VDuration _ _ _) \<longleftrightarrow> True"
| "plain (VList vs) \<longleftrightarrow> list_all plain vs"
| "plain (VSet vs) \<longleftrightarrow> list_all plain vs"
| "plain (VMap es) \<longleftrightarrow> list_all (\<lambda>(p, q). p \<and> q) (map (map_prod plain plain) es)"
| "plain (VTuple es) \<longleftrightarrow> list_all (pred_option id) (map (map_option plain) es)"
| "plain (VVector _) \<longleftrightarrow> True"
| "plain (VUdt fs) \<longleftrightarrow> list_all (\<lambda>(_, e). pred_option id e) (map (map_prod id (map_option plain)) fs)"
| "plain (VJsonb _) \<longleftrightarrow> False"

lemma plain_map: "plain (VMap es) \<longleftrightarrow> list_all (\<lambda>e. plain (fst e) \<and> plain (snd e)) es"
  "plain (VTuple os) \<longleftrightarrow> list_all (pred_option plain) os"
  "plain (VUdt fs) \<longleftrightarrow> list_all (\<lambda>f. pred_option plain (snd f)) fs"
  by (simp_all add: list.pred_map comp_def case_prod_beta option.pred_map)

definition entry_cmp :: "value_deps \<Rightarrow> cql_value \<times> cql_value \<Rightarrow> cql_value \<times> cql_value \<Rightarrow> ordering" where
  "entry_cmp X a = pair_cmp (cql_cmp X (fst a), cql_cmp X (snd a))"

definition field_cmp :: "value_deps \<Rightarrow> string \<times> cql_value option \<Rightarrow> string \<times> cql_value option \<Rightarrow> ordering" where
  "field_cmp X a = pair_cmp (cmp (fst a), opt_cmp (map_option (cql_cmp X) (snd a)))"

lemma cql_cmp_nested:
  "cql_cmp X (VMap as) = (\<lambda>w. case w of VMap bs \<Rightarrow> lex_cmp (map (entry_cmp X) as) bs | _ \<Rightarrow> cmp 23 (discriminant_index w))"
  "cql_cmp X (VTuple os) = (\<lambda>w. case w of
     VTuple bs \<Rightarrow> lex_cmp (map (\<lambda>e. opt_cmp (map_option (cql_cmp X) e)) os) bs | _ \<Rightarrow> cmp 24 (discriminant_index w))"
  "cql_cmp X (VUdt fs) = (\<lambda>w. case w of VUdt bs \<Rightarrow> lex_cmp (map (field_cmp X) fs) bs | _ \<Rightarrow> cmp 26 (discriminant_index w))"
  unfolding cql_cmp.simps map_map comp_def entry_cmp_def field_cmp_def map_prod_def case_prod_beta prod.sel id_def
  by (rule refl)+


lemma pair_laws:
  "eq_law c (fst a) (fst b) \<Longrightarrow> eq_law d (snd a) (snd b) \<Longrightarrow> eq_law (\<lambda>a b. pair_cmp (c (fst a), d (snd a)) b) a b"
  "opp_law c (fst a) (fst b) \<Longrightarrow> opp_law d (snd a) (snd b) \<Longrightarrow> opp_law (\<lambda>a b. pair_cmp (c (fst a), d (snd a)) b) a b"
  "less_law c (fst a) (fst b) (fst e) \<Longrightarrow> less_law d (snd a) (snd b) (snd e) \<Longrightarrow> eq_law c (fst a) (fst b)
     \<Longrightarrow> eq_law c (fst b) (fst e) \<Longrightarrow> eq_law c (fst a) (fst e) \<Longrightarrow> less_law (\<lambda>a b. pair_cmp (c (fst a), d (snd a)) b) a b e"
  by (auto simp: order_laws pair_cmp_def then_with_iff prod_eq_iff intro: opposite_then_with)

lemma entry_laws:
  "eq_law (cql_cmp X) (fst a) (fst b) \<Longrightarrow> eq_law (cql_cmp X) (snd a) (snd b) \<Longrightarrow> eq_law (entry_cmp X) a b"
  "opp_law (cql_cmp X) (fst a) (fst b) \<Longrightarrow> opp_law (cql_cmp X) (snd a) (snd b) \<Longrightarrow> opp_law (entry_cmp X) a b"
  "less_law (cql_cmp X) (fst a) (fst b) (fst e) \<Longrightarrow> less_law (cql_cmp X) (snd a) (snd b) (snd e) \<Longrightarrow> eq_law (cql_cmp X) (fst a) (fst b)
     \<Longrightarrow> eq_law (cql_cmp X) (fst b) (fst e) \<Longrightarrow> eq_law (cql_cmp X) (fst a) (fst e) \<Longrightarrow> less_law (entry_cmp X) a b e"
  unfolding entry_cmp_def [abs_def] by (rule pair_laws; assumption)+

lemma cql_cmp_disc:
  "discriminant_index a \<noteq> discriminant_index b \<Longrightarrow> cql_cmp X a b = cmp (discriminant_index a) (discriminant_index b)"
  by (cases a) (cases b; simp)+

lemma cql_cmp_same:
  assumes "discriminant_index a = discriminant_index b" "discriminant_index a \<notin> {15, 21, 22, 23, 24, 25, 26, 27}"
  shows "eq_law (cql_cmp X) a b \<and> opp_law (cql_cmp X) a b"
  using assms by (cases a) (cases b; simp add: order_laws then_with_iff opposite_then_with)+

lemma laws_disc:
  assumes "discriminant_index a \<noteq> discriminant_index b"
  shows "eq_law (cql_cmp X) a b \<and> opp_law (cql_cmp X) a b"
  using assms cql_cmp_disc [OF assms] cql_cmp_disc [OF assms [symmetric]] by (auto simp: order_laws)

lemma disc_inversion:
  "discriminant_index b = 21 \<Longrightarrow> \<exists>bs. b = VList bs" "discriminant_index b = 22 \<Longrightarrow> \<exists>bs. b = VSet bs"
  "discriminant_index b = 23 \<Longrightarrow> \<exists>bs. b = VMap bs" "discriminant_index b = 24 \<Longrightarrow> \<exists>bs. b = VTuple bs"
  "discriminant_index b = 25 \<Longrightarrow> \<exists>bs. b = VVector bs" "discriminant_index b = 26 \<Longrightarrow> \<exists>bs. b = VUdt bs"
  by (cases b; simp)+

text \<open>The comparison of the parts of two values of the same composite kind.\<close>

lemma composite_eq:
  "eq_law (cql_cmp X) (VList as) (VList bs) \<longleftrightarrow> eq_law (\<lambda>as bs. lex_cmp (map (cql_cmp X) as) bs) as bs"
  "eq_law (cql_cmp X) (VSet as) (VSet bs) \<longleftrightarrow> eq_law (\<lambda>as bs. lex_cmp (map (cql_cmp X) as) bs) as bs"
  "eq_law (cql_cmp X) (VMap es) (VMap es') \<longleftrightarrow> eq_law (\<lambda>as bs. lex_cmp (map (entry_cmp X) as) bs) es es'"
  "eq_law (cql_cmp X) (VTuple os) (VTuple os') \<longleftrightarrow> eq_law (\<lambda>as bs. lex_cmp (map (\<lambda>e. opt_cmp (map_option (cql_cmp X) e)) as) bs) os os'"
  "eq_law (cql_cmp X) (VUdt fs) (VUdt fs') \<longleftrightarrow> eq_law (\<lambda>as bs. lex_cmp (map (field_cmp X) as) bs) fs fs'"
  "opp_law (cql_cmp X) (VList as) (VList bs) \<longleftrightarrow> opp_law (\<lambda>as bs. lex_cmp (map (cql_cmp X) as) bs) as bs"
  "opp_law (cql_cmp X) (VSet as) (VSet bs) \<longleftrightarrow> opp_law (\<lambda>as bs. lex_cmp (map (cql_cmp X) as) bs) as bs"
  "opp_law (cql_cmp X) (VMap es) (VMap es') \<longleftrightarrow> opp_law (\<lambda>as bs. lex_cmp (map (entry_cmp X) as) bs) es es'"
  "opp_law (cql_cmp X) (VTuple os) (VTuple os') \<longleftrightarrow> opp_law (\<lambda>as bs. lex_cmp (map (\<lambda>e. opt_cmp (map_option (cql_cmp X) e)) as) bs) os os'"
  "opp_law (cql_cmp X) (VUdt fs) (VUdt fs') \<longleftrightarrow> opp_law (\<lambda>as bs. lex_cmp (map (field_cmp X) as) bs) fs fs'"
  "less_law (cql_cmp X) (VList as) (VList bs) (VList cs) \<longleftrightarrow> less_law (\<lambda>as bs. lex_cmp (map (cql_cmp X) as) bs) as bs cs"
  "less_law (cql_cmp X) (VSet as) (VSet bs) (VSet cs) \<longleftrightarrow> less_law (\<lambda>as bs. lex_cmp (map (cql_cmp X) as) bs) as bs cs"
  "less_law (cql_cmp X) (VMap es) (VMap es') (VMap es'') \<longleftrightarrow> less_law (\<lambda>as bs. lex_cmp (map (entry_cmp X) as) bs) es es' es''"
  "less_law (cql_cmp X) (VTuple os) (VTuple os') (VTuple os'')
     \<longleftrightarrow> less_law (\<lambda>as bs. lex_cmp (map (\<lambda>e. opt_cmp (map_option (cql_cmp X) e)) as) bs) os os' os''"
  "less_law (cql_cmp X) (VUdt fs) (VUdt fs') (VUdt fs'') \<longleftrightarrow> less_law (\<lambda>as bs. lex_cmp (map (field_cmp X) as) bs) fs fs' fs''"
  by (simp_all add: order_laws cql_cmp_nested del: cql_cmp.simps(24-))

lemma opt_laws:
  assumes "\<And>a b. a \<in> set_option x \<Longrightarrow> b \<in> set_option y \<Longrightarrow> eq_law c a b \<and> opp_law c a b"
  shows "eq_law (\<lambda>x y. opt_cmp (map_option c x) y) x y" "opp_law (\<lambda>x y. opt_cmp (map_option c x) y) x y"
  using assms by (cases x; cases y; simp add: order_laws)+

lemma field_laws:
  assumes "\<And>u v. u \<in> set_option (snd a) \<Longrightarrow> v \<in> set_option (snd b) \<Longrightarrow> eq_law (cql_cmp X) u v \<and> opp_law (cql_cmp X) u v"
  shows "eq_law (field_cmp X) a b" "opp_law (field_cmp X) a b"
  unfolding field_cmp_def [abs_def]
  by (rule pair_laws, simp add: order_laws, rule opt_laws, rule assms, assumption, assumption)+

lemma cql_cmp_scalar:
  "discriminant_index a \<notin> {15, 21, 22, 23, 24, 25, 26, 27} \<Longrightarrow> eq_law (cql_cmp X) a b \<and> opp_law (cql_cmp X) a b"
  using cql_cmp_same [of a b X] laws_disc [of a b X] by (cases "discriminant_index a = discriminant_index b") simp_all

lemma cql_cmp_eq_opp: "plain a \<Longrightarrow> plain b \<Longrightarrow> eq_law (cql_cmp X) a b \<and> opp_law (cql_cmp X) a b"
proof (induction a arbitrary: b)
  case (VList as)
  show ?case
  proof (cases "discriminant_index b = 21")
    case True
    then obtain bs where b: "b = VList bs" using disc_inversion(1) by blast
    have "eq_law (cql_cmp X) x y \<and> opp_law (cql_cmp X) x y" if "x \<in> set as" "y \<in> set bs" for x y
      using VList that b by (simp add: list_all_iff)
    then show ?thesis unfolding b composite_eq by (intro conjI lex_cmp_eq lex_cmp_opp) simp_all
  qed (use laws_disc [of "VList as" b X] in simp)
next
  case (VSet as)
  show ?case
  proof (cases "discriminant_index b = 22")
    case True
    then obtain bs where b: "b = VSet bs" using disc_inversion(2) by blast
    have "eq_law (cql_cmp X) x y \<and> opp_law (cql_cmp X) x y" if "x \<in> set as" "y \<in> set bs" for x y
      using VSet that b by (simp add: list_all_iff)
    then show ?thesis unfolding b composite_eq by (intro conjI lex_cmp_eq lex_cmp_opp) simp_all
  qed (use laws_disc [of "VSet as" b X] in simp)
next
  case (VMap as)
  show ?case
  proof (cases "discriminant_index b = 23")
    case True
    then obtain bs where b: "b = VMap bs" using disc_inversion(3) by blast
    have "eq_law (entry_cmp X) x y \<and> opp_law (entry_cmp X) x y" if x: "x \<in> set as" and y: "y \<in> set bs" for x y
    proof -
      have p: "plain (fst x)" "plain (snd x)" "plain (fst y)" "plain (snd y)"
        using VMap.prems x y unfolding b plain_map list_all_iff by auto
      have "eq_law (cql_cmp X) (fst x) (fst y) \<and> opp_law (cql_cmp X) (fst x) (fst y)"
        using VMap.IH(1) [OF x _ p(1,3)] by (cases x) simp
      moreover have "eq_law (cql_cmp X) (snd x) (snd y) \<and> opp_law (cql_cmp X) (snd x) (snd y)"
        using VMap.IH(2) [OF x _ p(2,4)] by (cases x) simp
      ultimately show ?thesis by (simp add: entry_laws)
    qed
    then show ?thesis unfolding b composite_eq by (intro conjI lex_cmp_eq lex_cmp_opp) simp_all
  qed (use laws_disc [of "VMap as" b X] in simp)
next
  case (VTuple as)
  show ?case
  proof (cases "discriminant_index b = 24")
    case True
    then obtain bs where b: "b = VTuple bs" using disc_inversion(4) by blast
    have "eq_law (cql_cmp X) u v \<and> opp_law (cql_cmp X) u v"
      if "x \<in> set as" "y \<in> set bs" "u \<in> set_option x" "v \<in> set_option y" for x y u v
    proof -
      have "plain u" "plain v" using VTuple.prems that unfolding b plain_map list_all_iff
        by (auto simp: option.pred_set)
      then show ?thesis by (rule VTuple.IH [OF that(1,3)])
    qed
    then show ?thesis unfolding b composite_eq by (intro conjI lex_cmp_eq lex_cmp_opp opt_laws) simp_all
  qed (use laws_disc [of "VTuple as" b X] in simp)
next
  case (VUdt as)
  show ?case
  proof (cases "discriminant_index b = 26")
    case True
    then obtain bs where b: "b = VUdt bs" using disc_inversion(6) by blast
    have "eq_law (cql_cmp X) u v \<and> opp_law (cql_cmp X) u v"
      if "x \<in> set as" "y \<in> set bs" "u \<in> set_option (snd x)" "v \<in> set_option (snd y)" for x y u v
    proof -
      have "plain u" "plain v" using VUdt.prems that unfolding b plain_map list_all_iff
        by (auto simp: option.pred_set)
      then show ?thesis using VUdt.IH [OF that(1) _ that(3)] by (cases x) simp
    qed
    then show ?thesis unfolding b composite_eq by (intro conjI lex_cmp_eq lex_cmp_opp field_laws) simp_all
  qed (use laws_disc [of "VUdt as" b X] in simp)
next
  case (VVector as)
  show ?case
  proof (cases "discriminant_index b = 25")
    case True
    then obtain bs where "b = VVector bs" using disc_inversion(5) by blast
    then show ?thesis using vector_cmp_laws [of as bs] by (simp add: order_laws)
  qed (use laws_disc [of "VVector as" b X] in simp)
qed (rule cql_cmp_scalar; simp)+

lemma cql_cmp_less_disc: "cql_cmp X a b = Less \<Longrightarrow> discriminant_index a \<le> discriminant_index b"
  using cql_cmp_disc [of a b X] by (cases "discriminant_index a = discriminant_index b") simp_all

lemma less_disc:
  assumes "discriminant_index a \<noteq> discriminant_index b \<or> discriminant_index b \<noteq> discriminant_index d"
  shows "less_law (cql_cmp X) a b d"
proof -
  have "cql_cmp X a d = Less" if "cql_cmp X a b = Less" "cql_cmp X b d = Less"
  proof -
    have "discriminant_index a < discriminant_index d"
      using cql_cmp_less_disc [OF that(1)] cql_cmp_less_disc [OF that(2)] assms by linarith
    then show ?thesis using cql_cmp_disc [of a d X] by simp
  qed
  then show ?thesis by (simp add: less_law_def)
qed

lemma less_scalar:
  assumes "discriminant_index a \<notin> {15, 21, 22, 23, 24, 25, 26, 27}"
  shows "less_law (cql_cmp X) a b d"
proof (cases "discriminant_index a = discriminant_index b \<and> discriminant_index b = discriminant_index d")
  case True
  then have "discriminant_index a = discriminant_index b" "discriminant_index a = discriminant_index d" by simp_all
  with assms show ?thesis
    by (cases a) (cases b; simp; cases d; auto simp: less_law_def then_with_iff)+
qed (use less_disc in blast)

lemma opt_less:
  assumes "\<And>u v w. u \<in> set_option x \<Longrightarrow> v \<in> set_option y \<Longrightarrow> w \<in> set_option z \<Longrightarrow> less_law c u v w"
  shows "less_law (\<lambda>x y. opt_cmp (map_option c x) y) x y z"
  using assms by (cases x; cases y; cases z; simp add: less_law_def)

lemma field_less:
  assumes "\<And>u v w. u \<in> set_option (snd x) \<Longrightarrow> v \<in> set_option (snd y) \<Longrightarrow> w \<in> set_option (snd z) \<Longrightarrow> less_law (cql_cmp X) u v w"
  shows "less_law (field_cmp X) x y z"
  unfolding field_cmp_def [abs_def]
proof (rule pair_laws(3))
  show "less_law (\<lambda>x y. opt_cmp (map_option (cql_cmp X) x) y) (snd x) (snd y) (snd z)" by (rule opt_less) (rule assms)
qed (auto simp: order_laws)

lemma cql_cmp_less: "plain a \<Longrightarrow> plain b \<Longrightarrow> plain d \<Longrightarrow> less_law (cql_cmp X) a b d"
proof (induction a arbitrary: b d)
  case (VList as)
  show ?case
  proof (cases "discriminant_index b = 21 \<and> discriminant_index d = 21")
    case True
    then obtain bs ds where b: "b = VList bs" and d: "d = VList ds" using disc_inversion(1) by blast
    have "less_law (cql_cmp X) x y z \<and> eq_law (cql_cmp X) x y \<and> eq_law (cql_cmp X) y z \<and> eq_law (cql_cmp X) x z"
      if "x \<in> set as" "y \<in> set bs" "z \<in> set ds" for x y z
    proof -
      have p: "plain x" "plain y" "plain z" using VList.prems that b d by (auto simp: list_all_iff)
      then show ?thesis using VList.IH [OF that(1) p] cql_cmp_eq_opp by blast
    qed
    then show ?thesis unfolding b d composite_eq by (rule lex_cmp_less)
  qed (use less_disc [of "VList as" b d X] in simp)
next
  case (VSet as)
  show ?case
  proof (cases "discriminant_index b = 22 \<and> discriminant_index d = 22")
    case True
    then obtain bs ds where b: "b = VSet bs" and d: "d = VSet ds" using disc_inversion(2) by blast
    have "less_law (cql_cmp X) x y z \<and> eq_law (cql_cmp X) x y \<and> eq_law (cql_cmp X) y z \<and> eq_law (cql_cmp X) x z"
      if "x \<in> set as" "y \<in> set bs" "z \<in> set ds" for x y z
    proof -
      have p: "plain x" "plain y" "plain z" using VSet.prems that b d by (auto simp: list_all_iff)
      then show ?thesis using VSet.IH [OF that(1) p] cql_cmp_eq_opp by blast
    qed
    then show ?thesis unfolding b d composite_eq by (rule lex_cmp_less)
  qed (use less_disc [of "VSet as" b d X] in simp)
next
  case (VMap as)
  show ?case
  proof (cases "discriminant_index b = 23 \<and> discriminant_index d = 23")
    case True
    then obtain bs ds where b: "b = VMap bs" and d: "d = VMap ds" using disc_inversion(3) by blast
    have "less_law (entry_cmp X) x y z \<and> eq_law (entry_cmp X) x y \<and> eq_law (entry_cmp X) y z \<and> eq_law (entry_cmp X) x z"
      if xyz: "x \<in> set as" "y \<in> set bs" "z \<in> set ds" for x y z
    proof -
      have p: "plain (fst x)" "plain (snd x)" "plain (fst y)" "plain (snd y)" "plain (fst z)" "plain (snd z)"
        using VMap.prems xyz unfolding b d plain_map list_all_iff by auto
      have "less_law (cql_cmp X) (fst x) (fst y) (fst z)" using VMap.IH(1) [OF xyz(1) _ p(1,3,5)] by (cases x) simp
      moreover have "less_law (cql_cmp X) (snd x) (snd y) (snd z)" using VMap.IH(2) [OF xyz(1) _ p(2,4,6)] by (cases x) simp
      moreover note eqs = cql_cmp_eq_opp [THEN conjunct1]
      ultimately show ?thesis using p by (intro conjI entry_laws eqs)
    qed
    then show ?thesis unfolding b d composite_eq by (rule lex_cmp_less)
  qed (use less_disc [of "VMap as" b d X] in simp)
next
  case (VTuple as)
  show ?case
  proof (cases "discriminant_index b = 24 \<and> discriminant_index d = 24")
    case True
    then obtain bs ds where b: "b = VTuple bs" and d: "d = VTuple ds" using disc_inversion(4) by blast
    have "plain u" if "x \<in> set as \<or> x \<in> set bs \<or> x \<in> set ds" "u \<in> set_option x" for x u
      using VTuple.prems that unfolding b d plain_map list_all_iff by (auto simp: option.pred_set)
    note p = this
    have "less_law (\<lambda>x y. opt_cmp (map_option (cql_cmp X) x) y) x y z \<and> eq_law (\<lambda>x y. opt_cmp (map_option (cql_cmp X) x) y) x y \<and> eq_law (\<lambda>x y. opt_cmp (map_option (cql_cmp X) x) y) y z \<and> eq_law (\<lambda>x y. opt_cmp (map_option (cql_cmp X) x) y) x z"
      if xyz: "x \<in> set as" "y \<in> set bs" "z \<in> set ds" for x y z
    proof (intro conjI)
      have "less_law (cql_cmp X) u v w" if "u \<in> set_option x" "v \<in> set_option y" "w \<in> set_option z" for u v w
        by (rule VTuple.IH [OF xyz(1) that(1)]) (use xyz that p in blast)+
      then show "less_law (\<lambda>x y. opt_cmp (map_option (cql_cmp X) x) y) x y z" by (intro opt_less) 
      show "eq_law (\<lambda>x y. opt_cmp (map_option (cql_cmp X) x) y) x y" "eq_law (\<lambda>x y. opt_cmp (map_option (cql_cmp X) x) y) y z" "eq_law (\<lambda>x y. opt_cmp (map_option (cql_cmp X) x) y) x z"
        by (rule opt_laws, rule cql_cmp_eq_opp; (use xyz p in blast))+
    qed
    then show ?thesis unfolding b d composite_eq by (rule lex_cmp_less)
  qed (use less_disc [of "VTuple as" b d X] in simp)
next
  case (VUdt as)
  show ?case
  proof (cases "discriminant_index b = 26 \<and> discriminant_index d = 26")
    case True
    then obtain bs ds where b: "b = VUdt bs" and d: "d = VUdt ds" using disc_inversion(6) by blast
    have "plain u" if "x \<in> set as \<or> x \<in> set bs \<or> x \<in> set ds" "u \<in> set_option (snd x)" for x u
      using VUdt.prems that unfolding b d plain_map list_all_iff by (auto simp: option.pred_set)
    note p = this
    have "less_law (field_cmp X) x y z \<and> eq_law (field_cmp X) x y \<and> eq_law (field_cmp X) y z \<and> eq_law (field_cmp X) x z"
      if xyz: "x \<in> set as" "y \<in> set bs" "z \<in> set ds" for x y z
    proof (intro conjI)
      have "less_law (cql_cmp X) u v w" if "u \<in> set_option (snd x)" "v \<in> set_option (snd y)" "w \<in> set_option (snd z)" for u v w
        by (rule VUdt.IH [OF xyz(1) _ that(1)]) (cases x, simp, (use xyz that p in blast)+)
      then show "less_law (field_cmp X) x y z" by (rule field_less)
      show "eq_law (field_cmp X) x y" "eq_law (field_cmp X) y z" "eq_law (field_cmp X) x z"
        by (rule field_laws, rule cql_cmp_eq_opp; (use xyz p in blast))+
    qed
    then show ?thesis unfolding b d composite_eq by (rule lex_cmp_less)
  qed (use less_disc [of "VUdt as" b d X] in simp)
next
  case (VVector as)
  show ?case
  proof (cases "discriminant_index b = 25 \<and> discriminant_index d = 25")
    case True
    then obtain bs ds where b: "b = VVector bs" and d: "d = VVector ds" using disc_inversion(5) by blast
    then show ?thesis using vector_cmp_laws(3) [of as bs ds] by (simp add: less_law_def b d)
  qed (use less_disc [of "VVector as" b d X] in simp)
qed (rule less_scalar; simp)+

lemma cql_cmp_order:
  assumes "plain a" "plain b"
  shows "cql_cmp X a b = Equal \<longleftrightarrow> a = b" "cql_cmp X a b = Less \<longleftrightarrow> cql_cmp X b a = Greater"
  using cql_cmp_eq_opp [OF assms, of X] by (auto simp: order_laws opposite_def)

lemma cql_cmp_trans:
  "plain a \<Longrightarrow> plain b \<Longrightarrow> plain d \<Longrightarrow> cql_cmp X a b = Less \<Longrightarrow> cql_cmp X b d = Less \<Longrightarrow> cql_cmp X a d = Less"
  using cql_cmp_less [of a b d X] by (simp add: less_law_def)

section \<open>Properties\<close>

text \<open>C30: The order of CQL values is total: on values of any nesting that contain no inet address and no jsonb, two
  values compare equal exactly when they are equal, swapping them swaps the answer, and smaller is transitive.\<close>

theorem cql_value_order:
  assumes "plain a" "plain b" "plain d"
  shows "(cql_cmp X a b = Equal \<longleftrightarrow> a = b) \<and> (cql_cmp X a b = Less \<longleftrightarrow> cql_cmp X b a = Greater)
    \<and> (cql_cmp X a b = Less \<and> cql_cmp X b d = Less \<longrightarrow> cql_cmp X a d = Less)"
  using cql_cmp_order [OF assms(1,2)] cql_cmp_trans [OF assms] by blast

theorem cql_value_order_witness:
  "(cql_cmp sample_deps (VList [VInt 1]) (VList [VInt 2]) = Less \<longleftrightarrow> cql_cmp sample_deps (VList [VInt 2]) (VList [VInt 1]) = Greater)
    \<and> cql_cmp sample_deps (VList [VInt 1]) (VSet []) = Less"
  using cql_value_order [of "VList [VInt 1]" "VList [VInt 2]" "VSet []" sample_deps] by simp

end
