(* ===== verification/List_Path.thy ===== *)
theory List_Path
  imports Bytes Accord
begin

unbundle bit_operations_syntax

text \<open>
  The cell paths of list elements (crates \<open>ferrosa-common\<close>: \<open>complex_cell.rs\<close>, and \<open>ferrosa-row-bridge\<close>:
  \<open>collection.rs\<close>): version 1 time UUIDs that carry the time of the append, the index of the element within it and,
  for an append under Accord, the rest of the transaction's timestamp.  The lemmas show by which key a read orders
  them.
\<close>

section \<open>Definitions\<close>

definition UUID_EPOCH_OFFSET :: "64 word" where
  "UUID_EPOCH_OFFSET = 0x01B21DD213814000"

definition list_cell_path :: "i64 \<Rightarrow> u16 \<Rightarrow> bytes" where
  "list_cell_path write_ts seq =
     (let uuid_ts = word_of_int (max write_ts 0) * 10 + UUID_EPOCH_OFFSET :: 64 word;
          time_low = ucast (uuid_ts AND 0xFFFFFFFF) :: 32 word;
          time_mid = ucast (drop_bit 32 uuid_ts AND 0xFFFF) :: u16;
          time_hi = ucast (drop_bit 48 uuid_ts AND 0x0FFF) OR 0x1000 :: u16;
          clock_seq = (seq AND 0x3FFF) OR 0x8000
      in be_bytes 4 time_low @ be_bytes 2 time_mid @ be_bytes 2 time_hi @ be_bytes 2 clock_seq @ replicate 6 0)"

definition accord_list_cell_path :: "timestamp \<Rightarrow> u16 \<Rightarrow> bytes" where
  "accord_list_cell_path t element_seq =
     (let uuid_ts = of_nat (ts_time t) + UUID_EPOCH_OFFSET :: 64 word;
          time_low = ucast (uuid_ts AND 0xFFFFFFFF) :: 32 word;
          time_mid = ucast (drop_bit 32 uuid_ts AND 0xFFFF) :: u16;
          time_hi = ucast (drop_bit 48 uuid_ts AND 0x0FFF) OR 0x1000 :: u16;
          clock_seq = (element_seq AND 0x3FFF) OR 0x8000
      in be_bytes 4 time_low @ be_bytes 2 time_mid @ be_bytes 2 time_hi @ be_bytes 2 clock_seq
         @ be_bytes 4 (of_nat (ts_seq t) :: 32 word) @ be_bytes 2 (ucast (of_nat (ts_node t) AND 0xFFFF :: 64 word) :: u16))"

definition list_path_element_seq :: "bytes \<Rightarrow> u16 option" where
  "list_path_element_seq path = (if length path \<noteq> 16 then None
     else Some (of_be_bytes 0 (take 2 (drop 8 path)) AND 0x3FFF))"

definition timeuuid_time :: "bytes \<Rightarrow> (64 word \<times> u16) option" where
  "timeuuid_time path =
     (if length path \<noteq> 16 then None
      else
        let time_low = ucast (of_be_bytes 0 (take 4 path) :: 32 word) :: 64 word;
            time_mid = ucast (of_be_bytes 0 (take 2 (drop 4 path)) :: u16) :: 64 word;
            time_hi = ucast ((of_be_bytes 0 (take 2 (drop 6 path)) :: u16) AND 0x0FFF) :: 64 word;
            time = time_low OR push_bit 32 time_mid OR push_bit 48 time_hi;
            clock_seq = (of_be_bytes 0 (take 2 (drop 8 path)) :: u16) AND 0x3FFF
        in Some (time, clock_seq))"

type_synonym list_order_key = "64 word \<times> u16 \<times> bytes"

definition list_order_key :: "bytes \<Rightarrow> list_order_key option" where
  "list_order_key path = (case timeuuid_time path of None \<Rightarrow> None
     | Some (time, clock_seq) \<Rightarrow> Some (time, clock_seq, take 6 (drop 10 path)))"

section \<open>The ordering key of a path\<close>

text \<open>Both kinds of path have the same layout.\<close>

definition uuid_path :: "64 word \<Rightarrow> u16 \<Rightarrow> bytes \<Rightarrow> bytes" where
  "uuid_path ts seq node =
     be_bytes 4 (ucast (ts AND 0xFFFFFFFF) :: 32 word) @ be_bytes 2 (ucast (drop_bit 32 ts AND 0xFFFF) :: u16)
     @ be_bytes 2 (ucast (drop_bit 48 ts AND 0x0FFF) OR 0x1000 :: u16) @ be_bytes 2 ((seq AND 0x3FFF) OR 0x8000 :: u16) @ node"

lemma list_cell_path_layout:
  "list_cell_path write_ts seq = uuid_path (word_of_int (max write_ts 0) * 10 + UUID_EPOCH_OFFSET) seq (replicate 6 0)"
  by (simp add: list_cell_path_def uuid_path_def Let_def)

lemma accord_list_cell_path_layout:
  "accord_list_cell_path t seq = uuid_path (of_nat (ts_time t) + UUID_EPOCH_OFFSET) seq
     (be_bytes 4 (of_nat (ts_seq t) :: 32 word) @ be_bytes 2 (ucast (of_nat (ts_node t) AND 0xFFFF :: 64 word) :: u16))"
  by (simp add: accord_list_cell_path_def uuid_path_def Let_def)

lemma length_uuid_path: "length (uuid_path ts seq node) = 10 + length node"
  by (simp add: uuid_path_def)

lemma mask_numerals:
  "(0xFFFFFFFF :: 'a::len word) = mask 32" "(0xFFFF :: 'a word) = mask 16" "(0x3FFF :: 'a word) = mask 14" "(0x0FFF :: 'a word) = mask 12"
  by (simp_all add: mask_eq_exp_minus_1)

lemma bit_markers: "bit (0x1000 :: int) i \<longleftrightarrow> i = 12" "bit (0x8000 :: int) i \<longleftrightarrow> i = 15"
  using bit_exp_iff [where 'a = int, of 12 i] bit_exp_iff [where 'a = int, of 15 i] by auto

lemma timeuuid_time_path:
  assumes "length node = 6"
  shows "timeuuid_time (uuid_path ts seq node) = Some (take_bit 60 ts, take_bit 14 seq)"
proof -
  let ?p = "uuid_path ts seq node"
  have parts: "take 4 ?p = be_bytes 4 (ucast (ts AND 0xFFFFFFFF) :: 32 word)"
    "take 2 (drop 4 ?p) = be_bytes 2 (ucast (drop_bit 32 ts AND 0xFFFF) :: u16)"
    "take 2 (drop 6 ?p) = be_bytes 2 (ucast (drop_bit 48 ts AND 0x0FFF) OR 0x1000 :: u16)"
    "take 2 (drop 8 ?p) = be_bytes 2 ((seq AND 0x3FFF) OR 0x8000 :: u16)"
    by (simp_all add: uuid_path_def del: be_bytes_simps)
  have w: "of_be_bytes 0 (be_bytes 4 v) = (v :: 32 word)" "of_be_bytes 0 (be_bytes 2 u) = (u :: u16)" for v u
    by (rule of_be_be_bytes_full, simp)+
  have "ucast (ucast (ts AND 0xFFFFFFFF) :: 32 word) OR push_bit 32 (ucast (ucast (drop_bit 32 ts AND 0xFFFF) :: u16))
      OR push_bit 48 (ucast ((ucast (drop_bit 48 ts AND 0x0FFF) OR 0x1000 :: u16) AND 0x0FFF)) = take_bit 60 ts" (is "?l = _")
  proof (rule bit_word_eqI)
    show "bit ?l n \<longleftrightarrow> bit (take_bit 60 ts) n" for n
      unfolding mask_numerals by (cases "48 \<le> n") (auto simp: bit_simps bit_markers)
  qed
  moreover have "((seq AND 0x3FFF) OR 0x8000) AND 0x3FFF = take_bit 14 seq"
    unfolding mask_numerals by (rule bit_word_eqI) (auto simp: bit_simps bit_markers)
  ultimately show ?thesis using assms by (simp add: timeuuid_time_def parts w length_uuid_path Let_def del: be_bytes_simps)
qed

lemma list_order_key_path:
  assumes "length node = 6"
  shows "list_order_key (uuid_path ts seq node) = Some (take_bit 60 ts, take_bit 14 seq, node)"
proof -
  have "take 6 (drop 10 (uuid_path ts seq node)) = node" using assms by (simp add: uuid_path_def del: be_bytes_simps)
  then show ?thesis by (simp add: list_order_key_def timeuuid_time_path [OF assms])
qed

text \<open>The times of appends that fit the 60 bits of the time field.\<close>

definition MAX_LIST_TS :: i64 where
  "MAX_LIST_TS = 103072857660684697"

lemma list_order_key_list:
  assumes "0 \<le> ts" "ts \<le> MAX_LIST_TS"
  shows "list_order_key (list_cell_path ts seq) = Some (word_of_int (ts * 10 + 122192928000000000), take_bit 14 seq, replicate 6 0)"
proof -
  have "word_of_int (max ts 0) * 10 + UUID_EPOCH_OFFSET = (word_of_int (ts * 10 + 122192928000000000) :: 64 word)"
    using assms(1) by (simp add: UUID_EPOCH_OFFSET_def max_def)
  moreover have "take_bit 60 (word_of_int (ts * 10 + 122192928000000000) :: 64 word) = word_of_int (ts * 10 + 122192928000000000)"
  proof -
    have "take_bit 60 (ts * 10 + 122192928000000000) = ts * 10 + 122192928000000000"
      using assms by (intro take_bit_int_eq_self) (simp_all add: MAX_LIST_TS_def)
    then show ?thesis by (metis take_bit_of_int)
  qed
  ultimately show ?thesis unfolding list_cell_path_layout by (simp add: list_order_key_path)
qed

lemma accord_list_order_key:
  assumes "ts_time t + 122192928000000000 < 2 ^ 64"
  shows "list_order_key (accord_list_cell_path t seq) = Some (of_nat ((ts_time t + 122192928000000000) mod 2 ^ 60), take_bit 14 seq,
    be_bytes 4 (of_nat (ts_seq t) :: 32 word) @ be_bytes 2 (of_nat (ts_node t mod 2 ^ 16) :: u16))"
proof -
  have "of_nat (ts_time t) + UUID_EPOCH_OFFSET = (of_nat (ts_time t + 122192928000000000) :: 64 word)"
    by (simp add: UUID_EPOCH_OFFSET_def)
  moreover have "take_bit 60 (of_nat n :: 64 word) = of_nat (n mod 2 ^ 60)" for n
    by (simp only: take_bit_of_nat take_bit_eq_mod [where 'a = nat, symmetric])
  moreover have "ucast (of_nat (ts_node t) AND 0xFFFF :: 64 word) = (of_nat (ts_node t mod 2 ^ 16) :: u16)"
  proof (rule bit_word_eqI)
    have "of_nat (ts_node t mod 2 ^ 16) = take_bit 16 (of_nat (ts_node t) :: u16)"
      by (simp only: take_bit_of_nat take_bit_eq_mod [where 'a = nat, symmetric])
    then show "bit (ucast (of_nat (ts_node t) AND 0xFFFF :: 64 word) :: u16) n \<longleftrightarrow> bit (of_nat (ts_node t mod 2 ^ 16) :: u16) n"
      if "n < LENGTH(16)" for n
      using that unfolding mask_numerals by (simp add: bit_simps)
  qed
  ultimately show ?thesis unfolding accord_list_cell_path_layout by (simp only: list_order_key_path length_append length_be_bytes)
qed

lemma take_bit_14: "seq < 2 ^ 14 \<Longrightarrow> take_bit 14 seq = seq" for seq :: u16
  by (simp add: word_unat_eq_iff unsigned_take_bit_eq take_bit_nat_eq_self word_less_nat_alt)

lemma list_path_less:
  assumes "seq < 2 ^ 14" "seq' < 2 ^ 14" "0 \<le> ts" "ts \<le> MAX_LIST_TS" "0 \<le> ts'" "ts' \<le> MAX_LIST_TS"
  shows "the (list_order_key (list_cell_path ts seq)) < the (list_order_key (list_cell_path ts' seq')) \<longleftrightarrow> (ts, seq) < (ts', seq')"
proof -
  define w where "w u = (word_of_int (u * 10 + 122192928000000000) :: 64 word)" for u :: int
  have u: "uint (w u) = u * 10 + 122192928000000000" if "0 \<le> u" "u \<le> MAX_LIST_TS" for u
    unfolding w_def uint_word_of_int by (rule mod_pos_pos_trivial) (use that in \<open>simp_all add: MAX_LIST_TS_def\<close>)
  have "w ts < w ts' \<longleftrightarrow> ts < ts'" "w ts \<le> w ts' \<longleftrightarrow> ts \<le> ts'"
    using u [OF assms(3,4)] u [OF assms(5,6)] by (auto simp: word_less_def word_le_def)
  moreover have "the (list_order_key (list_cell_path ts seq)) = (w ts, seq, replicate 6 0)"
    "the (list_order_key (list_cell_path ts' seq')) = (w ts', seq', replicate 6 0)"
    using assms by (simp_all only: list_order_key_list take_bit_14 w_def option.sel)
  ultimately show ?thesis by simp
qed

lemma same_quotient:
  fixes a b c m q x y :: nat
  assumes "a + c = q * m + x" "b + c = q * m + y"
  shows "x < y \<longleftrightarrow> a < b" "x \<le> y \<longleftrightarrow> a \<le> b"
  using assms by linarith+

definition same_period :: "timestamp \<Rightarrow> timestamp \<Rightarrow> bool" where
  "same_period t t' \<longleftrightarrow> ts_time t + 122192928000000000 < 2 ^ 64 \<and> ts_time t' + 122192928000000000 < 2 ^ 64
     \<and> (ts_time t + 122192928000000000) div 2 ^ 60 = (ts_time t' + 122192928000000000) div 2 ^ 60"

lemma accord_path_less:
  assumes "seq < 2 ^ 14" "seq' < 2 ^ 14" "same_period t t'" "ts_seq t \<le> u32_MAX" "ts_seq t' \<le> u32_MAX"
  shows "the (list_order_key (accord_list_cell_path t seq)) < the (list_order_key (accord_list_cell_path t' seq'))
    \<longleftrightarrow> (ts_time t, seq, ts_seq t, ts_node t mod 2 ^ 16) < (ts_time t', seq', ts_seq t', ts_node t' mod 2 ^ 16)"
proof -
  define w where "w u = (of_nat ((ts_time u + 122192928000000000) mod 2 ^ 60) :: 64 word)" for u
  have u: "unat (w u) = (ts_time u + 122192928000000000) mod 2 ^ 60" for u
    by (simp add: w_def unat_of_nat)
  have q: "(ts_time t + 122192928000000000) div 2 ^ 60 = (ts_time t' + 122192928000000000) div 2 ^ 60"
    using assms(3) unfolding same_period_def by blast
  have "ts_time t + 122192928000000000 = (ts_time t + 122192928000000000) div 2 ^ 60 * 2 ^ 60 + unat (w t)"
    unfolding u by (rule div_mult_mod_eq [symmetric])
  moreover have "ts_time t' + 122192928000000000 = (ts_time t + 122192928000000000) div 2 ^ 60 * 2 ^ 60 + unat (w t')"
    unfolding u q by (rule div_mult_mod_eq [symmetric])
  ultimately have time: "w t < w t' \<longleftrightarrow> ts_time t < ts_time t'" "w t \<le> w t' \<longleftrightarrow> ts_time t \<le> ts_time t'"
    unfolding word_less_nat_alt word_le_nat_alt by (rule same_quotient)+
  define sq where "sq u = (of_nat (ts_seq u) :: 32 word)" for u
  define nd where "nd u = (of_nat (ts_node u mod 2 ^ 16) :: u16)" for u
  have sq: "sq t < sq t' \<longleftrightarrow> ts_seq t < ts_seq t'" "sq t = sq t' \<longleftrightarrow> ts_seq t = ts_seq t'"
    using assms(4,5) by (simp_all add: sq_def word_less_nat_alt word_unat_eq_iff unat_of_nat u32_MAX_def)
  have nd: "nd t < nd t' \<longleftrightarrow> ts_node t mod 2 ^ 16 < ts_node t' mod 2 ^ 16"
    by (simp add: nd_def word_less_nat_alt unat_of_nat)
  have bytes: "be_bytes 4 (sq t) @ be_bytes 2 (nd t) < be_bytes 4 (sq t') @ be_bytes 2 (nd t')
      \<longleftrightarrow> ts_seq t < ts_seq t' \<or> ts_seq t = ts_seq t' \<and> ts_node t mod 2 ^ 16 < ts_node t' mod 2 ^ 16"
    using be_bytes_less_iff [of 4 "sq t" "be_bytes 2 (nd t)" "sq t'" "be_bytes 2 (nd t')"]
      be_bytes_less_iff [of 2 "nd t" "[]" "nd t'" "[]"] by (simp only: sq nd append_Nil2) simp
  have "the (list_order_key (accord_list_cell_path t seq)) = (w t, seq, be_bytes 4 (sq t) @ be_bytes 2 (nd t))"
    "the (list_order_key (accord_list_cell_path t' seq')) = (w t', seq', be_bytes 4 (sq t') @ be_bytes 2 (nd t'))"
    using assms by (simp_all only: accord_list_order_key same_period_def take_bit_14 option.sel w_def sq_def nd_def)
  then show ?thesis by (auto simp only: less_prod_simp time bytes)
qed

section \<open>Properties\<close>

text \<open>C31: List elements are read in the order of their appends: paths minted from a write timestamp compare like
  timestamp and element index, and paths minted from an Accord timestamp like its time, the element index, its sequence
  number and the low 16 bits of its node, as long as the index has 14 bits and the times lie in one period of
  \<open>2 ^ 60\<close> nanoseconds of the time field.\<close>

theorem list_path_order:
  assumes "seq < 2 ^ 14" "seq' < 2 ^ 14" "0 \<le> ts" "ts \<le> MAX_LIST_TS" "0 \<le> ts'" "ts' \<le> MAX_LIST_TS"
    and "same_period t t'" "ts_seq t \<le> u32_MAX" "ts_seq t' \<le> u32_MAX"
  shows "(the (list_order_key (list_cell_path ts seq)) < the (list_order_key (list_cell_path ts' seq')) \<longleftrightarrow> (ts, seq) < (ts', seq'))
    \<and> (the (list_order_key (accord_list_cell_path t seq)) < the (list_order_key (accord_list_cell_path t' seq'))
        \<longleftrightarrow> (ts_time t, seq, ts_seq t, ts_node t mod 2 ^ 16) < (ts_time t', seq', ts_seq t', ts_node t' mod 2 ^ 16))"
  using list_path_less [OF assms(1-6)] accord_path_less [OF assms(1,2,7-9)] by blast

theorem list_path_order_witness:
  "the (list_order_key (list_cell_path 5 2)) < the (list_order_key (list_cell_path 6 1))
    \<and> the (list_order_key (accord_list_cell_path (Timestamp 0 100 3 7) 2)) < the (list_order_key (accord_list_cell_path (Timestamp 0 101 0 1) 1))"
proof -
  have "same_period (Timestamp 0 100 3 7) (Timestamp 0 101 0 1)" by (simp add: same_period_def)
  then show ?thesis
    using list_path_order [of 2 1 5 6 "Timestamp 0 100 3 7" "Timestamp 0 101 0 1"] by (simp add: MAX_LIST_TS_def u32_MAX_def)
qed

text \<open>The time field overflows in 2039: it holds the nanoseconds of the Accord time where a time UUID has units of 100
  nanoseconds, so an append one nanosecond later is then read before all earlier ones.\<close>

theorem accord_list_order_wraps:
  "ts_time (Timestamp 0 2183650081213693951 0 1) < ts_time (Timestamp 0 2183650081213693952 0 1)
    \<and> the (list_order_key (accord_list_cell_path (Timestamp 0 2183650081213693952 0 1) 0))
      < the (list_order_key (accord_list_cell_path (Timestamp 0 2183650081213693951 0 1) 0))"
  by (simp add: accord_list_order_key)

end
