(* ===== verification/Collection_Cells.thy ===== *)
theory Collection_Cells
  imports Cql_Order List_Path Row
begin

text \<open>
  Collection columns as cells (crate \<open>ferrosa-row-bridge\<close>: \<open>collection.rs\<close>, and the liveness tests of \<open>row.rs\<close>): a
  collection assignment becomes one cell for each element, and a read assembles the reconciled cells of a column to its
  value.  Decode errors are those of the value codec; the counter of failed decodes is left out.  Equality of two
  values, by which \<open>dedup\<close> removes duplicates, is equality of the model; a set element or map key is assumed to
  contain no jsonb, which the code compares by value.

  The lemmas show that assembling the cells of an assignment, in any order, gives the assigned collection.
\<close>

section \<open>Sorting with a comparison\<close>

text \<open>\<open>slice::sort_by\<close> is a stable sort.\<close>

fun insert_by :: "('a \<Rightarrow> 'a \<Rightarrow> ordering) \<Rightarrow> 'a \<Rightarrow> 'a list \<Rightarrow> 'a list" where
  "insert_by c x [] = [x]"
| "insert_by c x (y # ys) = (if is_gt (c x y) then y # insert_by c x ys else x # y # ys)"

fun sort_by :: "('a \<Rightarrow> 'a \<Rightarrow> ordering) \<Rightarrow> 'a list \<Rightarrow> 'a list" where
  "sort_by c [] = []"
| "sort_by c (x # xs) = insert_by c x (sort_by c xs)"

section \<open>Building cells\<close>

datatype collection_op = Add | Sub

datatype unsupported_collection_op = UnsupportedCollectionOp

definition list_cells :: "value_deps \<Rightarrow> i64 \<Rightarrow> cql_value list \<Rightarrow> cell_value list" where
  "list_cells X write_ts items = map (\<lambda>(i, e). with_path (live_bytes (encode_value X e) write_ts) (list_cell_path write_ts (of_nat i)))
     (enumerate 0 items)"

definition build_collection_cells ::
  "value_deps \<Rightarrow> collection_op \<Rightarrow> cql_value \<Rightarrow> i64 \<Rightarrow> unsupported_collection_op + cell_value list" where
  "build_collection_cells X op rhs write_ts =
     (case rhs of
        VSet items \<Rightarrow> (case op of
          Add \<Rightarrow> Inr (map (\<lambda>e. with_path (live_bytes [] write_ts) (encode_value X e)) items)
        | Sub \<Rightarrow> Inr (map (\<lambda>e. with_path (tombstone write_ts NO_DELETION_TIME) (encode_value X e)) items))
      | VMap pairs \<Rightarrow> (case op of
          Add \<Rightarrow> Inr (map (\<lambda>(k, v). with_path (live_bytes (encode_value X v) write_ts) (encode_value X k)) pairs)
        | Sub \<Rightarrow> Inl UnsupportedCollectionOp)
      | VList items \<Rightarrow> (case op of Add \<Rightarrow> Inr (list_cells X write_ts items) | Sub \<Rightarrow> Inl UnsupportedCollectionOp)
      | _ \<Rightarrow> Inl UnsupportedCollectionOp)"

section \<open>Assembling cells\<close>

definition merge_blob_and_element_cells :: "cell_value list \<Rightarrow> cell_value list \<Rightarrow> cell_value list" where
  "merge_blob_and_element_cells blob_cells real_cells =
     map snd (foldl (\<lambda>by_path cell. bt_upsert reconcile (case cv_path cell of Some p \<Rightarrow> p | None \<Rightarrow> []) cell by_path) []
       (blob_cells @ filter (\<lambda>c. cv_path c \<noteq> None) real_cells))"

definition path_of :: "cell_value \<Rightarrow> row_bridge_error + bytes" where
  "path_of c = ok_or Invalid (cv_path c)"

definition value_of :: "cell_value \<Rightarrow> bytes" where
  "value_of c = (case cv_value c of Some v \<Rightarrow> v | None \<Rightarrow> [])"

definition assemble_collection :: "value_deps \<Rightarrow> cql_type \<Rightarrow> cell_value list \<Rightarrow> row_bridge_error + cql_value" where
  "assemble_collection X col_type cells =
     (let live = filter (\<lambda>c. cv_value c \<noteq> None) cells in
      case col_type of
        TSet elem_ty \<Rightarrow>
          and_then (try_map (\<lambda>c. and_then (path_of c) (decode_value X elem_ty)) live) (\<lambda>elems.
          Inr (VSet (remdups_adj (sort_by (cql_cmp X) elems))))
      | TMap key_ty val_ty \<Rightarrow>
          and_then (try_map (\<lambda>c.
            and_then (and_then (path_of c) (decode_value X key_ty)) (\<lambda>k.
            and_then (decode_value X val_ty (value_of c)) (\<lambda>v. Inr (k, v)))) live) (\<lambda>entries.
          Inr (VMap (dedup_by (\<lambda>a b. if fst a = fst b then Some b else None)
            (sort_by (\<lambda>a b. cql_cmp X (fst a) (fst b)) entries))))
      | TList elem_ty \<Rightarrow>
          and_then (try_map (\<lambda>c.
            and_then (and_then (path_of c) (\<lambda>p. ok_or Invalid (list_order_key p))) (\<lambda>key.
            and_then (decode_value X elem_ty (value_of c)) (\<lambda>v. Inr (key, v)))) live) (\<lambda>keyed.
          Inr (VList (map snd (sort_key fst keyed))))
      | _ \<Rightarrow> Inl Invalid)"

text \<open>The loop of \<open>assemble_udt\<close> fills the vector of field values.\<close>

fun assemble_fields :: "value_deps \<Rightarrow> (string \<times> cql_type) list \<Rightarrow> cell_value list \<Rightarrow> cql_value option list
    \<Rightarrow> row_bridge_error + cql_value option list" where
  "assemble_fields X fs [] vals = Inr vals"
| "assemble_fields X fs (c # cs) vals =
     and_then (path_of c) (\<lambda>path.
     if length path \<noteq> 2 then Inl Invalid
     else
       let pos = unat (of_be_bytes 0 path :: u16) in
       if pos \<ge> length fs then Inl Invalid
       else and_then (decode_value X (snd (fs ! pos)) (value_of c)) (\<lambda>v.
            assemble_fields X fs cs (vals[pos := Some v])))"

definition assemble_udt :: "value_deps \<Rightarrow> (string \<times> cql_type) list \<Rightarrow> cell_value list \<Rightarrow> row_bridge_error + cql_value" where
  "assemble_udt X fs live = and_then (assemble_fields X fs live (replicate (length fs) None)) (\<lambda>vals.
     Inr (VUdt (zip (map fst fs) vals)))"

definition ldt_is_expired :: "i32 \<Rightarrow> i32 \<Rightarrow> bool" where
  "ldt_is_expired ldt now_secs \<longleftrightarrow> ldt \<noteq> i32_MAX \<and> now_secs \<ge> ldt"

definition cell_is_live :: "cell_value \<Rightarrow> i32 \<Rightarrow> bool" where
  "cell_is_live c now_secs \<longleftrightarrow> \<not> (is_tombstone c \<or> is_expiring c \<and> ldt_is_expired (cv_local_deletion_time c) now_secs)"

definition assemble_owned_simple_cell :: "value_deps \<Rightarrow> cql_type \<Rightarrow> cell_value \<Rightarrow> i32 \<Rightarrow> row_bridge_error + cql_value option" where
  "assemble_owned_simple_cell X col_type cell now_secs =
     (if \<not> cell_is_live cell now_secs then Inr None
      else case cv_value cell of
        None \<Rightarrow> Inr None
      | Some bs \<Rightarrow> and_then (decode_value_owned X col_type bs) (\<lambda>v. Inr (Some v)))"

text \<open>\<open>max_by_key\<close> returns the last of several maximal elements.\<close>

fun newest_cell :: "cell_value \<Rightarrow> cell_value list \<Rightarrow> cell_value" where
  "newest_cell best [] = best"
| "newest_cell best (c # cs) = newest_cell (if cv_timestamp c \<ge> cv_timestamp best then c else best) cs"

definition is_udt :: "cql_type \<Rightarrow> bool" where
  "is_udt t \<longleftrightarrow> (case t of TUdt _ _ _ \<Rightarrow> True | _ \<Rightarrow> False)"

definition whole_value_cells :: "value_deps \<Rightarrow> cql_type \<Rightarrow> cell_value list \<Rightarrow> i32 \<Rightarrow> row_bridge_error + cell_value list" where
  "whole_value_cells X col_type cells now_secs =
     (case find (\<lambda>c. cv_path c = None \<and> \<not> is_tombstone c) cells of
        Some blob \<Rightarrow>
          if \<not> is_udt col_type \<and> cell_is_live blob now_secs then
            (case cv_value blob of
               Some bs \<Rightarrow>
                 and_then (decode_value X col_type bs) (\<lambda>decoded.
                 case build_collection_cells X Add decoded (cv_timestamp blob) of Inl _ \<Rightarrow> Inl Invalid | Inr cs \<Rightarrow> Inr cs)
             | None \<Rightarrow> Inr [])
          else Inr []
      | None \<Rightarrow> Inr [])"

definition collection_deletion_ts :: "cell_value list \<Rightarrow> i64 option" where
  "collection_deletion_ts cells =
     (case map cv_timestamp (filter (\<lambda>c. cv_path c = None \<and> is_tombstone c) cells) of
        [] \<Rightarrow> None
      | t # ts \<Rightarrow> Some (foldl max t ts))"

definition live_elements :: "cell_value list \<Rightarrow> cell_value list \<Rightarrow> i32 \<Rightarrow> cell_value list" where
  "live_elements cells blob_cells now_secs =
     filter (\<lambda>c. case collection_deletion_ts cells of None \<Rightarrow> True | Some d \<Rightarrow> cv_timestamp c > d)
       (filter (\<lambda>c. cell_is_live c now_secs)
         (if blob_cells = [] then filter (\<lambda>c. cv_path c \<noteq> None) cells
          else merge_blob_and_element_cells blob_cells cells))"

definition assemble_column_cells :: "value_deps \<Rightarrow> cql_type \<Rightarrow> cell_value list \<Rightarrow> i32 \<Rightarrow> row_bridge_error + cql_value option" where
  "assemble_column_cells X col_type cells now_secs =
     (case cells of
        [] \<Rightarrow> Inr None
      | first # rest \<Rightarrow>
          if list_ex (\<lambda>c. cv_path c \<noteq> None) cells then
            and_then (whole_value_cells X col_type cells now_secs) (\<lambda>blob_cells.
            let live = live_elements cells blob_cells now_secs in
            case col_type of
              TUdt _ _ fs \<Rightarrow> and_then (assemble_udt X fs live) (\<lambda>v. Inr (Some v))
            | _ \<Rightarrow>
                if live = [] then Inr None
                else and_then (assemble_collection X col_type live) (\<lambda>v. Inr (Some v)))
          else
            let newest = newest_cell first rest in
            if \<not> cell_is_live newest now_secs then Inr None
            else case cv_value newest of
              Some bs \<Rightarrow> and_then (decode_value_owned X col_type bs) (\<lambda>v. Inr (Some v))
            | None \<Rightarrow> Inr None)"

section \<open>Sorting and decoding lemmas\<close>

lemma insert_by_split:
  assumes "\<And>y. y \<in> set a \<Longrightarrow> c x y = Greater" "\<And>y. y \<in> set b \<Longrightarrow> c x y \<noteq> Greater"
  shows "insert_by c x (a @ b) = a @ x # b"
proof -
  have "insert_by c x b = x # b" using assms(2) by (cases b) (auto simp: is_gt_def)
  then show ?thesis using assms(1) by (induction a) (auto simp: is_gt_def)
qed

text \<open>A list in strictly ascending order is what sorting any permutation of it gives.\<close>

lemma sort_by_unique:
  assumes "mset xs = mset ys" "sorted_wrt (\<lambda>a b. c a b = Less \<and> c b a = Greater) ys"
  shows "sort_by c xs = ys"
  using assms
proof (induction xs arbitrary: ys)
  case (Cons x xs)
  have "x \<in> set ys" using mset_eq_setD [OF Cons.prems(1)] by auto
  then obtain a b where ys: "ys = a @ x # b" by (auto simp: in_set_conv_decomp)
  have "sort_by c xs = a @ b"
    by (rule Cons.IH) (use Cons.prems ys in \<open>simp_all add: sorted_wrt_append\<close>)
  moreover have "insert_by c x (a @ b) = a @ x # b"
    by (rule insert_by_split) (use Cons.prems(2) ys in \<open>auto simp: sorted_wrt_append\<close>)
  ultimately show ?case using ys by simp
qed simp

lemma insert_by_insort: "insert_by (\<lambda>a b. cmp (f a) (f b)) x ys = insort_key f x ys"
  by (induction ys) (auto simp: is_gt_def)

lemma sort_by_sort_key: "sort_by (\<lambda>a b. cmp (f a) (f b)) xs = sort_key f xs"
  by (induction xs) (simp_all add: insert_by_insort)

lemma sort_key_unique:
  assumes "mset xs = mset ys" "sorted_wrt (\<lambda>a b. f a < f b) ys"
  shows "sort_key f xs = ys"
  unfolding sort_by_sort_key [symmetric] by (rule sort_by_unique [OF assms(1)]) (use assms(2) in simp)

lemma remdups_adj_strict: "sorted_wrt (\<lambda>a b. a \<noteq> b) xs \<Longrightarrow> remdups_adj xs = xs"
  by (induction xs rule: remdups_adj.induct) auto

lemma dedup_by_distinct: "sorted_wrt (\<lambda>a b. f b a = None) xs \<Longrightarrow> dedup_by f xs = xs"
  by (induction f xs rule: dedup_by.induct) auto

lemma try_map_perm:
  assumes "mset cs = mset (map mk es)" "\<And>e. e \<in> set es \<Longrightarrow> dec (mk e) = Inr (h e)"
  shows "\<exists>vs. try_map dec cs = Inr vs \<and> mset vs = mset (map h es)"
proof (intro exI conjI)
  have "set cs = mk ` set es" using mset_eq_setD [OF assms(1)] by simp
  then show "try_map dec cs = Inr (map (\<lambda>c. projr (dec c)) cs)"
    unfolding try_map_Inr list.rel_map using assms(2) by (auto intro!: list.rel_refl_strong)
  have "mset (map (\<lambda>c. projr (dec c)) cs) = mset (map (\<lambda>c. projr (dec c)) (map mk es))" using assms(1) by (metis mset_map)
  also have "map (\<lambda>c. projr (dec c)) (map mk es) = map h es" using assms(2) by simp
  finally show "mset (map (\<lambda>c. projr (dec c)) cs) = mset (map h es)" .
qed

section \<open>The cells of an assignment\<close>

definition element_cell :: "i64 \<Rightarrow> bytes \<times> bytes \<Rightarrow> cell_value" where
  "element_cell ts pv = with_path (live_bytes (snd pv) ts) (fst pv)"

lemma element_cell_simps [simp]:
  "cv_path (element_cell ts pv) = Some (fst pv)" "cv_value (element_cell ts pv) = Some (snd pv)"
  "cv_timestamp (element_cell ts pv) = ts" "is_tombstone (element_cell ts pv) = False" "cell_is_live (element_cell ts pv) now"
  "path_of (element_cell ts pv) = Inr (fst pv)" "value_of (element_cell ts pv) = snd pv"
  by (simp_all add: element_cell_def cell_defs cell_is_live_def path_of_def value_of_def NO_TTL_def)

text \<open>What an assignment stores: path and value of each element.\<close>

definition element_entries :: "value_deps \<Rightarrow> i64 \<Rightarrow> cql_value \<Rightarrow> (bytes \<times> bytes) list" where
  "element_entries X ts v = (case v of
     VSet vs \<Rightarrow> map (\<lambda>e. (encode_value X e, [])) vs
   | VMap es \<Rightarrow> map (\<lambda>(k, e). (encode_value X k, encode_value X e)) es
   | VList vs \<Rightarrow> map (\<lambda>(i, e). (list_cell_path ts (of_nat i), encode_value X e)) (enumerate 0 vs)
   | _ \<Rightarrow> [])"

definition is_collection :: "cql_type \<Rightarrow> bool" where
  "is_collection t \<longleftrightarrow> (case t of TSet _ \<Rightarrow> True | TMap _ _ \<Rightarrow> True | TList _ \<Rightarrow> True | _ \<Rightarrow> False)"

lemma is_collection_cases:
  assumes "is_collection t" "has_type X t v"
  obtains u vs where "t = TSet u" "v = VSet vs" "list_all (encodable X (has_type X u)) vs"
  | u vs where "t = TList u" "v = VList vs" "list_all (encodable X (has_type X u)) vs"
  | k u es where "t = TMap k u" "v = VMap es" "list_all (\<lambda>(a, b). encodable X (has_type X k) a \<and> encodable X (has_type X u) b) es"
  using assms(1) assms(2) [unfolded is_collection_def]
  by (cases t) (auto simp: is_collection_def has_type_composite simp del: has_type.simps)

lemma build_add_cells:
  assumes "is_collection t" "has_type X t v"
  shows "build_collection_cells X Add v ts = Inr (map (element_cell ts) (element_entries X ts v))"
  using assms
  by (rule is_collection_cases)
    (simp_all add: build_collection_cells_def element_entries_def element_cell_def list_cells_def comp_def case_prod_beta)

text \<open>The literals the server builds: sets and maps in ascending order without duplicates, and appends that number their
  elements within 14 bits.\<close>

definition literal :: "value_deps \<Rightarrow> i64 \<Rightarrow> cql_value \<Rightarrow> bool" where
  "literal X ts v = (case v of
     VSet vs \<Rightarrow> list_all plain vs \<and> sorted_wrt (\<lambda>a b. cql_cmp X a b = Less) vs
   | VMap es \<Rightarrow> list_all plain (map fst es) \<and> sorted_wrt (\<lambda>a b. cql_cmp X a b = Less) (map fst es)
   | VList vs \<Rightarrow> length vs \<le> 2 ^ 14 \<and> 0 \<le> ts \<and> ts \<le> MAX_LIST_TS
   | _ \<Rightarrow> True)"

lemma strict_values:
  assumes "list_all plain vs" "sorted_wrt (\<lambda>a b. cql_cmp X a b = Less) vs"
  shows "sorted_wrt (\<lambda>a b. cql_cmp X a b = Less \<and> cql_cmp X b a = Greater) vs" "sorted_wrt (\<noteq>) vs"
proof -
  have "cql_cmp X b a = Greater \<and> a \<noteq> b" if "a \<in> set vs" "b \<in> set vs" "cql_cmp X a b = Less" for a b
    using cql_cmp_order [of a b X] cql_cmp_order(1) [of a a X] that assms(1) by (auto simp: list_all_iff)
  then show "sorted_wrt (\<lambda>a b. cql_cmp X a b = Less \<and> cql_cmp X b a = Greater) vs" "sorted_wrt (\<noteq>) vs"
    using assms(2) by (auto intro: sorted_wrt_mono_rel [rotated])
qed

lemma assemble_set:
  assumes "bigint_law X" "list_all (encodable X (has_type X t)) vs" "literal X ts (VSet vs)"
    and "mset cs = mset (map (element_cell ts) (element_entries X ts (VSet vs)))"
  shows "assemble_collection X (TSet t) cs = Inr (VSet vs)"
proof -
  have "mset cs = mset (map (\<lambda>e. element_cell ts (encode_value X e, [])) vs)" using assms(4) by (simp add: element_entries_def comp_def)
  note cells = this
  moreover have "decode_value X t (encode_value X e) = Inr e" if "e \<in> set vs" for e
    using that assms(1,2) by (intro decode_encode) (auto simp: list_all_iff encodable_def)
  ultimately obtain es where es: "try_map (\<lambda>c. and_then (path_of c) (decode_value X t)) cs = Inr es" "mset es = mset vs"
    using try_map_perm [OF cells, of "\<lambda>c. and_then (path_of c) (decode_value X t)" "\<lambda>e. e"] by auto
  have "filter (\<lambda>c. cv_value c \<noteq> None) cs = cs" using mset_eq_setD [OF cells] by (auto simp: filter_id_conv)
  moreover have "sort_by (cql_cmp X) es = vs" "remdups_adj vs = vs"
    using assms(3) sort_by_unique [OF es(2) strict_values(1)] remdups_adj_strict [OF strict_values(2)] by (auto simp: literal_def)
  ultimately show ?thesis using es(1) by (simp add: assemble_collection_def)
qed

lemma assemble_map:
  assumes "bigint_law X" "list_all (\<lambda>(a, b). encodable X (has_type X k) a \<and> encodable X (has_type X t) b) vs" "literal X ts (VMap vs)"
    and "mset cs = mset (map (element_cell ts) (element_entries X ts (VMap vs)))"
  shows "assemble_collection X (TMap k t) cs = Inr (VMap vs)"
proof -
  let ?dec = "\<lambda>c. and_then (and_then (path_of c) (decode_value X k)) (\<lambda>k. and_then (decode_value X t (value_of c)) (\<lambda>v. Inr (k, v)))"
  have "mset cs = mset (map (\<lambda>e. element_cell ts (encode_value X (fst e), encode_value X (snd e))) vs)"
    using assms(4) by (simp add: element_entries_def comp_def case_prod_beta)
  note cells = this
  moreover have "decode_value X k (encode_value X (fst e)) = Inr (fst e)" "decode_value X t (encode_value X (snd e)) = Inr (snd e)"
    if "e \<in> set vs" for e
    using that assms(1,2) by (auto intro!: decode_encode simp: list_all_iff encodable_def)
  ultimately obtain es where es: "try_map ?dec cs = Inr es" "mset es = mset vs"
    using try_map_perm [OF cells, of ?dec "\<lambda>e. e"] by auto
  have "filter (\<lambda>c. cv_value c \<noteq> None) cs = cs" using mset_eq_setD [OF cells] by (auto simp: filter_id_conv)
  moreover have keys: "list_all plain (map fst vs)" "sorted_wrt (\<lambda>a b. cql_cmp X a b = Less) (map fst vs)"
    using assms(3) by (simp_all add: literal_def)
  have "sort_by (\<lambda>a b. cql_cmp X (fst a) (fst b)) es = vs"
    by (rule sort_by_unique [OF es(2)]) (use strict_values(1) [OF keys] in \<open>simp add: sorted_wrt_map\<close>)
  moreover have "dedup_by (\<lambda>a b. if fst a = fst b then Some b else None) vs = vs"
    by (rule dedup_by_distinct) (use strict_values(2) [OF keys] in \<open>auto simp: sorted_wrt_map elim: sorted_wrt_mono_rel [rotated]\<close>)
  ultimately show ?thesis using es(1) by (simp add: assemble_collection_def)
qed

lemma list_keys_ascending:
  assumes "length vs \<le> 2 ^ 14" "0 \<le> ts" "ts \<le> MAX_LIST_TS"
  shows "sorted_wrt (\<lambda>a b. fst a < fst b) (map (\<lambda>ie. (the (list_order_key (list_cell_path ts (of_nat (fst ie)))), snd ie)) (enumerate 0 vs))"
proof -
  have "the (list_order_key (list_cell_path ts (of_nat i))) < the (list_order_key (list_cell_path ts (of_nat j)))"
    if "i < j" "j < length vs" for i j
  proof -
    have "(of_nat i :: u16) < of_nat j" "(of_nat j :: u16) < 2 ^ 14"
      using that assms(1) by (simp_all add: word_less_nat_alt unat_of_nat)
    then show ?thesis using list_path_less [of "of_nat i" "of_nat j" ts ts] assms(2,3) by auto
  qed
  then show ?thesis by (simp add: sorted_wrt_iff_nth_less nth_enumerate_eq)
qed

lemma assemble_list:
  assumes "bigint_law X" "list_all (encodable X (has_type X t)) vs" "literal X ts (VList vs)"
    and "mset cs = mset (map (element_cell ts) (element_entries X ts (VList vs)))"
  shows "assemble_collection X (TList t) cs = Inr (VList vs)"
proof -
  let ?dec = "\<lambda>c. and_then (and_then (path_of c) (\<lambda>p. ok_or Invalid (list_order_key p)))
    (\<lambda>key. and_then (decode_value X t (value_of c)) (\<lambda>v. Inr (key, v)))"
  let ?key = "\<lambda>i. the (list_order_key (list_cell_path ts (of_nat i)))"
  have ts: "0 \<le> ts" "ts \<le> MAX_LIST_TS" "length vs \<le> 2 ^ 14" using assms(3) by (simp_all add: literal_def)
  have cells: "mset cs = mset (map (\<lambda>ie. element_cell ts (list_cell_path ts (of_nat (fst ie)), encode_value X (snd ie))) (enumerate 0 vs))"
    using assms(4) by (simp add: element_entries_def comp_def case_prod_beta)
  have "decode_value X t (encode_value X (snd ie)) = Inr (snd ie)" if "ie \<in> set (enumerate 0 vs)" for ie
  proof -
    have "snd ie \<in> set vs" using that nth_mem [of "fst ie" vs] by (auto simp: in_set_enumerate_eq)
    then show ?thesis using assms(1,2) by (intro decode_encode) (auto simp: list_all_iff encodable_def)
  qed
  then obtain es where es: "try_map ?dec cs = Inr es" "mset es = mset (map (\<lambda>ie. (?key (fst ie), snd ie)) (enumerate 0 vs))"
    using try_map_perm [OF cells, of ?dec "\<lambda>ie. (?key (fst ie), snd ie)"] ts by (auto simp: list_order_key_list ok_or_def)
  have "filter (\<lambda>c. cv_value c \<noteq> None) cs = cs" using mset_eq_setD [OF cells] by (auto simp: filter_id_conv)
  moreover have "sort_key fst es = map (\<lambda>ie. (?key (fst ie), snd ie)) (enumerate 0 vs)"
    by (rule sort_key_unique [OF es(2) list_keys_ascending [OF ts(3,1,2)]])
  then have "map snd (sort_key fst es) = vs" by (simp add: comp_def)
  ultimately show ?thesis using es(1) by (simp add: assemble_collection_def)
qed

lemma assemble_assigned:
  assumes "bigint_law X" "is_collection t" "has_type X t v" "literal X ts v"
    and "mset cs = mset (map (element_cell ts) (element_entries X ts v))"
  shows "assemble_collection X t cs = Inr v"
  using assms(2,3) by (rule is_collection_cases) (use assms assemble_set assemble_map assemble_list in blast)+

section \<open>Overwriting a column\<close>

text \<open>The cells of a column after an overwrite: the deletion of the collection, the elements, and older elements.\<close>

lemma live_after_overwrite:
  assumes "mset cells = mset (tombstone d ldt # map (element_cell ts) es @ old)"
    and "d < ts" "list_all (\<lambda>c. cv_path c \<noteq> None \<and> cv_timestamp c \<le> d) old"
  shows "mset (live_elements cells [] now) = mset (map (element_cell ts) es)"
    and "whole_value_cells X t cells now = Inr []"
proof -
  have set: "set cells = insert (tombstone d ldt) (element_cell ts ` set es \<union> set old)"
    using mset_eq_setD [OF assms(1)] by simp
  let ?all = "tombstone d ldt # map (element_cell ts) es @ old"
  have perm: "mset (filter P cells) = mset (filter P ?all)" for P using assms(1) by (metis mset_filter)
  have "filter (\<lambda>c. cv_path c = None \<and> is_tombstone c) ?all = [tombstone d ldt]"
    using assms(3) by (auto simp: cell_defs list_all_iff filter_empty_conv)
  then have "mset (filter (\<lambda>c. cv_path c = None \<and> is_tombstone c) cells) = mset [tombstone d ldt]" unfolding perm by (rule arg_cong)
  then have "filter (\<lambda>c. cv_path c = None \<and> is_tombstone c) cells = [tombstone d ldt]" by (simp only: mset_single_iff mset.simps add_mset_eq_single empty_neutral)
  then have d: "collection_deletion_ts cells = Some d" by (simp add: collection_deletion_ts_def tombstone_def)
  have kept: "filter (\<lambda>c. cv_path c \<noteq> None \<and> cell_is_live c now \<and> d < cv_timestamp c) ?all = map (element_cell ts) es"
    using assms(2,3) by (auto simp: tombstone_def list_all_iff filter_id_conv filter_empty_conv)
  have "mset (live_elements cells [] now) = mset (filter (\<lambda>c. cv_path c \<noteq> None \<and> cell_is_live c now \<and> d < cv_timestamp c) cells)"
    by (simp add: live_elements_def d filter_filter_mset conj_ac)
  also have "\<dots> = mset (map (element_cell ts) es)" unfolding perm kept ..
  finally show "mset (live_elements cells [] now) = mset (map (element_cell ts) es)" .
  have "find (\<lambda>c. cv_path c = None \<and> \<not> is_tombstone c) cells = None"
    unfolding find_None_iff set using assms(3) by (auto simp: list_all_iff cell_defs)
  then show "whole_value_cells X t cells now = Inr []" by (simp add: whole_value_cells_def)
qed

text \<open>The value that an assigned collection reads as: the empty collection is absent.\<close>

definition assigned_value :: "cql_value \<Rightarrow> cql_value option" where
  "assigned_value v = (if v \<in> {VSet [], VMap [], VList []} then None else Some v)"

lemma enumerate_Nil_iff: "enumerate n xs = [] \<longleftrightarrow> xs = []"
  by (cases xs) simp_all

lemma element_entries_empty:
  assumes "is_collection t" "has_type X t v"
  shows "element_entries X ts v = [] \<longleftrightarrow> assigned_value v = None"
  using assms by (rule is_collection_cases) (simp_all add: element_entries_def assigned_value_def enumerate_Nil_iff)

lemma assemble_elements:
  assumes "is_collection t" "list_ex (\<lambda>c. cv_path c \<noteq> None) cells" "whole_value_cells X t cells now = Inr []"
  shows "assemble_column_cells X t cells now =
     (if live_elements cells [] now = [] then Inr None
      else and_then (assemble_collection X t (live_elements cells [] now)) (\<lambda>v. Inr (Some v)))"
proof (cases cells)
  case (Cons c cs)
  have "(case t of TUdt ks n fs \<Rightarrow> a fs | _ \<Rightarrow> b) = b" for a and b :: "row_bridge_error + cql_value option"
    using assms(1) unfolding is_collection_def by (cases t) simp_all
  then show ?thesis unfolding assemble_column_cells_def using assms(2,3) by (simp add: Cons Let_def)
qed (use assms(2) in simp)

lemma assemble_overwritten:
  assumes "bigint_law X" "is_collection t" "has_type X t v" "literal X ts v"
    and "build_collection_cells X Add v ts = Inr built" "mset cells = mset (tombstone d ldt # built @ old)"
    and "d < ts" "list_all (\<lambda>c. cv_path c \<noteq> None \<and> cv_timestamp c \<le> d) old"
  shows "assemble_column_cells X t cells now = Inr (assigned_value v)"
proof -
  let ?es = "element_entries X ts v"
  have built: "built = map (element_cell ts) ?es" using build_add_cells [OF assms(2,3)] assms(5) by simp
  note live = live_after_overwrite [OF assms(6) [unfolded built] assms(7,8)]
  have asm: "assemble_collection X t (live_elements cells [] now) = Inr v"
    by (rule assemble_assigned [OF assms(1-4) live(1)])
  have empty: "live_elements cells [] now = [] \<longleftrightarrow> assigned_value v = None"
    using arg_cong [OF live(1) [of now], of size] element_entries_empty [OF assms(2,3), of ts]
    by (cases "live_elements cells [] now"; cases ?es) simp_all
  have "assigned_value v = Some w \<Longrightarrow> w = v" for w by (auto simp: assigned_value_def split: if_splits)
  note val = this
  have set: "set cells = insert (tombstone d ldt) (set built \<union> set old)" using mset_eq_setD [OF assms(6)] by simp
  show ?thesis
  proof (cases "list_ex (\<lambda>c. cv_path c \<noteq> None) cells")
    case True
    have "assemble_column_cells X t cells now = (if assigned_value v = None then Inr None else Inr (Some v))"
      unfolding assemble_elements [OF assms(2) True live(2)] empty asm and_then_simps ..
    then show ?thesis by (cases "assigned_value v") (use val in simp_all)
  next
    case False
    have none: "cv_path c = None" if "c \<in> set cells" for c using False that by (auto simp: list_ex_iff)
    have "built = []" using none [of "hd built"] by (cases ?es) (simp_all add: built set)
    moreover have "old = []" using none [of "hd old"] assms(8) by (cases old) (simp_all add: set)
    ultimately have "cells = [tombstone d ldt]" "assigned_value v = None"
      using assms(6) built element_entries_empty [OF assms(2,3), of ts] by simp_all
    then show ?thesis by (simp add: assemble_column_cells_def cell_is_live_def cell_defs)
  qed
qed

section \<open>User-defined types\<close>

definition field_cell :: "value_deps \<Rightarrow> i64 \<Rightarrow> (string \<times> cql_value option) list \<Rightarrow> nat \<Rightarrow> cell_value" where
  "field_cell X ts es i = element_cell ts (be_bytes 2 (of_nat i :: u16), encode_value X (the (snd (es ! i))))"

lemma assemble_fields_at:
  assumes "bigint_law X" "length fs \<le> 2 ^ 16"
  shows "list_all (\<lambda>i. i < length fs \<and> (\<exists>v. snd (es ! i) = Some v \<and> has_type X (snd (fs ! i)) v)) is \<Longrightarrow>
    assemble_fields X fs (map (field_cell X ts es) is) vals = Inr (fold (\<lambda>i vals. vals[i := snd (es ! i)]) is vals)"
proof (induction "is" arbitrary: vals)
  case (Cons i "is")
  then obtain v where v: "i < length fs" "snd (es ! i) = Some v" "has_type X (snd (fs ! i)) v" by auto
  have "unat (of_be_bytes 0 (be_bytes 2 (of_nat i :: u16)) :: u16) = i"
    using v(1) assms(2) by (simp add: of_be_be_bytes_full unat_of_nat del: be_bytes_simps)
  then show ?case using v Cons decode_encode [OF assms(1) v(3)] by (simp add: field_cell_def)
qed simp

lemma fold_update:
  "length (fold (\<lambda>i vals. vals[i := f i]) is vals) = length vals"
  "j < length vals \<Longrightarrow> fold (\<lambda>i vals. vals[i := f i]) is vals ! j = (if j \<in> set is then f j else vals ! j)"
  by (induction "is" arbitrary: vals) (auto simp: nth_list_update)

lemma assemble_udt_fields:
  assumes "bigint_law X" "length fs \<le> 2 ^ 16" "has_type X (TUdt ks n fs) (VUdt es)"
    and "set is = {i. i < length es \<and> snd (es ! i) \<noteq> None}"
  shows "assemble_udt X fs (map (field_cell X ts es) is) = Inr (VUdt es)"
proof -
  have es: "length es = length fs" "map fst es = map fst fs"
    and typed: "\<And>i. i < length fs \<Longrightarrow> pred_option (encodable X (has_type X (snd (fs ! i)))) (snd (es ! i))"
    using assms(3) unfolding has_type_composite by (auto simp: list_all2_conv_all_nth case_prod_beta intro!: nth_equalityI)
  have "list_all (\<lambda>i. i < length fs \<and> (\<exists>v. snd (es ! i) = Some v \<and> has_type X (snd (fs ! i)) v)) is"
    using typed assms(4) es(1) by (force simp: list_all_iff encodable_def)
  note assemble_fields_at [OF assms(1,2) this]
  moreover have "fold (\<lambda>i vals. vals[i := snd (es ! i)]) is (replicate (length fs) None) = map snd es"
    using es(1) assms(4) by (intro nth_equalityI) (simp_all add: fold_update)
  ultimately show ?thesis unfolding assemble_udt_def by (simp add: es(2) [symmetric] zip_map_fst_snd)
qed

lemma assemble_udt_column:
  assumes "bigint_law X" "length fs \<le> 2 ^ 16" "has_type X (TUdt ks n fs) (VUdt es)"
    and "set is = {i. i < length es \<and> snd (es ! i) \<noteq> None}" "is \<noteq> []"
  shows "assemble_column_cells X (TUdt ks n fs) (map (field_cell X ts es) is) now = Inr (Some (VUdt es))"
proof -
  let ?cs = "map (field_cell X ts es) is"
  have none: "filter (\<lambda>c. cv_path c = None \<and> is_tombstone c) ?cs = []" "find (\<lambda>c. cv_path c = None \<and> \<not> is_tombstone c) ?cs = None"
    by (simp_all add: filter_empty_conv find_None_iff field_cell_def)
  have live: "live_elements ?cs [] now = ?cs"
    unfolding live_elements_def collection_deletion_ts_def none by (simp add: filter_id_conv field_cell_def)
  have "list_ex (\<lambda>c. cv_path c \<noteq> None) ?cs" "whole_value_cells X (TUdt ks n fs) ?cs now = Inr []"
    using assms(5) none(2) by (cases "is"; simp add: field_cell_def whole_value_cells_def)+
  then show ?thesis
    using assms(5) assemble_udt_fields [OF assms(1-4), of ts] live
    by (cases "is") (simp_all add: assemble_column_cells_def)
qed

section \<open>Properties\<close>



text \<open>Appending more than \<open>2^14\<close> elements at once loses some: the element number is cut to 14 bits, so two elements
  get the same path.\<close>

theorem list_paths_collide: "list_cell_path ts seq = list_cell_path ts (seq + 0x4000)"
proof -
  have "(seq + 0x4000) AND 0x3FFF = (seq AND 0x3FFF :: u16)"
    unfolding mask_numerals take_bit_eq_mask [symmetric] by transfer (simp add: take_bit_eq_mod mod_mod_cancel)
  then show ?thesis by (simp only: list_cell_path_def)
qed

text \<open>The field cells of a user-defined type, in any order and even repeated, assemble to the value they were written
  from, with null in the fields that have no cell.\<close>

theorem udt_roundtrip:
  assumes "bigint_law X" "length fs \<le> 2 ^ 16" "has_type X (TUdt ks n fs) (VUdt es)"
    and "set is = {i. i < length es \<and> snd (es ! i) \<noteq> None}" "is \<noteq> []"
  shows "assemble_column_cells X (TUdt ks n fs) (map (field_cell X ts es) is) now = Inr (Some (VUdt es))"
  using assms by (rule assemble_udt_column)

theorem udt_roundtrip_witness:
  "assemble_column_cells sample_deps (TUdt ''k'' ''t'' [(''a'', TInt), (''b'', TInt)])
     (map (field_cell sample_deps 3 [(''a'', None), (''b'', Some (VInt 1))]) [1]) 7
   = Inr (Some (VUdt [(''a'', None), (''b'', Some (VInt 1))]))"
proof (rule udt_roundtrip [OF sample_deps_law])
  show "set [1] = {i. i < length [(''a'', None), (''b'', Some (VInt 1))] \<and> snd ([(''a'', None), (''b'', Some (VInt 1))] ! i) \<noteq> None}"
    by (auto simp: less_Suc_eq)
qed (simp_all add: encodable_def is_i32_def machine_consts be_i32_def)

end
