(* ===== verification/Row_Bridge.thy ===== *)
theory Row_Bridge
  imports Collection_Cells
begin

text \<open>
  Rows between the query layer and storage (crate \<open>ferrosa-row-bridge\<close>: \<open>row.rs\<close>): encoding a row of values to a
  partition key, a clustering key and cells, and decoding a partition back to rows of values, by the borrowing, the
  owning and the iterating decoder, and to raw bytes without decoding.

  The clock is an argument: \<open>clock\<close> is one reading in seconds, \<open>clock i\<close> in \<open>build_row\<close> the reading made for the
  \<open>i\<close>-th value.  A visitor is a state transformer that answers whether to stop.  An index outside a vector, which
  panics, is the error \<open>RowPanic\<close>; error texts and the table name, which callers attach, are left out.

  The lemmas show the round trip of keys and of whole rows, that the three decoders agree, that a flush of static
  cells does not change what is read, and when the raw bytes are the encodings of the decoded values.
\<close>

section \<open>Errors and vectors\<close>

datatype row_decode_error = RowDecodeError "jsonb_fault option" string bytes | RowPanic

definition nth_opt :: "'a list \<Rightarrow> nat \<Rightarrow> 'a option" where
  "nth_opt xs i = (if i < length xs then Some (xs ! i) else None)"

definition set_at :: "'a list \<Rightarrow> nat \<Rightarrow> 'a \<Rightarrow> row_decode_error + 'a list" where
  "set_at xs i v = (if i < length xs then Inr (xs[i := v]) else Inl RowPanic)"

definition map_err :: "('e \<Rightarrow> 'f) \<Rightarrow> 'e + 'a \<Rightarrow> 'f + 'a" where
  "map_err f r = (case r of Inl e \<Rightarrow> Inl (f e) | Inr a \<Rightarrow> Inr a)"

section \<open>Keys\<close>

fun decode_pk_components :: "nat \<Rightarrow> bytes \<Rightarrow> bytes list" where
  "decode_pk_components 0 bs = []"
| "decode_pk_components (Suc n) bs =
     (if length bs < 2 then []
      else
        let len = unat (of_be_bytes 0 (take 2 bs) :: u16);
            rest = drop 2 bs
        in if len > length rest then []
           else
             let after = drop len rest in
             take len rest # decode_pk_components n (case after of b # r \<Rightarrow> if b = 0 then r else after | [] \<Rightarrow> after))"

definition decode_pk :: "decorated_key \<Rightarrow> usize \<Rightarrow> bytes list" where
  "decode_pk dk num_components =
     (if num_components \<le> 1 then [dk_key dk] else decode_pk_components num_components (dk_key dk))"

fun decode_clustering_components :: "nat \<Rightarrow> bytes \<Rightarrow> bytes list" where
  "decode_clustering_components 0 bs = []"
| "decode_clustering_components (Suc n) bs =
     (if length bs < 2 then []
      else
        let len = unat (of_be_bytes 0 (take 2 bs) :: u16);
            rest = drop 2 bs
        in if len > length rest then []
           else take len rest # decode_clustering_components n (drop len rest))"

definition decode_clustering :: "bytes \<Rightarrow> usize \<Rightarrow> bytes list" where
  "decode_clustering bs num_components =
     (if bs = [] \<or> num_components = 0 then []
      else if num_components = 1 then [bs]
      else decode_clustering_components num_components bs)"

definition pk_component :: "bytes \<Rightarrow> row_bridge_error + bytes" where
  "pk_component encoded =
     (if length encoded > 65535 then Inl Invalid else Inr (be_bytes 2 (of_nat (length encoded) :: u16) @ encoded @ [0]))"

definition build_decorated_key :: "value_deps \<Rightarrow> cql_value list \<Rightarrow> row_bridge_error + decorated_key" where
  "build_decorated_key X pk_values =
     (if pk_values = [] then Inl Invalid
      else
        and_then
          (if length pk_values = 1 then Inr (encode_value X (pk_values ! 0))
           else and_then (try_map (\<lambda>v. pk_component (encode_value X v)) pk_values) (\<lambda>parts. Inr (concat parts)))
          (\<lambda>bs. Inr (decorated_key_new bs)))"

definition encode_clustering :: "value_deps \<Rightarrow> cql_value list \<Rightarrow> bytes" where
  "encode_clustering X vs =
     (if vs = [] then []
      else if length vs = 1 then encode_value X (vs ! 0)
      else concat (map (\<lambda>v. be_bytes 2 (of_nat (length (encode_value X v)) :: u16) @ encode_value X v) vs))"

section \<open>Writing rows\<close>

definition i32_or_max :: "nat \<Rightarrow> i32" where
  "i32_or_max n = (if int n \<le> i32_MAX then int n else i32_MAX)"

definition ttl_deadline :: "nat \<Rightarrow> i32 \<Rightarrow> i32" where
  "ttl_deadline now_secs ttl_secs = i32_or_max (min u64_MAX (now_secs + nat (ttl_secs mod 2 ^ 64)))"

definition value_cell :: "value_deps \<Rightarrow> nat \<Rightarrow> i64 \<Rightarrow> i32 option \<Rightarrow> cql_value \<Rightarrow> cell_value" where
  "value_cell X now_secs timestamp ttl val =
     (if val = VNull then tombstone timestamp (i32_or_max now_secs)
      else case ttl of
        Some ttl_secs \<Rightarrow> expiring_bytes (encode_value X val) timestamp ttl_secs (ttl_deadline now_secs ttl_secs)
      | None \<Rightarrow> live_bytes (encode_value X val) timestamp)"

definition build_row :: "value_deps \<Rightarrow> (nat \<Rightarrow> nat) \<Rightarrow> (u16 \<times> cql_value) list \<Rightarrow> cql_value list \<Rightarrow> i64 \<Rightarrow> i32 option \<Rightarrow> row" where
  "build_row X clock column_values clustering_values timestamp ttl =
     \<lparr>row_clustering = encode_clustering X clustering_values,
      row_cells = sort_key fst (map (\<lambda>(i, idx, val). (idx, value_cell X (clock i) timestamp ttl val)) (enumerate 0 column_values)),
      row_deletion = LIVE,
      primary_key_liveness =
        (case ttl of
           Some ttl_secs \<Rightarrow> with_ttl timestamp ttl_secs (ttl_deadline (clock (length column_values)) ttl_secs)
         | None \<Rightarrow> with_timestamp timestamp)\<rparr>"

definition build_delete_row :: "value_deps \<Rightarrow> nat \<Rightarrow> u16 list \<Rightarrow> cql_value list \<Rightarrow> i64 \<Rightarrow> row" where
  "build_delete_row X clock delete_columns clustering_values timestamp =
     (let now_secs = clock mod 2 ^ 32 in
      if delete_columns = [] then
        \<lparr>row_clustering = encode_clustering X clustering_values, row_cells = [],
         row_deletion = deletion_time_new timestamp now_secs, primary_key_liveness = liveness_NONE\<rparr>
      else
        \<lparr>row_clustering = encode_clustering X clustering_values,
         row_cells = sort_key fst (map (\<lambda>idx. (idx, tombstone timestamp (i32_or_max now_secs))) delete_columns),
         row_deletion = LIVE, primary_key_liveness = liveness_NONE\<rparr>)"

section \<open>Decoding rows\<close>

record row_context =
  rc_pk_values :: "bytes list"
  rc_column_names :: "string list"
  rc_column_types :: "cql_type list"
  rc_pk_columns :: "usize list"
  rc_ck_columns :: "usize list"
  rc_storage_to_table :: "usize list"
  rc_now_secs :: i32
  rc_partition_key :: bytes
  rc_static_row :: "row option"

definition column_name :: "row_context \<Rightarrow> usize \<Rightarrow> string" where
  "column_name ctx idx = (case nth_opt (rc_column_names ctx) idx of Some n \<Rightarrow> n | None \<Rightarrow> ''?'')"

definition corrupt :: "row_context \<Rightarrow> usize \<Rightarrow> row_bridge_error \<Rightarrow> row_decode_error" where
  "corrupt ctx idx e =
     (case e of
        Invalid \<Rightarrow> RowDecodeError None (column_name ctx idx) (rc_partition_key ctx)
      | JsonbRefused fault \<Rightarrow> RowDecodeError (Some fault) (column_name ctx idx) (rc_partition_key ctx)
      | Panic \<Rightarrow> RowPanic)"

definition decode_key_component ::
  "value_deps \<Rightarrow> row_context \<Rightarrow> usize \<Rightarrow> bytes option \<Rightarrow> cql_value option list \<Rightarrow> row_decode_error + cql_value option list" where
  "decode_key_component X ctx col_idx bs output_row =
     (case (nth_opt (rc_column_types ctx) col_idx, bs) of
        (Some ty, Some b) \<Rightarrow>
          and_then (map_err (corrupt ctx col_idx) (decode_value X ty b)) (\<lambda>val. set_at output_row col_idx (Some val))
      | _ \<Rightarrow> Inr output_row)"

fun decode_key_columns ::
  "value_deps \<Rightarrow> row_context \<Rightarrow> usize list \<Rightarrow> bytes list \<Rightarrow> cql_value option list \<Rightarrow> row_decode_error + cql_value option list" where
  "decode_key_columns X ctx [] vs output_row = Inr output_row"
| "decode_key_columns X ctx (c # cs) vs output_row =
     and_then (decode_key_component X ctx c (nth_opt vs 0) output_row) (decode_key_columns X ctx cs (tl vs))"

definition decode_output_keys :: "value_deps \<Rightarrow> row \<Rightarrow> row_context \<Rightarrow> row_decode_error + cql_value option list" where
  "decode_output_keys X row ctx =
     and_then (decode_key_columns X ctx (rc_pk_columns ctx) (rc_pk_values ctx) (replicate (length (rc_column_names ctx)) None))
       (decode_key_columns X ctx (rc_ck_columns ctx) (decode_clustering (row_clustering row) (length (rc_ck_columns ctx))))"

definition overlay_static_cells :: "row \<Rightarrow> row \<Rightarrow> (u16 \<times> bytes option, cell_value) btree" where
  "overlay_static_cells static_row row =
     foldl (\<lambda>cells cc. bt_upsert reconcile_ref (cell_key cc) (snd cc) cells) [] (row_cells static_row @ row_cells row)"

definition read_cells :: "row \<Rightarrow> row_context \<Rightarrow> column_cell list" where
  "read_cells row ctx =
     (case rc_static_row ctx of
        Some static_row \<Rightarrow>
          if row_cells static_row \<noteq> [] then map (\<lambda>((idx, _), cell). (idx, cell)) (overlay_static_cells static_row row)
          else row_cells row
      | None \<Rightarrow> row_cells row)"

definition push_cell :: "row_context \<Rightarrow> (usize, cell_value list) btree \<Rightarrow> column_cell \<Rightarrow> (usize, cell_value list) btree" where
  "push_cell ctx m cc =
     (case nth_opt (rc_storage_to_table ctx) (unat (fst cc)) of
        None \<Rightarrow> m
      | Some table_idx \<Rightarrow>
          if table_idx < length (rc_column_types ctx)
          then bt_insert table_idx ((case map_of m table_idx of Some cs \<Rightarrow> cs | None \<Rightarrow> []) @ [snd cc]) m
          else m)"

fun assemble_columns ::
  "value_deps \<Rightarrow> row_context \<Rightarrow> (usize, cell_value list) btree \<Rightarrow> cql_value option list \<Rightarrow> row_decode_error + cql_value option list" where
  "assemble_columns X ctx [] output_row = Inr output_row"
| "assemble_columns X ctx ((table_idx, cells) # m) output_row =
     and_then (map_err (corrupt ctx table_idx)
         (assemble_column_cells X (rc_column_types ctx ! table_idx) cells (rc_now_secs ctx))) (\<lambda>v.
     and_then (set_at output_row table_idx v) (assemble_columns X ctx m))"

definition decode_output_row :: "value_deps \<Rightarrow> row \<Rightarrow> row_context \<Rightarrow> row_decode_error + cql_value option list" where
  "decode_output_row X row ctx =
     and_then (decode_output_keys X row ctx) (assemble_columns X ctx (foldl (push_cell ctx) [] (read_cells row ctx)))"

definition simple_row :: "row \<Rightarrow> row_context \<Rightarrow> bool" where
  "simple_row row ctx \<longleftrightarrow>
     (case rc_static_row ctx of Some s \<Rightarrow> row_cells s = [] | None \<Rightarrow> True)
     \<and> list_all (\<lambda>(_, cell). cv_path cell = None) (row_cells row)
     \<and> successively (\<lambda>a b. fst a < fst b) (row_cells row)"

fun decode_simple_cells ::
  "value_deps \<Rightarrow> row_context \<Rightarrow> column_cell list \<Rightarrow> cql_value option list \<Rightarrow> row_decode_error + cql_value option list" where
  "decode_simple_cells X ctx [] output = Inr output"
| "decode_simple_cells X ctx ((index, cell) # ccs) output =
     (case nth_opt (rc_storage_to_table ctx) (unat index) of
        None \<Rightarrow> decode_simple_cells X ctx ccs output
      | Some table_index \<Rightarrow>
          (case nth_opt (rc_column_types ctx) table_index of
             None \<Rightarrow> decode_simple_cells X ctx ccs output
           | Some ty \<Rightarrow>
               and_then (map_err (corrupt ctx table_index) (assemble_owned_simple_cell X ty cell (rc_now_secs ctx))) (\<lambda>v.
               and_then (set_at output table_index v) (decode_simple_cells X ctx ccs))))"

definition decode_output_row_owned :: "value_deps \<Rightarrow> row \<Rightarrow> row_context \<Rightarrow> row_decode_error + bytes \<times> cql_value option list" where
  "decode_output_row_owned X row ctx =
     (if \<not> simple_row row ctx then
        and_then (decode_output_row X row ctx) (\<lambda>output. Inr (row_clustering row, output))
      else
        and_then (decode_output_keys X row ctx) (\<lambda>output.
        and_then (decode_simple_cells X ctx (row_cells row) output) (\<lambda>output. Inr (row_clustering row, output))))"

section \<open>Partitions\<close>

definition read_now_secs :: "nat \<Rightarrow> i32" where
  "read_now_secs clock = i32_or_max clock"

record table_shape =
  ts_column_names :: "string list"
  ts_column_types :: "cql_type list"
  ts_pk_columns :: "usize list"
  ts_ck_columns :: "usize list"
  ts_storage_to_table :: "usize list"

definition decode_context :: "nat \<Rightarrow> partition \<Rightarrow> table_shape \<Rightarrow> row_context" where
  "decode_context clock p t =
     \<lparr>rc_pk_values = decode_pk (pt_key p) (length (ts_pk_columns t)), rc_column_names = ts_column_names t,
      rc_column_types = ts_column_types t, rc_pk_columns = ts_pk_columns t, rc_ck_columns = ts_ck_columns t,
      rc_storage_to_table = ts_storage_to_table t, rc_now_secs = read_now_secs clock,
      rc_partition_key = dk_key (pt_key p), rc_static_row = pt_static_row p\<rparr>"

type_synonym 's row_visitor = "'s \<Rightarrow> bytes \<Rightarrow> cql_value option list \<Rightarrow> 's \<times> bool"

fun visit_rows :: "value_deps \<Rightarrow> row_context \<Rightarrow> 's row_visitor \<Rightarrow> row list \<Rightarrow> 's \<Rightarrow> 's \<times> (row_decode_error + unit)" where
  "visit_rows X ctx visit [] s = (s, Inr ())"
| "visit_rows X ctx visit (row # rows) s =
     (if \<not> is_visible_at row (rc_now_secs ctx) then visit_rows X ctx visit rows s
      else case decode_output_row X row ctx of
        Inl e \<Rightarrow> (s, Inl e)
      | Inr output_row \<Rightarrow>
          (case visit s (row_clustering row) output_row of
             (s', stop) \<Rightarrow> if stop then (s', Inr ()) else visit_rows X ctx visit rows s'))"

definition visit_partition_rows_with_clustering ::
  "value_deps \<Rightarrow> nat \<Rightarrow> partition \<Rightarrow> table_shape \<Rightarrow> 's row_visitor \<Rightarrow> 's \<Rightarrow> 's \<times> (row_decode_error + unit)" where
  "visit_partition_rows_with_clustering X clock p t visit s = visit_rows X (decode_context clock p t) visit (pt_rows p) s"

definition partition_to_rows_with_storage_mapping ::
  "value_deps \<Rightarrow> nat \<Rightarrow> partition \<Rightarrow> table_shape \<Rightarrow> row_decode_error + cql_value option list list" where
  "partition_to_rows_with_storage_mapping X clock p t =
     (case visit_partition_rows_with_clustering X clock p t (\<lambda>result _ row. (result @ [row], False)) [] of
        (result, r) \<Rightarrow> and_then r (\<lambda>_. Inr result))"

definition partition_to_rows_with_clustering ::
  "value_deps \<Rightarrow> nat \<Rightarrow> partition \<Rightarrow> table_shape \<Rightarrow> row_decode_error + (bytes \<times> cql_value option list) list" where
  "partition_to_rows_with_clustering X clock p t =
     (case visit_partition_rows_with_clustering X clock p t (\<lambda>result clustering row. (result @ [(clustering, row)], False)) [] of
        (result, r) \<Rightarrow> and_then r (\<lambda>_. Inr result))"

definition partition_to_rows ::
  "value_deps \<Rightarrow> nat \<Rightarrow> partition \<Rightarrow> string list \<Rightarrow> cql_type list \<Rightarrow> usize list \<Rightarrow> usize list
    \<Rightarrow> row_decode_error + cql_value option list list" where
  "partition_to_rows X clock p column_names column_types pk_columns ck_columns =
     (let storage_to_table = filter (\<lambda>i. i \<notin> set pk_columns \<and> i \<notin> set ck_columns) [0..<length column_names] in
      partition_to_rows_with_storage_mapping X clock p
        \<lparr>ts_column_names = column_names, ts_column_types = column_types, ts_pk_columns = pk_columns,
         ts_ck_columns = ck_columns, ts_storage_to_table = storage_to_table\<rparr>)"

fun consume_rows ::
  "value_deps \<Rightarrow> row_context \<Rightarrow> ('s \<Rightarrow> bytes \<Rightarrow> bytes \<Rightarrow> cql_value option list \<Rightarrow> 's \<times> bool) \<Rightarrow> bytes \<Rightarrow> row list \<Rightarrow> 's
    \<Rightarrow> 's \<times> (row_decode_error + unit)" where
  "consume_rows X ctx visit pk [] s = (s, Inr ())"
| "consume_rows X ctx visit pk (row # rows) s =
     (if \<not> is_visible_at row (rc_now_secs ctx) then consume_rows X ctx visit pk rows s
      else case decode_output_row_owned X row ctx of
        Inl e \<Rightarrow> (s, Inl e)
      | Inr (clustering, output_row) \<Rightarrow>
          (case visit s pk clustering output_row of
             (s', stop) \<Rightarrow> if stop then (s', Inr ()) else consume_rows X ctx visit pk rows s'))"

definition consume_partition_rows_with_clustering ::
  "value_deps \<Rightarrow> nat \<Rightarrow> partition \<Rightarrow> table_shape \<Rightarrow> ('s \<Rightarrow> bytes \<Rightarrow> bytes \<Rightarrow> cql_value option list \<Rightarrow> 's \<times> bool) \<Rightarrow> 's
    \<Rightarrow> 's \<times> (row_decode_error + bytes)" where
  "consume_partition_rows_with_clustering X clock p t visit s =
     (case consume_rows X (decode_context clock p t) visit (dk_key (pt_key p)) (pt_rows p) s of
        (s', r) \<Rightarrow> (s', and_then r (\<lambda>_. Inr (dk_key (pt_key p)))))"

text \<open>The iterator that owns its partition; \<open>or_context\<close> holds what each step passes to the decoder.\<close>

record owned_partition_rows =
  or_rows :: "row list"
  or_context :: row_context
  or_failed :: bool

definition into_partition_rows_with_storage_mapping :: "nat \<Rightarrow> partition \<Rightarrow> table_shape \<Rightarrow> owned_partition_rows" where
  "into_partition_rows_with_storage_mapping clock p t =
     \<lparr>or_rows = pt_rows p, or_context = decode_context clock p t, or_failed = False\<rparr>"

fun next_visible :: "i32 \<Rightarrow> row list \<Rightarrow> (row \<times> row list) option" where
  "next_visible now_secs [] = None"
| "next_visible now_secs (row # rows) =
     (if \<not> is_visible_at row now_secs then next_visible now_secs rows else Some (row, rows))"

definition next_row ::
  "value_deps \<Rightarrow> owned_partition_rows \<Rightarrow> (row_decode_error + bytes \<times> cql_value option list) option \<times> owned_partition_rows" where
  "next_row X it =
     (if or_failed it then (None, it)
      else case next_visible (rc_now_secs (or_context it)) (or_rows it) of
        None \<Rightarrow> (None, it\<lparr>or_rows := []\<rparr>)
      | Some (row, rows) \<Rightarrow>
          let decoded = decode_output_row_owned X row (or_context it) in
          (Some decoded, it\<lparr>or_rows := rows, or_failed := isl decoded\<rparr>))"

section \<open>Raw rows\<close>

definition raw_row_visible :: "row \<Rightarrow> i32 \<Rightarrow> bool" where
  "raw_row_visible row now_secs =
     (let pkl = primary_key_liveness row;
          liveness_expired = has_ttl pkl \<and> ldt_is_expired (li_local_deletion_time pkl) now_secs;
          any_live_cell = list_ex (\<lambda>(_, c). cell_is_live c now_secs) (row_cells row)
      in if liveness_expired \<and> \<not> any_live_cell then False
         else if \<not> deletion_is_live (row_deletion row) then
           (let del_ts = marked_for_delete_at (row_deletion row);
                liveness_supersedes = li_timestamp (primary_key_liveness row) > del_ts;
                any_cell_supersedes = list_ex (\<lambda>(_, cell). cv_timestamp cell > del_ts) (row_cells row)
            in \<not> (\<not> liveness_supersedes \<and> \<not> any_cell_supersedes))
         else True)"

fun raw_key_columns :: "usize list \<Rightarrow> bytes list \<Rightarrow> bytes option list \<Rightarrow> bytes option list" where
  "raw_key_columns [] vs out = out"
| "raw_key_columns (c # cs) vs out = raw_key_columns cs (tl vs) (if c < length out then out[c := nth_opt vs 0] else out)"

definition raw_cell :: "usize list \<Rightarrow> i32 \<Rightarrow> bytes option list \<Rightarrow> column_cell \<Rightarrow> bytes option list" where
  "raw_cell storage_to_table now_secs out cc =
     (case nth_opt storage_to_table (unat (fst cc)) of
        None \<Rightarrow> out
      | Some table_idx \<Rightarrow>
          if table_idx \<ge> length out then out
          else out[table_idx := (if cell_is_live (snd cc) now_secs then cv_value (snd cc) else None)])"

definition raw_output_row :: "nat \<Rightarrow> bytes list \<Rightarrow> usize list \<Rightarrow> usize list \<Rightarrow> usize list \<Rightarrow> i32 \<Rightarrow> row \<Rightarrow> bytes option list" where
  "raw_output_row column_count pk_values pk_columns ck_columns storage_to_table now_secs row =
     foldl (raw_cell storage_to_table now_secs)
       (raw_key_columns ck_columns (decode_clustering (row_clustering row) (length ck_columns))
         (raw_key_columns pk_columns pk_values (replicate column_count None)))
       (row_cells row)"

text \<open>The rows handed to \<open>emit\<close>, in order.\<close>

definition write_partition_raw_rows_with_storage_mapping ::
  "nat \<Rightarrow> partition \<Rightarrow> nat \<Rightarrow> usize list \<Rightarrow> usize list \<Rightarrow> usize list \<Rightarrow> bytes option list list" where
  "write_partition_raw_rows_with_storage_mapping clock p column_count pk_columns ck_columns storage_to_table =
     (let now_secs = i32_or_max clock;
          pk_values = decode_pk (pt_key p) (length pk_columns)
      in map (raw_output_row column_count pk_values pk_columns ck_columns storage_to_table now_secs)
           (filter (\<lambda>row. raw_row_visible row now_secs) (pt_rows p)))"

fun projected_column_raw_encodable :: "cql_type \<Rightarrow> bool" where
  "projected_column_raw_encodable (TList _) = False"
| "projected_column_raw_encodable (TMap _ _) = False"
| "projected_column_raw_encodable (TSet _) = False"
| "projected_column_raw_encodable (TTuple _) = False"
| "projected_column_raw_encodable (TUdt _ _ _) = False"
| "projected_column_raw_encodable (TVector _ _) = False"
| "projected_column_raw_encodable _ = True"

fun position_of :: "'a \<Rightarrow> 'a list \<Rightarrow> nat option" where
  "position_of x [] = None"
| "position_of x (y # ys) = (if y = x then Some 0 else map_option Suc (position_of x ys))"

definition column_projection :: "string list \<Rightarrow> string list \<Rightarrow> usize option list" where
  "column_projection column_names selected = map (\<lambda>name. position_of name column_names) selected"

text \<open>\<open>None\<close> when an index of the projection is outside the row, which panics.\<close>

definition write_partition_raw_rows_projected ::
  "nat \<Rightarrow> partition \<Rightarrow> nat \<Rightarrow> usize list \<Rightarrow> usize list \<Rightarrow> usize list \<Rightarrow> usize list \<Rightarrow> bytes option list list option" where
  "write_partition_raw_rows_projected clock p column_count pk_columns ck_columns storage_to_table projected =
     (let now_secs = read_now_secs clock;
          pk_values = decode_pk (pt_key p) (length pk_columns);
          full = map (raw_output_row column_count pk_values pk_columns ck_columns storage_to_table now_secs)
            (filter (\<lambda>row. is_visible_at row now_secs) (pt_rows p))
      in those (map (\<lambda>row. those (map (nth_opt row) projected)) full))"

section \<open>Keys round trip\<close>

lemma length_prefix:
  assumes "length b \<le> 65535"
  shows "unat (of_be_bytes 0 (take 2 (be_bytes 2 (of_nat (length b) :: u16) @ r)) :: u16) = length b"
    and "drop 2 (be_bytes 2 (of_nat (length b) :: u16) @ r) = r"
  using assms by (simp_all add: of_be_be_bytes_full unat_of_nat del: be_bytes_simps)

lemma decode_pk_components_concat:
  "list_all (\<lambda>b. length b \<le> 65535) bs \<Longrightarrow>
   decode_pk_components (length bs) (concat (map (\<lambda>b. be_bytes 2 (of_nat (length b) :: u16) @ b @ [0]) bs)) = bs"
proof (induction bs)
  case (Cons b bs)
  then show ?case using length_prefix [of b] by (simp add: Let_def del: be_bytes_simps)
qed simp

lemma decode_clustering_components_concat:
  "list_all (\<lambda>b. length b \<le> 65535) bs \<Longrightarrow>
   decode_clustering_components (length bs) (concat (map (\<lambda>b. be_bytes 2 (of_nat (length b) :: u16) @ b) bs)) = bs"
proof (induction bs)
  case (Cons b bs)
  then show ?case using length_prefix [of b] by (simp add: Let_def del: be_bytes_simps)
qed simp

text \<open>The values that fit a key: a component of several has its length in 16 bits.\<close>

definition key_fits :: "value_deps \<Rightarrow> cql_value list \<Rightarrow> bool" where
  "key_fits X vs \<longleftrightarrow> length vs \<noteq> 1 \<longrightarrow> list_all (\<lambda>v. length (encode_value X v) \<le> 65535) vs"

lemma build_decorated_key_eq:
  "build_decorated_key X vs =
     (if vs = [] \<or> \<not> key_fits X vs then Inl Invalid
      else Inr (decorated_key_new (if length vs = 1 then encode_value X (vs ! 0)
        else concat (map (\<lambda>b. be_bytes 2 (of_nat (length b) :: u16) @ b @ [0]) (map (encode_value X) vs)))))"
proof -
  have "try_map (\<lambda>v. pk_component (encode_value X v)) vs =
      (if list_all (\<lambda>v. length (encode_value X v) \<le> 65535) vs
       then Inr (map (\<lambda>b. be_bytes 2 (of_nat (length b) :: u16) @ b @ [0]) (map (encode_value X) vs)) else Inl Invalid)" for vs
    by (induction vs) (simp_all add: pk_component_def)
  then show ?thesis by (simp add: build_decorated_key_def key_fits_def)
qed

lemma decode_pk_build:
  assumes "build_decorated_key X vs = Inr dk"
  shows "decode_pk dk (length vs) = map (encode_value X) vs" "vs \<noteq> []" "key_fits X vs"
proof -
  show vs: "vs \<noteq> []" "key_fits X vs" using assms unfolding build_decorated_key_eq by (auto split: if_splits)
  have dk: "dk_key dk = (if length vs = 1 then encode_value X (vs ! 0)
        else concat (map (\<lambda>b. be_bytes 2 (of_nat (length b) :: u16) @ b @ [0]) (map (encode_value X) vs)))"
    using assms vs unfolding build_decorated_key_eq by (auto simp: decorated_key_new_def simp del: be_bytes_simps split: if_splits)
  show "decode_pk dk (length vs) = map (encode_value X) vs"
  proof (cases "length vs = 1")
    case True
    then obtain v where "vs = [v]" by (cases vs) auto
    then show ?thesis by (simp add: decode_pk_def dk)
  next
    case False
    then have "\<not> length vs \<le> 1" using vs(1) by (cases vs) auto
    moreover have "list_all (\<lambda>b. length b \<le> 65535) (map (encode_value X) vs)"
      using vs(2) False by (simp add: key_fits_def list.pred_map comp_def)
    note decode_pk_components_concat [OF this]
    ultimately show ?thesis using False by (simp add: decode_pk_def dk del: be_bytes_simps)
  qed
qed

definition clustering_fits :: "value_deps \<Rightarrow> cql_value list \<Rightarrow> bool" where
  "clustering_fits X vs \<longleftrightarrow> (if length vs = 1 then encode_value X (vs ! 0) \<noteq> [] else key_fits X vs)"

lemma decode_clustering_encode:
  assumes "clustering_fits X vs"
  shows "decode_clustering (encode_clustering X vs) (length vs) = map (encode_value X) vs"
proof (cases vs rule: remdups_adj.cases)
  case (3 v w ws)
  have "list_all (\<lambda>b. length b \<le> 65535) (map (encode_value X) vs)"
    using assms 3 by (simp add: clustering_fits_def key_fits_def list.pred_map comp_def)
  note decode_clustering_components_concat [OF this]
  moreover have enc: "encode_clustering X vs = concat (map (\<lambda>b. be_bytes 2 (of_nat (length b) :: u16) @ b) (map (encode_value X) vs))"
    by (simp add: encode_clustering_def 3 comp_def del: be_bytes_simps)
  moreover have "encode_clustering X vs \<noteq> []" unfolding enc using 3 length_be_bytes [of 2 "of_nat (length (encode_value X v)) :: u16"]
    by (auto simp del: be_bytes_simps length_be_bytes)
  ultimately show ?thesis by (simp add: decode_clustering_def 3 del: be_bytes_simps)
qed (use assms in \<open>simp_all add: decode_clustering_def encode_clustering_def clustering_fits_def\<close>)

section \<open>Visibility\<close>

lemma raw_row_visible_eq: "raw_row_visible row now_secs = is_visible_at row now_secs"
  by (simp add: raw_row_visible_def is_visible_at_def ldt_is_expired_def ldt_expired_def cell_is_live_def Let_def)

section \<open>What decoding the cells of a row gives\<close>

definition target :: "row_context \<Rightarrow> column_cell \<Rightarrow> usize option" where
  "target ctx cc = (case nth_opt (rc_storage_to_table ctx) (unat (fst cc)) of
     Some t \<Rightarrow> if t < length (rc_column_types ctx) then Some t else None | None \<Rightarrow> None)"

definition column_cells :: "row_context \<Rightarrow> column_cell list \<Rightarrow> usize \<Rightarrow> cell_value list" where
  "column_cells ctx ccs t = map snd (filter (\<lambda>cc. target ctx cc = Some t) ccs)"

text \<open>A column takes the value its cells assemble to, or keeps its own when it has none.\<close>

definition fills :: "value_deps \<Rightarrow> row_context \<Rightarrow> cql_value option list \<Rightarrow> cql_value option list \<Rightarrow> usize \<Rightarrow> cell_value list option \<Rightarrow> bool" where
  "fills X ctx out out' t cs \<longleftrightarrow> (case cs of None \<Rightarrow> t < length out \<longrightarrow> out' ! t = out ! t
     | Some cs \<Rightarrow> t < length out \<and> assemble_column_cells X (rc_column_types ctx ! t) cs (rc_now_secs ctx) = Inr (out' ! t))"

definition assembled :: "value_deps \<Rightarrow> row_context \<Rightarrow> column_cell list \<Rightarrow> cql_value option list \<Rightarrow> cql_value option list \<Rightarrow> bool" where
  "assembled X ctx ccs out out' \<longleftrightarrow> length out' = length out \<and>
     (\<forall>t. fills X ctx out out' t (if column_cells ctx ccs t = [] then None else Some (column_cells ctx ccs t)))"

lemma nth_opt_Some: "nth_opt xs i = Some x \<longleftrightarrow> i < length xs \<and> xs ! i = x"
  by (auto simp: nth_opt_def)

lemma set_at_Inr: "set_at xs i v = Inr ys \<longleftrightarrow> i < length xs \<and> ys = xs[i := v]"
  by (auto simp: set_at_def)

lemma map_err_Inr [simp]: "map_err f r = Inr v \<longleftrightarrow> r = Inr v"
  by (cases r) (auto simp: map_err_def)

lemma push_cell_target:
  "push_cell ctx m cc = (case target ctx cc of None \<Rightarrow> m
     | Some t \<Rightarrow> bt_insert t ((case map_of m t of Some cs \<Rightarrow> cs | None \<Rightarrow> []) @ [snd cc]) m)"
  by (simp add: push_cell_def target_def split: option.splits)

lemma push_cells:
  "bt_wf m \<Longrightarrow> bt_wf (foldl (push_cell ctx) m ccs)
    \<and> map_of (foldl (push_cell ctx) m ccs) t = (if column_cells ctx ccs t = [] then map_of m t
        else Some ((case map_of m t of Some cs \<Rightarrow> cs | None \<Rightarrow> []) @ column_cells ctx ccs t))"
proof (induction ccs arbitrary: m)
  case (Cons cc ccs)
  have "bt_wf (push_cell ctx m cc)" using Cons.prems by (simp add: push_cell_target bt_insert_wf split: option.split)
  note IH = Cons.IH [OF this]
  show ?case using IH by (cases "target ctx cc = Some t") (auto simp: column_cells_def push_cell_target split: option.splits)
qed (simp add: column_cells_def)

lemma fills_update:
  "fills X ctx (out[t := v]) out' u cs \<longleftrightarrow> (if u = t \<and> cs = None then t < length out \<longrightarrow> out' ! t = v else fills X ctx out out' u cs)"
  by (cases cs) (simp_all add: fills_def)

lemma assemble_columns_Inr:
  "bt_wf m \<Longrightarrow> assemble_columns X ctx m out = Inr out' \<longleftrightarrow> length out' = length out \<and> (\<forall>t. fills X ctx out out' t (map_of m t))"
proof (induction m arbitrary: out)
  case (Cons tc m)
  obtain t cs where tc: "tc = (t, cs)" by (cases tc)
  have wf: "bt_wf m" and new: "map_of m t = None" using Cons.prems bt_wf_distinct [OF Cons.prems] tc by (auto simp: map_of_eq_None_iff bt_wf_def)
  let ?asm = "\<lambda>v. assemble_column_cells X (rc_column_types ctx ! t) cs (rc_now_secs ctx) = Inr v"
  have "assemble_columns X ctx (tc # m) out = Inr out' \<longleftrightarrow>
      (\<exists>v. ?asm v \<and> t < length out \<and> assemble_columns X ctx m (out[t := v]) = Inr out')"
    by (auto simp: tc and_then_Inr_iff set_at_Inr)
  also have "\<dots> \<longleftrightarrow> (\<exists>v. ?asm v \<and> t < length out \<and> length out' = length out \<and> (\<forall>u. fills X ctx (out[t := v]) out' u (map_of m u)))"
    by (simp add: Cons.IH [OF wf])
  also have "\<dots> \<longleftrightarrow> (\<exists>v. ?asm v \<and> t < length out \<and> length out' = length out \<and> out' ! t = v
      \<and> (\<forall>u. u \<noteq> t \<longrightarrow> fills X ctx out out' u (map_of m u)))"
    using new by (intro ex_cong1 conj_cong refl) (auto simp: fills_update)
  also have "\<dots> \<longleftrightarrow> length out' = length out \<and> fills X ctx out out' t (Some cs) \<and> (\<forall>u. u \<noteq> t \<longrightarrow> fills X ctx out out' u (map_of m u))"
    by (auto simp: fills_def)
  also have "\<dots> \<longleftrightarrow> length out' = length out \<and> (\<forall>u. fills X ctx out out' u (map_of (tc # m) u))"
    by (auto simp: tc)
  finally show ?case .
qed (auto simp: list_eq_iff_nth_eq fills_def)

lemma assemble_columns_assembled:
  "assemble_columns X ctx (foldl (push_cell ctx) [] ccs) out = Inr out' \<longleftrightarrow> assembled X ctx ccs out out'"
proof -
  note push = push_cells [OF bt_wf_Nil, of ctx ccs]
  have "map_of (foldl (push_cell ctx) [] ccs) t = (if column_cells ctx ccs t = [] then None else Some (column_cells ctx ccs t))" for t
    using push by simp
  then show ?thesis unfolding assemble_columns_Inr [OF push [THEN conjunct1]] assembled_def by (simp add: fills_def)
qed

lemma owned_simple_cell: "cv_path c = None \<Longrightarrow> assemble_owned_simple_cell X ty c now = assemble_column_cells X ty [c] now"
  by (simp add: assemble_owned_simple_cell_def assemble_column_cells_def)

lemma target_inj: "distinct (rc_storage_to_table ctx) \<Longrightarrow> target ctx a = Some t \<Longrightarrow> target ctx b = Some t \<Longrightarrow> fst a = fst b"
  by (auto simp: target_def nth_opt_Some nth_eq_iff_index_eq word_unat_eq_iff split: option.splits if_splits)

lemma decode_simple_cells_target:
  "decode_simple_cells X ctx (cc # ccs) out = (case target ctx cc of None \<Rightarrow> decode_simple_cells X ctx ccs out
     | Some t \<Rightarrow> and_then (map_err (corrupt ctx t) (assemble_owned_simple_cell X (rc_column_types ctx ! t) (snd cc) (rc_now_secs ctx))) (\<lambda>v.
         and_then (set_at out t v) (decode_simple_cells X ctx ccs)))"
  by (cases cc) (simp add: target_def nth_opt_def)

lemma decode_simple_cells_assembled:
  assumes "distinct (rc_storage_to_table ctx)"
  shows "distinct (map fst ccs) \<Longrightarrow> list_all (\<lambda>cc. cv_path (snd cc) = None) ccs \<Longrightarrow>
    decode_simple_cells X ctx ccs out = Inr out' \<longleftrightarrow> assembled X ctx ccs out out'"
proof (induction ccs arbitrary: out)
  case (Cons cc ccs)
  then have IH: "decode_simple_cells X ctx ccs out = Inr out' \<longleftrightarrow> assembled X ctx ccs out out'" for out by simp
  show ?case
  proof (cases "target ctx cc")
    case None
    then show ?thesis unfolding decode_simple_cells_target by (simp add: IH assembled_def column_cells_def)
  next
    case (Some t)
    have "target ctx a \<noteq> Some t" if "a \<in> set ccs" for a
      using target_inj [OF assms Some, of a] that Cons.prems(1) by auto
    then have new: "column_cells ctx ccs t = []" by (simp add: column_cells_def filter_empty_conv)
    have cons: "column_cells ctx (cc # ccs) u = (if u = t then [snd cc] else column_cells ctx ccs u)" for u
      using Some new by (auto simp: column_cells_def)
    let ?asm = "\<lambda>v. assemble_column_cells X (rc_column_types ctx ! t) [snd cc] (rc_now_secs ctx) = Inr v"
    let ?cs = "\<lambda>u. if column_cells ctx ccs u = [] then None else Some (column_cells ctx ccs u)"
    have "decode_simple_cells X ctx (cc # ccs) out = Inr out' \<longleftrightarrow>
        (\<exists>v. ?asm v \<and> t < length out \<and> assembled X ctx ccs (out[t := v]) out')"
      unfolding decode_simple_cells_target using Cons.prems(2)
      by (auto simp: Some and_then_Inr_iff set_at_Inr owned_simple_cell IH)
    also have "\<dots> \<longleftrightarrow> (\<exists>v. ?asm v \<and> t < length out \<and> length out' = length out \<and> out' ! t = v
        \<and> (\<forall>u. u \<noteq> t \<longrightarrow> fills X ctx out out' u (?cs u)))"
      using new by (intro ex_cong1 conj_cong refl) (auto simp: assembled_def fills_update)
    also have "\<dots> \<longleftrightarrow> assembled X ctx (cc # ccs) out out'"
      unfolding assembled_def cons by (auto simp: fills_def)
    finally show ?thesis .
  qed
qed (auto simp: assembled_def column_cells_def fills_def list_eq_iff_nth_eq)

lemma decode_output_row_Inr:
  "decode_output_row X row ctx = Inr out' \<longleftrightarrow>
     (\<exists>out. decode_output_keys X row ctx = Inr out \<and> assembled X ctx (read_cells row ctx) out out')"
  by (simp add: decode_output_row_def and_then_Inr_iff assemble_columns_assembled)

lemma successively_distinct: "successively (\<lambda>a b. f a < f b) xs \<Longrightarrow> distinct (map f xs)" for f :: "'a \<Rightarrow> 'b::linorder"
  using successively_iff_sorted_wrt_strong [of "map f xs" "(<)"] by (auto simp: successively_map strict_sorted_iff)

lemma owned_row_Inr:
  assumes "distinct (rc_storage_to_table ctx)"
  shows "decode_output_row_owned X row ctx = Inr (c, out) \<longleftrightarrow> c = row_clustering row \<and> decode_output_row X row ctx = Inr out"
proof (cases "simple_row row ctx")
  case True
  have "distinct (map fst (row_cells row))" using True by (simp add: simple_row_def successively_distinct)
  moreover have "list_all (\<lambda>cc. cv_path (snd cc) = None) (row_cells row)" using True by (auto simp: simple_row_def list_all_iff)
  moreover have "read_cells row ctx = row_cells row" using True by (auto simp: simple_row_def read_cells_def split: option.splits)
  ultimately show ?thesis using True unfolding decode_output_row_Inr
    by (auto simp: decode_output_row_owned_def and_then_Inr_iff decode_simple_cells_assembled [OF assms])
qed (auto simp: decode_output_row_owned_def and_then_Inr_iff)

section \<open>The decoders of a partition\<close>

text \<open>All results of the iterator, in order.\<close>

lemma next_visible_shorter: "next_visible now rows = Some (row, rest) \<Longrightarrow> length rest < length rows"
  by (induction rows) (auto split: if_splits)

lemma next_row_shorter: "next_row X it = (Some r, it') \<Longrightarrow> length (or_rows it') < length (or_rows it)"
  by (auto simp: next_row_def Let_def dest: next_visible_shorter split: if_splits option.splits)

function drain :: "value_deps \<Rightarrow> owned_partition_rows \<Rightarrow> (row_decode_error + bytes \<times> cql_value option list) list" where
  "drain X it = (case next_row X it of (None, _) \<Rightarrow> [] | (Some r, it') \<Rightarrow> r # drain X it')"
  by pat_completeness auto
termination by (relation "measure (\<lambda>(_, it). length (or_rows it))") (auto dest: next_row_shorter [OF sym])

declare drain.simps [simp del]

fun owned_results :: "value_deps \<Rightarrow> row_context \<Rightarrow> row list \<Rightarrow> (row_decode_error + bytes \<times> cql_value option list) list" where
  "owned_results X ctx [] = []"
| "owned_results X ctx (row # rows) =
     (if \<not> is_visible_at row (rc_now_secs ctx) then owned_results X ctx rows
      else case decode_output_row_owned X row ctx of Inl e \<Rightarrow> [Inl e] | Inr res \<Rightarrow> Inr res # owned_results X ctx rows)"

lemma drain_failed: "or_failed it \<Longrightarrow> drain X it = []"
  by (subst drain.simps) (simp add: next_row_def)

lemma drain_results: "drain X \<lparr>or_rows = rows, or_context = ctx, or_failed = False\<rparr> = owned_results X ctx rows"
proof (induction rows)
  case (Cons row rows)
  show ?case
  proof (cases "is_visible_at row (rc_now_secs ctx)")
    case True
    then have "drain X \<lparr>or_rows = row # rows, or_context = ctx, or_failed = False\<rparr> = decode_output_row_owned X row ctx #
        drain X \<lparr>or_rows = rows, or_context = ctx, or_failed = isl (decode_output_row_owned X row ctx)\<rparr>"
      by (subst drain.simps) (simp add: next_row_def Let_def)
    then show ?thesis using True Cons.IH by (simp add: drain_failed split: sum.split)
  next
    case False
    then have "next_row X \<lparr>or_rows = row # rows, or_context = ctx, or_failed = False\<rparr> = next_row X \<lparr>or_rows = rows, or_context = ctx, or_failed = False\<rparr>"
      by (simp add: next_row_def Let_def split: option.split)
    then have "drain X \<lparr>or_rows = row # rows, or_context = ctx, or_failed = False\<rparr> = drain X \<lparr>or_rows = rows, or_context = ctx, or_failed = False\<rparr>"
      by (subst (1 2) drain.simps) simp
    then show ?thesis using False Cons.IH by simp
  qed
qed (subst drain.simps, simp add: next_row_def)

lemma visit_collects:
  assumes "distinct (rc_storage_to_table ctx)"
  shows "\<exists>oks r. visit_rows X ctx (\<lambda>result clustering row. (result @ [(clustering, row)], False)) rows acc = (acc @ oks, r)
    \<and> (case r of Inr _ \<Rightarrow> owned_results X ctx rows = map Inr oks | Inl _ \<Rightarrow> \<exists>e. owned_results X ctx rows = map Inr oks @ [Inl e])"
proof (induction rows arbitrary: acc)
  case (Cons row rows)
  show ?case
  proof (cases "is_visible_at row (rc_now_secs ctx)")
    case True
    show ?thesis
    proof (cases "decode_output_row X row ctx")
      case (Inl e)
      then have "isl (decode_output_row_owned X row ctx)"
        using owned_row_Inr [OF assms, of X row] by (cases "decode_output_row_owned X row ctx") auto
      then show ?thesis using True Inl by (auto simp: isl_def)
    next
      case (Inr out)
      then have "decode_output_row_owned X row ctx = Inr (row_clustering row, out)" by (simp add: owned_row_Inr [OF assms])
      moreover obtain oks r where "visit_rows X ctx (\<lambda>result clustering row. (result @ [(clustering, row)], False)) rows (acc @ [(row_clustering row, out)])
          = (acc @ (row_clustering row, out) # oks, r)"
        "case r of Inr _ \<Rightarrow> owned_results X ctx rows = map Inr oks | Inl _ \<Rightarrow> \<exists>e. owned_results X ctx rows = map Inr oks @ [Inl e]"
        using Cons.IH [of "acc @ [(row_clustering row, out)]"] by auto
      ultimately show ?thesis using True Inr
        by (intro exI [of _ "(row_clustering row, out) # oks"] exI [of _ r]) (auto split: sum.splits)
    qed
  next
    case False
    then have eqs: "owned_results X ctx (row # rows) = owned_results X ctx rows"
      "visit_rows X ctx v (row # rows) acc = visit_rows X ctx v rows acc" for v :: "(bytes \<times> cql_value option list) list row_visitor"
      by simp_all
    show ?thesis unfolding eqs by (rule Cons.IH)
  qed
qed simp

lemma consume_visits:
  assumes "distinct (rc_storage_to_table ctx)"
  shows "fst (consume_rows X ctx visit pk rows s) = fst (visit_rows X ctx (\<lambda>s. visit s pk) rows s)
    \<and> isl (snd (consume_rows X ctx visit pk rows s)) = isl (snd (visit_rows X ctx (\<lambda>s. visit s pk) rows s))"
proof (induction rows arbitrary: s)
  case (Cons row rows)
  show ?case
  proof (cases "decode_output_row X row ctx")
    case (Inl e)
    then have "isl (decode_output_row_owned X row ctx)"
      using owned_row_Inr [OF assms, of X row] by (cases "decode_output_row_owned X row ctx") auto
    then show ?thesis using Inl Cons.IH by (auto simp: isl_def)
  next
    case (Inr out)
    then have "decode_output_row_owned X row ctx = Inr (row_clustering row, out)" by (simp add: owned_row_Inr [OF assms])
    then show ?thesis using Inr Cons.IH by (simp split: prod.split)
  qed
qed simp

section \<open>Writing a row and reading it\<close>

lemma filter_unique:
  assumes "distinct (map f xs)" "x \<in> set xs" "P x" "\<And>y. y \<in> set xs \<Longrightarrow> P y \<Longrightarrow> f y = f x"
  shows "filter P xs = [x]"
proof -
  obtain ys zs where xs: "xs = ys @ x # zs" using assms(2) by (auto simp: in_set_conv_decomp)
  have new: "f x \<notin> f ` (set ys \<union> set zs)" using assms(1) unfolding xs by (simp add: image_Un)
  have "\<not> P y" if y: "y \<in> set ys \<union> set zs" for y
  proof
    assume "P y"
    then have "f y = f x" using y xs by (intro assms(4)) auto
    then show False using new imageI [OF y, of f] by simp
  qed
  then have "filter P ys = []" "filter P zs = []" by (auto simp: filter_empty_conv)
  then show ?thesis unfolding xs using assms(3) by simp
qed

lemma assembled_distinct:
  assumes "distinct (rc_storage_to_table ctx)" "distinct (map fst ccs)" "length out' = length out"
    and "\<And>cc t. cc \<in> set ccs \<Longrightarrow> target ctx cc = Some t \<Longrightarrow> fills X ctx out out' t (Some [snd cc])"
    and "\<And>t. (\<And>cc. cc \<in> set ccs \<Longrightarrow> target ctx cc \<noteq> Some t) \<Longrightarrow> fills X ctx out out' t None"
  shows "assembled X ctx ccs out out'"
  unfolding assembled_def
proof (intro conjI allI)
  fix t
  show "fills X ctx out out' t (if column_cells ctx ccs t = [] then None else Some (column_cells ctx ccs t))"
  proof (cases "\<exists>cc \<in> set ccs. target ctx cc = Some t")
    case True
    then obtain cc where cc: "cc \<in> set ccs" "target ctx cc = Some t" by blast
    have "filter (\<lambda>cc. target ctx cc = Some t) ccs = [cc]"
    proof (rule filter_unique [where f = fst, OF assms(2) cc(1)])
      show "fst y = fst cc" if "target ctx y = Some t" for y using that cc(2) by (rule target_inj [OF assms(1)])
    qed (rule cc(2))
    then show ?thesis using assms(4) [OF cc] by (simp add: column_cells_def)
  next
    case False
    then show ?thesis using assms(5) [of t] by (auto simp: column_cells_def filter_empty_conv)
  qed
qed (rule assms(3))

lemma assemble_value_cell:
  assumes "bigint_law X" "v = VNull \<or> has_type X ty v" "\<And>s. ttl = Some s \<Longrightarrow> \<not> ldt_is_expired (ttl_deadline clock s) now"
  shows "assemble_column_cells X ty [value_cell X clock ts ttl v] now = Inr (if v = VNull then None else Some v)"
proof -
  let ?c = "value_cell X clock ts ttl v"
  have "cv_path ?c = None" "cv_value ?c = (if v = VNull then None else Some (encode_value X v))" "v \<noteq> VNull \<Longrightarrow> cell_is_live ?c now"
    using assms(3) by (auto simp: value_cell_def cell_is_live_def cell_defs NO_TTL_def split: option.split)
  moreover have "v \<noteq> VNull \<Longrightarrow> decode_value X ty (encode_value X v) = Inr v" using decode_encode [OF assms(1)] assms(2) by blast
  ultimately show ?thesis
    by (simp add: owned_simple_cell [symmetric] assemble_owned_simple_cell_def decode_value_owned_eq cell_is_live_def)
qed

lemma decode_key_columns_encoded:
  assumes "bigint_law X"
  shows "list_all (\<lambda>c. c < length out \<and> c < length (rc_column_types ctx) \<and> has_type X (rc_column_types ctx ! c) (vals ! c)) cs \<Longrightarrow>
    decode_key_columns X ctx cs (map (\<lambda>c. encode_value X (vals ! c)) cs) out = Inr (fold (\<lambda>c out. out[c := Some (vals ! c)]) cs out)"
proof (induction cs arbitrary: out)
  case (Cons c cs)
  then have "decode_value X (rc_column_types ctx ! c) (encode_value X (vals ! c)) = Inr (vals ! c)"
    by (intro decode_encode [OF assms]) simp
  then have "decode_key_component X ctx c (Some (encode_value X (vals ! c))) out = Inr (out[c := Some (vals ! c)])"
    using Cons.prems by (simp add: decode_key_component_def nth_opt_def set_at_def map_err_def)
  then show ?case using Cons by (simp add: nth_opt_def)
qed simp

definition shape_ok :: "table_shape \<Rightarrow> bool" where
  "shape_ok t \<longleftrightarrow> distinct (ts_pk_columns t @ ts_ck_columns t @ ts_storage_to_table t)
     \<and> set (ts_pk_columns t @ ts_ck_columns t @ ts_storage_to_table t) = {..<length (ts_column_names t)}
     \<and> length (ts_column_types t) = length (ts_column_names t) \<and> length (ts_storage_to_table t) \<le> 2 ^ 16"

text \<open>A row of values for the shape: keys have the type of their column, other values may be null.\<close>

definition row_typed :: "value_deps \<Rightarrow> table_shape \<Rightarrow> cql_value list \<Rightarrow> bool" where
  "row_typed X t vals \<longleftrightarrow> length vals = length (ts_column_names t)
     \<and> list_all (\<lambda>j. has_type X (ts_column_types t ! j) (vals ! j)
          \<or> vals ! j = VNull \<and> j \<in> set (ts_storage_to_table t)) [0..<length vals]"

text \<open>The row that an insert of the storage columns \<open>cols\<close> builds, and the values a reader then sees.\<close>

definition written_row :: "value_deps \<Rightarrow> (nat \<Rightarrow> nat) \<Rightarrow> table_shape \<Rightarrow> nat list \<Rightarrow> cql_value list \<Rightarrow> i64 \<Rightarrow> i32 option \<Rightarrow> row" where
  "written_row X clock t cols vals ts ttl =
     build_row X clock (map (\<lambda>i. (of_nat i, vals ! (ts_storage_to_table t ! i))) cols) (map ((!) vals) (ts_ck_columns t)) ts ttl"

definition shown :: "table_shape \<Rightarrow> nat list \<Rightarrow> cql_value list \<Rightarrow> cql_value option list" where
  "shown t cols vals = map (\<lambda>j.
     if j \<in> set (ts_storage_to_table t) \<and> (j \<notin> (!) (ts_storage_to_table t) ` set cols \<or> vals ! j = VNull) then None
     else Some (vals ! j)) [0..<length vals]"

definition unexpired :: "(nat \<Rightarrow> nat) \<Rightarrow> nat \<Rightarrow> i32 option \<Rightarrow> i32 \<Rightarrow> bool" where
  "unexpired clock n ttl now \<longleftrightarrow> (case ttl of None \<Rightarrow> True
     | Some s \<Rightarrow> list_all (\<lambda>i. \<not> ldt_is_expired (ttl_deadline (clock i) s) now) [0..<Suc n])"

lemma has_type_not_null: "\<not> has_type X ty VNull"
  by (cases ty) simp_all

lemma written_cells:
  assumes "distinct cols" "list_all (\<lambda>i. i < 2 ^ 16) cols"
  shows "distinct (map fst (row_cells (written_row X clock t cols vals ts ttl)))"
    and "cc \<in> set (row_cells (written_row X clock t cols vals ts ttl)) \<longleftrightarrow> (\<exists>k < length cols.
      cc = (of_nat (cols ! k), value_cell X (clock k) ts ttl (vals ! (ts_storage_to_table t ! (cols ! k)))))"
proof -
  let ?cells = "map (\<lambda>(i, idx, val). (idx, value_cell X (clock i) ts ttl val))
    (enumerate 0 (map (\<lambda>i. (of_nat i :: u16, vals ! (ts_storage_to_table t ! i))) cols))"
  have cells: "row_cells (written_row X clock t cols vals ts ttl) = sort_key fst ?cells"
    by (simp add: written_row_def build_row_def)
  have nth: "?cells = map (\<lambda>k. (of_nat (cols ! k), value_cell X (clock k) ts ttl (vals ! (ts_storage_to_table t ! (cols ! k))))) [0..<length cols]"
    by (rule nth_equalityI) (simp_all add: nth_enumerate_eq)
  have "map fst ?cells = map of_nat cols" unfolding nth by (rule nth_equalityI) simp_all
  moreover have "inj_on (of_nat :: nat \<Rightarrow> u16) (set cols)"
  proof (rule inj_on_inverseI [of _ unat])
    show "unat (of_nat i :: u16) = i" if "i \<in> set cols" for i
      using that assms(2) by (simp add: list_all_iff unat_of_nat)
  qed
  ultimately have "distinct (map fst ?cells)" using assms(1) by (simp only: distinct_map)
  moreover have "mset (map fst (sort_key fst ?cells)) = mset (map fst ?cells)" by (simp only: mset_map mset_sort)
  ultimately show "distinct (map fst (row_cells (written_row X clock t cols vals ts ttl)))"
    unfolding cells by (blast dest: mset_eq_imp_distinct_iff)
  show "cc \<in> set (row_cells (written_row X clock t cols vals ts ttl)) \<longleftrightarrow> (\<exists>k < length cols.
      cc = (of_nat (cols ! k), value_cell X (clock k) ts ttl (vals ! (ts_storage_to_table t ! (cols ! k)))))"
    unfolding cells set_sort nth by (auto simp only: set_map set_upt atLeast0LessThan image_iff lessThan_iff)
qed

lemma written_visible:
  assumes "unexpired clock (length cols) ttl now"
  shows "is_visible_at (written_row X clock t cols vals ts ttl) now"
proof -
  have "\<not> ldt_expired now (ttl_deadline (clock (length cols)) s)" if "ttl = Some s" for s
    using assms that by (simp add: unexpired_def ldt_expired_def ldt_is_expired_def)
  then show ?thesis
    by (auto simp: is_visible_at_def written_row_def build_row_def row_data_defs split: option.splits)
qed

lemma written_keys:
  assumes "bigint_law X" "shape_ok t" "row_typed X t vals" "build_decorated_key X (map ((!) vals) (ts_pk_columns t)) = Inr (pt_key p)"
    and "clustering_fits X (map ((!) vals) (ts_ck_columns t))"
  shows "\<exists>out. decode_output_keys X (written_row X clock t cols vals ts ttl) (decode_context now p t) = Inr out
    \<and> length out = length vals \<and> (\<forall>j < length vals. out ! j = (if j \<in> set (ts_storage_to_table t) then None else Some (vals ! j)))"
proof -
  let ?ctx = "decode_context now p t" and ?none = "replicate (length vals) (None :: cql_value option)"
  have n: "length vals = length (ts_column_names t)" "length (ts_column_types t) = length vals"
    using assms(2,3) by (simp_all add: shape_ok_def row_typed_def)
  have typed: "j < length vals \<and> has_type X (ts_column_types t ! j) (vals ! j)" if "j \<in> set (ts_pk_columns t) \<union> set (ts_ck_columns t)" for j
    using that assms(2,3) by (fastforce simp: shape_ok_def row_typed_def list_all_iff)
  have pk: "rc_pk_values ?ctx = map (\<lambda>c. encode_value X (vals ! c)) (ts_pk_columns t)"
    using decode_pk_build(1) [OF assms(4)] by (simp add: decode_context_def comp_def)
  have ck: "decode_clustering (row_clustering (written_row X clock t cols vals ts ttl)) (length (ts_ck_columns t))
      = map (\<lambda>c. encode_value X (vals ! c)) (ts_ck_columns t)"
    using decode_clustering_encode [OF assms(5)] by (simp add: written_row_def build_row_def comp_def)
  let ?pks = "fold (\<lambda>c out. out[c := Some (vals ! c)]) (ts_pk_columns t) ?none"
  let ?out = "fold (\<lambda>c out. out[c := Some (vals ! c)]) (ts_ck_columns t) ?pks"
  have "decode_key_columns X ?ctx (ts_pk_columns t) (rc_pk_values ?ctx) ?none = Inr ?pks"
    unfolding pk using typed n by (intro decode_key_columns_encoded [OF assms(1)]) (simp add: list_all_iff decode_context_def)
  moreover have "decode_key_columns X ?ctx (ts_ck_columns t) (map (\<lambda>c. encode_value X (vals ! c)) (ts_ck_columns t)) ?pks = Inr ?out"
    using typed n by (intro decode_key_columns_encoded [OF assms(1)]) (simp add: list_all_iff decode_context_def fold_update)
  ultimately have "decode_output_keys X (written_row X clock t cols vals ts ttl) ?ctx = Inr ?out"
    using ck n unfolding decode_output_keys_def by (simp add: decode_context_def)
  moreover have "?out ! j = (if j \<in> set (ts_storage_to_table t) then None else Some (vals ! j))" if "j < length vals" for j
  proof -
    have "j \<in> set (ts_pk_columns t) \<union> set (ts_ck_columns t) \<longleftrightarrow> j \<notin> set (ts_storage_to_table t)"
      using assms(2) n that unfolding shape_ok_def by auto
    then show ?thesis using that by (auto simp: fold_update)
  qed
  ultimately show ?thesis by (auto simp: fold_update)
qed

lemma written_row_decoded:
  assumes "bigint_law X" "shape_ok t" "row_typed X t vals" "build_decorated_key X (map ((!) vals) (ts_pk_columns t)) = Inr (pt_key p)"
    and "clustering_fits X (map ((!) vals) (ts_ck_columns t))" "distinct cols" "list_all (\<lambda>i. i < length (ts_storage_to_table t)) cols"
    and "unexpired clock (length cols) ttl (read_now_secs now)" "pt_static_row p = None"
  shows "decode_output_row X (written_row X clock t cols vals ts ttl) (decode_context now p t) = Inr (shown t cols vals)"
proof -
  let ?row = "written_row X clock t cols vals ts ttl" and ?ctx = "decode_context now p t"
  obtain out where keys: "decode_output_keys X ?row ?ctx = Inr out" "length out = length vals"
    and out: "\<And>j. j < length vals \<Longrightarrow> out ! j = (if j \<in> set (ts_storage_to_table t) then None else Some (vals ! j))"
    using written_keys [OF assms(1-5)] by blast
  have n: "length vals = length (ts_column_names t)" "length (ts_column_types t) = length vals" "length (ts_storage_to_table t) \<le> 2 ^ 16"
    and dist: "distinct (ts_storage_to_table t)" and sub: "set (ts_storage_to_table t) \<subseteq> {..<length vals}"
    using assms(2,3) by (auto simp: shape_ok_def row_typed_def)
  have small: "list_all (\<lambda>i. i < 2 ^ 16) cols" using assms(7) n(3) by (auto simp: list_all_iff)
  note cells = written_cells [OF assms(6) small, where X = X and clock = clock and t = t and vals = vals and ts = ts and ttl = ttl]
  have target: "target ?ctx (of_nat (cols ! k), c) = Some (ts_storage_to_table t ! (cols ! k))"
    "ts_storage_to_table t ! (cols ! k) < length vals" if "k < length cols" for k c
  proof -
    have k: "cols ! k < length (ts_storage_to_table t)" "cols ! k < 2 ^ 16" using that assms(7) small by (simp_all add: list_all_length)
    then show "ts_storage_to_table t ! (cols ! k) < length vals" using sub nth_mem [OF k(1)] by blast
    then show "target ?ctx (of_nat (cols ! k), c) = Some (ts_storage_to_table t ! (cols ! k))"
      using k n by (simp add: target_def decode_context_def nth_opt_def unat_of_nat)
  qed
  have "assembled X ?ctx (row_cells ?row) out (shown t cols vals)"
  proof (rule assembled_distinct)
    show "distinct (rc_storage_to_table ?ctx)" using dist by (simp add: decode_context_def)
    show "fills X ?ctx out (shown t cols vals) u (Some [snd cc])" if cc: "cc \<in> set (row_cells ?row)" "target ?ctx cc = Some u" for cc u
    proof -
      obtain k where k: "k < length cols" "cc = (of_nat (cols ! k), value_cell X (clock k) ts ttl (vals ! (ts_storage_to_table t ! (cols ! k))))"
        using cc(1) cells(2) by blast
      then have u: "u = ts_storage_to_table t ! (cols ! k)" "u < length vals" using target [OF k(1)] cc(2) by simp_all
      have shown: "shown t cols vals ! u = (if vals ! u = VNull then None else Some (vals ! u))"
        using u k(1) assms(7) by (auto simp: shown_def list_all_length)
      have "vals ! u = VNull \<or> has_type X (ts_column_types t ! u) (vals ! u)"
        using assms(3) u(2) by (auto simp: row_typed_def list_all_iff)
      moreover have "\<not> ldt_is_expired (ttl_deadline (clock k) s) (read_now_secs now)" if "ttl = Some s" for s
        using assms(8) that k(1) by (simp add: unexpired_def list_all_iff)
      ultimately show ?thesis
        using assemble_value_cell [OF assms(1), of "vals ! u" "ts_column_types t ! u" ttl "clock k" "read_now_secs now" ts] u k shown keys(2)
        by (simp add: fills_def decode_context_def)
    qed
    show "fills X ?ctx out (shown t cols vals) u None" if none: "\<And>cc. cc \<in> set (row_cells ?row) \<Longrightarrow> target ?ctx cc \<noteq> Some u" for u
    proof -
      have "u \<notin> (!) (ts_storage_to_table t) ` set cols"
      proof
        assume "u \<in> (!) (ts_storage_to_table t) ` set cols"
        then obtain k where k: "k < length cols" "u = ts_storage_to_table t ! (cols ! k)" by (auto simp: in_set_conv_nth)
        then show False using none cells(2) target(1) [OF k(1)] by blast
      qed
      then show ?thesis using keys(2) out [of u] by (auto simp: fills_def shown_def)
    qed
  qed (use cells(1) keys(2) in \<open>simp_all add: shown_def\<close>)
  moreover have "read_cells ?row ?ctx = row_cells ?row" using assms(9) by (simp add: read_cells_def decode_context_def)
  ultimately show ?thesis using keys(1) unfolding decode_output_row_Inr by auto
qed

text \<open>An insert of one row into a partition.\<close>

record insert_stmt =
  in_clock :: "nat \<Rightarrow> nat"
  in_cols :: "nat list"
  in_vals :: "cql_value list"
  in_timestamp :: i64
  in_ttl :: "i32 option"

definition insert_row :: "value_deps \<Rightarrow> table_shape \<Rightarrow> insert_stmt \<Rightarrow> row" where
  "insert_row X t w = written_row X (in_clock w) t (in_cols w) (in_vals w) (in_timestamp w) (in_ttl w)"

definition insert_ok :: "value_deps \<Rightarrow> nat \<Rightarrow> partition \<Rightarrow> table_shape \<Rightarrow> insert_stmt \<Rightarrow> bool" where
  "insert_ok X now p t w \<longleftrightarrow> row_typed X t (in_vals w)
     \<and> build_decorated_key X (map ((!) (in_vals w)) (ts_pk_columns t)) = Inr (pt_key p)
     \<and> clustering_fits X (map ((!) (in_vals w)) (ts_ck_columns t))
     \<and> distinct (in_cols w) \<and> list_all (\<lambda>i. i < length (ts_storage_to_table t)) (in_cols w)
     \<and> unexpired (in_clock w) (length (in_cols w)) (in_ttl w) (read_now_secs now)"

lemma visit_inserts:
  assumes "bigint_law X" "shape_ok t" "pt_static_row p = None"
  shows "list_all (insert_ok X now p t) ws \<Longrightarrow>
    visit_rows X (decode_context now p t) (\<lambda>result _ row. (result @ [row], False)) (map (insert_row X t) ws) acc
      = (acc @ map (\<lambda>w. shown t (in_cols w) (in_vals w)) ws, Inr ())"
proof (induction ws arbitrary: acc)
  case (Cons w ws)
  then have w: "insert_ok X now p t w" and IH: "visit_rows X (decode_context now p t) (\<lambda>result _ row. (result @ [row], False)) (map (insert_row X t) ws) acc
      = (acc @ map (\<lambda>w. shown t (in_cols w) (in_vals w)) ws, Inr ())" for acc by simp_all
  have "decode_output_row X (insert_row X t w) (decode_context now p t) = Inr (shown t (in_cols w) (in_vals w))"
    unfolding insert_row_def using w by (intro written_row_decoded [OF assms(1,2)]) (simp_all add: insert_ok_def assms(3))
  moreover have "is_visible_at (insert_row X t w) (rc_now_secs (decode_context now p t))"
    unfolding insert_row_def using w by (simp add: written_visible insert_ok_def decode_context_def)
  ultimately show ?case using IH by simp
qed simp

section \<open>Static cells\<close>

definition keyed_cells :: "column_cell list \<Rightarrow> (u16 \<times> bytes option, cell_value) btree" where
  "keyed_cells ccs = map (\<lambda>cc. (cell_key cc, snd cc)) ccs"

lemma row_wf_keyed: "row_wf r \<longleftrightarrow> bt_wf (keyed_cells (row_cells r))"
  by (simp add: row_wf_def bt_wf_def keyed_cells_def comp_def)

lemma upserts_wf: "bt_wf m \<Longrightarrow> bt_wf (foldl (\<lambda>cells cc. bt_upsert j (cell_key cc) (snd cc) cells) m ccs)"
  by (induction ccs arbitrary: m) (simp_all add: bt_upsert_wf)

lemma upserts_get:
  "distinct (map cell_key ccs) \<Longrightarrow> map_of (foldl (\<lambda>cells cc. bt_upsert j (cell_key cc) (snd cc) cells) m ccs) k
    = combine_options j (map_of m k) (map_of (keyed_cells ccs) k)"
proof (induction ccs arbitrary: m)
  case (Cons cc ccs)
  have new: "map_of (keyed_cells ccs) (cell_key cc) = None"
    using Cons.prems by (auto simp: keyed_cells_def map_of_eq_None_iff)
  have "map_of (foldl (\<lambda>cells cc. bt_upsert j (cell_key cc) (snd cc) cells) m (cc # ccs)) k
      = combine_options j (map_of (bt_upsert j (cell_key cc) (snd cc) m) k) (map_of (keyed_cells ccs) k)"
    using Cons by simp
  also have "\<dots> = combine_options j (map_of m k) (map_of (keyed_cells (cc # ccs)) k)"
    using new by (simp add: bt_upsert_get keyed_cells_def)
  finally show ?case .
qed (simp add: keyed_cells_def)

lemma overlay_get:
  assumes "row_wf s" "row_wf r"
  shows "bt_wf (overlay_static_cells s r)"
    and "map_of (overlay_static_cells s r) k
      = combine_options reconcile_ref (map_of (keyed_cells (row_cells s)) k) (map_of (keyed_cells (row_cells r)) k)"
proof -
  have d: "distinct (map cell_key (row_cells s))" "distinct (map cell_key (row_cells r))"
    using assms by (simp_all add: row_wf_def strict_sorted_iff)
  show "bt_wf (overlay_static_cells s r)" unfolding overlay_static_cells_def by (rule upserts_wf) simp
  show "map_of (overlay_static_cells s r) k
      = combine_options reconcile_ref (map_of (keyed_cells (row_cells s)) k) (map_of (keyed_cells (row_cells r)) k)"
    unfolding overlay_static_cells_def foldl_append upserts_get [OF d(2)] upserts_get [OF d(1)] by simp
qed

text \<open>A flush moves the cells of static columns to the static row.\<close>

definition static_part :: "(u16 \<Rightarrow> bool) \<Rightarrow> row \<Rightarrow> row" where
  "static_part P r = r\<lparr>row_cells := filter (\<lambda>cc. P (fst cc)) (row_cells r)\<rparr>"

lemma map_of_filter_key: "map_of (keyed_cells (filter (\<lambda>cc. P (fst cc)) ccs)) k = (if P (fst k) then map_of (keyed_cells ccs) k else None)"
  by (induction ccs) (auto simp: keyed_cells_def cell_key_def)

lemma overlay_split:
  assumes "row_wf r"
  shows "overlay_static_cells (static_part P r) (static_part (\<lambda>i. \<not> P i) r) = keyed_cells (row_cells r)"
proof (rule bt_ext)
  have wf: "row_wf (static_part P r)" "row_wf (static_part (\<lambda>i. \<not> P i) r)"
    unfolding static_part_def by (rule row_wf_filter [OF assms])+
  show "bt_wf (overlay_static_cells (static_part P r) (static_part (\<lambda>i. \<not> P i) r))" by (rule overlay_get(1) [OF wf])
  show "bt_wf (keyed_cells (row_cells r))" using assms by (simp add: row_wf_keyed)
  show "map_of (overlay_static_cells (static_part P r) (static_part (\<lambda>i. \<not> P i) r)) = map_of (keyed_cells (row_cells r))"
    using overlay_get(2) [OF wf] by (intro ext) (simp add: static_part_def map_of_filter_key [where P = P] map_of_filter_key [where P = "\<lambda>i. \<not> P i"])
qed

lemma static_flush:
  assumes "row_wf r" "rc_static_row ctx = None"
  shows "decode_output_row X (static_part (\<lambda>i. \<not> P i) r) (ctx\<lparr>rc_static_row := Some (static_part P r)\<rparr>) = decode_output_row X r ctx"
proof -
  let ?ctx = "ctx\<lparr>rc_static_row := Some (static_part P r)\<rparr>" and ?r = "static_part (\<lambda>i. \<not> P i) r"
  have corrupt: "corrupt ?ctx = corrupt ctx" by (intro ext) (simp add: corrupt_def column_name_def split: row_bridge_error.split)
  have comp: "decode_key_component X ?ctx = decode_key_component X ctx"
    by (intro ext) (simp add: decode_key_component_def corrupt split: option.split)
  have "decode_key_columns X ?ctx cs vs = decode_key_columns X ctx cs vs" for cs vs
  proof (induction cs arbitrary: vs)
    case (Cons c cs)
    show ?case by (rule ext) (simp only: decode_key_columns.simps comp Cons.IH)
  qed (rule ext, simp)
  then have keys: "decode_output_keys X ?r ?ctx = decode_output_keys X r ctx"
    unfolding decode_output_keys_def by (simp add: static_part_def)
  have cols: "assemble_columns X ?ctx m = assemble_columns X ctx m" for m
  proof (induction m)
    case (Cons tc m)
    show ?case by (cases tc, rule ext) (simp add: corrupt Cons.IH)
  qed (rule ext, simp)
  have push: "push_cell ?ctx = push_cell ctx" by (intro ext) (simp add: push_cell_def split: option.split)
  have "map (\<lambda>((idx, _), cell). (idx, cell)) (keyed_cells (row_cells r)) = row_cells r"
    by (simp add: keyed_cells_def comp_def cell_key_def)
  moreover have "row_cells ?r = row_cells r" if "row_cells (static_part P r) = []"
    using that by (simp add: static_part_def filter_empty_conv filter_id_conv)
  ultimately have cells: "read_cells ?r ?ctx = read_cells r ctx"
    using assms(2) overlay_split [OF assms(1), of P] by (simp add: read_cells_def)
  show ?thesis unfolding decode_output_row_def keys cells push cols ..
qed

section \<open>Raw rows\<close>

text \<open>Raw bytes stand for decoded values: absent for absent, and otherwise the bytes decode to the value.\<close>

definition stands_for :: "value_deps \<Rightarrow> cql_type \<Rightarrow> cql_value option \<Rightarrow> bytes option \<Rightarrow> bool" where
  "stands_for X ty v b \<longleftrightarrow> (case b of None \<Rightarrow> v = None | Some b \<Rightarrow> map_option Inr v = Some (decode_value X ty b))"

definition raw_agrees :: "value_deps \<Rightarrow> cql_type list \<Rightarrow> cql_value option list \<Rightarrow> bytes option list \<Rightarrow> bool" where
  "raw_agrees X types out raw \<longleftrightarrow> length out = length types \<and> length raw = length types
     \<and> list_all (\<lambda>j. stands_for X (types ! j) (out ! j) (raw ! j)) [0..<length types]"

lemma raw_agrees_update:
  assumes "raw_agrees X types out raw" "stands_for X (types ! j) v b"
  shows "raw_agrees X types (out[j := v]) (raw[j := b])"
proof -
  have "stands_for X (types ! i) (out[j := v] ! i) (raw[j := b] ! i)" if "i < length types" for i
    using assms that unfolding raw_agrees_def by (cases "i = j") (simp_all add: list_all_iff)
  then show ?thesis using assms(1) by (simp add: raw_agrees_def list_all_iff)
qed

lemma raw_keys_agree:
  assumes "length (rc_column_types ctx) = length (rc_column_names ctx)"
  shows "decode_key_columns X ctx cs vs out = Inr out' \<Longrightarrow> raw_agrees X (rc_column_types ctx) out raw \<Longrightarrow> distinct cs \<Longrightarrow>
    list_all (\<lambda>c. c < length out \<longrightarrow> out ! c = None) cs \<Longrightarrow> raw_agrees X (rc_column_types ctx) out' (raw_key_columns cs vs raw)
      \<and> list_all (\<lambda>j. j \<in> set cs \<or> out' ! j = out ! j) [0..<length out]"
proof (induction cs arbitrary: vs out raw)
  case (Cons c cs)
  obtain out1 where o: "decode_key_component X ctx c (nth_opt vs 0) out = Inr out1" "decode_key_columns X ctx cs (tl vs) out1 = Inr out'"
    using Cons.prems(1) by (auto simp: and_then_Inr_iff)
  let ?raw = "if c < length raw then raw[c := nth_opt vs 0] else raw"
  have len: "length out = length (rc_column_types ctx)" "length raw = length (rc_column_types ctx)"
    using Cons.prems(2) by (simp_all add: raw_agrees_def)
  have step: "raw_agrees X (rc_column_types ctx) out1 ?raw" "length out1 = length out" "\<And>j. j \<noteq> c \<Longrightarrow> out1 ! j = out ! j"
  proof -
    have "raw_agrees X (rc_column_types ctx) out1 ?raw \<and> length out1 = length out \<and> (\<forall>j. j \<noteq> c \<longrightarrow> out1 ! j = out ! j)"
    proof (cases "c < length (rc_column_types ctx)")
      case True
      show ?thesis
      proof (cases "nth_opt vs 0")
        case None
        then have "out1 = out" using o(1) by (simp add: decode_key_component_def split: option.splits)
        moreover have "raw_agrees X (rc_column_types ctx) (out[c := out ! c]) (raw[c := None])"
          by (rule raw_agrees_update [OF Cons.prems(2)]) (use Cons.prems(4) True len in \<open>simp add: stands_for_def\<close>)
        ultimately show ?thesis using None True len by simp
      next
        case (Some b)
        then obtain v where "decode_value X (rc_column_types ctx ! c) b = Inr v" "out1 = out[c := Some v]"
          using o(1) True by (auto simp: decode_key_component_def nth_opt_def and_then_Inr_iff set_at_Inr split: option.splits if_splits)
        then show ?thesis using raw_agrees_update [OF Cons.prems(2), of c "Some v" "Some b"] Some True len by (simp add: stands_for_def)
      qed
    next
      case False
      then have "out1 = out" using o(1) by (simp add: decode_key_component_def nth_opt_def)
      then show ?thesis using False len Cons.prems(2) by simp
    qed
    then show "raw_agrees X (rc_column_types ctx) out1 ?raw" "length out1 = length out" "\<And>j. j \<noteq> c \<Longrightarrow> out1 ! j = out ! j" by auto
  qed
  have "list_all (\<lambda>c. c < length out1 \<longrightarrow> out1 ! c = None) cs"
    unfolding list_all_iff
  proof
    fix d assume d: "d \<in> set cs"
    then have "d \<noteq> c" using Cons.prems(3) by auto
    then show "d < length out1 \<longrightarrow> out1 ! d = None" using d Cons.prems(4) step(2) step(3) [of d] by (simp add: list_all_iff)
  qed
  then show ?case using Cons.IH [OF o(2) step(1)] Cons.prems(3) step(2,3) by (auto simp: list_all_iff)
qed (simp add: list_all_iff)

lemma raw_cells_agree:
  shows "decode_simple_cells X ctx ccs out = Inr out' \<Longrightarrow> raw_agrees X (rc_column_types ctx) out raw \<Longrightarrow>
    raw_agrees X (rc_column_types ctx) out' (foldl (raw_cell (rc_storage_to_table ctx) (rc_now_secs ctx)) raw ccs)"
proof (induction ccs arbitrary: out raw)
  case (Cons cc ccs)
  have len: "length raw = length (rc_column_types ctx)" using Cons.prems(2) by (simp add: raw_agrees_def)
  show ?case
  proof (cases "target ctx cc")
    case None
    then have "raw_cell (rc_storage_to_table ctx) (rc_now_secs ctx) raw cc = raw"
      using len by (auto simp: raw_cell_def target_def split: option.splits if_splits)
    then show ?thesis using None Cons unfolding decode_simple_cells_target by simp
  next
    case (Some t)
    let ?b = "if cell_is_live (snd cc) (rc_now_secs ctx) then cv_value (snd cc) else None"
    obtain v where v: "assemble_owned_simple_cell X (rc_column_types ctx ! t) (snd cc) (rc_now_secs ctx) = Inr v"
      and rest: "decode_simple_cells X ctx ccs (out[t := v]) = Inr out'"
      using Cons.prems(1) Some unfolding decode_simple_cells_target by (auto simp: and_then_Inr_iff set_at_Inr)
    have "raw_agrees X (rc_column_types ctx) (out[t := v]) (raw[t := ?b])"
      using v by (intro raw_agrees_update [OF Cons.prems(2)])
        (auto simp: stands_for_def assemble_owned_simple_cell_def decode_value_owned_eq and_then_Inr_iff split: if_splits option.splits)
    moreover have "raw_cell (rc_storage_to_table ctx) (rc_now_secs ctx) raw cc = raw[t := ?b]"
      using Some len by (auto simp: raw_cell_def target_def split: option.splits if_splits)
    ultimately show ?thesis using Cons.IH [OF rest] by simp
  qed
qed simp

lemma raw_row_agrees:
  assumes "distinct (rc_pk_columns ctx @ rc_ck_columns ctx)" "length (rc_column_types ctx) = length (rc_column_names ctx)"
    and "simple_row row ctx" "decode_output_row_owned X row ctx = Inr (c, out)"
  shows "raw_agrees X (rc_column_types ctx) out (raw_output_row (length (rc_column_types ctx)) (rc_pk_values ctx) (rc_pk_columns ctx)
    (rc_ck_columns ctx) (rc_storage_to_table ctx) (rc_now_secs ctx) row)"
proof -
  let ?n = "length (rc_column_types ctx)" and ?ck = "decode_clustering (row_clustering row) (length (rc_ck_columns ctx))"
  have none: "raw_agrees X (rc_column_types ctx) (replicate ?n None) (replicate ?n None)"
    by (simp add: raw_agrees_def stands_for_def list_all_iff)
  obtain pks cks where pk: "decode_key_columns X ctx (rc_pk_columns ctx) (rc_pk_values ctx) (replicate ?n None) = Inr pks"
    and ck: "decode_key_columns X ctx (rc_ck_columns ctx) ?ck pks = Inr cks" and cells: "decode_simple_cells X ctx (row_cells row) cks = Inr out"
    using assms(2-4) by (auto simp: decode_output_row_owned_def decode_output_keys_def and_then_Inr_iff)
  have p: "raw_agrees X (rc_column_types ctx) pks (raw_key_columns (rc_pk_columns ctx) (rc_pk_values ctx) (replicate ?n None))"
    "list_all (\<lambda>j. j \<in> set (rc_pk_columns ctx) \<or> pks ! j = replicate ?n None ! j) [0..<?n]"
    using raw_keys_agree [OF assms(2) pk none] assms(1) by (simp_all add: list_all_iff)
  have "list_all (\<lambda>c. c < length pks \<longrightarrow> pks ! c = None) (rc_ck_columns ctx)"
    using p(2) assms(1) p(1) [unfolded raw_agrees_def] by (auto simp: list_all_iff)
  then have "raw_agrees X (rc_column_types ctx) cks (raw_key_columns (rc_ck_columns ctx) ?ck
      (raw_key_columns (rc_pk_columns ctx) (rc_pk_values ctx) (replicate ?n None)))"
    using raw_keys_agree [OF assms(2) ck p(1)] assms(1) by simp
  then show ?thesis unfolding raw_output_row_def by (rule raw_cells_agree [OF cells])
qed

lemma raw_rows_agree:
  assumes "distinct (rc_storage_to_table ctx)" "distinct (rc_pk_columns ctx @ rc_ck_columns ctx)" "length (rc_column_types ctx) = length (rc_column_names ctx)"
  shows "list_all (\<lambda>row. simple_row row ctx) rows \<Longrightarrow>
    visit_rows X ctx (\<lambda>result _ row. (result @ [row], False)) rows acc = (outs, Inr ()) \<Longrightarrow>
    \<exists>new. outs = acc @ new \<and> list_all2 (raw_agrees X (rc_column_types ctx)) new
      (map (raw_output_row (length (rc_column_types ctx)) (rc_pk_values ctx) (rc_pk_columns ctx) (rc_ck_columns ctx)
         (rc_storage_to_table ctx) (rc_now_secs ctx)) (filter (\<lambda>row. is_visible_at row (rc_now_secs ctx)) rows))"
proof (induction rows arbitrary: acc)
  case (Cons row rows)
  show ?case
  proof (cases "is_visible_at row (rc_now_secs ctx)")
    case True
    then obtain out where out: "decode_output_row X row ctx = Inr out"
      and rest: "visit_rows X ctx (\<lambda>result _ row. (result @ [row], False)) rows (acc @ [out]) = (outs, Inr ())"
      using Cons.prems(2) by (cases "decode_output_row X row ctx") simp_all
    have "decode_output_row_owned X row ctx = Inr (row_clustering row, out)" using out by (simp add: owned_row_Inr [OF assms(1)])
    then have "raw_agrees X (rc_column_types ctx) out (raw_output_row (length (rc_column_types ctx)) (rc_pk_values ctx) (rc_pk_columns ctx)
        (rc_ck_columns ctx) (rc_storage_to_table ctx) (rc_now_secs ctx) row)"
      using Cons.prems(1) by (intro raw_row_agrees [OF assms(2,3)]) simp_all
    then show ?thesis using Cons.IH [OF _ rest] Cons.prems(1) True by auto
  next
    case False
    then show ?thesis using Cons.IH [of acc] Cons.prems by simp
  qed
qed simp

section \<open>A sample table\<close>

text \<open>A table with a partition key, a clustering column, a text and a list, stored in the order of their names.\<close>

definition sample_shape :: table_shape where
  "sample_shape = \<lparr>ts_column_names = [''k'', ''c'', ''t'', ''l''], ts_column_types = [TInt, TInt, TVarchar, TList TInt],
     ts_pk_columns = [0], ts_ck_columns = [1], ts_storage_to_table = [3, 2]\<rparr>"

definition sample_stmt :: insert_stmt where
  "sample_stmt = \<lparr>in_clock = (\<lambda>_. 100), in_cols = [1, 0], in_vals = [VInt 1, VInt 2, VText [0x61], VNull], in_timestamp = 7, in_ttl = Some 60\<rparr>"

definition sample_rows :: partition where
  "sample_rows = \<lparr>pt_key = decorated_key_new [0, 0, 0, 1], pt_deletion = LIVE, pt_static_row = None,
     pt_rows = [insert_row sample_deps sample_shape sample_stmt]\<rparr>"

lemma be_i32_small: "be_i32 1 = [0, 0, 0, 1]" "be_i32 2 = [0, 0, 0, 2]" "be_i32 7 = [0, 0, 0, 7]"
  by (simp_all add: be_i32_def be_bytes_def upt_conv_Cons)

lemma sample_shape_ok: "shape_ok sample_shape"
proof -
  have "{0, 1, 3, 2} = {..<length [''k'', ''c'', ''t'', ''l'']}" by (simp add: lessThan_Suc insert_commute numeral_2_eq_2 numeral_3_eq_3)
  then show ?thesis by (simp add: shape_ok_def sample_shape_def)
qed

lemma sample_insert_ok: "insert_ok sample_deps 120 sample_rows sample_shape sample_stmt"
proof -
  have "row_typed sample_deps sample_shape (in_vals sample_stmt)"
    by (simp add: row_typed_def sample_shape_def sample_stmt_def upt_conv_Cons is_i32_def machine_consts)
  moreover have "unexpired (in_clock sample_stmt) (length (in_cols sample_stmt)) (in_ttl sample_stmt) (read_now_secs 120)"
    by (simp add: unexpired_def sample_stmt_def ldt_is_expired_def ttl_deadline_def i32_or_max_def read_now_secs_def machine_consts list_all_iff)
  moreover have "build_decorated_key sample_deps (map ((!) (in_vals sample_stmt)) (ts_pk_columns sample_shape)) = Inr (pt_key sample_rows)"
    by (simp add: build_decorated_key_eq key_fits_def sample_stmt_def sample_shape_def sample_rows_def be_i32_small)
  moreover have "clustering_fits sample_deps (map ((!) (in_vals sample_stmt)) (ts_ck_columns sample_shape))"
    by (simp add: clustering_fits_def sample_stmt_def sample_shape_def be_i32_small)
  ultimately show ?thesis by (simp add: insert_ok_def sample_stmt_def sample_shape_def)
qed

lemma sample_shown: "shown sample_shape (in_cols sample_stmt) (in_vals sample_stmt) = [Some (VInt 1), Some (VInt 2), Some (VText [0x61]), None]"
  by (simp add: shown_def sample_shape_def sample_stmt_def upt_conv_Cons)

section \<open>Properties\<close>



text \<open>Keys round trip: the decoder splits a partition key and a clustering key into exactly the encoded components
  they were built from.\<close>

theorem keys_roundtrip:
  assumes "build_decorated_key X pks = Inr dk" "clustering_fits X cks"
  shows "decode_pk dk (length pks) = map (encode_value X) pks
    \<and> decode_clustering (encode_clustering X cks) (length cks) = map (encode_value X) cks"
  using decode_pk_build(1) [OF assms(1)] decode_clustering_encode [OF assms(2)] by simp

theorem keys_roundtrip_witness:
  "decode_pk (decorated_key_new [0, 4, 0, 0, 0, 1, 0, 0, 0, 0]) 2 = [[0, 0, 0, 1], []]
    \<and> decode_clustering (encode_clustering sample_deps [VInt 1, VBlob []]) 2 = [[0, 0, 0, 1], []]"
proof -
  have "build_decorated_key sample_deps [VInt 1, VBlob []] = Inr (decorated_key_new [0, 4, 0, 0, 0, 1, 0, 0, 0, 0])"
    by (simp add: build_decorated_key_eq key_fits_def be_i32_small be_bytes_def upt_conv_Cons)
  moreover have "clustering_fits sample_deps [VInt 1, VBlob []]" by (simp add: clustering_fits_def key_fits_def be_i32_small)
  ultimately show ?thesis
    using keys_roundtrip [of sample_deps "[VInt 1, VBlob []]" "decorated_key_new [0, 4, 0, 0, 0, 1, 0, 0, 0, 0]" "[VInt 1, VBlob []]"]
    by (simp add: be_i32_small numeral_2_eq_2)
qed



text \<open>The consuming visitor sees what the borrowing visitor sees: it reaches the same state after the same calls and
  fails exactly when the other does.\<close>

theorem consume_refines:
  assumes "distinct (ts_storage_to_table t)"
  shows "fst (consume_partition_rows_with_clustering X now p t visit s)
      = fst (visit_partition_rows_with_clustering X now p t (\<lambda>s. visit s (dk_key (pt_key p))) s)
    \<and> isl (snd (consume_partition_rows_with_clustering X now p t visit s))
      = isl (snd (visit_partition_rows_with_clustering X now p t (\<lambda>s. visit s (dk_key (pt_key p))) s))"
proof -
  have "distinct (rc_storage_to_table (decode_context now p t))" using assms by (simp add: decode_context_def)
  note consume_visits [OF this, of X visit "dk_key (pt_key p)" "pt_rows p" s]
  then show ?thesis
    by (cases "snd (consume_rows X (decode_context now p t) visit (dk_key (pt_key p)) (pt_rows p) s)")
      (auto simp: consume_partition_rows_with_clustering_def visit_partition_rows_with_clustering_def split: prod.splits)
qed



text \<open>C21: The raw path agrees with the decoder on partitions of simple rows without static cells: it emits the same rows,
  absent where the decoder gives null, and otherwise bytes that decode to the decoder's value.\<close>

theorem raw_path_agrees:
  assumes "distinct (ts_storage_to_table t)" "distinct (ts_pk_columns t @ ts_ck_columns t)"
    and "length (ts_column_types t) = length (ts_column_names t)"
    and "list_all (\<lambda>row. simple_row row (decode_context now p t)) (pt_rows p)"
    and "partition_to_rows_with_storage_mapping X now p t = Inr rows"
  shows "list_all2 (raw_agrees X (ts_column_types t)) rows
    (write_partition_raw_rows_with_storage_mapping now p (length (ts_column_types t)) (ts_pk_columns t) (ts_ck_columns t) (ts_storage_to_table t))"
proof -
  let ?ctx = "decode_context now p t"
  have ctx: "rc_column_types ?ctx = ts_column_types t" "rc_pk_columns ?ctx = ts_pk_columns t" "rc_ck_columns ?ctx = ts_ck_columns t"
    "rc_storage_to_table ?ctx = ts_storage_to_table t" "rc_column_names ?ctx = ts_column_names t" "rc_now_secs ?ctx = i32_or_max now"
    "rc_pk_values ?ctx = decode_pk (pt_key p) (length (ts_pk_columns t))"
    by (simp_all add: decode_context_def read_now_secs_def)
  have "visit_rows X ?ctx (\<lambda>result _ row. (result @ [row], False)) (pt_rows p) [] = (rows, Inr ())"
    using assms(5)
    by (auto simp: partition_to_rows_with_storage_mapping_def visit_partition_rows_with_clustering_def and_then_Inr_iff split: prod.splits)
  from raw_rows_agree [OF _ _ _ assms(4) this] assms(1-3) show ?thesis
    unfolding ctx by (simp add: write_partition_raw_rows_with_storage_mapping_def raw_row_visible_eq Let_def)
qed

theorem raw_path_agrees_witness:
  "list_all2 (raw_agrees sample_deps (ts_column_types sample_shape)) [[Some (VInt 1), Some (VInt 2), Some (VText [0x61]), None]]
    (write_partition_raw_rows_with_storage_mapping 120 sample_rows (length (ts_column_types sample_shape)) [0] [1] [3, 2])"
proof -
  have "visit_rows sample_deps (decode_context 120 sample_rows sample_shape) (\<lambda>result _ row. (result @ [row], False)) (pt_rows sample_rows) []
      = ([[Some (VInt 1), Some (VInt 2), Some (VText [0x61]), None]], Inr ())"
    using visit_inserts [OF sample_deps_law sample_shape_ok, of sample_rows 120 "[sample_stmt]" "[]"] sample_insert_ok sample_shown
    by (simp add: sample_rows_def)
  then have "partition_to_rows_with_storage_mapping sample_deps 120 sample_rows sample_shape
      = Inr [[Some (VInt 1), Some (VInt 2), Some (VText [0x61]), None]]"
    by (simp add: partition_to_rows_with_storage_mapping_def visit_partition_rows_with_clustering_def)
  moreover have "list_all (\<lambda>row. simple_row row (decode_context 120 sample_rows sample_shape)) (pt_rows sample_rows)"
    by (simp add: sample_rows_def simple_row_def decode_context_def insert_row_def written_row_def build_row_def sample_stmt_def
        sample_shape_def value_cell_def cell_defs)
  ultimately show ?thesis
    using raw_path_agrees [of sample_shape 120 sample_rows sample_deps] by (simp add: sample_shape_def)
qed

text \<open>A partition with a static value and a row.\<close>

definition static_sample :: partition where
  "static_sample = \<lparr>pt_key = decorated_key_new [0, 0, 0, 1], pt_deletion = LIVE,
     pt_static_row = Some \<lparr>row_clustering = [], row_cells = [(0, live_bytes [0, 0, 0, 7] 5)], row_deletion = LIVE, primary_key_liveness = liveness_NONE\<rparr>,
     pt_rows = [\<lparr>row_clustering = [0, 0, 0, 2], row_cells = [], row_deletion = LIVE, primary_key_liveness = with_timestamp 5\<rparr>]\<rparr>"


end
