(* ===== verification/Spec2Isabelle.thy ===== *)
theory Spec2Isabelle
  imports Prelude Cell Key Row Merge Purge Ring Quorum Consistency Bytes Varint
    Byte_Comparable Bloom Accord Hash_Map Conflict_Index Finalized Electorate Dep_Wait Spill Apply_Engine Replica Replica_Safety
    Trie_Node Trie_Walker Trie_Builder Partition_Index Row_Index Sstable_Index Ascii Cql_Type Cql_Value Cql_Order List_Path Collection_Cells Row_Bridge
begin

text \<open>
  \<^bold>\<open>A verification of the storage and transaction core of Ferrosa\<close>

  Ferrosa is a distributed wide-column database that speaks the CQL protocol.  A write is a set of cells with
  timestamps.  It is placed on the nodes that own its token, acknowledged by as many of them as its consistency level
  asks for, kept in memory and then in immutable SSTables, and merged with the other versions of its partition when it
  is read or compacted.  Serializable transactions are ordered by Accord, a leaderless protocol in which every replica
  keeps the in-flight transactions of a key, votes on their timestamps and applies them in dependency order.  The
  development models these mechanisms as they are written, one theory for each component.

  \<^bold>\<open>How the code is represented\<close>

  A struct is a record or a one-constructor datatype, an enum is a datatype, an operation is a function of the same
  name (with a suffix where HOL has the name).  A method that mutates its receiver takes the state and returns the new
  one.  A panic is \<open>None\<close>, an error is the left summand of a sum, without its message.  Integers that are only
  compared are \<open>int\<close> or \<open>nat\<close>; the width is written out, or the value is a \<open>word\<close>, wherever the code computes with
  it.  A \<open>HashMap\<close> is an association list with distinct keys whose order stands for the arbitrary iteration order, a
  \<open>BTreeMap\<close> a strictly sorted one.  What a component cannot know (a clock reading, the outcome of a file
  operation, the storage applier of a replica) is an argument, so a theorem holds for all its values.  A critical
  section is one step, and concurrent callers are arbitrary sequences of steps.

  \<^bold>\<open>The theories and the code they model\<close>

  \<^item> \<open>Prelude\<close>, \<open>Hash_Map\<close>, \<open>Bytes\<close>: machine integers, three-way comparison, the standard-library routines the code
    uses (\<open>sort_by\<close>, \<open>dedup_by\<close>, \<open>BTreeMap\<close>, \<open>to_be_bytes\<close>, \ldots), and the locales \<open>total_cmp\<close> (a comparison that is a
    total order), \<open>join_semilattice\<close>, \<open>replicated_map\<close> and \<open>keyed_join\<close> (states that replicas may merge in any order).
  \<^item> \<open>Cell\<close>: \<open>ferrosa-common/src/cell.rs\<close>, \<open>cell_ts.rs\<close>, \<open>complex_cell.rs\<close>.  Reconciliation is a join of a total order;
    collections and counters converge and compute what their specifications say.
  \<^item> \<open>Key\<close>: \<open>murmur3.rs\<close>, \<open>token.rs\<close>, \<open>key.rs\<close> of the same crate.
  \<^item> \<open>Row\<close>, \<open>Merge\<close>, \<open>Purge\<close>: \<open>ferrosa-sstable/src/types.rs\<close>, \<open>ferrosa-storage/src/merge.rs\<close>, \<open>compaction/purge.rs\<close> and
    \<open>compaction/metadata.rs\<close>.  A merge is determined by the set of its sources, implements an order-free
    specification, may be done in stages, and purging old tombstones does not bring data back; the provisos are shown
    to be needed by concrete executions.
  \<^item> \<open>Ring\<close>: \<open>ferrosa-cluster/src/ring/mod.rs\<close> and \<open>ring/strategy.rs\<close>.  Which nodes the two strategies select.
  \<^item> \<open>Quorum\<close>, \<open>Consistency\<close>: \<open>consistency.rs\<close>, \<open>coordinator/dc_quorum.rs\<close>, \<open>coordinator/cl_routing.rs\<close>.  Satisfied quorums
    meet.  \<open>quorum_system\<close> is the interface, interpreted for consistency levels and for the electorate.
  \<^item> \<open>Varint\<close>, \<open>Byte_Comparable\<close>, \<open>Bloom\<close>: \<open>ferrosa-sstable/src/varint.rs\<close>, \<open>io.rs\<close>, \<open>byte_comparable.rs\<close>, \<open>bloom.rs\<close>.
    Round trips, order preservation, no false negatives.  \<open>positioned_reader\<close> is the interface of \<open>ReadAt\<close>.
  \<^item> \<open>Trie_Node\<close>, \<open>Trie_Walker\<close>, \<open>Trie_Builder\<close>: \<open>trie/node.rs\<close>, \<open>trie/walker.rs\<close>, \<open>trie/builder.rs\<close>.  A built trie answers
    every lookup as the map of its keys would, and no node crosses a page.
  \<^item> \<open>Partition_Index\<close>, \<open>Row_Index\<close>, \<open>Sstable_Index\<close>: \<open>partition_index.rs\<close>, \<open>row_index.rs\<close> and the index code of
    \<open>writer.rs\<close>.  A point read through the index files finds what was written.
  \<^item> \<open>Accord\<close>, \<open>Conflict_Index\<close>, \<open>Finalized\<close>, \<open>Electorate\<close>, \<open>Dep_Wait\<close>, \<open>Spill\<close>, \<open>Apply_Engine\<close>: \<open>ferrosa-common/src/accord.rs\<close>,
    \<open>ferrosa-storage/src/accord/conflict_index.rs\<close>, \<open>ferrosa-storage/src/write_set_spill.rs\<close> and \<open>finalized.rs\<close>,
    \<open>electorate.rs\<close>, \<open>dep_wait.rs\<close>, \<open>apply.rs\<close> under \<open>ferrosa-cluster/src/accord\<close>.  Each has an invariant that every
    operation keeps; histories are step relations.
  \<^item> \<open>Replica\<close>, \<open>Replica_Safety\<close>: \<open>accord/state_machine.rs\<close> and \<open>accord/applied_journal.rs\<close>, which compose the previous
    group.  Decisions are stable, conflicting transactions are serialized in commit order, reads wait for committed
    writes.
  \<^item> \<open>Ascii\<close>, \<open>Cql_Type\<close>: the names of CQL types, \<open>ferrosa-common/src/cql_type\<close> and the type-name parser of
    \<open>ferrosa-row-bridge/src/codec.rs\<close>.  The parser terminates and inverts the printer.
  \<^item> \<open>Cql_Value\<close>: the value codec of \<open>codec.rs\<close> for every type and any nesting.  Encoding and decoding round trip
    (\<open>value_roundtrip\<close>), except for nulls inside collections; trailing bytes of a collection are ignored.  The
    arbitrary-precision integers and the jsonb validator are parameters.
  \<^item> \<open>Cql_Order\<close>: the order of values.  It is a total order on values without addresses and jsonb.
  \<^item> \<open>List_Path\<close>: the time-based paths of list elements, which sort in the order of writing within their bit widths.
  \<^item> \<open>Collection_Cells\<close>: \<open>collection.rs\<close>, the cells of a collection assignment and the assembly of a column.  An
    assigned collection is read back from its cells in any order, among older cells (\<open>collection_roundtrip\<close>).
  \<^item> \<open>Row_Bridge\<close>: \<open>row.rs\<close>, rows of values to and from partitions.  Rows round trip (\<open>rows_roundtrip\<close>), the consuming
    and the iterating decoder refine the borrowing one, a flush of static cells is invisible, and the raw path emits
    the encodings of the decoded values for simple rows, but not static columns.

  This theory holds the properties that span components: \<open>sstable_point_lookup\<close> over the index theories, and
  \<open>deleted_row_unread\<close> over the row bridge and the merge.

  \<^bold>\<open>How the components interact\<close>

  \<open>Merge\<close> folds cells with \<open>reconcile_cmp\<close> of \<open>Cell\<close>; \<open>Purge\<close> works on its output; their common theorem merges a purged
  partition with data outside the compaction.  \<open>Sstable_Index\<close> composes the trie, the two indexes, the Bloom filter
  and the key encoding.  A \<open>Replica\<close> holds a \<open>Conflict_Index\<close>, a \<open>Finalized\<close> record, an \<open>Apply_Engine\<close> (which holds a
  \<open>Dep_Wait\<close> graph and stages write-sets with \<open>Spill\<close>) and one \<open>Accord\<close> transaction state for each transaction.
  \<open>Row_Bridge\<close> builds the rows that \<open>Merge\<close> folds, from the values of \<open>Cql_Value\<close> and the cells of \<open>Collection_Cells\<close>, and decodes
  the merged partition.  The laws a component relies on are the lemmas of its providers, in the locales named above where several
  providers share a contract.

  \<^bold>\<open>Bounds and fuel\<close>

  \<^item> The depth-first search of \<open>Dep_Wait\<close> has one unit of fuel more than there are waiting transactions; its visited
    set grows with every step, and \<open>register_wait_exact\<close> shows that the fuel never runs out.
  \<^item> \<open>enforce_capacity\<close> of \<open>Finalized\<close> loops at most once for each tombstone, which the eviction removes one by one.
  \<^item> The cascade of \<open>Apply_Engine\<close> consumes a parked write-set in every turn.
  \<^item> The trie theorems bound the size of the trie: \<open>NODE_COST = 6656\<close> is an upper bound of the bytes one node and
    its padding take, and a trie stays within \<open>trie_budget\<close>, \<open>2 ^ 40\<close> bytes, so that every child distance fits into the
    widest pointer (\<open>2 ^ 40\<close>) and every position in the signed payloads (\<open>offset_fits\<close>, below \<open>2 ^ 55\<close>).
  \<^item> List appends number their elements in 14 bits and key components have lengths of 16 bits; the round trips assume
    values within them, and \<open>list_paths_collide\<close> shows what happens beyond.
  \<^item> The first and last key of \<open>Partitions.db\<close> have a length field of 16 bits; the index theorems assume shorter keys.

  \<^bold>\<open>Not modelled\<close>

  \<^item> Of \<open>ferrosa-sstable\<close>: the row codec of \<open>Data.db\<close>, compression, checksums and statistics, file and cache readers.
  \<^item> Of \<open>ferrosa-storage\<close>: memtable, commit log, storage engine and object store, which are asynchronous code around
    file and network operations; compaction scheduling.
  \<^item> Of \<open>ferrosa-cluster\<close>: the asynchronous coordinators, gossip and streaming, hints and repair, and Raft, which is
    the external crate \<open>openraft\<close> with adapters.
  \<^item> The query languages and protocols (\<open>ferrosa-cql\<close>, \<open>-sql\<close>, \<open>-postgres\<close>, \<open>-graph\<close>, \<open>-sparql\<close>, \<open>-flight\<close>), secondary
    indexes, views, user functions, tools, simulators and test harnesses: layers above the core, with their own
    parsers and planners, or programs that drive it.
  \<^item> The schema catalogue and the jsonb codec, of which the lookup of a type, the validator and the order are
    parameters.
\<close>

section \<open>Properties that span components\<close>


definition sample_sstable :: "indexed_partition list" where
  "sample_sstable =
     [\<lparr>ip_key = \<lparr>dk_token = - 5, dk_key = [1, 0]\<rparr>, ip_data_pos = 0, ip_rows = [([1], 20), ([3], 50)], ip_local_deletion_time = u32_MAX,
       ip_marked_for_delete_at = - 1\<rparr>,
      \<lparr>ip_key = \<lparr>dk_token = 7, dk_key = [2]\<rparr>, ip_data_pos = 90, ip_rows = [([4], 25)], ip_local_deletion_time = u32_MAX,
       ip_marked_for_delete_at = - 1\<rparr>]"

lemma sample_sstable_input: "sstable_input True 2 sample_sstable"
proof -
  have len: "length (encode \<lparr>dk_token = - 5, dk_key = [1, 0]\<rparr>) < 20" "length (encode \<lparr>dk_token = 7, dk_key = [2]\<rparr>) < 20" by code_simp+
  then have "length (encode \<lparr>dk_token = - 5, dk_key = [1, 0]\<rparr>) < 2 ^ 16" "length (encode \<lparr>dk_token = 7, dk_key = [2]\<rparr>) < 2 ^ 16" by simp_all
  then show ?thesis
    using len by (simp add: sstable_input_def partition_input_def sample_sstable_def is_i64_def machine_consts decorated_key_cmp_def cmp_def
        zero_extension_def trie_budget_def index_entries_def NODE_COST_def rows_fit_def build_row_index_def row_budget_def row_input_def row_entries_def)
qed


lemma insert_row_markers:
  "row_deletion (insert_row X t w) = LIVE" "li_timestamp (primary_key_liveness (insert_row X t w)) = in_timestamp w"
  "cc \<in> set (row_cells (insert_row X t w)) \<Longrightarrow> cv_timestamp (snd cc) = in_timestamp w"
  by (auto simp: insert_row_def written_row_def build_row_def row_data_defs value_cell_def cell_defs split: option.splits)

lemma delete_row_markers:
  "row_deletion (build_delete_row X clock [] cks ts) = deletion_time_new ts (clock mod 2 ^ 32)"
  "primary_key_liveness (build_delete_row X clock [] cks ts) = liveness_NONE" "row_cells (build_delete_row X clock [] cks ts) = []"
  by (simp_all add: build_delete_row_def Let_def)

lemma deleted_row_invisible:
  assumes "a = insert_row X t w \<and> b = build_delete_row X clock [] cks ts \<or> b = insert_row X t w \<and> a = build_delete_row X clock [] cks ts"
    and "in_timestamp w \<le> ts" "i64_MIN < ts"
  shows "\<not> is_visible_at (merge_rows a b) now"
proof -
  let ?m = "merge_rows a b"
  have "row_deletion ?m = deletion_time_new ts (clock mod 2 ^ 32)"
    using assms(1,3) by (auto simp: merge_rows_eq newest_def insert_row_markers delete_row_markers row_data_defs)
  then have del: "marked_for_delete_at (row_deletion ?m) = ts" "\<not> deletion_is_live (row_deletion ?m)"
    using assms(3) by (simp_all add: row_data_defs)
  have "li_timestamp (primary_key_liveness ?m) \<le> ts"
    using assms by (auto simp: merge_rows_eq newest_def insert_row_markers delete_row_markers row_data_defs)
  moreover have "cv_timestamp c \<le> ts" if "(i, c) \<in> set (row_cells ?m)" for i c
  proof -
    have "(i, c) \<in> set (row_cells a @ row_cells b)" using that by (simp add: merge_rows_eq fold_cells_mem best_cell_def)
    then show ?thesis using assms(1,2) insert_row_markers(3) [of "(i, c)" X t w] by (auto simp: delete_row_markers)
  qed
  then have "\<not> list_ex (\<lambda>(_, c). ts < cv_timestamp c) (row_cells ?m)" by (auto simp: list_ex_iff dest!: leD)
  ultimately show ?thesis using del by (simp add: is_visible_at_def)
qed

text \<open>C17: A deleted row is not read: merging a row written at any time up to the deletion with the row deletion, in either
  order, leaves a partition that decodes to no row.\<close>

theorem deleted_row_unread:
  assumes "pt_rows p = [merge_rows a b]"
    and "a = insert_row X t w \<and> b = build_delete_row X clock [] cks ts \<or> b = insert_row X t w \<and> a = build_delete_row X clock [] cks ts"
    and "in_timestamp w \<le> ts" "i64_MIN < ts"
  shows "partition_to_rows_with_storage_mapping X now p t' = Inr []"
  using deleted_row_invisible [OF assms(2-4)]
  by (simp add: partition_to_rows_with_storage_mapping_def visit_partition_rows_with_clustering_def assms(1))

theorem deleted_row_unread_witness:
  "partition_to_rows_with_storage_mapping sample_deps 120
     (sample_rows\<lparr>pt_rows := [merge_rows (insert_row sample_deps sample_shape sample_stmt) (build_delete_row sample_deps 110 [] [VInt 2] 7)]\<rparr>)
     sample_shape = Inr []"
  using deleted_row_unread [of "sample_rows\<lparr>pt_rows := [merge_rows (insert_row sample_deps sample_shape sample_stmt) (build_delete_row sample_deps 110 [] [VInt 2] 7)]\<rparr>"
    "insert_row sample_deps sample_shape sample_stmt" "build_delete_row sample_deps 110 [] [VInt 2] 7" sample_deps sample_shape sample_stmt 110 "[VInt 2]" 7 120 sample_shape]
  by (simp add: sample_stmt_def machine_consts)

end
